(* ===== verification/Js_Prelude.thy ===== *)
theory Js_Prelude
  imports Main "HOL-Library.Sublist" "HOL-Library.AList"
begin

unbundle bit_operations_syntax

text \<open>
  The fragment of JavaScript shared by the components: strings as lists of UTF-16 code
  units, the string methods the code calls, the bit operators of the language on 32-bit
  integers, decimal printing and reading, and objects with their insertion order.
\<close>

named_theorems js_simps \<open>evaluation of the JavaScript primitives\<close>
named_theorems js_bits \<open>reading bit expressions bit by bit\<close>

section \<open>Strings\<close>

text \<open>
  A JavaScript string is a sequence of 16-bit code units. Text that may hold anything
  (user input, templates, form names) is a \<open>jstr\<close>; fixed ASCII names of the code
  (ids, classes, keys of a fixed record) are HOL strings, and \<open>js\<close> turns such a literal
  into code units.
\<close>

type_synonym jstr = "nat list"

definition js :: "string \<Rightarrow> jstr" where
  "js s = map of_char s"

definition wf_jstr :: "jstr \<Rightarrow> bool" where
  "wf_jstr s \<longleftrightarrow> (\<forall>u\<in>set s. u < 65536)"

lemma js_Nil [simp]: "js [] = []"
  by (simp add: js_def)

lemma js_Cons [js_simps]: "js (c # cs) = of_char c # js cs"
  by (simp add: js_def)

lemma js_append: "js (a @ b) = js a @ js b"
  by (simp add: js_def)

lemma length_js [simp]: "length (js s) = length s"
  by (simp add: js_def)

lemma wf_js [simp]: "wf_jstr (js s)"
proof -
  have "of_char c < (65536::nat)" for c
    by (rule less_trans [OF nat_of_char_less_256]) simp
  then show ?thesis by (auto simp: wf_jstr_def js_def)
qed

lemma wf_jstr_Nil [simp]: "wf_jstr []"
  by (simp add: wf_jstr_def)

lemma wf_jstr_Cons [simp]: "wf_jstr (u # s) \<longleftrightarrow> u < 65536 \<and> wf_jstr s"
  by (simp add: wf_jstr_def)

lemma wf_jstr_append [simp]: "wf_jstr (s @ t) \<longleftrightarrow> wf_jstr s \<and> wf_jstr t"
  by (auto simp: wf_jstr_def)

text \<open>\<open>charCodeAt\<close> gives NaN past the end (\<open>None\<close>), \<open>charAt\<close> the empty string.\<close>

definition charCodeAt :: "jstr \<Rightarrow> nat \<Rightarrow> int option" where
  "charCodeAt s i = (if i < length s then Some (int (s ! i)) else None)"

definition charAt :: "'a list \<Rightarrow> nat \<Rightarrow> 'a list" where
  "charAt s i = (if i < length s then [s ! i] else [])"

definition fromCharCode :: "int \<Rightarrow> jstr" where
  "fromCharCode n = [nat (n mod 65536)]"

text \<open>\<open>indexOf\<close>: the first position of the pattern, or -1; the empty pattern is at 0.\<close>

fun index_at :: "'a list \<Rightarrow> 'a list \<Rightarrow> nat option" where
  "index_at p [] = (if p = [] then Some 0 else None)"
| "index_at p (x # xs) = (if prefix p (x # xs) then Some 0 else map_option Suc (index_at p xs))"

definition indexOf :: "'a list \<Rightarrow> 'a list \<Rightarrow> int" where
  "indexOf s p = (case index_at p s of None \<Rightarrow> -1 | Some i \<Rightarrow> int i)"

lemma indexOf_empty [simp]: "indexOf s [] = 0"
  by (cases s) (simp_all add: indexOf_def)

lemma indexOf_ge: "-1 \<le> indexOf s p"
  by (simp add: indexOf_def split: option.split)

lemma index_at_split:
  "index_at p s = Some i \<Longrightarrow> s = take i s @ p @ drop (i + length p) s"
proof (induction s arbitrary: i)
  case Nil
  then show ?case by (auto split: if_splits)
next
  case (Cons x xs)
  show ?case
  proof (cases "prefix p (x # xs)")
    case True
    with Cons.prems show ?thesis by (auto simp: prefix_def)
  next
    case False
    with Cons show ?thesis by auto
  qed
qed

lemma index_at_None: "index_at p s = None \<longleftrightarrow> \<not> sublist p s"
proof (induction s)
  case (Cons x xs)
  then show ?case by (auto simp: sublist_Cons_right)
qed auto

lemma indexOf_nonneg_iff: "0 \<le> indexOf s p \<longleftrightarrow> sublist p s"
  using index_at_None [of p s] by (auto simp: indexOf_def split: option.split)

lemma indexOf_nth_distinct:
  "distinct s \<Longrightarrow> i < length s \<Longrightarrow> indexOf s [s ! i] = int i"
proof -
  have "distinct s \<Longrightarrow> i < length s \<Longrightarrow> index_at [s ! i] s = Some i" for s :: "'a list" and i
  proof (induction s arbitrary: i)
    case (Cons x xs)
    then show ?case by (cases i) auto
  qed simp
  then show "distinct s \<Longrightarrow> i < length s \<Longrightarrow> indexOf s [s ! i] = int i"
    by (simp add: indexOf_def)
qed

text \<open>
  \<open>substring(a, b)\<close>: negative arguments count as 0, the two are swapped when out of
  order. \<open>replace\<close> with a string pattern replaces the first occurrence only (the
  replacements the code passes hold no dollar sign).
\<close>

definition substring :: "'a list \<Rightarrow> int \<Rightarrow> int \<Rightarrow> 'a list" where
  "substring s a b =
     (let a' = min (nat a) (length s); b' = min (nat b) (length s);
          lo = min a' b'; hi = max a' b'
      in take (hi - lo) (drop lo s))"

definition replace1 :: "'a list \<Rightarrow> 'a list \<Rightarrow> 'a list \<Rightarrow> 'a list" where
  "replace1 s p r =
     (case index_at p s of None \<Rightarrow> s
      | Some i \<Rightarrow> take i s @ r @ drop (i + length p) s)"

text \<open>\<open>replace\<close> with a global pattern of fixed text: every occurrence, left to right.\<close>

function replace_all :: "'a list \<Rightarrow> 'a list \<Rightarrow> 'a list \<Rightarrow> 'a list" where
  "replace_all s p r =
     (if s = [] \<or> p = [] then s
      else if prefix p s then r @ replace_all (drop (length p) s) p r
      else hd s # replace_all (tl s) p r)"
  by pat_completeness auto
termination
  by (relation "measure (\<lambda>(s, p, r). length s)") auto

declare replace_all.simps [simp del]

lemma replace_all_absent: "\<not> sublist p s \<Longrightarrow> replace_all s p r = s"
proof (induction s p r rule: replace_all.induct)
  case (1 s p r)
  show ?case
  proof (cases s)
    case Nil
    then show ?thesis by (simp add: replace_all.simps)
  next
    case (Cons x xs)
    with 1 show ?thesis
      by (auto simp: replace_all.simps [of "x # xs"] sublist_Cons_right)
  qed
qed

text \<open>\<open>split\<close> by a non-empty separator.\<close>

function split_on :: "'a list \<Rightarrow> 'a list \<Rightarrow> 'a list list" where
  "split_on sep s =
     (if sep = [] then [s]
      else case index_at sep s of
        None \<Rightarrow> [s]
      | Some i \<Rightarrow> take i s # split_on sep (drop (i + length sep) s))"
  by pat_completeness auto
termination
proof (relation "measure (\<lambda>(sep, s). length s)")
  fix sep s :: "'a list" and i
  assume "sep \<noteq> []" and "index_at sep s = Some i"
  from index_at_split [OF this(2)] have "length s = length (take i s) + length sep + length (drop (i + length sep) s)"
    by (metis length_append add.assoc)
  with \<open>sep \<noteq> []\<close> show "((sep, drop (i + length sep) s), sep, s) \<in> measure (\<lambda>(sep, s). length s)"
    by (cases sep) auto
qed simp

declare split_on.simps [simp del]

fun join_with :: "'a list \<Rightarrow> 'a list list \<Rightarrow> 'a list" where
  "join_with sep [] = []"
| "join_with sep [x] = x"
| "join_with sep (x # y # ys) = x @ sep @ join_with sep (y # ys)"

lemma split_on_nonempty [simp]: "split_on sep s \<noteq> []"
  by (subst split_on.simps) (simp split: option.split)

lemma join_split: "join_with sep (split_on sep s) = s"
proof (induction sep s rule: split_on.induct)
  case (1 sep s)
  show ?case
  proof (cases "sep = [] \<or> index_at sep s = None")
    case True
    then show ?thesis by (auto simp: split_on.simps [of sep s])
  next
    case False
    then obtain i where i: "sep \<noteq> []" "index_at sep s = Some i" by auto
    let ?d = "drop (i + length sep) s"
    obtain y ys where y: "split_on sep ?d = y # ys"
      by (cases "split_on sep ?d") auto
    have "join_with sep (split_on sep s) = take i s @ sep @ join_with sep (split_on sep ?d)"
      using i y by (simp add: split_on.simps [of sep s])
    with "1.IH" i index_at_split [OF i(2)] show ?thesis by simp
  qed
qed

section \<open>Bit operators\<close>

text \<open>
  The operands are converted to 32-bit two's complement first (NaN becomes 0); a left
  shift wraps, a right shift keeps the sign.
\<close>

definition toInt32 :: "int option \<Rightarrow> int" where
  "toInt32 x = (case x of None \<Rightarrow> 0 | Some n \<Rightarrow> signed_take_bit 31 n)"

definition js_shl :: "int \<Rightarrow> nat \<Rightarrow> int" where
  "js_shl a k = signed_take_bit 31 (push_bit k a)"

definition js_shr :: "int \<Rightarrow> nat \<Rightarrow> int" where
  "js_shr a k = drop_bit k a"

lemma signed_take_bit_small: "0 \<le> n \<Longrightarrow> n < 2147483648 \<Longrightarrow> signed_take_bit 31 (n::int) = n"
  by (rule signed_take_bit_int_eq_self) auto

lemma toInt32_None [simp]: "toInt32 None = 0"
  by (simp add: toInt32_def)

lemma toInt32_small: "0 \<le> n \<Longrightarrow> n < 2147483648 \<Longrightarrow> toInt32 (Some n) = n"
  by (simp add: toInt32_def signed_take_bit_small)

lemma js_shl_small: "0 \<le> a \<Longrightarrow> a * 2 ^ k < 2147483648 \<Longrightarrow> js_shl a k = push_bit k a"
  by (simp add: js_shl_def signed_take_bit_small push_bit_eq_mult)

text \<open>
  The masks and joins of byte code as arithmetic: a mask of \<open>k\<close> ones is \<open>mod 2 ^ k\<close>, and
  a shifted value joined with a smaller one is their sum.
\<close>

lemma js_shr_div: "js_shr a k = a div 2 ^ k"
  by (simp add: js_shr_def drop_bit_eq_div)

lemma or_shl_add: "0 \<le> y \<Longrightarrow> y < 2 ^ k \<Longrightarrow> push_bit k x OR y = x * 2 ^ k + (y::int)"
  using concat_bit_eq [of k y x]
  by (simp add: concat_bit_def take_bit_int_eq_self push_bit_eq_mult or.commute)

lemma and_mask_mod: "(a::int) AND (2 ^ k - 1) = a mod 2 ^ k"
  by (simp add: take_bit_eq_mask [symmetric] mask_eq_exp_minus_1 [symmetric] take_bit_eq_mod)

lemma and_masks [js_bits]:
  "(a::int) AND 3 = a mod 4" "a AND 15 = a mod 16" "a AND 31 = a mod 32" "a AND 63 = a mod 64"
  using and_mask_mod [of a 2] and_mask_mod [of a 4] and_mask_mod [of a 5] and_mask_mod [of a 6]
  by simp_all

lemma int_div_numeral:
  "int u div numeral k = int (u div numeral k)" "int u mod numeral k = int (u mod numeral k)"
  by (simp_all add: zdiv_int zmod_int)

lemma js_shl_mult: "0 \<le> a \<Longrightarrow> a * 2 ^ k < 2147483648 \<Longrightarrow> js_shl a k = a * 2 ^ k"
  by (simp add: js_shl_small push_bit_eq_mult)

lemma js_shl_or:
  "0 \<le> a \<Longrightarrow> a * 2 ^ k < 2147483648 \<Longrightarrow> 0 \<le> y \<Longrightarrow> y < 2 ^ k \<Longrightarrow>
     js_shl a k OR y = a * 2 ^ k + y"
  by (simp add: js_shl_small or_shl_add)

section \<open>Index loops over a string\<close>

text \<open>
  \<open>while (i < s.length)\<close> with an output accumulator: each round looks at the rest of the
  string, emits some units and moves on. \<open>chunk_run\<close> is the same computation on the
  rest itself; the loops of the code are shown equal to it once each.
\<close>

function chunk_run :: "('a list \<Rightarrow> 'b list \<times> nat) \<Rightarrow> 'a list \<Rightarrow> 'b list" where
  "chunk_run f r =
     (if r = [] then [] else fst (f r) @ chunk_run f (drop (max 1 (snd (f r))) r))"
  by pat_completeness auto
termination
  by (relation "measure (\<lambda>(f, r). length r)") auto

declare chunk_run.simps [simp del]

lemma chunk_run_Nil [simp]: "chunk_run f [] = []"
  by (simp add: chunk_run.simps)

lemma chunk_run_append:
  assumes "f (a @ r) = (out, length a)" and "a \<noteq> []"
  shows "chunk_run f (a @ r) = out @ chunk_run f r"
  using assms by (subst chunk_run.simps) (cases a; simp)

lemma chunk_run_prefix:
  "f (a @ r) = (out, n) \<Longrightarrow> n = length a \<Longrightarrow> a \<noteq> [] \<Longrightarrow> chunk_run f (a @ r) = out @ chunk_run f r"
  by (simp add: chunk_run_append)

lemma loop_chunk_run:
  fixes t :: "'a list" and f :: "'a list \<Rightarrow> 'b list \<times> nat"
  assumes step: "\<And>i s. i < length t \<Longrightarrow>
      loop i s = loop (i + snd (f (drop i t))) (s @ fst (f (drop i t)))"
    and stop: "\<And>i s. \<not> i < length t \<Longrightarrow> loop i s = s"
    and pos: "\<And>r. 0 < snd (f r)"
  shows "loop i s = s @ chunk_run f (drop i t)"
proof (induction "length t - i" arbitrary: i s rule: less_induct)
  case less
  show ?case
  proof (cases "i < length t")
    case False
    then show ?thesis by (simp add: stop)
  next
    case True
    let ?k = "snd (f (drop i t))"
    have "loop (i + ?k) (s @ fst (f (drop i t))) =
        (s @ fst (f (drop i t))) @ chunk_run f (drop (i + ?k) t)"
      using True pos [of "drop i t"] by (intro less) auto
    moreover have "chunk_run f (drop i t) = fst (f (drop i t)) @ chunk_run f (drop (i + ?k) t)"
      using True pos [of "drop i t"]
      by (subst chunk_run.simps) (simp add: max_def add.commute Suc_le_eq)
    ultimately show ?thesis using step [OF True] by simp
  qed
qed

lemma charCodeAt_drop: "charCodeAt s (i + k) = charCodeAt (drop i s) k"
  by (auto simp: charCodeAt_def less_diff_conv add.commute)

lemma charCodeAt_drop0: "charCodeAt s i = charCodeAt (drop i s) 0"
  using charCodeAt_drop [of s i 0] by simp

lemma charAt_drop: "charAt s (i + k) = charAt (drop i s) k"
  by (auto simp: charAt_def less_diff_conv add.commute)

lemma charAt_drop0: "charAt s i = charAt (drop i s) 0"
  using charAt_drop [of s i 0] by simp

lemma charCodeAt_Cons [js_simps]:
  "charCodeAt (x # xs) 0 = Some (int x)"
  "charCodeAt (x # xs) (Suc k) = charCodeAt xs k"
  "charCodeAt [] k = None"
  by (simp_all add: charCodeAt_def)

lemma charAt_Cons [js_simps]:
  "charAt (x # xs) 0 = [x]" "charAt (x # xs) (Suc k) = charAt xs k" "charAt [] k = []"
  by (simp_all add: charAt_def)

lemma charAt_nth: "k < length s \<Longrightarrow> charAt s k = [s ! k]"
  by (simp add: charAt_def)

lemma fromCharCode_nat [simp]: "0 \<le> n \<Longrightarrow> n < 65536 \<Longrightarrow> fromCharCode n = [nat n]"
  by (simp add: fromCharCode_def)

section \<open>Quotients rounded up\<close>

text \<open>\<open>Math.ceil\<close> of a quotient of whole numbers.\<close>

definition ceil_quot :: "int \<Rightarrow> int \<Rightarrow> int" where
  "ceil_quot a b = - ((- a) div b)"

lemma ceil_quot_bounds:
  assumes "0 < x" "1 \<le> sp"
  shows "1 \<le> ceil_quot x sp" "ceil_quot x sp \<le> x" "2 \<le> sp \<Longrightarrow> ceil_quot x sp = x \<Longrightarrow> x = 1"
proof -
  let ?q = "ceil_quot x sp"
  have e: "sp * ((- x) div sp) + (- x) mod sp = - x" "0 \<le> (- x) mod sp" "(- x) mod sp < sp"
    using assms(2) by simp_all
  have s: "sp * ?q = - (sp * ((- x) div sp))" by (simp add: ceil_quot_def)
  have lo: "x \<le> sp * ?q" and hi: "sp * ?q < x + sp" using e s by linarith+
  show q1: "1 \<le> ?q"
  proof (rule ccontr)
    assume "\<not> 1 \<le> ?q"
    then have "sp * ?q \<le> 0" using assms(2) by (simp add: mult_nonneg_nonpos)
    then show False using lo assms(1) by linarith
  qed
  have f: "sp * (?q - 1) < x" using hi by (simp add: right_diff_distrib)
  have m: "?q - 1 \<le> sp * (?q - 1)" using q1 assms(2) mult_right_mono [of 1 sp "?q - 1"] by simp
  show "?q \<le> x" using f m by linarith
  show "x = 1" if "2 \<le> sp" "?q = x"
  proof -
    have "2 * (?q - 1) \<le> sp * (?q - 1)" using that(1) q1 by (intro mult_right_mono) auto
    then have "2 * (?q - 1) < x" using f by linarith
    then show ?thesis using that(2) assms(1) by simp
  qed
qed

section \<open>Decimal numerals\<close>

text \<open>How a non-negative integer is converted to a string, and read back.\<close>

fun nat_str :: "nat \<Rightarrow> jstr" where
  "nat_str n = (if n < 10 then [48 + n] else nat_str (n div 10) @ [48 + n mod 10])"

declare nat_str.simps [simp del]

definition int_str :: "int \<Rightarrow> jstr" where
  "int_str n = (if n < 0 then 45 # nat_str (nat (- n)) else nat_str (nat n))"

definition is_digit :: "nat \<Rightarrow> bool" where
  "is_digit u \<longleftrightarrow> 48 \<le> u \<and> u \<le> 57"

definition digits_val :: "jstr \<Rightarrow> nat" where
  "digits_val s = foldl (\<lambda>v u. 10 * v + (u - 48)) 0 s"

lemma nat_str_nonempty [simp]: "nat_str n \<noteq> []"
  by (subst nat_str.simps) simp

lemma nat_str_digits: "u \<in> set (nat_str n) \<Longrightarrow> is_digit u"
proof (induction n rule: nat_str.induct)
  case (1 n)
  then show ?case
    by (cases "n < 10") (auto simp: nat_str.simps [of n] is_digit_def)
qed

lemma digits_val_snoc: "digits_val (s @ [u]) = 10 * digits_val s + (u - 48)"
  by (simp add: digits_val_def)

lemma digits_val_nat_str [simp]: "digits_val (nat_str n) = n"
proof (induction n rule: nat_str.induct)
  case (1 n)
  then show ?case
    by (cases "n < 10") (simp_all add: nat_str.simps [of n] digits_val_snoc, simp add: digits_val_def)
qed

lemma nat_str_inject [simp]: "nat_str m = nat_str n \<longleftrightarrow> m = n"
  by (metis digits_val_nat_str)

lemma nat_str_one: "n < 10 \<Longrightarrow> nat_str n = [48 + n]"
  by (simp add: nat_str.simps)

lemma nat_str_two: "10 \<le> n \<Longrightarrow> n < 100 \<Longrightarrow> nat_str n = [48 + n div 10, 48 + n mod 10]"
  by (simp add: nat_str.simps [of n] nat_str_one)

section \<open>First occurrences\<close>

lemma index_at_first:
  assumes "c \<noteq> []" and "hd c \<notin> set p"
  shows "index_at c (p @ c @ q) = Some (length p)"
  using assms(2)
proof (induction p)
  case Nil
  from assms(1) show ?case by (cases c) simp_all
next
  case (Cons x p)
  then have "\<not> prefix c ((x # p) @ c @ q)"
    using assms(1) by (cases c) auto
  with Cons show ?case by simp
qed

lemma replace1_first:
  assumes "c \<noteq> []" and "hd c \<notin> set p"
  shows "replace1 (p @ c @ q) c r = p @ r @ q"
  by (simp add: replace1_def index_at_first [OF assms])

lemma indexOf_unit: "u \<notin> set p \<Longrightarrow> indexOf (p @ u # q) [u] = int (length p)"
  using index_at_first [of "[u]" p q] by (simp add: indexOf_def)

lemma indexOf_absent: "\<not> sublist p s \<Longrightarrow> indexOf s p = -1"
  using index_at_None [of p s] by (simp add: indexOf_def)

lemma split_first:
  assumes "c \<noteq> []" "hd c \<notin> set p"
  shows "split_on c (p @ c @ q) = p # split_on c q" "split_on c p = [p]"
proof -
  have "index_at c (p @ c @ q) = Some (length p)" by (rule index_at_first) (use assms in auto)
  then show "split_on c (p @ c @ q) = p # split_on c q"
    using assms by (subst split_on.simps) (simp del: index_at.simps)
  have "\<not> sublist c p"
  proof
    assume "sublist c p"
    then have "set c \<subseteq> set p" by (auto simp: sublist_def)
    then show False using assms by (meson hd_in_set subsetD)
  qed
  then have "index_at c p = None" by (simp add: index_at_None)
  then show "split_on c p = [p]"
    using assms by (subst split_on.simps) (simp del: index_at.simps)
qed

lemma split_unit:
  "u \<notin> set p \<Longrightarrow> split_on [u] (p @ u # q) = p # split_on [u] q"
  "u \<notin> set p \<Longrightarrow> split_on [u] p = [p]"
  using split_first(1) [of "[u]" p q] split_first(2) [of "[u]" p] by simp_all

lemma split_join_sep:
  assumes "sep \<noteq> []" "xs \<noteq> []" "\<forall>x\<in>set xs. hd sep \<notin> set x"
  shows "split_on sep (join_with sep xs) = xs"
  using assms
proof (induction sep xs rule: join_with.induct)
  case (2 sep x)
  then show ?case by (simp add: split_first)
next
  case (3 sep x y ys)
  then show ?case by (simp add: split_first)
qed simp

lemma split_join:
  assumes "xs \<noteq> []" "\<forall>x\<in>set xs. u \<notin> set x"
  shows "split_on [u] (join_with [u] xs) = xs"
  using split_join_sep [of "[u]" xs] assms by simp

lemma replace1_absent: "\<not> sublist p s \<Longrightarrow> replace1 s p r = s"
  using index_at_None [of p s] by (simp add: replace1_def)

lemma replace1_empty [simp]: "replace1 s [] r = r @ s"
  by (cases s) (simp_all add: replace1_def)

lemma sublist_unit: "sublist [u] s \<longleftrightarrow> u \<in> set s"
  by (metis in_set_conv_decomp append_Cons append_Nil sublist_def)

lemma sublist_set: "sublist p s \<Longrightarrow> set p \<subseteq> set s"
  by (auto simp: sublist_def)

lemma split_at_unit:
  "x \<notin> set a \<Longrightarrow> x \<notin> set b \<Longrightarrow> a @ x # s = b @ x # t \<longleftrightarrow> a = b \<and> s = t"
proof (induction a arbitrary: b)
  case Nil
  then show ?case by (cases b) auto
next
  case (Cons y a)
  then show ?case by (cases b) auto
qed

lemma substring_mid: "substring (p @ c @ q) (int (length p)) (int (length p + length c)) = c"
  by (simp add: substring_def Let_def)

section \<open>Objects as property maps\<close>

text \<open>
  An object used as a dictionary keeps its keys in insertion order; storing under a key it
  has replaces the value in place. The interface below is what the form, template, cookie and
  address code rely on; a loop that folds new values into the stored ones is computed key by
  key.
\<close>

type_synonym 'v jobj = "(jstr \<times> 'v) list"

definition obj_get :: "'v jobj \<Rightarrow> jstr \<Rightarrow> 'v option" where
  "obj_get ob k = map_of ob k"

definition obj_put :: "jstr \<Rightarrow> 'v \<Rightarrow> 'v jobj \<Rightarrow> 'v jobj" where
  "obj_put k v ob = AList.update k v ob"

locale key_store =
  fixes get :: "'m \<Rightarrow> 'k \<Rightarrow> 'v option"
    and put :: "'k \<Rightarrow> 'v \<Rightarrow> 'm \<Rightarrow> 'm"
    and empty :: 'm
  assumes get_put: "get (put k v m) j = (if j = k then Some v else get m j)"
    and get_empty: "get empty j = None"
begin

lemma get_fold:
  assumes "\<And>e m. step e m = put (key e) (f (get m (key e)) e) m"
  shows "get (fold step es m) j =
    fold (\<lambda>e acc. Some (f acc e)) (filter (\<lambda>e. key e = j) es) (get m j)"
  by (induction es arbitrary: m) (auto simp: assms get_put)

lemma get_fold_last:
  "get (fold (\<lambda>(k, v). put k v) kvs m) j =
    (case map_of (rev kvs) j of Some v \<Rightarrow> Some v | None \<Rightarrow> get m j)"
proof (induction kvs arbitrary: m)
  case (Cons e kvs)
  then show ?case by (cases e) (auto simp: get_put map_add_def split: option.split)
qed simp

end

interpretation jo: key_store obj_get obj_put "[]"
  by unfold_locales (auto simp: obj_get_def obj_put_def update_conv)

lemma obj_put_keys: "map fst (obj_put k v ob) = (if k \<in> fst ` set ob then map fst ob else map fst ob @ [k])"
  by (induction ob) (auto simp: obj_put_def)

lemma obj_put_distinct: "distinct (map fst ob) \<Longrightarrow> distinct (map fst (obj_put k v ob))"
  by (simp add: obj_put_def distinct_update)

end
