(* ===== verification/Js_Regex.thy ===== *)
theory Js_Regex
  imports Js_Prelude
begin

text \<open>
  The regular expressions of the language, as far as the checks of the forms use them: sets of code
  units, sequences, alternatives, groups, repetitions and the two anchors. A pattern is compiled from
  its source text, as \<open>RegExp\<close> does; \<open>rx_match\<close> says what a pattern matches, and \<open>rx_ends\<close> computes it.
  Whether \<open>test\<close> finds a match does not depend on the order in which alternatives are tried, so
  greedy and reluctant repetitions are the same here. Flags, look-ahead and references to groups are
  outside of this fragment: a pattern with them has no value.
\<close>

section \<open>Sets of code units\<close>

text \<open>White space and line ends of the language.\<close>

definition js_space :: "nat \<Rightarrow> bool" where
  "js_space u \<longleftrightarrow> (9 \<le> u \<and> u \<le> 13) \<or> (8192 \<le> u \<and> u \<le> 8202) \<or>
     u \<in> {32, 160, 5760, 8232, 8233, 8239, 8287, 12288, 65279}"

definition js_trim :: "jstr \<Rightarrow> jstr" where
  "js_trim s = rev (dropWhile js_space (rev (dropWhile js_space s)))"

definition line_end :: "nat \<Rightarrow> bool" where
  "line_end u \<longleftrightarrow> u \<in> {10, 13, 8232, 8233}"

definition word_unit :: "nat \<Rightarrow> bool" where
  "word_unit u \<longleftrightarrow> is_digit u \<or> (65 \<le> u \<and> u \<le> 90) \<or> (97 \<le> u \<and> u \<le> 122) \<or> u = 95"

datatype citem = CRange nat nat | CDigit bool | CWord bool | CSpace bool | CLineEnd

text \<open>The flag of an escape says whether the set is meant (\<open>\d\<close>) or its complement (\<open>\D\<close>).\<close>

fun in_item :: "nat \<Rightarrow> citem \<Rightarrow> bool" where
  "in_item u (CRange a b) \<longleftrightarrow> a \<le> u \<and> u \<le> b"
| "in_item u (CDigit p) \<longleftrightarrow> is_digit u = p"
| "in_item u (CWord p) \<longleftrightarrow> word_unit u = p"
| "in_item u (CSpace p) \<longleftrightarrow> js_space u = p"
| "in_item u CLineEnd \<longleftrightarrow> line_end u"

definition in_set :: "bool \<Rightarrow> citem list \<Rightarrow> nat \<Rightarrow> bool" where
  "in_set neg cs u \<longleftrightarrow> list_ex (in_item u) cs \<noteq> neg"

section \<open>What a pattern matches\<close>

datatype rx =
    REps
  | RSet bool "citem list"
  | RSeq rx rx
  | RAlt rx rx
  | RRep rx nat "nat option"
  | RBeg
  | REnd

definition less_one :: "nat option \<Rightarrow> nat option" where
  "less_one u = map_option (\<lambda>n. n - 1) u"

text \<open>\<open>rx_match s r i j\<close>: the pattern matches the text from position \<open>i\<close> up to \<open>j\<close>.\<close>

inductive rx_match :: "jstr \<Rightarrow> rx \<Rightarrow> nat \<Rightarrow> nat \<Rightarrow> bool" for s :: jstr where
  m_eps: "i \<le> length s \<Longrightarrow> rx_match s REps i i"
| m_set: "i < length s \<Longrightarrow> in_set neg cs (s ! i) \<Longrightarrow> rx_match s (RSet neg cs) i (Suc i)"
| m_seq: "rx_match s r i j \<Longrightarrow> rx_match s q j k \<Longrightarrow> rx_match s (RSeq r q) i k"
| m_left: "rx_match s r i j \<Longrightarrow> rx_match s (RAlt r q) i j"
| m_right: "rx_match s q i j \<Longrightarrow> rx_match s (RAlt r q) i j"
| m_stop: "i \<le> length s \<Longrightarrow> rx_match s (RRep r 0 u) i i"
| m_again: "rx_match s r i j \<Longrightarrow> rx_match s (RRep r (m - 1) (less_one u)) j k \<Longrightarrow> u \<noteq> Some 0 \<Longrightarrow>
    rx_match s (RRep r m u) i k"
| m_beg: "rx_match s RBeg 0 0"
| m_end: "rx_match s REnd (length s) (length s)"

inductive_cases rx_repE: "rx_match s (RRep r m u) i k"

inductive_simps rx_eps_simp: "rx_match s REps i j"
inductive_simps rx_set_simp: "rx_match s (RSet neg cs) i j"
inductive_simps rx_seq_simp: "rx_match s (RSeq r q) i j"
inductive_simps rx_alt_simp: "rx_match s (RAlt r q) i j"
inductive_simps rx_beg_simp: "rx_match s RBeg i j"
inductive_simps rx_end_simp: "rx_match s REnd i j"

lemmas rx_simps = rx_eps_simp rx_set_simp rx_seq_simp rx_alt_simp rx_beg_simp rx_end_simp

lemma rx_match_range: "rx_match s r i j \<Longrightarrow> i \<le> j \<and> j \<le> length s"
  by (induction rule: rx_match.induct) auto

section \<open>Finding the ends of matches\<close>

definition rep_step :: "(nat \<Rightarrow> nat list) \<Rightarrow> nat list \<Rightarrow> nat list" where
  "rep_step f ps = remdups (concat (map f ps))"

fun rep_req :: "(nat \<Rightarrow> nat list) \<Rightarrow> nat \<Rightarrow> nat list \<Rightarrow> nat list" where
  "rep_req f 0 ps = ps"
| "rep_req f (Suc m) ps = rep_req f m (rep_step f ps)"

fun rep_opt :: "(nat \<Rightarrow> nat list) \<Rightarrow> nat \<Rightarrow> nat list \<Rightarrow> nat list" where
  "rep_opt f 0 ps = ps"
| "rep_opt f (Suc n) ps = (if ps = [] then [] else ps @ rep_opt f n (rep_step f ps))"

text \<open>
  Without an upper bound no more repetitions are tried than the text has units: a repetition that
  matches nothing leads nowhere.
\<close>

fun rx_ends :: "jstr \<Rightarrow> rx \<Rightarrow> nat \<Rightarrow> nat list" where
  "rx_ends s REps i = (if i \<le> length s then [i] else [])"
| "rx_ends s (RSet neg cs) i = (if i < length s \<and> in_set neg cs (s ! i) then [Suc i] else [])"
| "rx_ends s (RSeq r q) i = concat (map (rx_ends s q) (rx_ends s r i))"
| "rx_ends s (RAlt r q) i = rx_ends s r i @ rx_ends s q i"
| "rx_ends s (RRep r m u) i =
     (if i \<le> length s then
        (let ps = rep_req (rx_ends s r) m [i]
         in case u of None \<Rightarrow> rep_opt (rx_ends s r) (length s) ps
            | Some n \<Rightarrow> if m \<le> n then rep_opt (rx_ends s r) (n - m) ps else [])
      else [])"
| "rx_ends s RBeg i = (if i = 0 then [0] else [])"
| "rx_ends s REnd i = (if i = length s then [i] else [])"

definition rx_test :: "rx \<Rightarrow> jstr \<Rightarrow> bool" where
  "rx_test r s \<longleftrightarrow> list_ex (\<lambda>i. rx_ends s r i \<noteq> []) [0..<Suc (length s)]"

text \<open>Several steps of a relation between positions.\<close>

fun reps :: "(nat \<Rightarrow> nat \<Rightarrow> bool) \<Rightarrow> nat \<Rightarrow> nat \<Rightarrow> nat \<Rightarrow> bool" where
  "reps P 0 i k \<longleftrightarrow> i = k"
| "reps P (Suc n) i k \<longleftrightarrow> (\<exists>j. P i j \<and> reps P n j k)"

lemma reps_add: "reps P (a + b) i k \<longleftrightarrow> (\<exists>j. reps P a i j \<and> reps P b j k)"
  by (induction a arbitrary: i) auto

lemma reps_range:
  assumes "\<And>i j. P i j \<Longrightarrow> i \<le> j \<and> j \<le> l"
  shows "reps P n i k \<Longrightarrow> i \<le> k \<and> (i \<le> l \<longrightarrow> k \<le> l)"
proof (induction n arbitrary: i)
  case (Suc n)
  then obtain j where "P i j" "reps P n j k" by auto
  then show ?case using assms [of i j] Suc.IH [of j] by auto
qed simp

lemma reps_short:
  assumes "\<And>i j. P i j \<Longrightarrow> i \<le> j \<and> j \<le> l"
  shows "reps P n i k \<Longrightarrow> \<exists>n'\<le>k - i. reps P n' i k"
proof (induction n arbitrary: i)
  case (Suc n)
  then obtain j where j: "P i j" "reps P n j k" by auto
  then obtain n' where n': "n' \<le> k - j" "reps P n' j k" using Suc.IH by blast
  show ?case
  proof (cases "i = j")
    case False
    then have "Suc n' \<le> k - i" using n'(1) assms [OF j(1)] reps_range [OF assms j(2)] by auto
    then show ?thesis using j(1) n'(2) by (intro exI [of _ "Suc n'"]) auto
  qed (use n' in auto)
qed simp

lemma set_rep_step: "set (rep_step f ps) = {k. \<exists>i\<in>set ps. k \<in> set (f i)}"
  by (auto simp: rep_step_def)

lemma set_rep_req: "k \<in> set (rep_req f m ps) \<longleftrightarrow> (\<exists>i\<in>set ps. reps (\<lambda>i j. j \<in> set (f i)) m i k)"
  by (induction m arbitrary: ps) (auto simp: set_rep_step)

lemma ex_le_Suc: "(\<exists>l\<le>Suc n. Q l) \<longleftrightarrow> Q 0 \<or> (\<exists>l\<le>n. Q (Suc l))"
proof
  assume "\<exists>l\<le>Suc n. Q l"
  then obtain l where "l \<le> Suc n" "Q l" by blast
  then show "Q 0 \<or> (\<exists>l\<le>n. Q (Suc l))" by (cases l) auto
qed auto

lemma set_rep_opt: "k \<in> set (rep_opt f n ps) \<longleftrightarrow> (\<exists>i\<in>set ps. \<exists>l\<le>n. reps (\<lambda>i j. j \<in> set (f i)) l i k)"
proof (induction n arbitrary: ps)
  case (Suc n)
  show ?case
  proof (cases "ps = []")
    case False
    then have "k \<in> set (rep_opt f (Suc n) ps) \<longleftrightarrow>
        k \<in> set ps \<or> (\<exists>i\<in>set ps. \<exists>j\<in>set (f i). \<exists>l\<le>n. reps (\<lambda>i j. j \<in> set (f i)) l j k)"
      by (simp add: Suc set_rep_step) blast
    then show ?thesis unfolding ex_le_Suc by (simp add: Bex_def) blast
  qed simp
qed simp

definition within :: "nat \<Rightarrow> nat option \<Rightarrow> bool" where
  "within n u \<longleftrightarrow> (case u of None \<Rightarrow> True | Some v \<Rightarrow> n \<le> v)"

lemma rx_rep: "rx_match s (RRep r m u) i k \<longleftrightarrow>
    i \<le> length s \<and> (\<exists>n\<ge>m. within n u \<and> reps (rx_match s r) n i k)"
proof
  assume "rx_match s (RRep r m u) i k"
  then show "i \<le> length s \<and> (\<exists>n\<ge>m. within n u \<and> reps (rx_match s r) n i k)"
  proof (induction "RRep r m u" i k arbitrary: m u rule: rx_match.induct)
    case (m_stop i u)
    then show ?case by (intro conjI exI [of _ 0]) (auto simp: within_def split: option.split)
  next
    case (m_again i j m u k)
    then obtain n where "n \<ge> m - 1" "within n (less_one u)" "reps (rx_match s r) n j k" by blast
    then have "Suc n \<ge> m" "within (Suc n) u" "reps (rx_match s r) (Suc n) i k"
      using m_again(1,5) by (auto simp: within_def less_one_def split: option.splits)
    moreover have "i \<le> length s" using rx_match_range [OF m_again(1)] by simp
    ultimately show ?case by (intro conjI exI [of _ "Suc n"])
  qed
next
  have "rx_match s (RRep r m u) i k" if "n \<ge> m" "within n u" "reps (rx_match s r) n i k" "i \<le> length s" for n
    using that
  proof (induction n arbitrary: i m u)
    case 0
    then show ?case by (simp add: m_stop)
  next
    case (Suc n)
    then obtain j where j: "rx_match s r i j" "reps (rx_match s r) n j k" by auto
    have "rx_match s (RRep r (m - 1) (less_one u)) j k"
    proof (rule Suc.IH)
      show "within n (less_one u)" using Suc.prems(2) by (auto simp: within_def less_one_def split: option.splits)
    qed (use Suc.prems j rx_match_range [OF j(1)] in auto)
    moreover have "u \<noteq> Some 0" using Suc.prems(2) by (auto simp: within_def)
    ultimately show ?case by (rule m_again [OF j(1)])
  qed
  moreover assume "i \<le> length s \<and> (\<exists>n\<ge>m. within n u \<and> reps (rx_match s r) n i k)"
  ultimately show "rx_match s (RRep r m u) i k" by blast
qed

lemma rx_ends_match: "set (rx_ends s r i) = {j. rx_match s r i j}"
proof (induction r arbitrary: i)
  case (RRep r m u)
  let ?P = "rx_match s r"
  have r: "i \<le> j \<and> j \<le> length s" if "?P i j" for i j using rx_match_range [OF that] .
  have split: "(\<exists>n\<ge>m. n \<le> v \<and> reps ?P n i k) \<longleftrightarrow> m \<le> v \<and> (\<exists>j. reps ?P m i j \<and> (\<exists>l\<le>v - m. reps ?P l j k))" for v k
  proof
    assume "\<exists>n\<ge>m. n \<le> v \<and> reps ?P n i k"
    then obtain n where "m \<le> n" "n \<le> v" "reps ?P n i k" by blast
    then show "m \<le> v \<and> (\<exists>j. reps ?P m i j \<and> (\<exists>l\<le>v - m. reps ?P l j k))"
      using reps_add [of ?P m "n - m" i k] by (metis diff_le_mono le_add_diff_inverse le_trans)
  next
    assume "m \<le> v \<and> (\<exists>j. reps ?P m i j \<and> (\<exists>l\<le>v - m. reps ?P l j k))"
    then obtain j l where "m \<le> v" "reps ?P m i j" "l \<le> v - m" "reps ?P l j k" by blast
    then show "\<exists>n\<ge>m. n \<le> v \<and> reps ?P n i k"
      using reps_add [of ?P m l i k] by (intro exI [of _ "m + l"]) auto
  qed
  have open_end: "(\<exists>n\<ge>m. reps ?P n i k) \<longleftrightarrow> (\<exists>j. reps ?P m i j \<and> (\<exists>l\<le>length s. reps ?P l j k))" if "i \<le> length s" for k
  proof
    assume "\<exists>n\<ge>m. reps ?P n i k"
    then obtain n where n: "m \<le> n" "reps ?P n i k" by blast
    then obtain j where j: "reps ?P m i j" "reps ?P (n - m) j k" using reps_add [of ?P m "n - m" i k] by auto
    then obtain l where l: "l \<le> k - j" "reps ?P l j k" using reps_short [OF r j(2)] by blast
    have "k \<le> length s" using reps_range [OF r n(2)] that by simp
    then have "l \<le> length s" using l(1) by simp
    then show "\<exists>j. reps ?P m i j \<and> (\<exists>l\<le>length s. reps ?P l j k)" using j(1) l(2) by blast
  next
    assume "\<exists>j. reps ?P m i j \<and> (\<exists>l\<le>length s. reps ?P l j k)"
    then show "\<exists>n\<ge>m. reps ?P n i k" using reps_add [of ?P m _ i k] le_add1 by blast
  qed
  show ?case
  proof (cases u)
    case None
    then show ?thesis
      by (cases "i \<le> length s") (simp_all add: set_eq_iff rx_rep set_rep_opt set_rep_req RRep within_def Bex_def open_end)
  next
    case (Some v)
    then show ?thesis using split [of v]
      by (simp add: set_eq_iff rx_rep set_rep_opt set_rep_req RRep within_def Bex_def conj_ac)
  qed
qed (auto simp: rx_simps)

lemma rx_test_match: "rx_test r s \<longleftrightarrow> (\<exists>i j. rx_match s r i j)"
proof -
  have "rx_ends s r i \<noteq> [] \<longleftrightarrow> (\<exists>j. rx_match s r i j)" for i
    using rx_ends_match [of s r i] by (cases "rx_ends s r i") auto
  then have "rx_test r s \<longleftrightarrow> (\<exists>i<Suc (length s). \<exists>j. rx_match s r i j)"
    by (simp only: rx_test_def list_ex_iff Bex_def set_upt atLeastLessThan_iff) simp
  moreover have "i < Suc (length s)" if "rx_match s r i j" for i j using rx_match_range [OF that] by simp
  ultimately show ?thesis by blast
qed

section \<open>Compiling the source of a pattern\<close>

text \<open>
  Patterns are written below with a grave accent where their source has a backslash.
\<close>

definition pat :: "string \<Rightarrow> jstr" where
  "pat s = map (\<lambda>u. if u = 96 then 92 else u) (js s)"

text \<open>
  First the escapes: what follows a backslash is a unit (\<open>Lit\<close>) or a set (\<open>Esc\<close>); other units may
  have a meaning of their own (\<open>Raw\<close>); \<open>Out\<close> is what is outside of the fragment.
\<close>

datatype relem = Raw nat | Lit nat | Esc citem | Out

definition rx_hex :: "nat \<Rightarrow> nat option" where
  "rx_hex u = (if is_digit u then Some (u - 48) else if 65 \<le> u \<and> u \<le> 70 then Some (u - 55)
     else if 97 \<le> u \<and> u \<le> 102 then Some (u - 87) else None)"

definition escape_unit :: "nat \<Rightarrow> relem" where
  "escape_unit u =
     (if u = 100 then Esc (CDigit True) else if u = 68 then Esc (CDigit False)
      else if u = 119 then Esc (CWord True) else if u = 87 then Esc (CWord False)
      else if u = 115 then Esc (CSpace True) else if u = 83 then Esc (CSpace False)
      else if u = 110 then Lit 10 else if u = 114 then Lit 13 else if u = 116 then Lit 9
      else if u = 102 then Lit 12 else if u = 118 then Lit 11
      else if word_unit u then Out else Lit u)"

function unesc :: "jstr \<Rightarrow> relem list" where
  "unesc [] = []"
| "unesc [x] = [if x = 92 then Out else Raw x]"
| "unesc (x # y # r) =
     (if x \<noteq> 92 then Raw x # unesc (y # r)
      else if y = 117 then
        (case map rx_hex (take 4 r) of
           [Some a, Some b, Some c, Some d] \<Rightarrow> Lit (4096 * a + 256 * b + 16 * c + d) # unesc (drop 4 r)
         | _ \<Rightarrow> Lit 117 # unesc r)
      else escape_unit y # unesc r)"
  by pat_completeness auto
termination
  by (relation "measure length") auto

text \<open>Then the tokens. Inside brackets a dash between two units is a range; first or last it is a unit.\<close>

datatype rtok = TSet bool "citem list" | TOpen | TClose | TBar | TBeg | TEnd | TRep nat "nat option" | TOut

fun elem_unit :: "relem \<Rightarrow> nat option" where
  "elem_unit (Raw u) = Some u"
| "elem_unit (Lit u) = Some u"
| "elem_unit _ = None"

fun elem_item :: "relem \<Rightarrow> citem" where
  "elem_item (Raw u) = CRange u u"
| "elem_item (Lit u) = CRange u u"
| "elem_item (Esc c) = c"
| "elem_item Out = CRange 1 0"

text \<open>The bounds of a repetition, as far as they are ones; otherwise the brace stands for itself.\<close>

fun take_digits :: "relem list \<Rightarrow> jstr \<times> relem list" where
  "take_digits (Raw u # es) = (if is_digit u then (let (ds, r) = take_digits es in (u # ds, r)) else ([], Raw u # es))"
| "take_digits es = ([], es)"

definition quant :: "relem list \<Rightarrow> (nat \<times> nat option \<times> relem list) option" where
  "quant es =
     (case take_digits es of (ds, r) \<Rightarrow>
        if ds = [] then None
        else (case r of
          Raw c # r' \<Rightarrow>
            if c = 125 then Some (digits_val ds, Some (digits_val ds), r')
            else if c = 44 then
              (case take_digits r' of
                 (ds', Raw c' # r'') \<Rightarrow>
                   if c' = 125 then Some (digits_val ds, if ds' = [] then None else Some (digits_val ds'), r'') else None
               | _ \<Rightarrow> None)
            else None
        | _ \<Rightarrow> None))"

lemma take_digits_length: "take_digits es = (ds, r) \<Longrightarrow> length es = length ds + length r"
  by (induction es arbitrary: ds r rule: take_digits.induct) (auto split: if_splits prod.splits)

lemma quant_length: "quant es = Some (m, u, r) \<Longrightarrow> length r < length es"
  by (auto simp: quant_def dest!: take_digits_length split: prod.splits if_splits list.splits relem.splits)

definition reluctant :: "relem list \<Rightarrow> relem list" where
  "reluctant es = (case es of Raw c # r \<Rightarrow> if c = 63 then r else es | _ \<Rightarrow> es)"

lemma reluctant_length: "length (reluctant es) \<le> length es"
  by (auto simp: reluctant_def split: list.split relem.split)

lemma reluctant_less: "length r \<le> n \<Longrightarrow> length (reluctant r) < Suc n"
  using reluctant_length [of r] by simp

lemma reluctant_quant: "quant es = Some (m, u, r) \<Longrightarrow> length (reluctant r) < Suc (length es)"
  by (rule reluctant_less) (auto dest: quant_length)

definition dot_set :: rtok where
  "dot_set = TSet True [CLineEnd]"

text \<open>\<open>toks\<close> outside of brackets, \<open>cls\<close> inside.\<close>

function (sequential) toks :: "relem list \<Rightarrow> rtok list" and cls :: "bool \<Rightarrow> citem list \<Rightarrow> relem list \<Rightarrow> rtok list" where
  "toks [] = []"
| "toks (Raw c # r) =
     (if c = 40 then
        (case r of
           Raw q # Raw k # r' \<Rightarrow> if q = 63 then (if k = 58 then TOpen # toks r' else [TOut]) else TOpen # toks r
         | _ \<Rightarrow> TOpen # toks r)
      else if c = 41 then TClose # toks r
      else if c = 124 then TBar # toks r
      else if c = 94 then TBeg # toks r
      else if c = 36 then TEnd # toks r
      else if c = 46 then dot_set # toks r
      else if c = 42 then TRep 0 None # toks (reluctant r)
      else if c = 43 then TRep 1 None # toks (reluctant r)
      else if c = 63 then TRep 0 (Some 1) # toks (reluctant r)
      else if c = 91 then
        (case r of Raw n # r' \<Rightarrow> if n = 94 then cls True [] r' else cls False [] r | _ \<Rightarrow> cls False [] r)
      else if c = 123 then
        (case quant r of Some (m, u, r') \<Rightarrow> TRep m u # toks (reluctant r') | None \<Rightarrow> TSet False [CRange 123 123] # toks r)
      else TSet False [CRange c c] # toks r)"
| "toks (Lit u # r) = TSet False [CRange u u] # toks r"
| "toks (Esc c # r) = TSet False [c] # toks r"
| "toks (Out # r) = [TOut]"
| "cls neg cs [] = [TOut]"
| "cls neg cs (e # r) =
     (if e = Raw 93 then TSet neg cs # toks r
      else if e = Out then [TOut]
      else
        (case r of
           d # f # r' \<Rightarrow>
             if d = Raw 45 \<and> f \<noteq> Raw 93 then
               (case (elem_unit e, elem_unit f) of
                  (Some a, Some b) \<Rightarrow> if a \<le> b then cls neg (cs @ [CRange a b]) r' else [TOut]
                | _ \<Rightarrow> cls neg (cs @ [elem_item e, CRange 45 45, elem_item f]) r')
             else cls neg (cs @ [elem_item e]) r
         | _ \<Rightarrow> cls neg (cs @ [elem_item e]) r))"
  by pat_completeness auto
termination
  by (relation "measure (\<lambda>x. case x of Inl es \<Rightarrow> length es | Inr (neg, cs, es) \<Rightarrow> length es)")
    (auto dest: quant_length intro: reluctant_quant reluctant_less)

text \<open>
  At last the groups: a stack of open groups with the alternatives read so far and the items of
  the last one; whether the last item may still be repeated.
\<close>

record rframe =
  rf_alt :: "rx option"
  rf_items :: "rx list"

fun seq_of :: "rx list \<Rightarrow> rx" where
  "seq_of [] = REps"
| "seq_of [r] = r"
| "seq_of (r # rs) = RSeq r (seq_of rs)"

definition frame_rx :: "rframe \<Rightarrow> rx" where
  "frame_rx f = (case rf_alt f of None \<Rightarrow> seq_of (rf_items f) | Some a \<Rightarrow> RAlt a (seq_of (rf_items f)))"

definition empty_frame :: rframe where
  "empty_frame = \<lparr>rf_alt = None, rf_items = []\<rparr>"

definition add_item :: "rx \<Rightarrow> rframe \<Rightarrow> rframe" where
  "add_item r f = f\<lparr>rf_items := rf_items f @ [r]\<rparr>"

fun parse_tok :: "rtok \<Rightarrow> (rframe list \<times> bool) option \<Rightarrow> (rframe list \<times> bool) option" where
  "parse_tok t None = None"
| "parse_tok t (Some ([], b)) = None"
| "parse_tok (TSet neg cs) (Some (f # fs, b)) = Some (add_item (RSet neg cs) f # fs, True)"
| "parse_tok TBeg (Some (f # fs, b)) = Some (add_item RBeg f # fs, False)"
| "parse_tok TEnd (Some (f # fs, b)) = Some (add_item REnd f # fs, False)"
| "parse_tok TOpen (Some (f # fs, b)) = Some (empty_frame # f # fs, False)"
| "parse_tok TClose (Some (f # fs, b)) = (case fs of [] \<Rightarrow> None | g # gs \<Rightarrow> Some (add_item (frame_rx f) g # gs, True))"
| "parse_tok TBar (Some (f # fs, b)) = Some (\<lparr>rf_alt = Some (frame_rx f), rf_items = []\<rparr> # fs, False)"
| "parse_tok (TRep m u) (Some (f # fs, b)) =
     (if b \<and> (case u of None \<Rightarrow> True | Some n \<Rightarrow> m \<le> n)
      then Some (f\<lparr>rf_items := butlast (rf_items f) @ [RRep (last (rf_items f)) m u]\<rparr> # fs, False) else None)"
| "parse_tok TOut (Some (f # fs, b)) = None"

definition rx_compile :: "jstr \<Rightarrow> rx option" where
  "rx_compile src =
     (case fold parse_tok (toks (unesc src)) (Some ([empty_frame], False)) of Some ([f], b) \<Rightarrow> Some (frame_rx f) | _ \<Rightarrow> None)"

end
