(* ===== verification/Valid_Rules.thy ===== *)
theory Valid_Rules
  imports Js_Regex
begin

text \<open>
  The rules of the form checks (\<open>static/plug-in/js/Validform_v5.3.2.js\<close>): the table of data types and its
  extension by types such as \<open>n6-20\<close>, the attribute \<open>datatype\<close> of a field, which lists alternatives of
  types, and the messages. The table is one for all forms of a page and grows while fields are
  checked; a form keeps the messages it has made up, and a field the message for an empty value.
  Names of types are not names that every object has.
\<close>

section \<open>Messages and types\<close>

text \<open>The default texts (\<open>tipmsg\<close>); the pages do not set others.\<close>

definition tipmsg_w :: "jstr jobj" where
  "tipmsg_w =
     [(js ''*'', [19981, 33021, 20026, 31354, 65281]),
      (js ''*6-16'', [35831, 22635, 20889] @ js ''6'' @ [21040] @ js ''16'' @ [20301, 20219, 24847, 23383, 31526, 65281]),
      (js ''n'', [35831, 22635, 20889, 25968, 23383, 65281]),
      (js ''n6-16'', [35831, 22635, 20889] @ js ''6'' @ [21040] @ js ''16'' @ [20301, 25968, 23383, 65281]),
      (js ''s'', [19981, 33021, 36755, 20837, 29305, 27530, 23383, 31526, 65281]),
      (js ''s6-18'', [35831, 22635, 20889] @ js ''6'' @ [21040] @ js ''18'' @ [20301, 23383, 31526, 65281]),
      (js ''p'', [35831, 22635, 20889, 37038, 25919, 32534, 30721, 65281]),
      (js ''m'', [35831, 22635, 20889, 25163, 26426, 21495, 30721, 65281]),
      (js ''e'', [37038, 31665, 22320, 22336, 26684, 24335, 19981, 23545, 65281]),
      (js ''url'', [35831, 22635, 20889, 32593, 22336, 65281])]"

definition tipmsg_def :: jstr where
  "tipmsg_def = [35831, 22635, 20889, 27491, 30830, 20449, 24687, 65281]"

definition tipmsg_undef :: jstr where
  "tipmsg_undef = js ''datatype'' @ [26410, 23450, 20041, 65281]"

definition tipmsg_reck :: jstr where
  "tipmsg_reck = [20004, 27425, 36755, 20837, 30340, 20869, 23481, 19981, 19968, 33268, 65281]"

definition tipmsg_r :: jstr where
  "tipmsg_r = [36890, 36807, 20449, 24687, 39564, 35777, 65281]"

definition tipmsg_c :: jstr where
  "tipmsg_c = [27491, 22312, 26816, 27979, 20449, 24687, 8230]"

definition tipmsg_s :: jstr where
  "tipmsg_s = [35831] @ js ''{'' @ [22635, 20889] @ js ''|'' @ [36873, 25321] @ js ''}{0|'' @ [20449, 24687] @ js ''}'' @ [65281]"

definition tipmsg_v :: jstr where
  "tipmsg_v = [25152, 22635, 20449, 24687, 27809, 26377, 32463, 36807, 39564, 35777, 65292, 35831, 31245, 21518, 8230]"

definition tipmsg_p :: jstr where
  "tipmsg_p = [27491, 22312, 25552, 20132, 25968, 25454, 8230]"

text \<open>
  A type is a pattern, kept as its source, or a function a page brings along: it accepts, refuses, or
  refuses with a message.
\<close>

datatype verdict = Accepts | Refuses | Says jstr

datatype vtype = DtRx jstr | DtFun "jstr \<Rightarrow> verdict"

definition dataType :: "vtype jobj" where
  "dataType =
     [(js ''*'', DtRx (pat ''[`w`W]+'')),
      (js ''*6-16'', DtRx (pat ''^[`w`W]{6,16}$'')),
      (js ''n'', DtRx (pat ''^`d+$'')),
      (js ''n6-16'', DtRx (pat ''^`d{6,16}$'')),
      (js ''s'', DtRx (pat ''^[`u4E00-`u9FA5`uf900-`ufa2d`w`.`s]+$'')),
      (js ''s6-18'', DtRx (pat ''^[`u4E00-`u9FA5`uf900-`ufa2d`w`.`s]{6,18}$'')),
      (js ''p'', DtRx (pat ''^[0-9]{6}$'')),
      (js ''m'', DtRx (pat ''^13[0-9]{9}$|14[0-9]{9}|15[0-9]{9}$|18[0-9]{9}$'')),
      (js ''e'', DtRx (pat ''^`w+([-+.'' @ [39] @ pat '']`w+)*@`w+([-.]`w+)*`.`w+([-.]`w+)*$'')),
      (js ''url'', DtRx (pat ''^(http|https):`/`/[`w`-_]+(`.[`w`-_]+)+([`w`-`.,@?^=%&amp;:/~`+#]*[`w`-`@?^=%&amp;/~`+#])?$''))]"

section \<open>Names with a range\<close>

definition no_line_end :: "jstr \<Rightarrow> bool" where
  "no_line_end s \<longleftrightarrow> \<not> list_ex line_end s"

text \<open>\<open>^(.+?)(\d+)-(\d+)$\<close>: the shortest beginning after which digits, a dash and digits remain.\<close>

definition dig_range :: "jstr \<Rightarrow> (jstr \<times> jstr) option" where
  "dig_range s =
     (case dropWhile is_digit s of
        [] \<Rightarrow> None
      | d # b \<Rightarrow>
          if d = 45 \<and> takeWhile is_digit s \<noteq> [] \<and> b \<noteq> [] \<and> list_all is_digit b then Some (takeWhile is_digit s, b) else None)"

definition range_name :: "jstr \<Rightarrow> (jstr \<times> jstr \<times> jstr) option" where
  "range_name s =
     (case find (\<lambda>i. dig_range (drop i s) \<noteq> None) [1..<length s] of
        None \<Rightarrow> None
      | Some i \<Rightarrow> if no_line_end (take i s) then map_option (\<lambda>(a, b). (take i s, a, b)) (dig_range (drop i s)) else None)"

section \<open>A pattern given in place\<close>

text \<open>\<open>/.+/\<close>: from the first stroke to the last; what is outside of it are the flags.\<close>

definition literal_parts :: "jstr \<Rightarrow> (jstr \<times> jstr) option" where
  "literal_parts s =
     (let r = dropWhile (\<lambda>u. u \<noteq> 47) s; back = rev (tl r);
          src = rev (tl (dropWhile (\<lambda>u. u \<noteq> 47) back))
      in if r = [] \<or> 47 \<notin> set (tl r) \<or> src = [] then None
         else Some (src, takeWhile (\<lambda>u. u \<noteq> 47) s @ rev (takeWhile (\<lambda>u. u \<noteq> 47) back)))"

section \<open>Types made from others\<close>

definition mgi :: "nat \<Rightarrow> bool" where
  "mgi u \<longleftrightarrow> u \<in> {109, 103, 105}"

fun slash_matches :: "jstr \<Rightarrow> jstr list" where
  "slash_matches [] = []"
| "slash_matches (u # r) = (if u = 47 then (u # takeWhile mgi r) # slash_matches r else slash_matches r)"

fun strip_flags :: "bool \<Rightarrow> jstr \<Rightarrow> jstr" where
  "strip_flags b [] = []"
| "strip_flags b (u # r) =
     (if u = 47 then u # strip_flags True r else if b \<and> mgi u then strip_flags True r else u # strip_flags False r)"

definition drop_first :: "jstr \<Rightarrow> jstr" where
  "drop_first s = (case s of u # r \<Rightarrow> if u = 47 then r else s | [] \<Rightarrow> [])"

definition drop_last :: "jstr \<Rightarrow> jstr" where
  "drop_last s = (if s \<noteq> [] \<and> last s = 47 then butlast s else s)"

definition braces :: "jstr \<Rightarrow> jstr \<Rightarrow> jstr" where
  "braces m n = 123 # m @ 44 # n @ [125]"

text \<open>
  The source of the type \<open>m-n\<close> from that of the type with the range \<open>a-b\<close>, with its flags: its text
  between strokes is taken apart, the bounds are replaced, and the strokes removed.
\<close>

definition new_source :: "jstr \<Rightarrow> jstr \<Rightarrow> jstr \<Rightarrow> jstr \<Rightarrow> jstr \<Rightarrow> jstr \<times> jstr" where
  "new_source src a b m n =
     (let str = 47 # src @ [47]; param = replace1 (slash_matches str ! 1) [47] []
      in (drop_last (drop_first (replace_all (strip_flags False str) (braces a b) (braces m n))), param))"

text \<open>The first type of the table whose name differs in its range only.\<close>

definition base_type :: "vtype jobj \<Rightarrow> jstr \<Rightarrow> (vtype \<times> jstr \<times> jstr) option" where
  "base_type T x =
     (case find (\<lambda>(k, t). case range_name k of None \<Rightarrow> False | Some (y, a, b) \<Rightarrow> y = x) T of
        None \<Rightarrow> None
      | Some (k, t) \<Rightarrow> map_option (\<lambda>(y, a, b). (t, a, b)) (range_name k))"

text \<open>
  The first half of \<open>_regcheck\<close>: the table afterwards, whether the value is accepted, and a message. No
  value stands for an exception: a pattern that \<open>RegExp\<close> refuses.
\<close>

definition test_source :: "vtype jobj \<Rightarrow> jstr \<Rightarrow> jstr \<Rightarrow> (vtype jobj \<times> bool \<times> jstr option) option" where
  "test_source T src v = (case rx_compile src of None \<Rightarrow> None | Some r \<Rightarrow> Some (T, rx_test r v, None))"

definition regtype :: "vtype jobj \<Rightarrow> jstr \<Rightarrow> jstr \<Rightarrow> (vtype jobj \<times> bool \<times> jstr option) option" where
  "regtype T d v =
     (case literal_parts d of
        Some (src, flags) \<Rightarrow> if flags = [] then test_source T src v else None
      | None \<Rightarrow>
          (case obj_get T d of
             Some (DtFun f) \<Rightarrow>
               (case f v of Accepts \<Rightarrow> Some (T, True, None) | Refuses \<Rightarrow> Some (T, False, None)
                | Says msg \<Rightarrow> Some (T, False, Some msg))
           | Some (DtRx src) \<Rightarrow> test_source T src v
           | None \<Rightarrow>
               (case range_name d of
                  None \<Rightarrow> Some (T, False, Some tipmsg_undef)
                | Some (x, m, n) \<Rightarrow>
                    (case base_type T x of
                       None \<Rightarrow> Some (T, False, None)
                     | Some (DtFun f, _) \<Rightarrow> None
                     | Some (DtRx src, a, b) \<Rightarrow>
                         (case new_source src a b m n of (src', flags) \<Rightarrow>
                            if flags = [] then test_source (obj_put d (DtRx src') T) src' v else None)))))"

section \<open>The attribute datatype\<close>

text \<open>
  \<open>parseDatatype\<close>: the types are found one after the other, patterns in strokes or words; what is
  left between them are the separators.
\<close>

definition type_unit :: "nat \<Rightarrow> bool" where
  "type_unit u \<longleftrightarrow> word_unit u \<or> u = 42 \<or> u = 45"

text \<open>The end of a pattern that begins here: the first stroke after which flags and a separator follow.\<close>

definition pattern_end :: "jstr \<Rightarrow> nat option" where
  "pattern_end s =
     (case find (\<lambda>j. s ! j = 47 \<and> no_line_end (take j s) \<and>
                 (case dropWhile mgi (drop (j + 1) s) of [] \<Rightarrow> True | u # _ \<Rightarrow> u = 44 \<or> u = 124 \<or> js_space u))
            [2..<length s] of
        None \<Rightarrow> None
      | Some j \<Rightarrow> Some (j + 1 + length (takeWhile mgi (drop (j + 1) s))))"

function scan_types :: "jstr \<Rightarrow> jstr list \<times> jstr" where
  "scan_types [] = ([], [])"
| "scan_types (u # r) =
     (let s = u # r; word = takeWhile type_unit s
      in case (if u = 47 then pattern_end s else None) of
           Some j \<Rightarrow> (case scan_types (drop (max 1 j) s) of (ts, rest) \<Rightarrow> (take j s # ts, rest))
         | None \<Rightarrow>
             if word \<noteq> [] then (case scan_types (drop (length word) s) of (ts, rest) \<Rightarrow> (word # ts, rest))
             else (case scan_types r of (ts, rest) \<Rightarrow> (ts, u # rest)))"
  by pat_completeness auto
termination
  by (relation "measure length") (auto simp: Let_def)

fun group_types :: "jstr \<Rightarrow> jstr list \<Rightarrow> jstr option list list \<Rightarrow> jstr option list list" where
  "group_types [] ts arr = arr"
| "group_types (u # us) ts arr =
     (let t = (case ts of [] \<Rightarrow> None | x # _ \<Rightarrow> Some x)
      in group_types us (tl ts)
           (if u = 124 then arr @ [[t]] else butlast arr @ [last arr @ [t]]))"

text \<open>No value where no type is found: the code reads the first of them.\<close>

definition parseDatatype :: "jstr \<Rightarrow> jstr option list list option" where
  "parseDatatype s =
     (case scan_types s of
        ([], _) \<Rightarrow> None
      | (t # ts, rest) \<Rightarrow> Some (group_types (filter (\<lambda>u. \<not> js_space u) rest) ts [[Some t]]))"

section \<open>The field that is checked\<close>

text \<open>
  The attributes of a field: its name, whether it is a box, a radio button or a select list, the types,
  the field it must repeat (\<open>recheck\<close>), whether it may be empty (\<open>ignore\<close>), its default text (\<open>tip\<close>), its
  messages, the label beside it, and the mark of a check (\<open>cked\<close>). The table of types and the messages
  the form has made up go with it.
\<close>

record vobj =
  vo_name :: jstr
  vo_box :: bool
  vo_types :: jstr
  vo_recheck :: "jstr option"
  vo_ignore :: bool
  vo_tip :: "jstr option"
  vo_nullmsg :: "jstr option"
  vo_errormsg :: "jstr option"
  vo_sucmsg :: "jstr option"
  vo_label :: jstr
  vo_cked :: bool

record vctx =
  vc_types :: "vtype jobj"
  vc_w :: "jstr jobj"

definition isEmpty :: "'a vobj_scheme \<Rightarrow> jstr \<Rightarrow> bool" where
  "isEmpty ob v \<longleftrightarrow> v = [] \<or> v = js_trim (case vo_tip ob of None \<Rightarrow> [] | Some t \<Rightarrow> t)"

text \<open>\<open>a || b\<close> where \<open>a\<close> may be missing or the empty text.\<close>

definition or_text :: "jstr option \<Rightarrow> jstr \<Rightarrow> jstr" where
  "or_text a b = (case a of None \<Rightarrow> b | Some t \<Rightarrow> if t = [] then b else t)"

section \<open>The message for an empty value\<close>

definition cjk :: "nat \<Rightarrow> bool" where
  "cjk u \<longleftrightarrow> (19968 \<le> u \<and> u \<le> 40869) \<or> (63744 \<le> u \<and> u \<le> 64045)"

definition letter :: "nat \<Rightarrow> bool" where
  "letter u \<longleftrightarrow> (65 \<le> u \<and> u \<le> 90) \<or> (97 \<le> u \<and> u \<le> 122)"

text \<open>The label: white space goes unless a letter follows, then everything but letters and spaces.\<close>

fun close_up :: "jstr \<Rightarrow> jstr" where
  "close_up [] = []"
| "close_up (u # r) = (if js_space u \<and> \<not> (r \<noteq> [] \<and> letter (hd r)) then close_up r else u # close_up r)"

definition label_text :: "jstr \<Rightarrow> jstr" where
  "label_text s = filter (\<lambda>u. cjk u \<or> letter u \<or> js_space u) (close_up s)"

text \<open>
  The replacements in the text \<open>s\<close>, whose two braces are \<open>{fill in|choose}\<close> and \<open>{0|information}\<close>: a
  pattern with a greedy middle reaches from its beginning to the last brace that closes.
\<close>

definition before_last :: "nat \<Rightarrow> jstr \<Rightarrow> (jstr \<times> jstr) option" where
  "before_last u s =
     (if u \<in> set s then Some (rev (tl (dropWhile (\<lambda>x. x \<noteq> u) (rev s))), rev (takeWhile (\<lambda>x. x \<noteq> u) (rev s))) else None)"

definition zero_brace :: "jstr \<Rightarrow> (jstr \<times> jstr \<times> jstr) option" where
  "zero_brace s =
     (case index_at [123, 48, 124] s of
        None \<Rightarrow> None
      | Some i \<Rightarrow> map_option (\<lambda>(mid, r). (take i s, mid, r)) (before_last 125 (drop (i + 3) s)))"

definition replace_zero :: "jstr \<Rightarrow> (jstr \<Rightarrow> jstr) \<Rightarrow> jstr" where
  "replace_zero s f = (case zero_brace s of None \<Rightarrow> s | Some (a, mid, r) \<Rightarrow> if mid = [] then s else a @ f mid @ r)"

definition replace_brace :: "jstr \<Rightarrow> (jstr \<Rightarrow> jstr) \<Rightarrow> jstr" where
  "replace_brace s f =
     (case index_at [123] s of
        None \<Rightarrow> s
      | Some i \<Rightarrow>
          (case before_last 125 (drop (i + 1) s) of
             None \<Rightarrow> s
           | Some (mid, r) \<Rightarrow> if mid = [] then s else take i s @ f mid @ r))"

text \<open>\<open>{(.+)|(.+)}\<close>: one of the two halves, or the brace as it is.\<close>

definition brace_half :: "bool \<Rightarrow> jstr \<Rightarrow> jstr" where
  "brace_half snd_half mid =
     (case before_last 124 mid of
        None \<Rightarrow> 123 # mid @ [125]
      | Some (a, b) \<Rightarrow> if a = [] \<or> b = [] then 123 # mid @ [125] else if snd_half then b else a)"

definition getNullmsg :: "'a vobj_scheme \<Rightarrow> 'a vobj_scheme \<times> jstr" where
  "getNullmsg ob =
     (let label = label_text (vo_label ob); s = tipmsg_s
      in if label \<noteq> [] \<and> vo_recheck ob \<noteq> None \<and> vo_recheck ob \<noteq> Some [] then
           (let msg = replace_brace (replace_zero s (\<lambda>_. label)) (\<lambda>_. []) in (ob\<lparr>vo_nullmsg := Some msg\<rparr>, msg))
         else
           (let s = (if label \<noteq> [] then replace_zero s (\<lambda>_. label)
                     else if vo_box ob then replace_zero s (\<lambda>_. []) else replace_zero s (\<lambda>mid. mid));
                msg = replace_brace s (brace_half (vo_box ob))
            in (ob\<lparr>vo_nullmsg := Some msg\<rparr>, msg)))"

section \<open>The message for a wrong value\<close>

text \<open>
  \<open>(.*?)\d+(.+?)\d+(.*)\<close>: the first two numbers of a text are replaced. The texts it is used for hold
  two numbers with other text between them.
\<close>

definition put_numbers :: "jstr \<Rightarrow> jstr \<Rightarrow> jstr \<Rightarrow> jstr" where
  "put_numbers s m n =
     (let no = (\<lambda>u. \<not> is_digit u); r = dropWhile is_digit (dropWhile no s)
      in takeWhile no s @ m @ takeWhile no r @ n @ dropWhile is_digit (dropWhile no r))"

definition w_text :: "jstr jobj \<Rightarrow> jstr \<Rightarrow> jstr option" where
  "w_text w k =
     (case obj_get w k of Some t \<Rightarrow> if t = [] then obj_get tipmsg_w k else Some t | None \<Rightarrow> obj_get tipmsg_w k)"

definition js_undefined :: jstr where
  "js_undefined = js ''undefined''"

definition getErrormsg :: "jstr jobj \<Rightarrow> jstr \<Rightarrow> jstr jobj \<times> jstr" where
  "getErrormsg w d =
     (let (x, m, n) = (case range_name d of None \<Rightarrow> (d, js_undefined, js_undefined) | Some q \<Rightarrow> q);
          names = map fst tipmsg_w @ filter (\<lambda>k. obj_get tipmsg_w k = None) (map fst w)
      in if d \<in> set names then (w, case w_text w d of None \<Rightarrow> js_undefined | Some t \<Rightarrow> t)
         else
           (case find (\<lambda>k. indexOf k x \<noteq> -1 \<and> range_name k \<noteq> None) names of
              None \<Rightarrow> (w, tipmsg_def)
            | Some k \<Rightarrow>
                (let str = put_numbers (case w_text w k of None \<Rightarrow> js_undefined | Some t \<Rightarrow> t) m n
                 in (obj_put d str w, str))))"

section \<open>The check of one value\<close>

text \<open>
  The answer of a check: whether the value passes, the kind of message (2 right, 3 wrong, 4 none)
  and the message. No answer is an exception; what was changed before it stays.
\<close>

record vres =
  vr_passed :: bool
  vr_type :: nat
  vr_info :: "jstr option"

text \<open>\<open>_regcheck\<close>; \<open>other\<close> is the value of the field that has to be repeated, as it stands.\<close>

definition regcheck1 ::
    "(jstr \<Rightarrow> jstr option) \<Rightarrow> jstr \<Rightarrow> vctx \<Rightarrow> 'a vobj_scheme \<Rightarrow> jstr \<Rightarrow> vctx \<times> 'a vobj_scheme \<times> vres option" where
  "regcheck1 other v cx ob d =
     (case regtype (vc_types cx) d v of
        None \<Rightarrow> (cx, ob, None)
      | Some (T, passed, info) \<Rightarrow>
          (let cx = cx\<lparr>vc_types := T\<rparr>
           in if passed then
                (case vo_recheck ob of
                   Some r \<Rightarrow>
                     if r \<noteq> [] \<and> other r \<noteq> Some v then
                       (cx, ob, Some \<lparr>vr_passed = False, vr_type = 3, vr_info = Some (or_text (vo_errormsg ob) tipmsg_reck)\<rparr>)
                     else (cx, ob, Some \<lparr>vr_passed = True, vr_type = 2, vr_info = Some (or_text (vo_sucmsg ob) tipmsg_r)\<rparr>)
                 | None \<Rightarrow> (cx, ob, Some \<lparr>vr_passed = True, vr_type = 2, vr_info = Some (or_text (vo_sucmsg ob) tipmsg_r)\<rparr>))
              else
                (let given = or_text info (or_text (vo_errormsg ob) []);
                     (w, msg) = (if given = [] then getErrormsg (vc_w cx) d else (vc_w cx, given));
                     cx = cx\<lparr>vc_w := w\<rparr>
                 in if isEmpty ob v then
                      (let (ob, msg) = (case vo_nullmsg ob of None \<Rightarrow> getNullmsg ob
                                        | Some t \<Rightarrow> if t = [] then getNullmsg ob else (ob, t))
                       in (cx, ob, Some \<lparr>vr_passed = False, vr_type = 3, vr_info = Some msg\<rparr>))
                    else (cx, ob, Some \<lparr>vr_passed = False, vr_type = 3, vr_info = Some msg\<rparr>))))"

text \<open>All types of an alternative, then the alternatives, as \<open>regcheck\<close> goes through them.\<close>

fun all_types ::
    "(jstr \<Rightarrow> jstr option) \<Rightarrow> jstr \<Rightarrow> jstr option list \<Rightarrow> vctx \<Rightarrow> 'a vobj_scheme \<Rightarrow> vres option \<Rightarrow> vctx \<times> 'a vobj_scheme \<times> vres option" where
  "all_types other v [] cx ob res = (cx, ob, res)"
| "all_types other v (None # ts) cx ob res = (cx, ob, None)"
| "all_types other v (Some t # ts) cx ob res =
     (case regcheck1 other v cx ob t of
        (cx, ob, None) \<Rightarrow> (cx, ob, None)
      | (cx, ob, Some r) \<Rightarrow> if vr_passed r then all_types other v ts cx ob (Some r) else (cx, ob, Some r))"

fun any_types ::
    "(jstr \<Rightarrow> jstr option) \<Rightarrow> jstr \<Rightarrow> jstr option list list \<Rightarrow> vctx \<Rightarrow> 'a vobj_scheme \<Rightarrow> vres option \<Rightarrow> vctx \<times> 'a vobj_scheme \<times> vres option" where
  "any_types other v [] cx ob res = (cx, ob, res)"
| "any_types other v (ts # tss) cx ob res =
     (case all_types other v ts cx ob res of
        (cx, ob, None) \<Rightarrow> (cx, ob, None)
      | (cx, ob, Some r) \<Rightarrow> if vr_passed r then (cx, ob, Some r) else any_types other v tss cx ob (Some r))"

definition regcheck ::
    "(jstr \<Rightarrow> jstr option) \<Rightarrow> jstr \<Rightarrow> vctx \<Rightarrow> 'a vobj_scheme \<Rightarrow> vctx \<times> 'a vobj_scheme \<times> vres option" where
  "regcheck other v cx ob =
     (if vo_ignore ob \<and> isEmpty ob v then
        (cx, ob, Some \<lparr>vr_passed = True, vr_type = 4, vr_info = (if vo_cked ob then Some [] else None)\<rparr>)
      else
        (let ob = ob\<lparr>vo_cked := True\<rparr>
         in case parseDatatype (vo_types ob) of
              None \<Rightarrow> (cx, ob, None)
            | Some tss \<Rightarrow> any_types other v tss cx ob None))"

section \<open>The table never changes what a type means\<close>

text \<open>What a type says of a value, apart from the table.\<close>

definition says :: "vtype jobj \<Rightarrow> jstr \<Rightarrow> jstr \<Rightarrow> (bool \<times> jstr option) option" where
  "says T d v = map_option snd (regtype T d v)"

definition same_types :: "vtype jobj \<Rightarrow> vtype jobj \<Rightarrow> bool" where
  "same_types T T' \<longleftrightarrow> says T' = says T"

lemma same_types_refl [simp]: "same_types T T"
  by (simp add: same_types_def)

lemma same_types_trans: "same_types T U \<Longrightarrow> same_types U W \<Longrightarrow> same_types T W"
  by (simp add: same_types_def)

lemma put_absent: "obj_get T d = None \<Longrightarrow> obj_put d t T = T @ [(d, t)]"
  by (induction T) (auto simp: obj_get_def obj_put_def split: if_splits)

lemma find_append_some: "find P xs = Some x \<Longrightarrow> find P (xs @ ys) = Some x"
  by (induction xs) (auto split: if_splits)

lemma find_append_none: "find P xs = None \<Longrightarrow> find P (xs @ ys) = find P ys"
  by (induction xs) (auto split: if_splits)

lemma says_source: "map_option snd (test_source T src v) = map_option snd (test_source U src v)"
  by (simp add: test_source_def split: option.split)

lemma base_type_put:
  assumes "base_type T x = Some b" "range_name d = Some (x, m, n)"
  shows "base_type (T @ [(d, t)]) y = base_type T y"
proof (cases "find (\<lambda>(k, t). case range_name k of None \<Rightarrow> False | Some (z, a, b) \<Rightarrow> z = y) T")
  case None
  then have "y \<noteq> x" using assms(1) by (auto simp: base_type_def)
  then show ?thesis using None assms(2) by (auto simp: base_type_def find_append_none)
next
  case (Some e)
  then show ?thesis by (simp add: base_type_def find_append_some)
qed

lemma regtype_table:
  assumes "regtype T d v = Some (T', p, i)"
  obtains "T' = T"
  | x m n src a b src' where "literal_parts d = None" "obj_get T d = None" "range_name d = Some (x, m, n)"
      "base_type T x = Some (DtRx src, a, b)" "new_source src a b m n = (src', [])"
      "T' = T @ [(d, DtRx src')]"
  using assms that
  by (auto simp: regtype_def test_source_def put_absent split: option.splits prod.splits if_splits vtype.splits verdict.splits)

lemma types_stay:
  assumes "regtype T d v = Some (T', p, i)"
  shows "same_types T T'"
  using assms
proof (cases rule: regtype_table)
  case (2 x m n src a b src')
  have get: "obj_get T' k = (if k = d then Some (DtRx src') else obj_get T k)" for k
    using 2(2) jo.get_put [of d "DtRx src'" T k] by (simp add: 2(6) put_absent)
  have "says T' k w = says T k w" for k w
  proof (cases "k = d")
    case True
    have "literal_parts k = None" "obj_get T' k = Some (DtRx src')" using True 2 get by auto
    then have "says T' k w = map_option snd (test_source T' src' w)" by (simp add: says_def regtype_def)
    moreover have "says T k w = map_option snd (test_source (obj_put d (DtRx src') T) src' w)"
      using 2 True by (simp add: says_def regtype_def)
    ultimately show ?thesis using says_source by simp
  next
    case False
    then have "obj_get T' k = obj_get T k" using get by simp
    moreover have "base_type T' y = base_type T y" for y
      unfolding 2(6) by (rule base_type_put [OF 2(4) 2(3)])
    ultimately show ?thesis
      by (auto simp: says_def regtype_def test_source_def split: option.split prod.split vtype.split verdict.split)
  qed
  then show ?thesis by (simp add: same_types_def fun_eq_iff)
qed simp

section \<open>What a check means\<close>

definition accepts :: "vtype jobj \<Rightarrow> jstr \<Rightarrow> jstr \<Rightarrow> bool" where
  "accepts T d v \<longleftrightarrow> (case says T d v of None \<Rightarrow> False | Some (p, _) \<Rightarrow> p)"

lemma accepts_stay: "same_types T T' \<Longrightarrow> accepts T' = accepts T"
  by (simp add: same_types_def accepts_def fun_eq_iff)

definition repeats :: "(jstr \<Rightarrow> jstr option) \<Rightarrow> jstr \<Rightarrow> 'a vobj_scheme \<Rightarrow> bool" where
  "repeats other v ob \<longleftrightarrow> (case vo_recheck ob of None \<Rightarrow> True | Some r \<Rightarrow> r = [] \<or> other r = Some v)"

definition all_ok :: "vtype jobj \<Rightarrow> jstr \<Rightarrow> jstr option list \<Rightarrow> bool" where
  "all_ok T v ts \<longleftrightarrow> list_all (\<lambda>t. case t of None \<Rightarrow> False | Some d \<Rightarrow> accepts T d v) ts"

text \<open>
  What a field asks of a value: it is empty and may be so, or all types of one of the alternatives
  accept it, and it is repeated as it should be.
\<close>

definition meets :: "vtype jobj \<Rightarrow> (jstr \<Rightarrow> jstr option) \<Rightarrow> jstr \<Rightarrow> 'a vobj_scheme \<Rightarrow> bool" where
  "meets T other v ob \<longleftrightarrow>
     vo_ignore ob \<and> isEmpty ob v \<or>
     (case parseDatatype (vo_types ob) of None \<Rightarrow> False | Some tss \<Rightarrow> list_ex (all_ok T v) tss) \<and> repeats other v ob"

text \<open>What a check leaves alone: everything but the marks and the message for an empty value.\<close>

definition unmarked :: "'a vobj_scheme \<Rightarrow> 'a vobj_scheme" where
  "unmarked ob = ob\<lparr>vo_cked := False, vo_nullmsg := None\<rparr>"

definition same_field :: "'a vobj_scheme \<Rightarrow> 'a vobj_scheme \<Rightarrow> bool" where
  "same_field ob ob' \<longleftrightarrow> unmarked ob' = unmarked ob"

lemma same_field_refl [simp]: "same_field ob ob"
  by (simp add: same_field_def)

lemma same_field_trans: "same_field a b \<Longrightarrow> same_field b c \<Longrightarrow> same_field a c"
  by (simp add: same_field_def)

lemma same_field_upd [simp]: "same_field ob (ob\<lparr>vo_cked := c\<rparr>)" "same_field ob (ob\<lparr>vo_nullmsg := msg\<rparr>)"
  by (simp_all add: same_field_def unmarked_def)

lemma same_fieldD:
  assumes "same_field ob ob'"
  shows "vo_name ob' = vo_name ob" "vo_types ob' = vo_types ob" "vo_recheck ob' = vo_recheck ob"
    "vo_ignore ob' = vo_ignore ob" "vo_tip ob' = vo_tip ob" "vo_box ob' = vo_box ob" "vo_label ob' = vo_label ob"
    "vobj.more ob' = vobj.more ob"
proof -
  have e: "unmarked ob' = unmarked ob" using assms by (simp add: same_field_def)
  show "vo_name ob' = vo_name ob" using arg_cong [OF e, of vo_name] by (simp add: unmarked_def)
  show "vo_types ob' = vo_types ob" using arg_cong [OF e, of vo_types] by (simp add: unmarked_def)
  show "vo_recheck ob' = vo_recheck ob" using arg_cong [OF e, of vo_recheck] by (simp add: unmarked_def)
  show "vo_ignore ob' = vo_ignore ob" using arg_cong [OF e, of vo_ignore] by (simp add: unmarked_def)
  show "vo_tip ob' = vo_tip ob" using arg_cong [OF e, of vo_tip] by (simp add: unmarked_def)
  show "vo_box ob' = vo_box ob" using arg_cong [OF e, of vo_box] by (simp add: unmarked_def)
  show "vo_label ob' = vo_label ob" using arg_cong [OF e, of vo_label] by (simp add: unmarked_def)
  show "vobj.more ob' = vobj.more ob" using arg_cong [OF e, of vobj.more] by (simp add: unmarked_def)
qed

lemma getNullmsg_field: "same_field ob (fst (getNullmsg ob))"
  by (simp add: getNullmsg_def Let_def)

lemma repeats_field: "same_field ob ob' \<Longrightarrow> repeats other v ob' = repeats other v ob"
  by (simp add: repeats_def same_fieldD)

lemma all_ok_stay: assumes "same_types T T'" shows "all_ok T' = all_ok T"
  by (intro ext) (simp only: all_ok_def accepts_stay [OF assms])

lemma meets_stay:
  assumes "same_types T T'" "same_field ob ob'"
  shows "meets T' other v ob' = meets T other v ob"
  unfolding meets_def isEmpty_def all_ok_stay [OF assms(1)] repeats_field [OF assms(2)] same_fieldD [OF assms(2)] ..

text \<open>One type; the context and the field afterwards mean what they meant before.\<close>

definition kept :: "vctx \<Rightarrow> 'a vobj_scheme \<Rightarrow> vctx \<Rightarrow> 'a vobj_scheme \<Rightarrow> bool" where
  "kept cx ob cx' ob' \<longleftrightarrow> same_types (vc_types cx) (vc_types cx') \<and> same_field ob ob'"

lemma kept_trans: "kept a b c d \<Longrightarrow> kept c d e f \<Longrightarrow> kept a b e f"
  by (auto simp: kept_def intro: same_types_trans same_field_trans)

lemma kept_refl [simp]: "kept cx ob cx ob"
  by (simp add: kept_def)

lemma regcheck1_spec:
  assumes "regcheck1 other v cx ob d = (cx', ob', res)"
  shows "kept cx ob cx' ob' \<and>
    (case res of None \<Rightarrow> says (vc_types cx) d v = None
     | Some r \<Rightarrow> says (vc_types cx) d v \<noteq> None \<and> vr_passed r = (accepts (vc_types cx) d v \<and> repeats other v ob))"
proof (cases "regtype (vc_types cx) d v")
  case None
  then show ?thesis using assms by (auto simp: regcheck1_def says_def)
next
  case (Some q)
  obtain T p i where q: "q = (T, p, i)" by (cases q)
  have t: "same_types (vc_types cx) T" using types_stay Some q by blast
  have a: "says (vc_types cx) d v = Some (p, i)" "accepts (vc_types cx) d v = p"
    using Some q by (simp_all add: says_def accepts_def)
  show ?thesis
  proof (cases p)
    case True
    then show ?thesis using assms Some q t a
      by (auto simp: regcheck1_def Let_def kept_def repeats_def split: option.splits if_splits)
  next
    case False
    then show ?thesis using assms Some q t a getNullmsg_field [of ob]
      by (auto simp: regcheck1_def Let_def kept_def split: option.splits if_splits prod.splits)
  qed
qed

text \<open>The types of an alternative, and the alternatives; where an exception comes from.\<close>

definition sound_type :: "vtype jobj \<Rightarrow> jstr \<Rightarrow> jstr option \<Rightarrow> bool" where
  "sound_type T v t \<longleftrightarrow> (case t of None \<Rightarrow> False | Some d \<Rightarrow> says T d v \<noteq> None)"

lemma sound_stay: assumes "same_types T T'" shows "sound_type T' = sound_type T"
  using assms unfolding same_types_def sound_type_def by (intro ext) (simp split: option.split)

lemma all_types_spec:
  assumes "all_types other v ts cx ob res = (cx', ob', res')"
  shows "kept cx ob cx' ob' \<and>
    (case res' of None \<Rightarrow> (ts = [] \<and> res = None) \<or> list_ex (\<lambda>t. \<not> sound_type (vc_types cx) v t) ts
     | Some r \<Rightarrow> if ts = [] then res = Some r
        else vr_passed r = (all_ok (vc_types cx) v ts \<and> repeats other v ob))"
  using assms
proof (induction other v ts cx ob res rule: all_types.induct)
  case (1 other v cx ob res)
  then show ?case by (auto split: option.split)
next
  case (2 other v ts cx ob res)
  then show ?case by (auto simp: sound_type_def)
next
  case (3 other v t ts cx ob res)
  obtain cx1 ob1 q where q: "regcheck1 other v cx ob t = (cx1, ob1, q)" by (cases "regcheck1 other v cx ob t")
  note s = regcheck1_spec [OF q]
  show ?case
  proof (cases q)
    case None
    then show ?thesis using "3.prems" s q by (auto simp: sound_type_def)
  next
    case (Some r)
    show ?thesis
    proof (cases "vr_passed r")
      case False
      then show ?thesis using "3.prems" s q Some by (auto simp: all_ok_def)
    next
      case True
      then have e: "all_types other v ts cx1 ob1 (Some r) = (cx', ob', res')" using "3.prems" q Some by simp
      have k: "kept cx ob cx1 ob1" using s by simp
      then have st: "same_types (vc_types cx) (vc_types cx1)" "same_field ob ob1" by (simp_all add: kept_def)
      have a: "accepts (vc_types cx) t v" "repeats other v ob" using s Some True by simp_all
      have k': "kept cx ob cx' ob'"
        using "3.IH" [OF q [symmetric] refl Some True e] kept_trans [OF k] by blast
      show ?thesis
        using "3.IH" [OF q [symmetric] refl Some True e] k' a True
        by (cases ts) (auto simp: sound_stay [OF st(1)] all_ok_stay [OF st(1)] repeats_field [OF st(2)] all_ok_def
            split: option.splits)
    qed
  qed
qed

lemma any_types_spec:
  assumes "any_types other v tss cx ob res = (cx', ob', res')" "list_all (\<lambda>ts. ts \<noteq> []) tss" "tss \<noteq> []"
  shows "kept cx ob cx' ob' \<and>
    (case res' of None \<Rightarrow> list_ex (list_ex (\<lambda>t. \<not> sound_type (vc_types cx) v t)) tss
     | Some r \<Rightarrow> vr_passed r = (list_ex (all_ok (vc_types cx) v) tss \<and> repeats other v ob))"
  using assms
proof (induction other v tss cx ob res rule: any_types.induct)
  case (2 other v ts tss cx ob res)
  obtain cx1 ob1 q where q: "all_types other v ts cx ob res = (cx1, ob1, q)" by (cases "all_types other v ts cx ob res")
  note s = all_types_spec [OF q]
  have ne: "ts \<noteq> []" using "2.prems" by simp
  show ?case
  proof (cases q)
    case None
    then show ?thesis using "2.prems"(1) s q ne by auto
  next
    case (Some r)
    have r: "vr_passed r = (all_ok (vc_types cx) v ts \<and> repeats other v ob)" using s Some ne by simp
    show ?thesis
    proof (cases "vr_passed r \<or> tss = []")
      case True
      then show ?thesis using "2.prems"(1) s q Some r by auto
    next
      case False
      then have e: "any_types other v tss cx1 ob1 (Some r) = (cx', ob', res')" using "2.prems"(1) q Some by simp
      have k: "kept cx ob cx1 ob1" using s by simp
      then have st: "same_types (vc_types cx) (vc_types cx1)" "same_field ob ob1" by (simp_all add: kept_def)
      have ih: "kept cx1 ob1 cx' ob' \<and>
        (case res' of None \<Rightarrow> list_ex (list_ex (\<lambda>t. \<not> sound_type (vc_types cx1) v t)) tss
         | Some r \<Rightarrow> vr_passed r = (list_ex (all_ok (vc_types cx1) v) tss \<and> repeats other v ob1))"
        using "2.IH" [OF q [symmetric] refl Some] False e "2.prems"(2) by simp
      then have k': "kept cx ob cx' ob'" using kept_trans [OF k] by blast
      show ?thesis
        using ih k' r False
        by (auto simp: sound_stay [OF st(1)] all_ok_stay [OF st(1)] repeats_field [OF st(2)] split: option.splits)
    qed
  qed
qed simp

lemma group_types_nonempty:
  "arr \<noteq> [] \<Longrightarrow> list_all (\<lambda>ts. ts \<noteq> []) arr \<Longrightarrow>
    group_types us ts arr \<noteq> [] \<and> list_all (\<lambda>ts. ts \<noteq> []) (group_types us ts arr)"
proof (induction us ts arr rule: group_types.induct)
  case (2 u us ts arr)
  show ?case
    unfolding group_types.simps Let_def
    by (rule "2.IH" [OF refl]) (use "2.prems" in \<open>auto simp: list_all_iff dest: in_set_butlastD\<close>)
qed simp

lemma parse_nonempty: "parseDatatype s = Some tss \<Longrightarrow> tss \<noteq> [] \<and> list_all (\<lambda>ts. ts \<noteq> []) tss"
  by (auto simp: parseDatatype_def group_types_nonempty split: prod.splits list.splits)

text \<open>A field whose types are found and can be compiled.\<close>

definition sound_field :: "vtype jobj \<Rightarrow> jstr \<Rightarrow> 'a vobj_scheme \<Rightarrow> bool" where
  "sound_field T v ob \<longleftrightarrow>
     (case parseDatatype (vo_types ob) of None \<Rightarrow> False | Some tss \<Rightarrow> list_all (list_all (sound_type T v)) tss)"

lemma sound_field_stay:
  assumes "same_types T T'" "same_field ob ob'"
  shows "sound_field T' v ob' = sound_field T v ob"
  unfolding sound_field_def sound_stay [OF assms(1)] same_fieldD(2) [OF assms(2)] ..

lemma regcheck_spec:
  assumes "regcheck other v cx ob = (cx', ob', res)"
  shows "kept cx ob cx' ob' \<and>
    (case res of None \<Rightarrow> \<not> sound_field (vc_types cx) v ob | Some r \<Rightarrow> vr_passed r = meets (vc_types cx) other v ob)"
proof (cases "vo_ignore ob \<and> isEmpty ob v")
  case True
  then show ?thesis using assms by (auto simp: regcheck_def meets_def)
next
  case False
  show ?thesis
  proof (cases "parseDatatype (vo_types ob)")
    case None
    then show ?thesis using assms False by (auto simp: regcheck_def Let_def sound_field_def kept_def)
  next
    case (Some tss)
    let ?ob = "ob\<lparr>vo_cked := True\<rparr>"
    have e: "any_types other v tss cx ?ob None = (cx', ob', res)" using assms False Some by (simp add: regcheck_def Let_def)
    have "kept cx ob cx ?ob" by (simp add: kept_def)
    moreover note parse_nonempty [OF Some]
    ultimately show ?thesis
      using any_types_spec [OF e] kept_trans [of cx ob cx ?ob] False Some
      by (auto simp: meets_def sound_field_def repeats_def list_ex_iff list_all_iff split: option.splits)
  qed
qed

text \<open>Checks, one after the other, with the table they leave behind.\<close>

definition checks :: "((jstr \<Rightarrow> jstr option) \<times> jstr \<times> 'a vobj_scheme) list \<Rightarrow> vctx \<Rightarrow> vctx" where
  "checks bs cx = fold (\<lambda>(other, v, ob) cx. fst (regcheck other v cx ob)) bs cx"

lemma checks_keep_types: "same_types (vc_types cx) (vc_types (checks bs cx))"
proof (induction bs rule: rev_induct)
  case (snoc b bs)
  obtain other v ob where b: "b = (other, v, ob)" by (cases b)
  obtain cx1 ob1 q where q: "regcheck other v (checks bs cx) ob = (cx1, ob1, q)" by (cases "regcheck other v (checks bs cx) ob")
  then have "checks (bs @ [b]) cx = cx1" by (simp add: checks_def b)
  moreover have "same_types (vc_types (checks bs cx)) (vc_types cx1)" using regcheck_spec [OF q] by (simp add: kept_def)
  ultimately show ?case using snoc same_types_trans by metis
qed (simp add: checks_def)

text \<open>
  C8: the loops over the types of a field decide what the attribute says: whatever fields were checked
  before, and so whatever the table has grown to, a value passes exactly if it is empty and may be,
  or all types of an alternative accept it, as the table was at the start, and it is repeated as
  it should be; a field whose types can be compiled is never left without an answer.
\<close>

theorem field_check_meaning:
  assumes "regcheck other v (checks bs cx) ob = (cx', ob', res)"
  shows "(case res of None \<Rightarrow> \<not> sound_field (vc_types cx) v ob
    | Some r \<Rightarrow> vr_passed r = meets (vc_types cx) other v ob) \<and> same_field ob ob'"
  using regcheck_spec [OF assms] checks_keep_types [of cx bs]
    sound_field_stay [of "vc_types cx" "vc_types (checks bs cx)" ob ob v]
    meets_stay [of "vc_types cx" "vc_types (checks bs cx)" ob ob other v]
  by (auto simp: kept_def split: option.splits)

end
