(* ===== verification/Validform.thy ===== *)
theory Validform
  imports Valid_Rules
begin

text \<open>
  The form that is checked and sent (\<open>static/plug-in/js/Validform_v5.3.2.js\<close>): what a field shows, the check
  of a field that loses the focus, with the request that lets the server check it, the check of the
  whole form and its sending, the answers, and the reset. A form is a record, the user, the server and
  the page's own calls are events. The functions a page may give (\<open>beforeCheck\<close>, \<open>beforeSubmit\<close>, \<open>callback\<close>) are
  known by their answers, which come with the event. A field that must repeat another is not
  repeated itself. The focus that the code gives to a wrong field comes as events \<open>Blur\<close> and \<open>Focus\<close> after
  the click. The plug-ins the form can start (uploads, calendars) are not part of it, and the
  options of \<open>$.ajax\<close> a page can pass on are not used by the pages.
\<close>

section \<open>The form\<close>

datatype vkind = PlainInput | Radio | Check

text \<open>
  A field, on top of its attributes: what kind of element it is (\<open>vi_typed\<close>: it has the attribute
  \<open>datatype\<close>), its value and default, the address at which the server checks it, whether it is hidden or
  left out (\<open>dataIgnore\<close>), the value checked last, the state of the server's check (\<open>validform_valid\<close>) with
  the value sent, whether the form waits for it, its request, its error class, and the message beside
  it with its kind (1 waiting, 2 right, 3 wrong, 4 none).
\<close>

record vinput = vobj +
  vi_typed :: bool
  vi_input :: bool
  vi_kind :: vkind
  vi_val :: jstr
  vi_default :: jstr
  vi_url :: "jstr option"
  vi_hidden :: bool
  vi_skip :: bool
  vi_last :: "jstr option"
  vi_valid :: jstr
  vi_ckvalue :: "jstr option"
  vi_subpost :: bool
  vi_air :: "nat option"
  vi_err :: bool
  vi_mark :: "(jstr \<times> nat) option"

record vbox =
  bx_radio :: bool
  bx_name :: jstr
  bx_on :: bool
  bx_default :: bool
  bx_value :: jstr

text \<open>Where messages are shown: 1 a box on top, 2 to 4 beside the field, or a function of the page.\<close>

datatype vtip = PopUp | Beside2 | Beside3 | Beside4 | TipFun

record vset =
  vs_tiptype :: vtip
  vs_sweep :: bool
  vs_all :: bool
  vs_once :: bool
  vs_ajax :: bool
  vs_hidden :: bool
  vs_dragonfly :: bool

datatype vstatus = Normal | Posting | Posted

text \<open>
  What goes to the server: a value to be checked, the form by a request or by the browser, and the form
  by the browser after an exception. The fields and boxes are those at that moment.
\<close>

datatype vsent =
    Ask nat nat jstr
  | Post nat "vinput list" "vbox list"
  | Native "vinput list" "vbox list"
  | SentBroken "vinput list" "vbox list"

record vform =
  fm_fields :: "vinput list"
  fm_boxes :: "vbox list"
  fm_set :: vset
  fm_status :: vstatus
  fm_cx :: vctx
  fm_next :: nat
  fm_air :: "(nat \<times> nat) list"
  fm_posts :: "nat list"
  fm_log :: "vsent list"
  fm_pop :: jstr
  fm_shown :: bool
  fm_errorobj :: "nat option"
  fm_tips :: "(nat option \<times> jstr \<times> nat) list"
  fm_focus :: "nat option"
  fm_left :: bool

definition upd_field :: "nat \<Rightarrow> (vinput \<Rightarrow> vinput) \<Rightarrow> vform \<Rightarrow> vform" where
  "upd_field i g f = f\<lparr>fm_fields := (fm_fields f)[i := g (fm_fields f ! i)]\<rparr>"

section \<open>Values\<close>

definition getValue :: "vbox list \<Rightarrow> vinput \<Rightarrow> jstr" where
  "getValue bs x =
     (let raw = (case vi_kind x of
            Radio \<Rightarrow> (case find (\<lambda>b. bx_radio b \<and> bx_name b = vo_name x \<and> bx_on b) bs of None \<Rightarrow> [] | Some b \<Rightarrow> bx_value b)
          | Check \<Rightarrow> concat (map (\<lambda>b. bx_value b @ [44]) (filter (\<lambda>b. \<not> bx_radio b \<and> bx_name b = vo_name x \<and> bx_on b) bs))
          | PlainInput \<Rightarrow> vi_val x);
          v = js_trim raw
      in if isEmpty x v then [] else v)"

text \<open>The value, as it stands, of the first input of a name.\<close>

definition other_val :: "vinput list \<Rightarrow> jstr \<Rightarrow> jstr option" where
  "other_val xs r = map_option vi_val (find (\<lambda>x. vi_input x \<and> vo_name x = r) xs)"

definition value_at :: "nat \<Rightarrow> vform \<Rightarrow> jstr" where
  "value_at i f = getValue (fm_boxes f) (fm_fields f ! i)"

text \<open>The check of field \<open>i\<close> by its types, with what it leaves in the form.\<close>

definition reg_at :: "nat \<Rightarrow> vform \<Rightarrow> vform \<times> vres option" where
  "reg_at i f =
     (case regcheck (other_val (fm_fields f)) (value_at i f) (fm_cx f) (fm_fields f ! i) of
        (cx, x, res) \<Rightarrow> (f\<lparr>fm_fields := (fm_fields f)[i := x], fm_cx := cx\<rparr>, res))"

section \<open>Messages\<close>

datatype vtrigger = ByCheck | ByAjax | ByForm

text \<open>\<open>showmsg\<close>; the object is a field or the form itself, beside which there is no place for a message.\<close>

definition showmsg :: "jstr option \<Rightarrow> nat option \<Rightarrow> nat \<Rightarrow> vtrigger \<Rightarrow> vform \<Rightarrow> vform" where
  "showmsg m ob kind trig f =
     (case m of
        None \<Rightarrow> f
      | Some msg \<Rightarrow>
          (let tip = vs_tiptype (fm_set f);
               faulty = (case ob of None \<Rightarrow> False | Some i \<Rightarrow> vi_err (fm_fields f ! i))
           in if trig = ByCheck \<and> vs_sweep (fm_set f) \<and> (\<not> faulty \<or> tip = TipFun) then f
              else if tip = TipFun then f\<lparr>fm_tips := fm_tips f @ [(ob, msg, kind)]\<rparr>
              else
                (let f = (if tip = PopUp \<or> trig = ByAjax \<and> tip \<noteq> Beside4 then f\<lparr>fm_pop := msg\<rparr> else f);
                     f = (if tip = PopUp \<and> trig \<noteq> ByCheck \<and> kind \<noteq> 2 \<or> trig = ByAjax \<and> tip \<noteq> Beside4
                          then f\<lparr>fm_shown := True\<rparr> else f)
                 in case ob of
                      None \<Rightarrow> f
                    | Some i \<Rightarrow> if tip = PopUp then f else upd_field i (vi_mark_update (\<lambda>_. Some (msg, kind))) f)))"

section \<open>The check of a field\<close>

text \<open>\<open>abort\<close>: a request that is under way ends with the error \<open>abort\<close>, whose handler runs at once.\<close>

definition abort :: "nat \<Rightarrow> vform \<Rightarrow> vform" where
  "abort i f =
     (case vi_air (fm_fields f ! i) of
        None \<Rightarrow> f
      | Some k \<Rightarrow>
          if (k, i) \<in> set (fm_air f)
          then (upd_field i (\<lambda>x. x\<lparr>vi_valid := js ''abort'', vi_air := None\<rparr>) f)\<lparr>fm_air := removeAll (k, i) (fm_air f)\<rparr>
          else f)"

definition filled :: "jstr option \<Rightarrow> bool" where
  "filled t \<longleftrightarrow> t \<noteq> None \<and> t \<noteq> Some []"

definition left_out :: "vset \<Rightarrow> vinput \<Rightarrow> bool" where
  "left_out st x \<longleftrightarrow> vs_hidden st \<and> vi_hidden x \<or> vi_skip x"

definition ask_server :: "nat \<Rightarrow> jstr \<Rightarrow> vform \<Rightarrow> vform" where
  "ask_server i v f =
     (upd_field i (\<lambda>x. x\<lparr>vi_air := Some (fm_next f)\<rparr>) f)
       \<lparr>fm_air := fm_air f @ [(fm_next f, i)], fm_log := fm_log f @ [Ask (fm_next f) i v], fm_next := fm_next f + 1\<rparr>"

datatype vout = Passed | Failed | Asked

text \<open>
  \<open>check\<close>: the value of field \<open>i\<close>, for the sake of sending the form (\<open>sub\<close>) or not, with messages or
  without (\<open>quiet\<close>). No outcome is an exception.
\<close>

definition check_ajax :: "bool \<Rightarrow> nat \<Rightarrow> jstr \<Rightarrow> vform \<Rightarrow> vform" where
  "check_ajax sub i v f =
     (let f = upd_field i (\<lambda>x. x\<lparr>vi_subpost := sub\<rparr>) f; x = fm_fields f ! i
      in if vi_valid x = js ''posting'' \<and> vi_ckvalue x = Some v then f
         else
           (let f = upd_field i (\<lambda>x. x\<lparr>vi_valid := js ''posting'', vi_ckvalue := Some v\<rparr>) f;
                f = showmsg (Some tipmsg_c) (Some i) 1 ByCheck f;
                f = abort i f
            in ask_server i v f))"

definition check :: "bool \<Rightarrow> bool \<Rightarrow> nat \<Rightarrow> vform \<Rightarrow> vform \<times> vout option" where
  "check sub quiet i f =
     (let st = fm_set f; x = fm_fields f ! i; v = value_at i f
      in if left_out st x then (f, Some Passed)
         else if vs_dragonfly st \<and> \<not> vo_cked x \<and> isEmpty x v \<and> \<not> vo_ignore x then (f, Some Failed)
         else
           (case reg_at i f of
              (f, None) \<Rightarrow> (f, None)
            | (f, Some r) \<Rightarrow>
                if vi_last x = Some v \<and> \<not> filled (vo_recheck x) \<and> \<not> sub
                then (f, Some (if vr_passed r then Passed else Failed))
                else
                  (let f = (upd_field i (\<lambda>x. x\<lparr>vi_last := Some v\<rparr>) f)\<lparr>fm_errorobj := Some i\<rparr>
                   in if \<not> vr_passed r then
                        (let f = abort i f
                         in if quiet then (f, Some Failed)
                            else
                              (let f = showmsg (vr_info r) (Some i) (vr_type r) ByCheck f
                               in (if vs_sweep st then f else upd_field i (\<lambda>x. x\<lparr>vi_err := True\<rparr>) f, Some Failed)))
                      else if filled (vi_url x) \<and> \<not> isEmpty x v \<and> \<not> quiet then (check_ajax sub i v f, Some Asked)
                      else
                        (let f = (if filled (vi_url x) \<and> isEmpty x v
                                  then upd_field i (\<lambda>x. x\<lparr>vi_valid := js ''true''\<rparr>) (abort i f) else f);
                             f = (if quiet then f
                                  else upd_field i (\<lambda>x. x\<lparr>vi_err := False\<rparr>) (showmsg (vr_info r) (Some i) (vr_type r) ByCheck f))
                         in (f\<lparr>fm_errorobj := None\<rparr>, Some Passed)))))"

section \<open>Losing the focus\<close>

text \<open>The default text comes back into an empty field; a field that repeats another has no such handler.\<close>

definition tip_blur :: "nat \<Rightarrow> vform \<Rightarrow> vform" where
  "tip_blur i f =
     (let x = fm_fields f ! i
      in case vo_tip x of
           None \<Rightarrow> f
         | Some t \<Rightarrow> if vo_recheck x = None \<and> js_trim (vi_val x) = [] then upd_field i (\<lambda>x. x\<lparr>vi_val := t\<rparr>) f else f)"

definition tip_focus :: "nat \<Rightarrow> vform \<Rightarrow> vform" where
  "tip_focus i f =
     (let x = fm_fields f ! i
      in if vo_recheck x = None \<and> vo_tip x = Some (vi_val x) then upd_field i (\<lambda>x. x\<lparr>vi_val := []\<rparr>) f else f)"

text \<open>The handlers of a field that nobody repeats.\<close>

definition blur0 :: "bool \<Rightarrow> nat \<Rightarrow> vform \<Rightarrow> vform \<times> bool" where
  "blur0 sub i f =
     (let f = tip_blur i f
      in if vi_typed (fm_fields f ! i) then (case check sub False i f of (f, out) \<Rightarrow> (f, out \<noteq> None)) else (f, True))"

text \<open>The fields that repeat field \<open>i\<close>; they are checked again when the two differ, or have become equal.\<close>

definition repeaters :: "nat \<Rightarrow> vform \<Rightarrow> nat list" where
  "repeaters i f =
     filter (\<lambda>j. vi_input (fm_fields f ! j) \<and> vi_input (fm_fields f ! i) \<and>
         vo_recheck (fm_fields f ! j) = Some (vo_name (fm_fields f ! i))) [0..<length (fm_fields f)]"

fun blur_repeaters :: "(vinput \<Rightarrow> vinput \<Rightarrow> bool) \<Rightarrow> nat \<Rightarrow> nat list \<Rightarrow> vform \<Rightarrow> vform \<times> bool" where
  "blur_repeaters c i [] f = (f, True)"
| "blur_repeaters c i (j # ks) f =
     (if c (fm_fields f ! i) (fm_fields f ! j) then
        (case blur0 False j f of (f, ok) \<Rightarrow> if ok then blur_repeaters c i ks f else (f, False))
      else blur_repeaters c i ks f)"

definition differs :: "vinput \<Rightarrow> vinput \<Rightarrow> bool" where
  "differs x y \<longleftrightarrow> vi_val x \<noteq> vi_val y \<and> vi_val y \<noteq> [] \<and> \<not> (filled (vo_tip y) \<and> vo_tip y = Some (vi_val y))"

definition agrees_with :: "vinput \<Rightarrow> vinput \<Rightarrow> bool" where
  "agrees_with x y \<longleftrightarrow> vi_val x = vi_val y \<and> vi_val x \<noteq> [] \<and> \<not> (filled (vo_tip x) \<and> vo_tip x = Some (vi_val x))"

definition blur :: "bool \<Rightarrow> nat \<Rightarrow> vform \<Rightarrow> vform \<times> bool" where
  "blur sub i f =
     (case blur_repeaters differs i (repeaters i f) f of (f, ok) \<Rightarrow> if ok then blur0 sub i f else (f, False))"

definition keyup :: "nat \<Rightarrow> vform \<Rightarrow> vform" where
  "keyup i f = fst (blur_repeaters agrees_with i (repeaters i f) f)"

text \<open>
  \<open>trigger("blur", ["postform"])\<close>: for the element that has the focus jQuery takes the focus away, and the
  handlers of that event are not told for what it is.
\<close>

definition trigger_blur :: "nat \<Rightarrow> vform \<Rightarrow> vform \<times> bool" where
  "trigger_blur i f =
     (if fm_focus f = Some i then (fst (blur False i (f\<lparr>fm_focus := None\<rparr>)), True) else blur True i f)"

definition lose_focus :: "nat \<Rightarrow> vform \<Rightarrow> vform" where
  "lose_focus i f = fst (blur False i (if fm_focus f = Some i then f\<lparr>fm_focus := None\<rparr> else f))"

definition take_focus :: "nat \<Rightarrow> vform \<Rightarrow> vform" where
  "take_focus i f = tip_focus i (f\<lparr>fm_focus := Some i\<rparr>)"

section \<open>Sending the form\<close>

text \<open>
  The body of the loop over the fields in \<open>submitForm\<close>. A field the server has not confirmed is sent for
  a check, and the form goes on when the answer comes.
\<close>

datatype sfield = FieldOk | FieldBad | FieldRaised

definition submit_field :: "nat \<Rightarrow> vform \<Rightarrow> vform \<times> sfield" where
  "submit_field i f =
     (let x = fm_fields f ! i; v = value_at i f
      in if left_out (fm_set f) x then (f, FieldOk)
         else
           (case reg_at i (f\<lparr>fm_errorobj := Some i\<rparr>) of
              (f, None) \<Rightarrow> (f, FieldRaised)
            | (f, Some r) \<Rightarrow>
                if \<not> vr_passed r then
                  (upd_field i (\<lambda>x. x\<lparr>vi_err := True\<rparr>) (showmsg (vr_info r) (Some i) (vr_type r) ByForm f), FieldBad)
                else if filled (vi_url x) \<and> \<not> isEmpty x v \<and> vi_valid x \<noteq> js ''true'' then
                  (let f = upd_field i (\<lambda>x. x\<lparr>vi_err := True\<rparr>) (showmsg (Some tipmsg_v) (Some i) 3 ByForm f)
                   in case trigger_blur i f of (f, ok) \<Rightarrow> (f, if ok then FieldBad else FieldRaised))
                else
                  (let f = (if filled (vi_url x) \<and> isEmpty x v
                            then upd_field i (\<lambda>x. x\<lparr>vi_valid := js ''true''\<rparr>) (abort i f) else f);
                       f = upd_field i (\<lambda>x. x\<lparr>vi_err := False\<rparr>) (showmsg (vr_info r) (Some i) (vr_type r) ByForm f)
                   in (f\<lparr>fm_errorobj := None\<rparr>, FieldOk))))"

text \<open>The loop: the form, whether it may be sent, and whether an exception has ended it.\<close>

fun submit_loop :: "nat list \<Rightarrow> vform \<Rightarrow> bool \<Rightarrow> vform \<times> bool \<times> bool" where
  "submit_loop [] f flag = (f, flag, False)"
| "submit_loop (i # ks) f flag =
     (case submit_field i f of
        (f, FieldOk) \<Rightarrow> submit_loop ks f flag
      | (f, FieldBad) \<Rightarrow> if vs_all (fm_set f) then submit_loop ks f False else (f, False, False)
      | (f, FieldRaised) \<Rightarrow> (f, flag, True))"

definition typed_fields :: "vform \<Rightarrow> nat list" where
  "typed_fields f = filter (\<lambda>i. vi_typed (fm_fields f ! i)) [0..<length (fm_fields f)]"

definition post_form :: "vform \<Rightarrow> vform" where
  "post_form f =
     (let f = showmsg (Some tipmsg_p) None 1 ByAjax f
      in f\<lparr>fm_posts := fm_posts f @ [fm_next f], fm_log := fm_log f @ [Post (fm_next f) (fm_fields f) (fm_boxes f)],
           fm_next := fm_next f + 1\<rparr>)"

datatype sout = Stay | Go | Raised

text \<open>
  \<open>submitForm\<close>: without a check (\<open>flg\<close>), by a request whatever the settings say (\<open>ajax\<close>), and the answers of
  the page's functions, which are false only when they say so.
\<close>

definition submitForm :: "bool \<Rightarrow> bool \<Rightarrow> bool \<Rightarrow> bool \<Rightarrow> bool \<Rightarrow> vform \<Rightarrow> vform \<times> sout" where
  "submitForm flg ajax before_check before_submit callback f =
     (let st = fm_set f
      in if fm_status f = Posting \<or> vs_once st \<and> fm_status f = Posted \<or> \<not> before_check then (f, Stay)
         else
           (case (if flg then (f, True, False) else submit_loop (typed_fields f) f True) of
              (f, flag, raised) \<Rightarrow>
                if raised then (f, Raised)
                else if \<not> flag \<or> \<not> before_submit then (f, Stay)
                else
                  (let f = f\<lparr>fm_status := Posting\<rparr>
                   in if vs_ajax st \<or> ajax then (post_form f, Stay)
                      else
                        (let f = (if vs_once st then f else f\<lparr>fm_status := Normal\<rparr>)
                         in (f, if callback then Go else Stay)))))"

text \<open>
  The event \<open>submit\<close>: what is not stopped is sent by the browser. When an exception is raised, the browser
  sends the form if it was its own event, and nothing happens if the code had triggered it.
\<close>

definition submit_event :: "bool \<Rightarrow> bool \<Rightarrow> bool \<Rightarrow> bool \<Rightarrow> vform \<Rightarrow> vform" where
  "submit_event own bc bs cb f =
     (case submitForm False False bc bs cb f of
        (f, Stay) \<Rightarrow> f
      | (f, Go) \<Rightarrow> f\<lparr>fm_log := fm_log f @ [Native (fm_fields f) (fm_boxes f)], fm_left := True\<rparr>
      | (f, Raised) \<Rightarrow>
          if own then f\<lparr>fm_log := fm_log f @ [SentBroken (fm_fields f) (fm_boxes f)], fm_left := True\<rparr> else f)"

section \<open>Answers\<close>

text \<open>
  The server answers with a status and a message, with a text that is no JSON, or not at all, with the
  text of the status; the last two come with the message made of them.
\<close>

datatype vanswer = AJson bool "jstr option" | AText jstr jstr | AFail jstr jstr

definition field_success :: "bool \<Rightarrow> jstr option \<Rightarrow> bool \<Rightarrow> bool \<Rightarrow> bool \<Rightarrow> nat \<Rightarrow> vform \<Rightarrow> vform" where
  "field_success y info bc bs cb i f =
     (let f = (if y then
                 (let f = upd_field i (\<lambda>x. x\<lparr>vi_valid := js ''true'', vo_sucmsg := (if filled info then info else vo_sucmsg x)\<rparr>) f;
                      f = showmsg (Some (or_text (vo_sucmsg (fm_fields f ! i)) tipmsg_r)) (Some i) 2 ByCheck f;
                      f = (upd_field i (\<lambda>x. x\<lparr>vi_err := False\<rparr>) f)\<lparr>fm_errorobj := None\<rparr>
                  in if vi_subpost (fm_fields f ! i) then submit_event False bc bs cb f else f)
               else
                 (let f = upd_field i (\<lambda>x. x\<lparr>vi_valid := (case info of None \<Rightarrow> [] | Some t \<Rightarrow> t)\<rparr>) f
                  in upd_field i (\<lambda>x. x\<lparr>vi_err := True\<rparr>) (showmsg info (Some i) 3 ByForm f)))
      in upd_field i (\<lambda>x. x\<lparr>vi_air := None\<rparr>) f)"

definition field_answer :: "nat \<Rightarrow> vanswer \<Rightarrow> bool \<Rightarrow> bool \<Rightarrow> bool \<Rightarrow> vform \<Rightarrow> vform" where
  "field_answer k a bc bs cb f =
     (case map_of (fm_air f) k of
        None \<Rightarrow> f
      | Some i \<Rightarrow>
          (let f = f\<lparr>fm_air := removeAll (k, i) (fm_air f)\<rparr>
           in case a of
                AJson y info \<Rightarrow> field_success y info bc bs cb i f
              | AText t msg \<Rightarrow>
                  if t = js ''y'' then field_success True None bc bs cb i f else field_success False (Some t) bc bs cb i f
              | AFail t msg \<Rightarrow>
                  upd_field i (\<lambda>x. x\<lparr>vi_err := True, vi_valid := t, vi_air := None\<rparr>) (showmsg (Some msg) (Some i) 3 ByForm f)))"

definition post_answer :: "nat \<Rightarrow> vanswer \<Rightarrow> vform \<Rightarrow> vform" where
  "post_answer k a f =
     (if k \<notin> set (fm_posts f) then f
      else
        (let f = f\<lparr>fm_posts := removeAll k (fm_posts f)\<rparr>
         in case a of
              AJson y info \<Rightarrow> showmsg info None (if y then 2 else 3) ByAjax (f\<lparr>fm_status := if y then Posted else Normal\<rparr>)
            | AText t msg \<Rightarrow> (showmsg (Some msg) None 3 ByAjax f)\<lparr>fm_status := Normal\<rparr>
            | AFail t msg \<Rightarrow> (showmsg (Some msg) None 3 ByAjax f)\<lparr>fm_status := Normal\<rparr>))"

section \<open>Reset, and the calls of the page\<close>

definition reset_field :: "vinput \<Rightarrow> vinput" where
  "reset_field x =
     (let x = x\<lparr>vi_val := vi_default x, vi_err := False,
                vi_mark := map_option (\<lambda>(msg, k). (if k = 2 then [] else msg, 4)) (vi_mark x)\<rparr>
      in if vi_typed x then x\<lparr>vo_cked := False, vi_skip := False, vi_last := None\<rparr> else x)"

definition resetForm :: "vform \<Rightarrow> vform" where
  "resetForm f =
     f\<lparr>fm_fields := map reset_field (fm_fields f), fm_boxes := map (\<lambda>b. b\<lparr>bx_on := bx_default b\<rparr>) (fm_boxes f),
       fm_status := Normal\<rparr>"

text \<open>\<open>check\<close> of the form object: all fields are checked, whatever the first ones say.\<close>

fun check_all :: "bool \<Rightarrow> nat list \<Rightarrow> vform \<Rightarrow> vform \<times> bool option" where
  "check_all quiet [] f = (f, Some True)"
| "check_all quiet (i # ks) f =
     (case check False quiet i f of
        (f, None) \<Rightarrow> (f, None)
      | (f, Some out) \<Rightarrow>
          (case check_all quiet ks f of
             (f, None) \<Rightarrow> (f, None)
           | (f, Some flag) \<Rightarrow> (f, Some (out \<noteq> Failed \<and> flag))))"

definition check_form :: "bool \<Rightarrow> vform \<Rightarrow> vform \<times> bool option" where
  "check_form quiet f = check_all quiet (typed_fields f) f"

definition ignore_field :: "nat \<Rightarrow> vform \<Rightarrow> vform" where
  "ignore_field i f = upd_field i (\<lambda>x. x\<lparr>vi_skip := True, vi_err := False\<rparr>) f"

definition unignore_field :: "nat \<Rightarrow> vform \<Rightarrow> vform" where
  "unignore_field i f = upd_field i (\<lambda>x. x\<lparr>vi_skip := False\<rparr>) f"

definition resetStatus :: "vform \<Rightarrow> vform" where
  "resetStatus f = f\<lparr>fm_status := Normal\<rparr>"

definition setStatus :: "vstatus \<Rightarrow> vform \<Rightarrow> vform" where
  "setStatus s f = f\<lparr>fm_status := s\<rparr>"

definition close_pop :: "vform \<Rightarrow> vform" where
  "close_pop f =
     (let f = f\<lparr>fm_shown := False\<rparr>
      in case fm_errorobj f of None \<Rightarrow> f | Some i \<Rightarrow> upd_field i (\<lambda>x. x\<lparr>vi_err := True\<rparr>) f)"

text \<open>\<open>submitForm\<close> and \<open>ajaxPost\<close> of the form object, asked not to check anything.\<close>

definition send_unchecked :: "bool \<Rightarrow> vform \<Rightarrow> vform" where
  "send_unchecked ajax f =
     (case submitForm True ajax True True True f of
        (f, Go) \<Rightarrow> f\<lparr>fm_log := fm_log f @ [Native (fm_fields f) (fm_boxes f)], fm_left := True\<rparr>
      | (f, _) \<Rightarrow> f)"

text \<open>
  The events. A click on a radio button turns the others of its name off. The checks that clicks on
  boxes ask for with a timer are events \<open>Blur\<close>.
\<close>

definition click_box :: "nat \<Rightarrow> bool \<Rightarrow> vform \<Rightarrow> vform" where
  "click_box k on f =
     (let b = fm_boxes f ! k
      in f\<lparr>fm_boxes := map (\<lambda>(j, c). if j = k then c\<lparr>bx_on := on\<rparr>
             else if bx_radio b \<and> bx_radio c \<and> bx_name c = bx_name b \<and> on then c\<lparr>bx_on := False\<rparr> else c)
           (enumerate 0 (fm_boxes f))\<rparr>)"

datatype vevent =
    Type nat jstr
  | ClickBox nat bool
  | Focus nat
  | Blur nat
  | KeyUp nat
  | Submit bool bool bool bool
  | FieldAnswer nat vanswer bool bool bool
  | PostAnswer nat vanswer
  | ClosePop
  | ResetClick
  | StatusReset
  | StatusSet vstatus
  | CheckForm bool
  | Ignore nat
  | Unignore nat
  | SendUnchecked bool

definition form_event :: "vevent \<Rightarrow> vform \<Rightarrow> vform" where
  "form_event e f =
     (case e of
        Type i v \<Rightarrow> upd_field i (\<lambda>x. x\<lparr>vi_val := v\<rparr>) f
      | ClickBox k on \<Rightarrow> click_box k on f
      | Focus i \<Rightarrow> take_focus i f
      | Blur i \<Rightarrow> if i < length (fm_fields f) then lose_focus i f else f
      | KeyUp i \<Rightarrow> if i < length (fm_fields f) then keyup i f else f
      | Submit own bc bs cb \<Rightarrow> submit_event own bc bs cb f
      | FieldAnswer k a bc bs cb \<Rightarrow> field_answer k a bc bs cb f
      | PostAnswer k a \<Rightarrow> post_answer k a f
      | ClosePop \<Rightarrow> close_pop f
      | ResetClick \<Rightarrow> resetForm f
      | StatusReset \<Rightarrow> resetStatus f
      | StatusSet s \<Rightarrow> setStatus s f
      | CheckForm quiet \<Rightarrow> fst (check_form quiet f)
      | Ignore i \<Rightarrow> ignore_field i f
      | Unignore i \<Rightarrow> unignore_field i f
      | SendUnchecked ajax \<Rightarrow> send_unchecked ajax f)"

text \<open>Nothing happens on a page the browser has left.\<close>

definition form_step :: "vevent \<Rightarrow> vform \<Rightarrow> vform" where
  "form_step e f = (if fm_left f then f else form_event e f)"

definition form_run :: "vevent list \<Rightarrow> vform \<Rightarrow> vform" where
  "form_run es f = fold form_step es f"

section \<open>What checks leave alone\<close>

text \<open>A field without the marks of checks: its attributes, its value, and whether it takes part.\<close>

definition bare :: "vinput \<Rightarrow> vinput" where
  "bare x = (unmarked x)\<lparr>vo_sucmsg := None, vi_last := None, vi_valid := [], vi_ckvalue := None, vi_subpost := False,
     vi_air := None, vi_err := False, vi_mark := None\<rparr>"

lemma frame_same: "same_field x y \<Longrightarrow> bare y = bare x"
  by (simp add: bare_def same_field_def)

lemma frame_of:
  "getValue bs (bare x) = getValue bs x" "left_out st (bare x) = left_out st x" "vi_typed (bare x) = vi_typed x"
  "vi_url (bare x) = vi_url x" "isEmpty (bare x) v = isEmpty x v" "meets T other v (bare x) = meets T other v x"
  "vi_input (bare x) = vi_input x" "vo_name (bare x) = vo_name x" "vi_val (bare x) = vi_val x"
  "vo_recheck (bare x) = vo_recheck x" "vo_tip (bare x) = vo_tip x" "sound_field T v (bare x) = sound_field T v x"
  by (simp_all add: bare_def unmarked_def getValue_def isEmpty_def left_out_def meets_def repeats_def sound_field_def
      cong: vkind.case_cong)

lemma other_val_frame: "other_val (map bare xs) = other_val xs"
proof
  fix r
  have "find P (map bare xs) = map_option bare (find (P \<circ> bare) xs)" for P by (induction xs) auto
  then show "other_val (map bare xs) r = other_val xs r"
    by (simp add: other_val_def comp_def frame_of option.map_comp)
qed

definition sends :: "vform \<Rightarrow> vsent list" where
  "sends f = filter (\<lambda>e. case e of Ask _ _ _ \<Rightarrow> False | _ \<Rightarrow> True) (fm_log f)"

text \<open>
  \<open>undisturbed\<close>: nothing is sent but questions, and the settings and the status stay; \<open>still\<close>: the fields, the
  boxes and the focus stay as well, up to the marks of checks.
\<close>

definition undisturbed :: "vform \<Rightarrow> vform \<Rightarrow> bool" where
  "undisturbed f g \<longleftrightarrow> length (fm_fields g) = length (fm_fields f) \<and> fm_set g = fm_set f \<and>
     same_types (vc_types (fm_cx f)) (vc_types (fm_cx g)) \<and> fm_status g = fm_status f \<and> fm_posts g = fm_posts f \<and>
     sends g = sends f \<and> fm_left g = fm_left f \<and> fm_next f \<le> fm_next g"

definition still :: "vform \<Rightarrow> vform \<Rightarrow> bool" where
  "still f g \<longleftrightarrow> undisturbed f g \<and> map bare (fm_fields g) = map bare (fm_fields f) \<and> fm_boxes g = fm_boxes f \<and>
     fm_focus g = fm_focus f"

lemma calm_refl [simp]: "undisturbed f f"
  by (simp add: undisturbed_def)

lemma still_refl [simp]: "still f f"
  by (simp add: still_def)

lemma calm_trans: "undisturbed f g \<Longrightarrow> undisturbed g h \<Longrightarrow> undisturbed f h"
  by (auto simp: undisturbed_def intro: same_types_trans)

lemma still_trans: "still f g \<Longrightarrow> still g h \<Longrightarrow> still f h"
  by (auto simp: still_def intro: calm_trans)

lemma still_calm: "still f g \<Longrightarrow> undisturbed f g"
  by (simp add: still_def)

lemma still_upd: "(\<And>x. bare (h x) = bare x) \<Longrightarrow> still f (upd_field i h f)"
  by (cases "i < length (fm_fields f)")
    (simp_all add: still_def undisturbed_def upd_field_def map_update list_update_same_conv list_update_beyond sends_def)

lemma calm_upd: "undisturbed f (upd_field i h f)"
  by (simp add: undisturbed_def upd_field_def sends_def)

lemma frame_marks:
  "bare (x\<lparr>vi_err := b\<rparr>) = bare x" "bare (x\<lparr>vi_valid := t\<rparr>) = bare x" "bare (x\<lparr>vi_air := a\<rparr>) = bare x"
  "bare (x\<lparr>vi_valid := t, vi_air := a\<rparr>) = bare x" "bare (x\<lparr>vi_subpost := b\<rparr>) = bare x"
  "bare (x\<lparr>vi_valid := t, vi_ckvalue := u\<rparr>) = bare x" "bare (x\<lparr>vi_last := u\<rparr>) = bare x"
  "bare (x\<lparr>vi_mark := m\<rparr>) = bare x" "bare (x\<lparr>vi_valid := t, vo_sucmsg := u\<rparr>) = bare x"
  "bare (x\<lparr>vi_err := b, vi_valid := t, vi_air := a\<rparr>) = bare x"
  by (simp_all add: bare_def unmarked_def)

lemma still_other:
  "still f (f\<lparr>fm_errorobj := e\<rparr>)" "still f (f\<lparr>fm_pop := m\<rparr>)" "still f (f\<lparr>fm_shown := b\<rparr>)" "still f (f\<lparr>fm_tips := ts\<rparr>)"
  "still f (f\<lparr>fm_air := as\<rparr>)"
  by (simp_all add: still_def undisturbed_def sends_def)

lemma showmsg_still: "still f (showmsg m ob k trig f)"
proof -
  have "still f (case ob of None \<Rightarrow> f | Some i \<Rightarrow> if tip = PopUp then f else upd_field i (vi_mark_update (\<lambda>_. Some (msg, k))) f)" for f tip msg
    by (auto split: option.split intro!: still_upd simp: frame_marks)
  moreover have "still f (if c then f\<lparr>fm_pop := msg\<rparr> else f)" "still f (if c then f\<lparr>fm_shown := True\<rparr> else f)" for f c msg
    by (auto intro: still_other)
  ultimately have "still f (let f = (if c then f\<lparr>fm_pop := msg\<rparr> else f); f = (if d then f\<lparr>fm_shown := True\<rparr> else f)
      in case ob of None \<Rightarrow> f | Some i \<Rightarrow> if tip = PopUp then f else upd_field i (vi_mark_update (\<lambda>_. Some (msg, k))) f)" for c d msg tip
    unfolding Let_def by (blast intro: still_trans)
  then show ?thesis unfolding showmsg_def by (auto simp: Let_def still_other split: option.split)
qed

lemma abort_still: "still f (abort i f)"
proof (cases "vi_air (fm_fields f ! i)")
  case (Some k)
  let ?g = "upd_field i (\<lambda>x. x\<lparr>vi_valid := js ''abort'', vi_air := None\<rparr>) f"
  have "still f ?g" by (rule still_upd) (simp add: frame_marks)
  then have "still f (?g\<lparr>fm_air := as\<rparr>)" for as by (rule still_trans) (rule still_other)
  then show ?thesis using Some by (simp add: abort_def)
qed (simp add: abort_def)

lemma ask_still: "still f (ask_server i v f)"
proof -
  let ?g = "upd_field i (\<lambda>x. x\<lparr>vi_air := Some (fm_next f)\<rparr>) f"
  have "still f ?g" by (rule still_upd) (simp add: frame_marks)
  moreover have "still ?g (?g\<lparr>fm_air := fm_air f @ [(fm_next f, i)], fm_log := fm_log f @ [Ask (fm_next f) i v], fm_next := fm_next f + 1\<rparr>)"
    by (simp add: still_def undisturbed_def sends_def upd_field_def)
  ultimately show ?thesis unfolding ask_server_def by (rule still_trans)
qed

lemma reg_still:
  assumes "reg_at i f = (g, res)"
  shows "still f g \<and> map vi_valid (fm_fields g) = map vi_valid (fm_fields f) \<and> fm_air g = fm_air f \<and>
    (i < length (fm_fields f) \<longrightarrow> (let x = fm_fields f ! i; T = vc_types (fm_cx f) in
      (case res of None \<Rightarrow> \<not> sound_field T (value_at i f) x
       | Some r \<Rightarrow> vr_passed r = meets T (other_val (fm_fields f)) (value_at i f) x)))"
proof -
  obtain cx x res' where e: "regcheck (other_val (fm_fields f)) (value_at i f) (fm_cx f) (fm_fields f ! i) = (cx, x, res')"
    by (cases "regcheck (other_val (fm_fields f)) (value_at i f) (fm_cx f) (fm_fields f ! i)")
  have g: "g = f\<lparr>fm_fields := (fm_fields f)[i := x], fm_cx := cx\<rparr>" "res' = res" using assms e by (simp_all add: reg_at_def)
  have k: "same_types (vc_types (fm_cx f)) (vc_types cx)" "same_field (fm_fields f ! i) x"
    using regcheck_spec [OF e] by (simp_all add: kept_def)
  have "unmarked x = unmarked (fm_fields f ! i)" using k(2) by (simp add: same_field_def)
  from arg_cong [OF this, of vi_valid] have v: "vi_valid x = vi_valid (fm_fields f ! i)" by (simp add: unmarked_def)
  have "map vi_valid ((fm_fields f)[i := x]) = map vi_valid (fm_fields f)"
    "map bare ((fm_fields f)[i := x]) = map bare (fm_fields f)"
    using v frame_same [OF k(2)]
    by (cases "i < length (fm_fields f)"; simp add: map_update list_update_same_conv list_update_beyond)+
  then show ?thesis
    using regcheck_spec [OF e] k(1) by (auto simp: g still_def undisturbed_def sends_def Let_def split: option.split)
qed

text \<open>The check of a field leaves everything but marks alone; so does losing the focus, but for the default text.\<close>

lemma still_into:
  assumes "still f g"
  shows "still f (showmsg m ob k trig g)" "still f (abort i g)" "still f (ask_server i v g)"
    "still f (g\<lparr>fm_errorobj := e\<rparr>)" "still f (g\<lparr>fm_air := as\<rparr>)"
    "still f (upd_field i (\<lambda>x. x\<lparr>vi_err := b\<rparr>) g)" "still f (upd_field i (\<lambda>x. x\<lparr>vi_valid := t\<rparr>) g)"
    "still f (upd_field i (\<lambda>x. x\<lparr>vi_subpost := b\<rparr>) g)" "still f (upd_field i (\<lambda>x. x\<lparr>vi_last := u\<rparr>) g)"
    "still f (upd_field i (\<lambda>x. x\<lparr>vi_valid := t, vi_ckvalue := u\<rparr>) g)" "still f (upd_field i (\<lambda>x. x\<lparr>vi_air := a\<rparr>) g)"
    "still f (upd_field i (\<lambda>x. x\<lparr>vi_valid := t, vo_sucmsg := u\<rparr>) g)"
    "still f (upd_field i (\<lambda>x. x\<lparr>vi_err := b, vi_valid := t, vi_air := a\<rparr>) g)"
  by (rule still_trans [OF assms]; (rule showmsg_still abort_still ask_still still_other | rule still_upd; simp add: frame_marks))+

lemma check_ajax_still: "still f g \<Longrightarrow> still f (check_ajax sub i v g)"
  by (auto simp: check_ajax_def Let_def intro!: still_into)

lemma check_still:
  assumes "check sub quiet i f = (g, out)"
  shows "still f g"
proof -
  obtain h res where h: "reg_at i f = (h, res)" by (cases "reg_at i f")
  have fh: "still f h" using reg_still [OF h] by simp
  then show ?thesis using assms h
    by (auto simp: check_def Let_def split: option.splits if_splits intro!: still_into check_ajax_still)
qed

lemma tip_blur_calm: "undisturbed f (tip_blur i f)"
  by (auto simp: tip_blur_def Let_def calm_upd split: option.split)

lemma blur0_calm: "blur0 sub i f = (g, ok) \<Longrightarrow> undisturbed f g"
  using tip_blur_calm [of f i] check_still [of sub False i "tip_blur i f"]
  by (auto simp: blur0_def Let_def still_def intro: calm_trans split: if_splits prod.splits)

lemma blur_repeaters_calm: "blur_repeaters c i ks f = (g, ok) \<Longrightarrow> undisturbed f g"
proof (induction ks arbitrary: f)
  case (Cons j ks)
  obtain h b where h: "blur0 False j f = (h, b)" by (cases "blur0 False j f")
  show ?case using Cons h blur0_calm [OF h] by (auto intro: calm_trans split: if_splits)
qed simp

lemma blur_calm: "blur sub i f = (g, ok) \<Longrightarrow> undisturbed f g"
  by (auto simp: blur_def intro: calm_trans blur_repeaters_calm blur0_calm split: prod.splits if_splits)

lemma focus_calm: "undisturbed f (f\<lparr>fm_focus := i\<rparr>)"
  by (simp add: undisturbed_def sends_def)

lemma lose_focus_calm: "undisturbed f (lose_focus i f)"
proof -
  have "undisturbed g (fst (blur False i g))" for g by (cases "blur False i g") (simp add: blur_calm)
  then show ?thesis using focus_calm [of f None] by (auto simp: lose_focus_def intro: calm_trans)
qed

lemma take_focus_calm: "undisturbed f (take_focus i f)"
  by (rule calm_trans [OF focus_calm [of f "Some i"]]) (auto simp: take_focus_def tip_focus_def Let_def calm_upd)

lemma trigger_blur_calm: "trigger_blur i f = (g, ok) \<Longrightarrow> undisturbed f g"
  using lose_focus_calm [of f i] by (auto simp: trigger_blur_def lose_focus_def blur_calm split: if_splits)

lemma keyup_calm: "undisturbed f (keyup i f)"
  by (cases "blur_repeaters agrees_with i (repeaters i f) f") (simp add: keyup_def blur_repeaters_calm)

lemma check_all_calm: "check_all quiet ks f = (g, out) \<Longrightarrow> still f g"
proof (induction ks arbitrary: f out)
  case (Cons i ks)
  obtain h o1 where h: "check False quiet i f = (h, o1)" by (cases "check False quiet i f")
  then show ?case using Cons check_still [OF h]
    by (cases o1) (auto intro: still_trans split: prod.splits option.splits)
qed simp

section \<open>Laws of every run\<close>

text \<open>
  What a law of the form has to keep: changes that leave sending alone, the event \<open>submit\<close>, the answer to a
  form, and, where they are allowed, the resets and the calls that check nothing. Then every step of
  every run keeps it.
\<close>

lemma undisturbed_parts:
  "undisturbed f (f\<lparr>fm_boxes := bx\<rparr>)" "undisturbed f (f\<lparr>fm_shown := b\<rparr>)" "undisturbed f (f\<lparr>fm_air := as\<rparr>)"
  "undisturbed f (f\<lparr>fm_errorobj := e\<rparr>)"
  by (simp_all add: undisturbed_def sends_def)

lemma close_pop_calm: "undisturbed f (close_pop f)"
  using calm_trans [OF undisturbed_parts(2) calm_upd] undisturbed_parts(2)
  by (simp add: close_pop_def Let_def split: option.split)

locale form_law =
  fixes P :: "vform \<Rightarrow> bool" and allowed :: "vevent \<Rightarrow> bool"
  assumes undisturbed_keeps: "P f \<Longrightarrow> undisturbed f g \<Longrightarrow> P g"
    and submit_keeps: "P f \<Longrightarrow> P (submit_event own bc bs cb f)"
    and post_keeps: "P f \<Longrightarrow> P (post_answer k a f)"
    and reset_keeps: "P f \<Longrightarrow> allowed ResetClick \<Longrightarrow> P (resetForm f)"
    and status_reset_keeps: "P f \<Longrightarrow> allowed StatusReset \<Longrightarrow> P (resetStatus f)"
    and status_keeps: "P f \<Longrightarrow> allowed (StatusSet s) \<Longrightarrow> P (setStatus s f)"
    and unchecked_keeps: "P f \<Longrightarrow> allowed (SendUnchecked b) \<Longrightarrow> P (send_unchecked b f)"
begin

lemma upd_keeps: "P f \<Longrightarrow> P (upd_field i h f)"
  by (erule undisturbed_keeps) (rule calm_upd)

lemma show_law: "P f \<Longrightarrow> P (showmsg m ob k trig f)"
  by (erule undisturbed_keeps) (rule still_calm [OF showmsg_still])

lemma part_keeps: "P f \<Longrightarrow> P (f\<lparr>fm_boxes := bx\<rparr>)" "P f \<Longrightarrow> P (f\<lparr>fm_air := as\<rparr>)" "P f \<Longrightarrow> P (f\<lparr>fm_errorobj := e\<rparr>)"
  by (erule undisturbed_keeps; rule undisturbed_parts)+

lemma success_keeps: "P f \<Longrightarrow> P (field_success y info bc bs cb i f)"
  by (auto simp: field_success_def Let_def intro!: upd_keeps show_law part_keeps submit_keeps)

lemma answer_keeps: "P f \<Longrightarrow> P (field_answer k a bc bs cb f)"
  by (auto simp: field_answer_def Let_def split: option.split vanswer.split
      intro!: upd_keeps show_law part_keeps success_keeps)

lemma check_keeps: "P f \<Longrightarrow> P (fst (check_form quiet f))"
proof -
  obtain g out where g: "check_all quiet (typed_fields f) f = (g, out)" by (cases "check_all quiet (typed_fields f) f")
  show "P f \<Longrightarrow> P (fst (check_form quiet f))"
    using undisturbed_keeps [OF _ still_calm [OF check_all_calm [OF g]]] g by (simp add: check_form_def)
qed

lemma step_keeps: "P f \<Longrightarrow> allowed e \<Longrightarrow> P (form_step e f)"
  by (cases e) (simp_all add: form_step_def form_event_def undisturbed_keeps [OF _ lose_focus_calm]
      undisturbed_keeps [OF _ take_focus_calm] undisturbed_keeps [OF _ keyup_calm] undisturbed_keeps [OF _ close_pop_calm]
      upd_keeps part_keeps click_box_def ignore_field_def unignore_field_def submit_keeps answer_keeps post_keeps check_keeps
      reset_keeps status_reset_keeps status_keeps unchecked_keeps Let_def)

lemma run_keeps: "P f \<Longrightarrow> \<forall>e\<in>set es. allowed e \<Longrightarrow> P (form_run es f)"
  by (induction es arbitrary: f) (simp_all add: form_run_def step_keeps)

end

section \<open>What is sent has been checked\<close>

text \<open>
  A field is fit to be sent as things stand: it is left out, or its value meets what its types ask and,
  if the server checks it, it bears the mark that the server has confirmed it.
\<close>

definition fit_field :: "vtype jobj \<Rightarrow> vset \<Rightarrow> vinput list \<Rightarrow> vbox list \<Rightarrow> vinput \<Rightarrow> bool" where
  "fit_field T st xs bs x \<longleftrightarrow>
     left_out st x \<or>
     meets T (other_val xs) (getValue bs x) x \<and>
     (filled (vi_url x) \<and> \<not> isEmpty x (getValue bs x) \<longrightarrow> vi_valid x = js ''true'')"

definition fit_form :: "vtype jobj \<Rightarrow> vset \<Rightarrow> vinput list \<Rightarrow> vbox list \<Rightarrow> bool" where
  "fit_form T st xs bs \<longleftrightarrow> (\<forall>x\<in>set xs. vi_typed x \<longrightarrow> fit_field T st xs bs x)"

lemma still_nth: "still f g \<Longrightarrow> i < length (fm_fields f) \<Longrightarrow> bare (fm_fields g ! i) = bare (fm_fields f ! i)"
  unfolding still_def undisturbed_def by (metis nth_map)

lemma still_other_val: "still f g \<Longrightarrow> other_val (fm_fields g) = other_val (fm_fields f)"
  unfolding still_def by (metis other_val_frame)

lemma frame_eq:
  assumes "bare x = bare y"
  shows "getValue bs x = getValue bs y" "left_out st x = left_out st y" "vi_typed x = vi_typed y" "vi_url x = vi_url y"
    "isEmpty x v = isEmpty y v" "meets T other v x = meets T other v y" "vi_input x = vi_input y" "vo_name x = vo_name y"
    "vi_val x = vi_val y" "vo_recheck x = vo_recheck y" "vo_tip x = vo_tip y" "sound_field T v x = sound_field T v y"
  using assms by (metis frame_of)+

lemma fit_still:
  assumes "still f g" "i < length (fm_fields f)" "vi_valid (fm_fields g ! i) = vi_valid (fm_fields f ! i)"
  shows "fit_field T st (fm_fields g) (fm_boxes g) (fm_fields g ! i) = fit_field T st (fm_fields f) (fm_boxes f) (fm_fields f ! i)"
proof -
  note e = frame_eq [OF still_nth [OF assms(1,2)]]
  have "fm_boxes g = fm_boxes f" using assms(1) by (simp add: still_def)
  then show ?thesis by (simp add: fit_field_def e still_other_val [OF assms(1)] assms(3))
qed

text \<open>A field that lets the loop go on is fit, and the others keep what the server said of them.\<close>

lemma abort_valid: "j \<noteq> i \<Longrightarrow> vi_valid (fm_fields (abort i f) ! j) = vi_valid (fm_fields f ! j)"
  by (simp add: abort_def upd_field_def split: option.split)

lemma show_valid: "vi_valid (fm_fields (showmsg m ob k trig f) ! j) = vi_valid (fm_fields f ! j)"
proof -
  have "vi_valid (fm_fields (upd_field i (vi_mark_update u) f) ! j) = vi_valid (fm_fields f ! j)" for i u and f :: vform
    by (cases "i < length (fm_fields f)"; cases "i = j") (simp_all add: upd_field_def list_update_beyond)
  then show ?thesis by (auto simp: showmsg_def Let_def split: option.split)
qed

lemma show_air: "fm_air (showmsg m ob k trig f) = fm_air f" "fm_next (showmsg m ob k trig f) = fm_next f"
  by (auto simp: showmsg_def Let_def upd_field_def split: option.split)

lemma upd_valid:
  "vi_valid (fm_fields (upd_field i (\<lambda>x. x\<lparr>vi_err := b\<rparr>) f) ! j) = vi_valid (fm_fields f ! j)"
  by (cases "i < length (fm_fields f)"; cases "i = j") (simp_all add: upd_field_def list_update_beyond)

lemma length_upd_field [simp]: "length (fm_fields (upd_field i h f)) = length (fm_fields f)"
  by (simp add: upd_field_def)

lemma nth_upd_field: "i < length (fm_fields f) \<Longrightarrow> fm_fields (upd_field i h f) ! j = (if j = i then h (fm_fields f ! i) else fm_fields f ! j)"
  by (simp add: upd_field_def nth_list_update)

lemma submit_field_ok:
  assumes "submit_field i f = (g, FieldOk)" "i < length (fm_fields f)" "same_types T (vc_types (fm_cx f))"
  shows "still f g \<and> (\<forall>j<length (fm_fields f). j \<noteq> i \<longrightarrow> vi_valid (fm_fields g ! j) = vi_valid (fm_fields f ! j)) \<and>
    fit_field T (fm_set f) (fm_fields g) (fm_boxes g) (fm_fields g ! i) \<and>
    (vi_valid (fm_fields g ! i) = vi_valid (fm_fields f ! i) \<or>
     vi_valid (fm_fields g ! i) = js ''true'' \<and> isEmpty (fm_fields f ! i) (value_at i f)) \<and>
    (fm_air f = [] \<longrightarrow> fm_air g = [])"
proof (cases "left_out (fm_set f) (fm_fields f ! i)")
  case True
  then show ?thesis using assms by (simp add: submit_field_def Let_def fit_field_def)
next
  case False
  let ?f = "f\<lparr>fm_errorobj := Some i\<rparr>" and ?x = "fm_fields f ! i" and ?v = "value_at i f"
  obtain h res where h: "reg_at i ?f = (h, res)" by (cases "reg_at i ?f")
  note reg = reg_still [OF h]
  have v: "value_at i ?f = ?v" by (simp add: value_at_def)
  obtain r where r: "res = Some r" "vr_passed r" "\<not> (filled (vi_url ?x) \<and> \<not> isEmpty ?x ?v \<and> vi_valid ?x \<noteq> js ''true'')"
    using assms(1) False h by (auto simp: submit_field_def Let_def split: option.splits if_splits prod.splits)
  define k where "k = (if filled (vi_url ?x) \<and> isEmpty ?x ?v then upd_field i (\<lambda>x. x\<lparr>vi_valid := js ''true''\<rparr>) (abort i h) else h)"
  have g: "g = (upd_field i (\<lambda>x. x\<lparr>vi_err := False\<rparr>) (showmsg (vr_info r) (Some i) (vr_type r) ByForm k))\<lparr>fm_errorobj := None\<rparr>"
    using assms(1) False h r by (auto simp: submit_field_def Let_def k_def)
  have fh: "still f h" using reg still_other(1) still_trans by blast
  then have fg: "still f g" by (auto simp: g k_def intro!: still_into)
  have len: "length (fm_fields h) = length (fm_fields f)" using fh by (simp add: still_def undisturbed_def)
  have maps: "map vi_valid (fm_fields h) = map vi_valid (fm_fields f)" using reg by simp
  have hv: "vi_valid (fm_fields h ! j) = vi_valid (fm_fields f ! j)" if "j < length (fm_fields f)" for j
    using arg_cong [OF maps, of "\<lambda>xs. xs ! j"] that len by simp
  have kv: "vi_valid (fm_fields k ! j) = vi_valid (fm_fields f ! j)" if "j < length (fm_fields f)" "j \<noteq> i" for j
  proof -
    have "length (fm_fields (abort i h)) = length (fm_fields f)"
      using abort_still [of h i] len by (simp add: still_def undisturbed_def)
    then show ?thesis using that hv abort_valid [of j i h] assms(2) by (simp add: k_def nth_upd_field)
  qed
  have gv: "vi_valid (fm_fields g ! j) = vi_valid (fm_fields k ! j)" for j by (simp add: g upd_valid show_valid)
  note e = frame_eq [OF still_nth [OF fg assms(2)]]
  have o: "other_val (fm_fields g) = other_val (fm_fields f)" "fm_boxes g = fm_boxes f"
    using still_other_val [OF fg] fg by (simp_all add: still_def)
  have "meets (vc_types (fm_cx f)) (other_val (fm_fields f)) ?v ?x"
    using reg r(1,2) assms(2) by (simp add: v Let_def)
  then have m: "meets T (other_val (fm_fields f)) ?v ?x" using meets_stay [OF assms(3) same_field_refl [of ?x]] by simp
  have "vi_valid (fm_fields g ! i) = js ''true''" if "filled (vi_url ?x)" "\<not> isEmpty ?x ?v"
    using r(3) that gv [of i] hv [OF assms(2)] by (simp add: k_def)
  then have "fit_field T (fm_set f) (fm_fields g) (fm_boxes g) (fm_fields g ! i)"
    using m by (simp add: fit_field_def e o value_at_def)
  moreover have "vi_valid (fm_fields g ! i) = vi_valid (fm_fields f ! i) \<or>
      vi_valid (fm_fields g ! i) = js ''true'' \<and> isEmpty ?x ?v"
  proof -
    have "length (fm_fields (abort i h)) = length (fm_fields f)"
      using abort_still [of h i] len by (simp add: still_def undisturbed_def)
    then show ?thesis using gv [of i] hv [OF assms(2)] assms(2) by (auto simp: k_def nth_upd_field)
  qed
  moreover have "fm_air g = []" if "fm_air f = []"
    using that reg by (auto simp: g k_def show_air abort_def upd_field_def split: option.split)
  ultimately show ?thesis using fg kv gv by simp
qed

lemma submit_field_calm: "submit_field i f = (g, out) \<Longrightarrow> undisturbed f g"
proof -
  assume e: "submit_field i f = (g, out)"
  obtain h res where h: "reg_at i (f\<lparr>fm_errorobj := Some i\<rparr>) = (h, res)" by (cases "reg_at i (f\<lparr>fm_errorobj := Some i\<rparr>)")
  have fh: "still f h" using reg_still [OF h] still_other(1) still_trans by blast
  have b: "undisturbed f k" if "trigger_blur i (upd_field i (\<lambda>x. x\<lparr>vi_err := True\<rparr>) (showmsg m ob q t h)) = (k, ok)" for k ok m ob q t
    using trigger_blur_calm [OF that] still_calm still_into(6) [OF still_into(1) [OF fh]] calm_trans by blast
  show ?thesis using e h fh b
    by (auto simp: submit_field_def Let_def split: option.splits if_splits prod.splits intro!: still_calm still_into)
qed

lemma submit_loop_calm: "submit_loop ks f flag = (g, flag', raised) \<Longrightarrow> undisturbed f g"
proof (induction ks f flag rule: submit_loop.induct)
  case (2 i ks f flag)
  obtain h out where h: "submit_field i f = (h, out)" by (cases "submit_field i f")
  then show ?case using "2.prems" "2.IH" submit_field_calm [OF h]
    by (cases out) (auto intro: calm_trans split: if_splits)
qed simp

lemma submit_loop_False: "submit_loop ks f False = (g, flag, raised) \<Longrightarrow> \<not> flag"
proof (induction ks f False rule: submit_loop.induct)
  case (2 i ks f)
  obtain h out where h: "submit_field i f = (h, out)" by (cases "submit_field i f")
  then show ?case using "2.prems" "2.hyps" by (cases out) (auto split: if_splits)
qed simp

lemma submit_loop_fit:
  assumes "submit_loop ks f flag = (g, True, False)" "distinct ks" "set ks \<subseteq> {0..<length (fm_fields f)}"
    "same_types T (vc_types (fm_cx f))"
  shows "still f g \<and> (\<forall>j<length (fm_fields f). j \<notin> set ks \<longrightarrow> vi_valid (fm_fields g ! j) = vi_valid (fm_fields f ! j)) \<and>
    (\<forall>i\<in>set ks. fit_field T (fm_set f) (fm_fields g) (fm_boxes g) (fm_fields g ! i))"
  using assms
proof (induction ks f flag rule: submit_loop.induct)
  case (2 i ks f flag)
  obtain h out where h: "submit_field i f = (h, out)" by (cases "submit_field i f")
  have out: "out = FieldOk" "submit_loop ks h flag = (g, True, False)"
    using "2.prems"(1) h submit_loop_False [of ks h g True False] by (cases out; auto split: if_splits)+
  have i: "i < length (fm_fields f)" using "2.prems"(3) by simp
  note ok = submit_field_ok [OF h [unfolded out(1)] i "2.prems"(4)]
  have len: "length (fm_fields h) = length (fm_fields f)" "fm_set h = fm_set f"
    "same_types (vc_types (fm_cx f)) (vc_types (fm_cx h))"
    using ok by (simp_all add: still_def undisturbed_def)
  have ih: "still h g \<and> (\<forall>j<length (fm_fields h). j \<notin> set ks \<longrightarrow> vi_valid (fm_fields g ! j) = vi_valid (fm_fields h ! j)) \<and>
    (\<forall>i\<in>set ks. fit_field T (fm_set h) (fm_fields g) (fm_boxes g) (fm_fields g ! i))"
    using "2.IH" [of h FieldOk] h out "2.prems" len same_types_trans by auto
  then have "fit_field T (fm_set f) (fm_fields g) (fm_boxes g) (fm_fields g ! i)"
    using ok fit_still [of h g i T "fm_set f"] i len "2.prems"(2) by auto
  then show ?case using ih ok len still_trans by auto
qed simp

text \<open>
  The loop ends with an exception only at a field whose types can not be read: such a field takes part, and
  is there, as it was, when the browser sends the form after all.
\<close>

definition unreadable :: "vtype jobj \<Rightarrow> vset \<Rightarrow> vinput list \<Rightarrow> vbox list \<Rightarrow> bool" where
  "unreadable T st xs bs \<longleftrightarrow> (\<exists>x\<in>set xs. vi_typed x \<and> \<not> left_out st x \<and> \<not> sound_field T (getValue bs x) x)"

definition stuck :: "vtype jobj \<Rightarrow> vform \<Rightarrow> bool" where
  "stuck T f \<longleftrightarrow> unreadable T (fm_set f) (fm_fields f) (fm_boxes f)"

definition typed_alike :: "vform \<Rightarrow> vform \<Rightarrow> bool" where
  "typed_alike f g \<longleftrightarrow> map vi_typed (fm_fields g) = map vi_typed (fm_fields f)"

lemma alike_refl [simp]: "typed_alike f f"
  by (simp add: typed_alike_def)

lemma alike_trans: "typed_alike f g \<Longrightarrow> typed_alike g h \<Longrightarrow> typed_alike f h"
  by (simp add: typed_alike_def)

lemma alike_nth:
  assumes "typed_alike f g" "i < length (fm_fields f)"
  shows "i < length (fm_fields g) \<and> vi_typed (fm_fields g ! i) = vi_typed (fm_fields f ! i)"
proof -
  have e: "map vi_typed (fm_fields g) = map vi_typed (fm_fields f)" using assms(1) by (simp add: typed_alike_def)
  have "length (fm_fields g) = length (fm_fields f)" using arg_cong [OF e, of length] by simp
  then show ?thesis using arg_cong [OF e, of "\<lambda>xs. xs ! i"] assms(2) by simp
qed

lemma still_alike:
  assumes "still f g"
  shows "typed_alike f g"
proof -
  have "map vi_typed xs = map vi_typed (map bare xs)" for xs by (simp add: frame_of)
  moreover have "map bare (fm_fields g) = map bare (fm_fields f)" using assms by (simp add: still_def)
  ultimately show ?thesis unfolding typed_alike_def by metis
qed

lemma upd_alike:
  assumes "\<And>x. vi_typed (h x) = vi_typed x"
  shows "typed_alike f (upd_field i h f)"
  by (cases "i < length (fm_fields f)")
    (simp_all add: typed_alike_def upd_field_def map_update assms list_update_same_conv list_update_beyond)

lemma tip_blur_alike: "typed_alike f (tip_blur i f)"
  by (auto simp: tip_blur_def Let_def intro!: upd_alike split: option.split)

lemma blur0_alike: "blur0 sub i f = (g, ok) \<Longrightarrow> typed_alike f g"
  using alike_trans [OF tip_blur_alike [of f i]] still_alike [OF check_still [of sub False i "tip_blur i f"]]
  by (auto simp: blur0_def Let_def tip_blur_alike split: if_splits prod.splits)

lemma blur_repeaters_alike: "blur_repeaters c i ks f = (g, ok) \<Longrightarrow> typed_alike f g"
proof (induction ks arbitrary: f)
  case (Cons j ks)
  obtain h b where h: "blur0 False j f = (h, b)" by (cases "blur0 False j f")
  show ?case using Cons h blur0_alike [OF h] by (auto intro: alike_trans split: if_splits)
qed simp

lemma blur_alike: "blur sub i f = (g, ok) \<Longrightarrow> typed_alike f g"
  by (auto simp: blur_def intro: alike_trans blur_repeaters_alike blur0_alike split: prod.splits if_splits)

lemma trigger_blur_alike: "trigger_blur i f = (g, ok) \<Longrightarrow> typed_alike f g"
  using blur_alike [of False i "f\<lparr>fm_focus := None\<rparr>"] blur_alike [of True i f g ok]
  by (cases "blur False i (f\<lparr>fm_focus := None\<rparr>)") (auto simp: trigger_blur_def typed_alike_def split: if_splits)

text \<open>An exception, where it comes from.\<close>

lemma stuck_still: "still f g \<Longrightarrow> stuck T f \<Longrightarrow> stuck T g"
proof -
  assume s: "still f g" and "stuck T f"
  then obtain i where i: "i < length (fm_fields f)" "vi_typed (fm_fields f ! i)" "\<not> left_out (fm_set f) (fm_fields f ! i)"
    "\<not> sound_field T (getValue (fm_boxes f) (fm_fields f ! i)) (fm_fields f ! i)"
    by (auto simp: stuck_def unreadable_def in_set_conv_nth)
  have k: "length (fm_fields g) = length (fm_fields f)" "fm_set g = fm_set f" "fm_boxes g = fm_boxes f"
    using s by (simp_all add: still_def undisturbed_def)
  note e = frame_eq [OF still_nth [OF s i(1)]]
  have "fm_fields g ! i \<in> set (fm_fields g)" using i(1) k(1) by simp
  then show "stuck T g" unfolding stuck_def unreadable_def
    by (rule rev_bexI) (use i(2-4) in \<open>simp only: e k simp_thms\<close>)
qed

lemma reg_raises:
  assumes "reg_at i f = (g, None)" "i < length (fm_fields f)" "vi_typed (fm_fields f ! i)"
    "\<not> left_out (fm_set f) (fm_fields f ! i)" "same_types T (vc_types (fm_cx f))"
  shows "stuck T g"
proof -
  have "\<not> sound_field (vc_types (fm_cx f)) (value_at i f) (fm_fields f ! i)"
    using reg_still [OF assms(1)] assms(2) by (simp add: Let_def)
  then have "\<not> sound_field T (getValue (fm_boxes f) (fm_fields f ! i)) (fm_fields f ! i)"
    using sound_field_stay [OF assms(5) same_field_refl [of "fm_fields f ! i"]] by (simp add: value_at_def)
  then have "stuck T f" unfolding stuck_def unreadable_def
    using assms(3,4) by (intro rev_bexI [OF nth_mem [OF assms(2)]]) simp
  then show ?thesis using stuck_still reg_still [OF assms(1)] by blast
qed

lemma check_raises:
  assumes "check sub quiet i f = (g, None)" "i < length (fm_fields f)" "vi_typed (fm_fields f ! i)"
    "same_types T (vc_types (fm_cx f))"
  shows "stuck T g"
proof -
  obtain h res where h: "reg_at i f = (h, res)" by (cases "reg_at i f")
  have "\<not> left_out (fm_set f) (fm_fields f ! i) \<and> res = None \<and> g = h"
    using assms(1) h by (auto simp: check_def Let_def split: if_splits option.splits)
  then show ?thesis using reg_raises assms(2-4) h by blast
qed

lemma blur0_raises:
  assumes "blur0 sub i f = (g, False)" "i < length (fm_fields f)" "same_types T (vc_types (fm_cx f))"
  shows "stuck T g"
proof -
  let ?f = "tip_blur i f"
  have len: "i < length (fm_fields ?f)" "same_types T (vc_types (fm_cx ?f))"
    using tip_blur_calm [of f i] assms(2) same_types_trans [OF assms(3)] by (simp_all add: undisturbed_def)
  have "vi_typed (fm_fields ?f ! i) \<and> check sub False i ?f = (g, None)"
    using assms(1) by (auto simp: blur0_def Let_def split: if_splits prod.splits)
  then show ?thesis using check_raises len by blast
qed

lemma blur_repeaters_raises:
  assumes "blur_repeaters c i ks f = (g, False)" "\<forall>j\<in>set ks. j < length (fm_fields f)" "same_types T (vc_types (fm_cx f))"
  shows "stuck T g"
  using assms
proof (induction ks arbitrary: f)
  case (Cons j ks)
  obtain h b where h: "blur0 False j f = (h, b)" by (cases "blur0 False j f")
  have u: "length (fm_fields h) = length (fm_fields f)" "same_types T (vc_types (fm_cx h))"
    using blur0_calm [OF h] same_types_trans [OF Cons.prems(3)] by (simp_all add: undisturbed_def)
  show ?case
  proof (cases "c (fm_fields f ! i) (fm_fields f ! j)")
    case False
    then show ?thesis using Cons.IH [of f] Cons.prems by simp
  next
    case True
    show ?thesis
    proof (cases b)
      case True
      then show ?thesis using Cons.IH [of h] Cons.prems h u \<open>c (fm_fields f ! i) (fm_fields f ! j)\<close> by simp
    next
      case False
      then have "h = g" using Cons.prems(1) h \<open>c (fm_fields f ! i) (fm_fields f ! j)\<close> by simp
      then show ?thesis using blur0_raises [of False j f g T] h False Cons.prems(2,3) by simp
    qed
  qed
qed simp

lemma blur_raises:
  assumes "blur sub i f = (g, False)" "i < length (fm_fields f)" "same_types T (vc_types (fm_cx f))"
  shows "stuck T g"
proof -
  obtain h b where h: "blur_repeaters differs i (repeaters i f) f = (h, b)" by (cases "blur_repeaters differs i (repeaters i f) f")
  have u: "length (fm_fields h) = length (fm_fields f)" "same_types T (vc_types (fm_cx h))"
    using blur_repeaters_calm [OF h] same_types_trans [OF assms(3)] by (simp_all add: undisturbed_def)
  show ?thesis
  proof (cases b)
    case True
    then show ?thesis using blur0_raises [of sub i h g T] assms(1,2) h u by (simp add: blur_def)
  next
    case False
    then have "blur_repeaters differs i (repeaters i f) f = (g, False)" using assms(1) h by (simp add: blur_def)
    then show ?thesis by (rule blur_repeaters_raises) (simp_all add: repeaters_def assms(3))
  qed
qed

lemma submit_field_alike: "submit_field i f = (g, out) \<Longrightarrow> typed_alike f g"
proof -
  assume e: "submit_field i f = (g, out)"
  obtain h res where h: "reg_at i (f\<lparr>fm_errorobj := Some i\<rparr>) = (h, res)" by (cases "reg_at i (f\<lparr>fm_errorobj := Some i\<rparr>)")
  have fh: "still f h" using reg_still [OF h] still_other(1) still_trans by blast
  have b: "typed_alike f k" if "trigger_blur i (upd_field i (\<lambda>x. x\<lparr>vi_err := True\<rparr>) (showmsg m ob q t h)) = (k, ok)" for k ok m ob q t
    using trigger_blur_alike [OF that] still_alike [OF still_into(6) [OF still_into(1) [OF fh]]] alike_trans by blast
  show ?thesis using e h fh b
    by (auto simp: submit_field_def Let_def split: option.splits if_splits prod.splits intro!: still_alike still_into)
qed

lemma submit_field_raises:
  assumes "submit_field i f = (g, FieldRaised)" "i < length (fm_fields f)" "vi_typed (fm_fields f ! i)"
    "same_types T (vc_types (fm_cx f))"
  shows "stuck T g"
proof -
  let ?f = "f\<lparr>fm_errorobj := Some i\<rparr>"
  obtain h res where h: "reg_at i ?f = (h, res)" by (cases "reg_at i ?f")
  have fh: "still f h" using reg_still [OF h] still_other(1) still_trans by blast
  have out: "\<not> left_out (fm_set f) (fm_fields f ! i)" using assms(1) by (auto simp: submit_field_def Let_def)
  show ?thesis
  proof (cases res)
    case None
    then have "h = g" using assms(1) h out by (simp add: submit_field_def Let_def)
    then show ?thesis using reg_raises [of i ?f g T] h None out assms(2-4) by simp
  next
    case (Some r)
    let ?k = "upd_field i (\<lambda>x. x\<lparr>vi_err := True\<rparr>) (showmsg (Some tipmsg_v) (Some i) 3 ByForm h)"
    have k: "still f ?k" by (rule still_into(6) [OF still_into(1) [OF fh]])
    then have u: "i < length (fm_fields ?k)" "same_types T (vc_types (fm_cx ?k))"
      using assms(2) same_types_trans [OF assms(4)] by (simp_all add: still_def undisturbed_def)
    have "trigger_blur i ?k = (g, False)"
      using assms(1) h out Some by (auto simp: submit_field_def Let_def split: if_splits prod.splits)
    then have "blur True i ?k = (g, False)" by (auto simp: trigger_blur_def split: if_splits)
    then show ?thesis using blur_raises u by blast
  qed
qed

lemma submit_loop_raises:
  assumes "submit_loop ks f flag = (g, flag', True)" "same_types T (vc_types (fm_cx f))"
    "\<forall>i\<in>set ks. i < length (fm_fields f) \<and> vi_typed (fm_fields f ! i)"
  shows "stuck T g"
  using assms
proof (induction ks f flag rule: submit_loop.induct)
  case (2 i ks f flag)
  obtain h out where h: "submit_field i f = (h, out)" by (cases "submit_field i f")
  have u: "same_types T (vc_types (fm_cx h))"
    using submit_field_calm [OF h] same_types_trans [OF "2.prems"(2)] by (simp add: undisturbed_def)
  have a: "\<forall>i\<in>set ks. i < length (fm_fields h) \<and> vi_typed (fm_fields h ! i)"
    using alike_nth [OF submit_field_alike [OF h]] "2.prems"(3) by simp
  show ?case
  proof (cases out)
    case FieldRaised
    then show ?thesis using submit_field_raises [of i f g T] h "2.prems" by simp
  qed (use "2.IH" "2.prems"(1) h u a in \<open>auto split: if_splits\<close>)
qed simp

section \<open>Runs\<close>

lemma show_form: "fm_fields (showmsg m None k trig f) = fm_fields f" "fm_boxes (showmsg m None k trig f) = fm_boxes f"
  by (auto simp: showmsg_def Let_def split: option.split)

lemma calm_sends: "undisturbed f g \<Longrightarrow> sends g = sends f"
  by (simp add: undisturbed_def)

text \<open>What a submission comes to when the checks are not left out.\<close>

definition may_post :: "vform \<Rightarrow> bool" where
  "may_post f \<longleftrightarrow> fm_status f \<noteq> Posting \<and> \<not> (vs_once (fm_set f) \<and> fm_status f = Posted)"

lemma typed_fields_set: "set (typed_fields f) = {i. i < length (fm_fields f) \<and> vi_typed (fm_fields f ! i)}"
  by (auto simp: typed_fields_def)

lemma loop_fit_form:
  assumes "submit_loop (typed_fields f) f True = (h, True, False)" "same_types T (vc_types (fm_cx f))"
  shows "still f h \<and> fit_form T (fm_set f) (fm_fields h) (fm_boxes h)"
proof -
  have ks: "distinct (typed_fields f)" "set (typed_fields f) \<subseteq> {0..<length (fm_fields f)}"
    by (auto simp: typed_fields_def)
  note l = submit_loop_fit [OF assms(1) ks assms(2)]
  have len: "length (fm_fields h) = length (fm_fields f)" using l by (simp add: still_def undisturbed_def)
  have "i \<in> set (typed_fields f)" if "i < length (fm_fields f)" "vi_typed (fm_fields h ! i)" for i
    using that frame_eq(3) [OF still_nth [OF conjunct1 [OF l] that(1)]] by (simp add: typed_fields_set)
  then show ?thesis using l len by (fastforce simp: fit_form_def in_set_conv_nth)
qed

lemma submitForm_checked:
  assumes "submitForm False ajax bc bs cb f = (g, out)" "same_types T (vc_types (fm_cx f))"
  obtains "undisturbed f g" "out \<noteq> Go"
  | h where "still f h" "fit_form T (fm_set f) (fm_fields h) (fm_boxes h)" "may_post f" "vs_ajax (fm_set f) \<or> ajax"
      "g = post_form (h\<lparr>fm_status := Posting\<rparr>)" "out = Stay"
  | h where "still f h" "fit_form T (fm_set f) (fm_fields h) (fm_boxes h)" "may_post f" "\<not> vs_ajax (fm_set f)"
      "g = h\<lparr>fm_status := (if vs_once (fm_set f) then Posting else Normal)\<rparr>"
proof (cases "may_post f \<and> bc")
  case False
  then show ?thesis using assms(1) that(1) by (auto simp: submitForm_def may_post_def Let_def split: if_splits)
next
  case True
  obtain h flag raised where h: "submit_loop (typed_fields f) f True = (h, flag, raised)" by (cases "submit_loop (typed_fields f) f True")
  have c: "undisturbed f h" by (rule submit_loop_calm [OF h])
  show ?thesis
  proof (cases "flag \<and> \<not> raised \<and> bs")
    case False
    then show ?thesis using assms(1) True h c that(1)
      by (auto simp: submitForm_def may_post_def Let_def split: if_splits)
  next
    case ok: True
    then have l: "still f h \<and> fit_form T (fm_set f) (fm_fields h) (fm_boxes h)"
      using loop_fit_form [OF _ assms(2)] h by simp
    show ?thesis using assms(1) True h ok l that(2,3) [of h]
      by (auto simp: submitForm_def may_post_def Let_def split: if_splits)
  qed
qed

lemma form_fields_other [simp]:
  "vform.fm_fields (h\<lparr>fm_status := s\<rparr>) = fm_fields h" "fm_boxes (h\<lparr>fm_status := s\<rparr>) = fm_boxes h"
  by simp_all

text \<open>What is in the log: questions, forms that were fit, and forms that hold a field whose types can not be read.\<close>

definition sent_fit :: "vtype jobj \<Rightarrow> vset \<Rightarrow> vsent \<Rightarrow> bool" where
  "sent_fit T st e \<longleftrightarrow>
     (case e of
        Post k xs bs \<Rightarrow> fit_form T st xs bs
      | Native xs bs \<Rightarrow> fit_form T st xs bs
      | SentBroken xs bs \<Rightarrow> unreadable T st xs bs
      | Ask k i v \<Rightarrow> True)"

definition fit_log :: "vtype jobj \<Rightarrow> vset \<Rightarrow> vform \<Rightarrow> bool" where
  "fit_log T st f \<longleftrightarrow> same_types T (vc_types (fm_cx f)) \<and> fm_set f = st \<and> list_all (sent_fit T st) (sends f)"

lemma fit_log_calm: "fit_log T st f \<Longrightarrow> undisturbed f g \<Longrightarrow> fit_log T st g"
  by (auto simp: fit_log_def undisturbed_def intro: same_types_trans)

lemma submit_fit:
  assumes "submitForm False ajax bc bs cb f = (g, out)" "fit_log T st f"
  shows "fit_log T st g \<and> (out = Go \<longrightarrow> fit_form T st (fm_fields g) (fm_boxes g))"
proof -
  have T: "same_types T (vc_types (fm_cx f))" "fm_set f = st" using assms(2) by (simp_all add: fit_log_def)
  show ?thesis
    using assms(1) T(1)
  proof (cases rule: submitForm_checked)
    case 1
    then show ?thesis using assms(2) fit_log_calm by blast
  next
    case (2 h)
    let ?h = "h\<lparr>fm_status := Posting\<rparr>"
    let ?k = "showmsg (Some tipmsg_p) None 1 ByAjax ?h"
    have h: "fit_log T st ?h" using fit_log_calm [OF assms(2) still_calm [OF 2(1)]] by (simp add: fit_log_def sends_def)
    then have k: "fit_log T st ?k" using fit_log_calm still_calm [OF showmsg_still] by blast
    have "sends (post_form ?h) = sends ?k @ [Post (fm_next ?k) (fm_fields h) (fm_boxes h)]"
      by (simp add: post_form_def sends_def show_form Let_def)
    moreover have "fm_set (post_form ?h) = fm_set ?k" "fm_cx (post_form ?h) = fm_cx ?k" by (simp_all add: post_form_def Let_def)
    ultimately show ?thesis using k 2(2,5,6) T(2) by (simp add: fit_log_def sent_fit_def)
  next
    case (3 h)
    have "fit_log T st h" by (rule fit_log_calm [OF assms(2) still_calm [OF 3(1)]])
    then show ?thesis using 3(2,5) T(2) by (simp add: fit_log_def sends_def)
  qed
qed

lemma submitForm_raises:
  assumes "submitForm False ajax bc bs cb f = (g, Raised)" "same_types T (vc_types (fm_cx f))"
  shows "stuck T g"
proof -
  obtain h flag raised where h: "submit_loop (typed_fields f) f True = (h, flag, raised)" by (cases "submit_loop (typed_fields f) f True")
  then have "raised \<and> h = g" using assms(1) by (auto simp: submitForm_def Let_def split: if_splits)
  then show ?thesis using submit_loop_raises [of "typed_fields f" f True g flag T] h assms(2) by (simp add: typed_fields_set)
qed

lemma submit_event_fit: "fit_log T st f \<Longrightarrow> fit_log T st (submit_event own bc bs cb f)"
proof -
  assume f: "fit_log T st f"
  obtain g out where g: "submitForm False False bc bs cb f = (g, out)" by (cases "submitForm False False bc bs cb f")
  note s = submit_fit [OF g f]
  have r: "unreadable T st (fm_fields g) (fm_boxes g)" if "out = Raised"
    using submitForm_raises [of False bc bs cb f g T] g f s that by (simp add: fit_log_def stuck_def)
  have "sends (g\<lparr>fm_log := fm_log g @ [e], fm_left := b\<rparr>) = sends g @ [e]" if "e \<in> {Native xs bx, SentBroken xs bx}" for e b xs bx
    using that by (auto simp: sends_def)
  then show ?thesis using g s r
    by (cases out) (auto simp: submit_event_def fit_log_def sent_fit_def)
qed

interpretation fit: form_law "fit_log T st" "\<lambda>e. \<forall>a. e \<noteq> SendUnchecked a" for T st
proof
  fix f g own bc bs cb k a
  assume f: "fit_log T st f"
  then show "undisturbed f g \<Longrightarrow> fit_log T st g" by (rule fit_log_calm)
  show "fit_log T st (submit_event own bc bs cb f)" by (rule submit_event_fit [OF f])
  have show_fit: "fit_log T st g \<Longrightarrow> fit_log T st (showmsg m ob n trig g)" for m ob n trig g
    by (rule fit_log_calm [OF _ still_calm [OF showmsg_still]])
  have parts: "fit_log T st (g\<lparr>fm_status := s\<rparr>) = fit_log T st g" "fit_log T st (g\<lparr>fm_posts := ps\<rparr>) = fit_log T st g"
    "fit_log T st (g\<lparr>fm_fields := xs, fm_boxes := bx\<rparr>) = fit_log T st g" for g s ps xs bx
    by (simp_all add: fit_log_def sends_def)
  show "fit_log T st (post_answer k a f)"
    using f by (auto simp: post_answer_def Let_def parts split: vanswer.split intro!: show_fit)
  show "fit_log T st (resetForm f)" "fit_log T st (resetStatus f)" "fit_log T st (setStatus s f)" for s
    using f by (simp_all add: resetForm_def resetStatus_def setStatus_def parts)
qed blast


section \<open>One form on its way\<close>

text \<open>
  With requests: while the status says so, and only then, one form is on its way to the server.
\<close>

definition one_post :: "vform \<Rightarrow> bool" where
  "one_post f \<longleftrightarrow> vs_ajax (fm_set f) \<and> (if fm_status f = Posting then \<exists>k. fm_posts f = [k] else fm_posts f = [])"

definition restarts :: "vevent \<Rightarrow> bool" where
  "restarts e \<longleftrightarrow> (case e of ResetClick \<Rightarrow> True | StatusReset \<Rightarrow> True | StatusSet s \<Rightarrow> True | _ \<Rightarrow> False)"

lemma one_post_calm: "one_post f \<Longrightarrow> undisturbed f g \<Longrightarrow> one_post g"
  by (simp add: one_post_def undisturbed_def)

lemma post_form_shape:
  "\<exists>k. fm_posts (post_form f) = fm_posts f @ [k] \<and> fm_set (post_form f) = fm_set f \<and> fm_status (post_form f) = fm_status f"
proof -
  have "undisturbed f (showmsg (Some tipmsg_p) None 1 ByAjax f)" using still_calm [OF showmsg_still] .
  then show ?thesis by (simp add: post_form_def Let_def undisturbed_def)
qed

lemma submit_one_post:
  assumes "submitForm flg ajax bc bs cb f = (g, out)" "one_post f"
  shows "one_post g"
proof (cases "may_post f \<and> bc")
  case False
  then show ?thesis using assms by (auto simp: submitForm_def may_post_def Let_def split: if_splits)
next
  case True
  obtain h flag raised where h: "(if flg then (f, True, False) else submit_loop (typed_fields f) f True) = (h, flag, raised)"
    by (cases "if flg then (f, True, False) else submit_loop (typed_fields f) f True")
  have c: "undisturbed f h" using h submit_loop_calm by (cases flg) auto
  have a: "vs_ajax (fm_set f)" "fm_posts f = []" using assms(2) True by (auto simp: one_post_def may_post_def split: if_splits)
  show ?thesis
  proof (cases "flag \<and> \<not> raised \<and> bs")
    case False
    then have "g = h" using assms(1) True h by (auto simp: submitForm_def may_post_def Let_def split: if_splits)
    then show ?thesis using one_post_calm [OF assms(2) c] by simp
  next
    case ok: True
    then have "g = post_form (h\<lparr>fm_status := Posting\<rparr>)"
      using assms(1) True h a by (auto simp: submitForm_def may_post_def Let_def split: if_splits)
    moreover have "fm_posts h = []" "vs_ajax (fm_set h)" using c a by (simp_all add: undisturbed_def)
    ultimately show ?thesis using post_form_shape [of "h\<lparr>fm_status := Posting\<rparr>"] by (auto simp: one_post_def)
  qed
qed

lemma one_post_other:
  "one_post (f\<lparr>fm_log := l, fm_left := b\<rparr>) = one_post f" "one_post (f\<lparr>fm_errorobj := e\<rparr>) = one_post f"
  "one_post (f\<lparr>fm_air := as\<rparr>) = one_post f" "one_post (f\<lparr>fm_shown := b\<rparr>) = one_post f"
  "one_post (f\<lparr>fm_boxes := bx\<rparr>) = one_post f" "one_post (upd_field i h f) = one_post f"
  by (simp_all add: one_post_def upd_field_def)

lemma show_one_post: "one_post f \<Longrightarrow> one_post (showmsg m ob k trig f)"
  by (rule one_post_calm [OF _ still_calm [OF showmsg_still]])

lemma event_one_post: "one_post f \<Longrightarrow> one_post (submit_event own bc bs cb f)"
  using submit_one_post [of False False bc bs cb f]
  by (auto simp: submit_event_def one_post_other split: prod.splits sout.splits)

lemma show_keeps:
  "fm_set (showmsg m ob k trig f) = fm_set f" "fm_status (showmsg m ob k trig f) = fm_status f"
  "fm_posts (showmsg m ob k trig f) = fm_posts f" "sends (showmsg m ob k trig f) = sends f"
  "fm_left (showmsg m ob k trig f) = fm_left f"
  using still_calm [OF showmsg_still, of f m ob k trig] by (simp_all add: undisturbed_def)

lemma post_answer_one_post: "one_post f \<Longrightarrow> one_post (post_answer k a f)"
  by (auto simp: post_answer_def one_post_def Let_def show_keeps split: vanswer.split if_splits)

interpretation one: form_law one_post "\<lambda>e. \<not> restarts e"
proof
  fix f g own bc bs cb k a
  assume f: "one_post f"
  then show "undisturbed f g \<Longrightarrow> one_post g" by (rule one_post_calm)
  show "one_post (submit_event own bc bs cb f)" by (rule event_one_post [OF f])
  show "one_post (post_answer k a f)" by (rule post_answer_one_post [OF f])
  show "one_post (send_unchecked a f)" for a
    using f submit_one_post [of True a True True True f]
    by (auto simp: send_unchecked_def one_post_other split: prod.split sout.split)
qed (simp_all add: restarts_def)

end
