(* ===== verification/Valid_Types.thy ===== *)
theory Valid_Types
  imports Valid_Rules
begin

text \<open>
  What the data types of the form checks accept: the types made from a name with a range, the
  attribute \<open>datatype\<close> as it is printed and read, and where the types accept more, or less, than they say.
\<close>

section \<open>Names with a range\<close>

lemma nat_str_all [simp]: "list_all is_digit (nat_str n)"
  by (auto simp: list_all_iff nat_str_digits)

lemma takeWhile_nat_str:
  "\<not> is_digit u \<Longrightarrow> takeWhile is_digit (nat_str n @ u # r) = nat_str n"
  "\<not> is_digit u \<Longrightarrow> dropWhile is_digit (nat_str n @ u # r) = u # r"
  by (simp_all add: takeWhile_append2 dropWhile_append2 nat_str_digits)

lemma dig_range_nat: "dig_range (nat_str m @ 45 # nat_str n) = Some (nat_str m, nat_str n)"
proof -
  have "\<not> is_digit 45" by (simp add: is_digit_def)
  then show ?thesis by (simp add: dig_range_def takeWhile_nat_str)
qed

definition range_of :: "nat \<Rightarrow> nat \<Rightarrow> nat \<Rightarrow> jstr" where
  "range_of c m n = c # nat_str m @ 45 # nat_str n"

lemma range_of_name: "\<not> line_end c \<Longrightarrow> range_name (range_of c m n) = Some ([c], nat_str m, nat_str n)"
proof -
  assume c: "\<not> line_end c"
  have "[1..<length (range_of c m n)] = 1 # [2..<length (range_of c m n)]"
    by (subst upt_conv_Cons) (simp_all add: range_of_def numeral_2_eq_2)
  then show ?thesis using c dig_range_nat [of m n]
    by (simp add: range_name_def range_of_def no_line_end_def)
qed

lemma range_of_no_slash: "c \<noteq> 47 \<Longrightarrow> 47 \<notin> set (range_of c m n)"
  using nat_str_digits [of 47] by (auto simp: range_of_def is_digit_def)

lemma no_literal: "47 \<notin> set s \<Longrightarrow> literal_parts s = None"
  by (auto simp: literal_parts_def Let_def)

section \<open>The source of a type with another range\<close>

lemma strip_flags_none: "47 \<notin> set s \<Longrightarrow> strip_flags False (s @ [47]) = s @ [47]"
  by (induction s) auto

lemma slash_matches_last: "47 \<notin> set s \<Longrightarrow> slash_matches (s @ [47]) = [[47]]"
  by (induction s) auto

lemma replace_all_once:
  assumes "c \<noteq> []" "hd c \<notin> set p" "hd c \<notin> set q"
  shows "replace_all (p @ c @ q) c r = p @ r @ q"
  using assms(2)
proof (induction p)
  case Nil
  have "\<not> sublist c q" using assms(1,3) by (meson hd_in_set sublist_set subsetD)
  then show ?case using assms(1) by (subst replace_all.simps) (simp add: replace_all_absent)
next
  case (Cons x p)
  then have "\<not> prefix c ((x # p) @ c @ q)" using assms(1) by (cases c) auto
  then show ?case using Cons assms(1) by (subst replace_all.simps) simp
qed

lemma new_source_plain:
  assumes "47 \<notin> set (p @ braces a b @ q)" "123 \<notin> set p" "123 \<notin> set q" "p \<noteq> []" "\<not> mgi (hd p)"
  shows "new_source (p @ braces a b @ q) a b m n = (p @ braces m n @ q, [])"
proof -
  let ?s = "p @ braces a b @ q"
  obtain u p' where p: "p = u # p'" using assms(4) by (cases p) auto
  have tail: "strip_flags True (?s @ [47]) = ?s @ [47]"
    using assms(1,5) strip_flags_none [of "p' @ braces a b @ q"] by (simp add: p)
  have matches: "slash_matches (47 # ?s @ [47]) = [[47], [47]]"
    using assms(1,5) slash_matches_last [of ?s] by (simp add: p)
  have "replace_all (47 # ?s @ [47]) (braces a b) (braces m n) = (47 # p) @ braces m n @ (q @ [47])"
    using replace_all_once [of "braces a b" "47 # p" "q @ [47]" "braces m n"] assms(2,3) by (simp add: braces_def)
  moreover have "replace1 [47] [47] [] = ([] :: jstr)" by (simp add: replace1_def)
  ultimately show ?thesis
    using tail matches butlast_snoc [of "p @ braces m n @ q" 47]
    by (simp add: new_source_def Let_def drop_first_def drop_last_def)
qed

section \<open>Compiling a range\<close>

lemma unesc_plain: "92 \<notin> set s \<Longrightarrow> unesc s = map Raw s"
  by (induction s rule: unesc.induct) auto

lemma take_digits_map:
  "list_all is_digit ds \<Longrightarrow> (case es of Raw u # _ \<Rightarrow> \<not> is_digit u | _ \<Rightarrow> True) \<Longrightarrow> take_digits (map Raw ds @ es) = (ds, es)"
proof (induction ds)
  case Nil
  then show ?case by (cases es rule: take_digits.cases) auto
qed simp

lemma quant_nat: "quant (map Raw (nat_str m) @ Raw 44 # map Raw (nat_str n) @ Raw 125 # es) = Some (m, Some n, es)"
proof -
  have d: "\<not> is_digit 44" "\<not> is_digit 125" by (simp_all add: is_digit_def)
  have "take_digits (map Raw (nat_str m) @ Raw 44 # map Raw (nat_str n) @ Raw 125 # es) =
      (nat_str m, Raw 44 # map Raw (nat_str n) @ Raw 125 # es)"
    using d by (intro take_digits_map) simp_all
  moreover have "take_digits (map Raw (nat_str n) @ Raw 125 # es) = (nat_str n, Raw 125 # es)"
    using d by (intro take_digits_map) simp_all
  ultimately show ?thesis by (simp add: quant_def)
qed

lemma unesc_range:
  "unesc (123 # nat_str m @ 44 # nat_str n @ [125, 36]) =
    Raw 123 # map Raw (nat_str m) @ Raw 44 # map Raw (nat_str n) @ [Raw 125, Raw 36]"
proof -
  have "92 \<notin> set (nat_str m)" "92 \<notin> set (nat_str n)" using nat_str_digits [of 92] by (auto simp: is_digit_def)
  then show ?thesis by (subst unesc_plain) auto
qed

lemmas range_eval = unesc_range quant_nat reluctant_def pat_def js_def braces_def escape_unit_def rx_hex_def
  is_digit_def word_unit_def

text \<open>A pattern \<open>^[...]{m,n}$\<close> whose set has been read.\<close>

definition ranged :: "bool \<Rightarrow> citem list \<Rightarrow> nat \<Rightarrow> nat \<Rightarrow> rx" where
  "ranged neg cs m n = RSeq RBeg (RSeq (RRep (RSet neg cs) m (Some n)) REnd)"

lemma compile_ranged:
  assumes "toks (unesc src) = [TBeg, TSet neg cs, TRep m (Some n), TEnd]"
  shows "rx_compile src = (if m \<le> n then Some (ranged neg cs m n) else None)"
  using assms
  by (simp add: rx_compile_def empty_frame_def add_item_def frame_rx_def ranged_def)

lemma reps_set: "i + l \<le> length s \<Longrightarrow>
    reps (rx_match s (RSet neg cs)) l i k \<longleftrightarrow> k = i + l \<and> list_all (in_set neg cs) (take l (drop i s))"
proof (induction l arbitrary: i)
  case (Suc l)
  have "drop i s = s ! i # drop (Suc i) s" using Suc.prems by (simp add: Cons_nth_drop_Suc)
  then show ?case using Suc by (auto simp: rx_simps)
qed auto

lemma ranged_test: "rx_test (ranged neg cs m n) v \<longleftrightarrow> m \<le> length v \<and> length v \<le> n \<and> list_all (in_set neg cs) v"
proof -
  have range: "k \<le> length v" if "reps (rx_match v (RSet neg cs)) l i k" "i \<le> length v" for l i k
    using reps_range [of "rx_match v (RSet neg cs)" "length v" l i k] rx_match_range that by auto
  have count: "k = i + l" if "reps (rx_match v (RSet neg cs)) l i k" for l i k
    using that by (induction l arbitrary: i) (fastforce simp: rx_simps)+
  have "(\<exists>i j. rx_match v (ranged neg cs m n) i j) \<longleftrightarrow>
      (\<exists>l\<ge>m. l \<le> n \<and> reps (rx_match v (RSet neg cs)) l 0 (length v))"
    by (auto simp: ranged_def rx_simps rx_rep within_def)
  also have "\<dots> \<longleftrightarrow> m \<le> length v \<and> length v \<le> n \<and> reps (rx_match v (RSet neg cs)) (length v) 0 (length v)"
    using count by fastforce
  finally show ?thesis using reps_set [of 0 "length v" v neg cs "length v"] by (simp add: rx_test_match)
qed

section \<open>Types made from a name with a range\<close>

lemma range_type:
  assumes "\<not> line_end c" "c \<noteq> 47"
    and base: "base_type dataType [c] = Some (DtRx (p @ braces (nat_str a) (nat_str b) @ [36]), nat_str a, nat_str b)"
    and only: "\<And>k t m n. (k, t) \<in> set dataType \<Longrightarrow> range_name k = Some ([c], m, n) \<Longrightarrow>
        m = nat_str a \<and> n = nat_str b \<and> t = DtRx (p @ braces (nat_str a) (nat_str b) @ [36])"
    and p: "47 \<notin> set p" "123 \<notin> set p" "p \<noteq> []" "\<not> mgi (hd p)"
    and toks: "\<And>m n. toks (unesc (p @ braces (nat_str m) (nat_str n) @ [36])) = [TBeg, TSet neg cs, TRep m (Some n), TEnd]"
  shows "says dataType (range_of c m n) v =
    (if m \<le> n then Some (m \<le> length v \<and> length v \<le> n \<and> list_all (in_set neg cs) v, None) else None)"
proof -
  let ?d = "range_of c m n"
  have test: "map_option snd (test_source T (p @ braces (nat_str m) (nat_str n) @ [36]) v) =
      (if m \<le> n then Some (m \<le> length v \<and> length v \<le> n \<and> list_all (in_set neg cs) v, None) else None)" for T
    by (simp add: test_source_def compile_ranged [OF toks] ranged_test)
  have lit: "literal_parts ?d = None" by (rule no_literal [OF range_of_no_slash [OF assms(2)]])
  note name = range_of_name [OF assms(1), of m n]
  show ?thesis
  proof (cases "obj_get dataType ?d")
    case (Some t)
    then have "(?d, t) \<in> set dataType" by (auto simp: obj_get_def dest: map_of_SomeD)
    then have t: "m = a" "n = b" "t = DtRx (p @ braces (nat_str a) (nat_str b) @ [36])" using only [OF _ name] by auto
    have "says dataType ?d v = map_option snd (test_source dataType (p @ braces (nat_str m) (nat_str n) @ [36]) v)"
      using Some lit t by (simp add: says_def regtype_def)
    then show ?thesis using test by simp
  next
    case None
    have digits: "47 \<notin> set (nat_str k)" for k using nat_str_digits [of 47] by (auto simp: is_digit_def)
    have "new_source (p @ braces (nat_str a) (nat_str b) @ [36]) (nat_str a) (nat_str b) (nat_str m) (nat_str n) =
        (p @ braces (nat_str m) (nat_str n) @ [36], [])"
      using p digits by (intro new_source_plain) (auto simp: braces_def)
    then show ?thesis using test by (simp add: says_def regtype_def lit None name base)
  qed
qed

text \<open>The names of the table, and the patterns of the types with a range.\<close>

lemma key_ranges:
  "range_name (js ''*'') = None" "range_name (js ''n'') = None" "range_name (js ''s'') = None"
  "range_name (js ''p'') = None" "range_name (js ''m'') = None" "range_name (js ''e'') = None"
  "range_name (js ''url'') = None"
  "range_name (js ''*6-16'') = Some ([42], js ''6'', js ''16'')"
  "range_name (js ''n6-16'') = Some ([110], js ''6'', js ''16'')"
  "range_name (js ''s6-18'') = Some ([115], js ''6'', js ''18'')"
  by (simp_all add: range_name_def dig_range_def js_def is_digit_def no_line_end_def line_end_def upt_rec)

lemma range_bounds: "js ''6'' = nat_str 6" "js ''16'' = nat_str 16" "js ''18'' = nat_str 18"
  by (simp_all add: js_def nat_str_one nat_str_two)

lemma key_patterns:
  "pat ''^[`w`W]{6,16}$'' = pat ''^[`w`W]'' @ braces (nat_str 6) (nat_str 16) @ [36]"
  "pat ''^`d{6,16}$'' = pat ''^`d'' @ braces (nat_str 6) (nat_str 16) @ [36]"
  "pat ''^[`u4E00-`u9FA5`uf900-`ufa2d`w`.`s]{6,18}$'' =
    pat ''^[`u4E00-`u9FA5`uf900-`ufa2d`w`.`s]'' @ braces (nat_str 6) (nat_str 18) @ [36]"
  by (simp_all add: pat_def js_def braces_def nat_str_one nat_str_two)

lemmas table_eval = dataType_def base_type_def key_ranges key_patterns range_bounds

lemma says_any:
  "says dataType (range_of 42 m n) v =
    (if m \<le> n then Some (m \<le> length v \<and> length v \<le> n \<and> list_all (in_set False [CWord True, CWord False]) v, None) else None)"
  by (rule range_type [where p = "pat ''^[`w`W]'' " and a = 6 and b = 16])
    (auto simp: table_eval line_end_def, auto simp: range_eval mgi_def)

lemma says_digits:
  "says dataType (range_of 110 m n) v =
    (if m \<le> n then Some (m \<le> length v \<and> length v \<le> n \<and> list_all (in_set False [CDigit True]) v, None) else None)"
  by (rule range_type [where p = "pat ''^`d'' " and a = 6 and b = 16])
    (auto simp: table_eval line_end_def, auto simp: range_eval mgi_def)

definition plain_set :: "citem list" where
  "plain_set = [CRange 19968 40869, CRange 63744 64045, CWord True, CRange 46 46, CSpace True]"

lemma says_plain:
  "says dataType (range_of 115 m n) v =
    (if m \<le> n then Some (m \<le> length v \<and> length v \<le> n \<and> list_all (in_set False plain_set) v, None) else None)"
  by (rule range_type [where p = "pat ''^[`u4E00-`u9FA5`uf900-`ufa2d`w`.`s]'' " and a = 6 and b = 18])
    (auto simp: table_eval line_end_def, auto simp: range_eval mgi_def plain_set_def)

text \<open>
  C9: a type such as \<open>n6-20\<close>, which the table does not hold, is made from the type of the table with
  another range, and is the type its name says: after any checks of any fields \<open>*m-n\<close> accepts the texts
  of \<open>m\<close> to \<open>n\<close> units, \<open>nm-n\<close> those of digits, \<open>sm-n\<close> those without special characters; with the bounds out
  of order the check raises an exception.
\<close>

theorem range_types:
  assumes "vc_types cx = dataType" "T = vc_types (checks bs cx)"
  shows "says T (range_of 42 m n) v = (if m \<le> n then Some (m \<le> length v \<and> length v \<le> n, None) else None) \<and>
    says T (range_of 110 m n) v =
      (if m \<le> n then Some (m \<le> length v \<and> length v \<le> n \<and> list_all is_digit v, None) else None) \<and>
    says T (range_of 115 m n) v =
      (if m \<le> n then Some (m \<le> length v \<and> length v \<le> n \<and>
         list_all (\<lambda>u. cjk u \<or> word_unit u \<or> u = 46 \<or> js_space u) v, None) else None)"
proof -
  have T: "says T = says dataType" using checks_keep_types [of cx bs] assms by (simp add: same_types_def)
  have any: "list_all (in_set False [CWord True, CWord False]) v" by (auto simp: list_all_iff in_set_def)
  have digit: "in_set False [CDigit True] = is_digit" by (simp add: in_set_def fun_eq_iff)
  have plain: "in_set False plain_set = (\<lambda>u. cjk u \<or> word_unit u \<or> u = 46 \<or> js_space u)"
    by (auto simp: in_set_def plain_set_def cjk_def fun_eq_iff)
  show ?thesis unfolding T says_any says_digits says_plain using any by (simp add: digit plain)
qed

text \<open>A text field with the types \<open>d\<close>.\<close>

definition plain_field :: "jstr \<Rightarrow> jstr \<Rightarrow> vobj" where
  "plain_field name d =
     \<lparr>vo_name = name, vo_box = False, vo_types = d, vo_recheck = None, vo_ignore = False, vo_tip = None,
      vo_nullmsg = None, vo_errormsg = None, vo_sucmsg = None, vo_label = [], vo_cked = False\<rparr>"

theorem range_types_witness:
  "says (vc_types (checks [(\<lambda>_. None, js ''1234'', plain_field (js ''a'') (js ''n2-4''))] \<lparr>vc_types = dataType, vc_w = []\<rparr>))
     (range_of 110 2 5) (js ''12345'') = Some (True, None)"
  using range_types [of "\<lparr>vc_types = dataType, vc_w = []\<rparr>" _ "[(\<lambda>_. None, js ''1234'', plain_field (js ''a'') (js ''n2-4''))]" 2 5 "js ''12345''"]
  by (simp add: js_def is_digit_def)

theorem field_check_meaning_witness:
  "\<exists>cx' ob' r. regcheck (\<lambda>_. None) (js ''12'') (checks [(\<lambda>_. None, js ''123'', plain_field (js ''b'') (js ''n2-5''))] \<lparr>vc_types = dataType, vc_w = []\<rparr>) (plain_field (js ''a'') (js ''n2-4'')) =
     (cx', ob', Some r) \<and> vr_passed r"
proof -
  let ?cx = "\<lparr>vc_types = dataType, vc_w = []\<rparr>"
  let ?bs = "checks [(\<lambda>_. None, js ''123'', plain_field (js ''b'') (js ''n2-5''))]"
  let ?ob = "plain_field (js ''a'') (js ''n2-4'')"
  obtain cx' ob' res where e: "regcheck (\<lambda>_. None) (js ''12'') (?bs ?cx) ?ob = (cx', ob', res)"
    by (cases "regcheck (\<lambda>_. None) (js ''12'') (?bs ?cx) ?ob")
  have "parseDatatype (js ''n2-4'') = Some [[Some (js ''n2-4'')]]"
    by (simp add: parseDatatype_def js_def type_unit_def word_unit_def is_digit_def Let_def)
  moreover have "js ''n2-4'' = range_of 110 2 4" by (simp add: range_of_def js_def nat_str_one)
  moreover have "says dataType (range_of 110 2 4) (js ''12'') = Some (True, None)"
    by (simp add: says_digits in_set_def js_def is_digit_def)
  ultimately have s: "sound_field dataType (js ''12'') ?ob" "meets dataType (\<lambda>_. None) (js ''12'') ?ob"
    by (simp_all add: sound_field_def meets_def plain_field_def sound_type_def all_ok_def accepts_def repeats_def)
  show ?thesis using field_check_meaning [OF e] s e by (cases res) auto
qed

section \<open>The attribute, printed and read\<close>

definition print_types :: "jstr list list \<Rightarrow> jstr" where
  "print_types tss = join_with [124] (map (join_with [44]) tss)"

text \<open>The text as a first word and words with the separators before them.\<close>

definition unroll :: "jstr \<Rightarrow> (nat \<times> jstr) list \<Rightarrow> jstr" where
  "unroll w ps = w @ concat (map (\<lambda>(u, x). u # x) ps)"

definition type_word :: "jstr \<Rightarrow> bool" where
  "type_word w \<longleftrightarrow> w \<noteq> [] \<and> list_all type_unit w"

lemma type_unit_seps: "\<not> type_unit 44" "\<not> type_unit 124" "\<not> type_unit 47" "\<not> js_space 44" "\<not> js_space 124"
  by (simp_all add: type_unit_def word_unit_def is_digit_def js_space_def)

lemma scan_word:
  assumes "type_word w" "r = [] \<or> \<not> type_unit (hd r)"
  shows "scan_types (w @ r) = (case scan_types r of (ts, rest) \<Rightarrow> (w # ts, rest))"
proof -
  obtain u w' where w: "w = u # w'" using assms(1) by (cases w) (auto simp: type_word_def)
  have word: "takeWhile type_unit (u # w' @ r) = u # w'"
    using assms w takeWhile_append2 [of "u # w'" type_unit r] by (cases r) (auto simp: type_word_def list_all_iff)
  have "u \<noteq> 47" using assms(1) type_unit_seps(3) by (auto simp: w type_word_def)
  then show ?thesis unfolding w append_Cons scan_types.simps Let_def word by simp
qed

lemma scan_sep: "u = 44 \<or> u = 124 \<Longrightarrow> scan_types (u # r) = (case scan_types r of (ts, rest) \<Rightarrow> (ts, u # rest))"
  using type_unit_seps by (auto simp: Let_def split: prod.split)

lemma scan_unroll:
  assumes "type_word w" "list_all (\<lambda>(u, x). (u = 44 \<or> u = 124) \<and> type_word x) ps"
  shows "scan_types (unroll w ps) = (w # map snd ps, map fst ps)"
  using assms
proof (induction ps arbitrary: w)
  case Nil
  then show ?case using scan_word [of w "[]"] by (simp add: unroll_def)
next
  case (Cons p ps)
  obtain u x where p: "p = (u, x)" by (cases p)
  have "unroll w (p # ps) = w @ u # unroll x ps" by (simp add: unroll_def p)
  then show ?case using Cons p type_unit_seps scan_word [of w "u # unroll x ps"] scan_sep [of u "unroll x ps"] by auto
qed

lemma group_append:
  "length us = length ts \<Longrightarrow> group_types (us @ vs) (ts @ xs) arr = group_types vs xs (group_types us ts arr)"
proof (induction us arbitrary: ts arr)
  case (Cons u us)
  then obtain t ts' where "ts = t # ts'" by (cases ts) auto
  then show ?case using Cons by (simp add: Let_def)
qed simp

lemma group_commas: "arr \<noteq> [] \<Longrightarrow> group_types (replicate (length xs) 44) xs arr = butlast arr @ [last arr @ map Some xs]"
  by (induction xs arbitrary: arr) (simp_all add: Let_def)

text \<open>The words of one alternative, and of the others with a bar in front.\<close>

definition commas :: "jstr list \<Rightarrow> (nat \<times> jstr) list" where
  "commas xs = map (Pair 44) xs"

definition bars :: "jstr list list \<Rightarrow> (nat \<times> jstr) list" where
  "bars tss = concat (map (\<lambda>ts. (124, hd ts) # commas (tl ts)) tss)"

lemma join_commas: "join_with [44] (w # ws) = unroll w (commas ws)"
  by (induction ws arbitrary: w) (simp_all add: unroll_def commas_def)

lemma print_unroll: "ts \<noteq> [] \<Longrightarrow> [] \<notin> set tss \<Longrightarrow> print_types (ts # tss) = unroll (hd ts) (commas (tl ts) @ bars tss)"
proof (induction tss arbitrary: ts)
  case Nil
  then show ?case by (cases ts) (simp_all add: print_types_def join_commas bars_def)
next
  case (Cons us tss)
  obtain t ts' where t: "ts = t # ts'" using Cons.prems by (cases ts) auto
  have "print_types (ts # us # tss) = join_with [44] ts @ 124 # print_types (us # tss)" by (simp add: print_types_def)
  then show ?case using Cons by (auto simp: t join_commas unroll_def bars_def)
qed

lemma group_bars:
  "[] \<notin> set tss \<Longrightarrow> arr \<noteq> [] \<Longrightarrow>
    group_types (map fst (bars tss)) (map snd (bars tss)) arr = arr @ map (map Some) tss"
proof (induction tss arbitrary: arr)
  case (Cons us tss)
  obtain t ts where t: "us = t # ts" using Cons.prems by (cases us) auto
  have commas: "map fst (commas ts) = replicate (length ts) 44" "map snd (commas ts) = ts"
    by (simp_all add: commas_def map_replicate_const comp_def)
  have "group_types (map fst (bars (us # tss))) (map snd (bars (us # tss))) arr =
      group_types (map fst (commas ts) @ map fst (bars tss)) (map snd (commas ts) @ map snd (bars tss)) (arr @ [[Some t]])"
    by (simp add: bars_def t Let_def)
  also have "\<dots> = group_types (map fst (bars tss)) (map snd (bars tss)) (arr @ [map Some us])"
    using group_append [of "map fst (commas ts)" "map snd (commas ts)"] group_commas [of "arr @ [[Some t]]" ts]
    by (simp add: commas t)
  also have "\<dots> = arr @ map (map Some) (us # tss)" using Cons by simp
  finally show ?case .
qed (simp add: bars_def)

text \<open>
  C10: what the attribute \<open>datatype\<close> says is read as it is written: alternatives of lists of types, with
  bars between the alternatives and commas between the types, are read back as they were.
\<close>

theorem types_read_back:
  assumes "tss \<noteq> []" "\<forall>ts\<in>set tss. ts \<noteq> [] \<and> (\<forall>w\<in>set ts. type_word w)"
  shows "parseDatatype (print_types tss) = Some (map (map Some) tss)"
proof -
  obtain ts uss where tss: "tss = ts # uss" using assms(1) by (cases tss) auto
  have ne: "ts \<noteq> []" "[] \<notin> set uss" using assms(2) by (auto simp: tss)
  let ?ps = "commas (tl ts) @ bars uss"
  have tl: "x \<in> set xs" if "x \<in> set (tl xs)" for x and xs :: "jstr list" using that by (cases xs) auto
  have "list_all (\<lambda>(u, x). (u = 44 \<or> u = 124) \<and> type_word x) ?ps"
    using assms(2) ne tl by (fastforce simp: tss list_all_iff commas_def bars_def)
  moreover have "type_word (hd ts)" using assms(2) ne by (simp add: tss)
  ultimately have scan: "scan_types (print_types tss) = (hd ts # map snd ?ps, map fst ?ps)"
    unfolding tss print_unroll [OF ne] by (rule scan_unroll [rotated])
  have "list_all (\<lambda>u. \<not> js_space u) (map fst ?ps)"
    using type_unit_seps by (auto simp: list_all_iff commas_def bars_def)
  then have "filter (\<lambda>u. \<not> js_space u) (map fst ?ps) = map fst ?ps" by (simp add: list_all_iff filter_id_conv)
  then have "parseDatatype (print_types tss) = Some (group_types (map fst ?ps) (map snd ?ps) [[Some (hd ts)]])"
    by (simp add: parseDatatype_def scan)
  moreover have map_hd: "Some (hd ts) # map Some (tl ts) = map Some ts" using ne(1) by (cases ts) simp_all
  moreover have c: "map fst (commas (tl ts)) = replicate (length (tl ts)) 44" "map snd (commas (tl ts)) = tl ts"
    by (simp_all add: commas_def map_replicate_const comp_def)
  have "group_types (map fst ?ps) (map snd ?ps) [[Some (hd ts)]] =
      group_types (map fst (bars uss)) (map snd (bars uss)) [map Some ts]"
    using group_append [of "map fst (commas (tl ts))" "map snd (commas (tl ts))" "map fst (bars uss)" "map snd (bars uss)"]
      group_commas [of "[[Some (hd ts)]]" "tl ts"] ne map_hd by (simp add: c)
  ultimately show ?thesis
    using group_bars [OF ne(2), of "[map Some ts]"] by (simp add: tss)
qed

theorem types_read_back_witness:
  "parseDatatype (js ''phone|tel,s,e|f,e'') =
    Some [[Some (js ''phone'')], [Some (js ''tel''), Some (js ''s''), Some (js ''e'')], [Some (js ''f''), Some (js ''e'')]]"
  using types_read_back [of "[[js ''phone''], [js ''tel'', js ''s'', js ''e''], [js ''f'', js ''e'']]"]
  by (simp add: print_types_def type_word_def js_def type_unit_def word_unit_def is_digit_def)

section \<open>The message for an empty field\<close>

text \<open>
  With a label the message asks to fill in, or to choose, what the label says, and a field that repeats
  another is questioned for by its label alone.
\<close>

lemma null_message:
  assumes "label_text (vo_label ob) = label" "label \<noteq> []"
  shows "snd (getNullmsg ob) =
    [35831] @ (if vo_recheck ob \<noteq> None \<and> vo_recheck ob \<noteq> Some [] then [] else if vo_box ob then [36873, 25321] else [22635, 20889]) @
    label @ [65281]"
proof -
  have out: "125 \<notin> set label"
    using assms(1) by (auto simp: label_text_def cjk_def letter_def js_space_def)
  have zero: "replace_zero tipmsg_s (\<lambda>_. label) = [35831, 123, 22635, 20889, 124, 36873, 25321, 125] @ label @ [65281]"
    by (simp add: replace_zero_def zero_brace_def tipmsg_s_def before_last_def js_def)
  have last: "before_last 125 ([22635, 20889, 124, 36873, 25321, 125] @ label @ [65281]) =
      Some ([22635, 20889, 124, 36873, 25321], label @ [65281])"
    using out by (auto simp: before_last_def dropWhile_append takeWhile_append)
  have half: "brace_half b [22635, 20889, 124, 36873, 25321] = (if b then [36873, 25321] else [22635, 20889])" for b
    by (simp add: brace_half_def before_last_def)
  have brace: "replace_brace ([35831, 123, 22635, 20889, 124, 36873, 25321, 125] @ label @ [65281]) f =
      [35831] @ f [22635, 20889, 124, 36873, 25321] @ label @ [65281]" for f
    using last by (simp add: replace_brace_def)
  show ?thesis
    using assms by (simp add: getNullmsg_def Let_def zero brace half del: append_Cons)
qed

section \<open>Where the types do not say what they should\<close>

text \<open>
  The type of mobile numbers: only its first alternative is tied to the beginning, and the second to
  neither end, so any text with 14 and nine digits somewhere in it is a number.
\<close>

definition mobile_rx :: rx where
  "mobile_rx =
     (let nine = RRep (RSet False [CRange 48 57]) 9 (Some 9); unit = (\<lambda>u. RSet False [CRange u u])
      in RAlt (RAlt (RAlt (RSeq RBeg (RSeq (unit 49) (RSeq (unit 51) (RSeq nine REnd))))
           (RSeq (unit 49) (RSeq (unit 52) nine)))
           (RSeq (unit 49) (RSeq (unit 53) (RSeq nine REnd))))
           (RSeq (unit 49) (RSeq (unit 56) (RSeq nine REnd))))"

lemma mobile_compiled:
  "rx_compile (pat ''^13[0-9]{9}$|14[0-9]{9}|15[0-9]{9}$|18[0-9]{9}$'') = Some mobile_rx"
  by (simp add: rx_compile_def pat_def js_def quant_def is_digit_def digits_val_def reluctant_def empty_frame_def
      add_item_def frame_rx_def mobile_rx_def Let_def)

lemma mobile_anywhere:
  assumes "length ds = 9" "list_all is_digit ds"
  shows "says dataType (js ''m'') (p @ [49, 52] @ ds @ q) = Some (True, None)"
proof -
  let ?v = "p @ [49, 52] @ ds @ q"
  let ?i = "length p"
  have d: "list_all (in_set False [CRange 48 57]) (take 9 (drop (?i + 2) ?v))"
    using assms by (simp add: list_all_iff in_set_def is_digit_def)
  have r: "reps (rx_match ?v (RSet False [CRange 48 57])) 9 (?i + 2) (?i + 2 + 9)"
    using reps_set [of "?i + 2" 9 ?v False "[CRange 48 57]" "?i + 2 + 9"] d assms(1) by simp
  have nine: "rx_match ?v (RRep (RSet False [CRange 48 57]) 9 (Some 9)) (?i + 2) (?i + 11)"
    unfolding rx_rep within_def using r assms(1) by (intro conjI exI [of _ 9]) (simp_all add: add.commute)
  have "rx_match ?v (RSet False [CRange 49 49]) ?i (?i + 1)" "rx_match ?v (RSet False [CRange 52 52]) (?i + 1) (?i + 2)"
    by (auto simp: rx_simps in_set_def nth_append)
  then have "rx_match ?v mobile_rx ?i (?i + 11)"
    using nine unfolding mobile_rx_def Let_def by (blast intro: m_seq m_left m_right)
  then have "rx_test mobile_rx ?v" unfolding rx_test_match by blast
  moreover have "literal_parts (js ''m'') = None" by (rule no_literal) (simp add: js_def)
  moreover have "obj_get dataType (js ''m'') = Some (DtRx (pat ''^13[0-9]{9}$|14[0-9]{9}|15[0-9]{9}$|18[0-9]{9}$''))"
    by (simp add: obj_get_def dataType_def js_def)
  ultimately show ?thesis by (simp add: says_def regtype_def test_source_def mobile_compiled)
qed

text \<open>
  The value is compared with the repeated field as it stands, after its own white space has gone: the
  same password with a space at its end, given twice, is refused.
\<close>

lemma repeat_with_space_refused:
  assumes "vo_recheck ob = Some r" "r \<noteq> []" "\<not> vo_ignore ob" "other r = Some raw" "js_trim raw \<noteq> raw"
  shows "\<not> meets T other (js_trim raw) ob"
  using assms by (auto simp: meets_def repeats_def)

end
