(* ===== verification/Valid_Runs.thy ===== *)
theory Valid_Runs
  imports Validform Valid_Types
begin

text \<open>
  Runs of a form that is checked and sent: one form is on its way at a time, and a form that meets what
  it asks does arrive after one click, however many of its fields the server has to confirm first. At
  the end the ways around these checks: a value that is typed after the server has confirmed another, a
  reset while a form is on its way, and a field whose types can not be compiled.
\<close>

section \<open>One form at a time\<close>

definition closed_form :: "vform \<Rightarrow> bool" where
  "closed_form f \<longleftrightarrow> vs_once (fm_set f) \<and> fm_status f = Posted \<and> fm_posts f = []"

lemma closed_calm: "closed_form f \<Longrightarrow> undisturbed f g \<Longrightarrow> closed_form g \<and> sends g = sends f"
  by (simp add: closed_form_def undisturbed_def)

lemma closed_submit: "closed_form f \<Longrightarrow> submitForm flg ajax bc bs cb f = (f, Stay)"
  by (simp add: submitForm_def closed_form_def)

lemma closed_event: "closed_form f \<Longrightarrow> submit_event own bc bs cb f = f"
  by (simp add: submit_event_def closed_submit)

lemma sends_other:
  "sends (f\<lparr>fm_errorobj := e\<rparr>) = sends f" "sends (f\<lparr>fm_air := as\<rparr>) = sends f"
  "sends (f\<lparr>fm_shown := b\<rparr>) = sends f" "sends (f\<lparr>fm_boxes := bx\<rparr>) = sends f" "sends (upd_field i h f) = sends f"
  by (simp_all add: sends_def upd_field_def)

interpretation closed: form_law "\<lambda>f. closed_form f \<and> sends f = l" "\<lambda>e. \<not> restarts e" for l
proof
  fix f g own bc bs cb k a
  assume f: "closed_form f \<and> sends f = l"
  then show "undisturbed f g \<Longrightarrow> closed_form g \<and> sends g = l" using closed_calm by blast
  show "closed_form (submit_event own bc bs cb f) \<and> sends (submit_event own bc bs cb f) = l" using f by (simp add: closed_event)
  show "closed_form (post_answer k a f) \<and> sends (post_answer k a f) = l"
    using f by (simp add: post_answer_def closed_form_def)
  show "closed_form (send_unchecked a f) \<and> sends (send_unchecked a f) = l" for a
    using f by (simp add: send_unchecked_def closed_submit)
qed (simp_all add: restarts_def)

text \<open>
  A bound that every step keeps: the forms on their way, with one more allowed while the status says that
  the form is being sent. What sets the status back raises it by one.
\<close>

definition few_posts :: "nat \<Rightarrow> vform \<Rightarrow> bool" where
  "few_posts r f \<longleftrightarrow> length (fm_posts f) \<le> r + (if fm_status f = Posting then 1 else 0)"

lemma few_calm: "few_posts r f \<Longrightarrow> undisturbed f g \<Longrightarrow> few_posts r g"
  by (simp add: few_posts_def undisturbed_def)

lemma submit_few:
  assumes "submitForm flg ajax bc bs cb f = (g, out)" "few_posts r f"
  shows "few_posts r g"
proof (cases "may_post f \<and> bc")
  case False
  then show ?thesis using assms by (auto simp: submitForm_def may_post_def Let_def split: if_splits)
next
  case True
  obtain h flag raised where h: "(if flg then (f, True, False) else submit_loop (typed_fields f) f True) = (h, flag, raised)"
    by (cases "if flg then (f, True, False) else submit_loop (typed_fields f) f True")
  have "undisturbed f h" using h submit_loop_calm by (cases flg) auto
  then have few: "few_posts r h" "length (fm_posts h) \<le> r"
    using few_calm assms(2) True by (auto simp: few_posts_def may_post_def undisturbed_def)
  then have post: "few_posts r (post_form (h\<lparr>fm_status := Posting\<rparr>))"
    using post_form_shape [of "h\<lparr>fm_status := Posting\<rparr>"] by (auto simp: few_posts_def)
  have "g = h \<or> g = post_form (h\<lparr>fm_status := Posting\<rparr>) \<or> (\<exists>s. g = h\<lparr>fm_status := s\<rparr>)"
    using assms(1) True h by (auto simp: submitForm_def may_post_def Let_def split: if_splits)
  then show ?thesis using few post by (auto simp: few_posts_def)
qed

lemma few_sent: "few_posts r (f\<lparr>fm_log := l, fm_left := b\<rparr>) = few_posts r f"
  by (simp add: few_posts_def)

lemma few_submit_event: "few_posts r f \<Longrightarrow> few_posts r (submit_event own bc bs cb f)"
  using submit_few [of False False bc bs cb f]
  by (auto simp: submit_event_def few_sent split: prod.splits sout.splits)

lemma few_answer: "few_posts r f \<Longrightarrow> few_posts r (post_answer k a f)"
proof -
  assume f: "few_posts r f"
  have "length (removeAll k (fm_posts f)) \<le> r" if "k \<in> set (fm_posts f)"
    using length_removeAll_less [OF that] f by (auto simp: few_posts_def split: if_splits)
  then show "few_posts r (post_answer k a f)"
    using f by (auto simp: post_answer_def few_posts_def Let_def show_keeps split: vanswer.split)
qed

interpretation few: form_law "few_posts r" "\<lambda>e. \<not> restarts e" for r
proof
  fix f g own bc bs cb k a
  assume f: "few_posts r f"
  then show "undisturbed f g \<Longrightarrow> few_posts r g" by (rule few_calm)
  show "few_posts r (submit_event own bc bs cb f)" by (rule few_submit_event [OF f])
  show "few_posts r (post_answer k a f)" by (rule few_answer [OF f])
  show "few_posts r (send_unchecked a f)" for a
    using f submit_few [of True a True True True f]
    by (auto simp: send_unchecked_def few_sent split: prod.split sout.split)
qed (simp_all add: restarts_def)

lemma restart_few: "few_posts r f \<Longrightarrow> restarts e \<Longrightarrow> few_posts (Suc r) (form_step e f)"
  by (cases e) (auto simp: restarts_def form_step_def form_event_def few_posts_def resetForm_def resetStatus_def setStatus_def split: if_splits)

lemma run_few: "few_posts r f \<Longrightarrow> few_posts (r + length (filter restarts es)) (form_run es f)"
proof (induction es arbitrary: f r)
  case (Cons e es)
  show ?case
  proof (cases "restarts e")
    case True
    then show ?thesis using Cons.IH [of "Suc r" "form_step e f"] restart_few [OF Cons.prems] by (simp add: form_run_def)
  next
    case False
    then show ?thesis using Cons.IH [of r "form_step e f"] few.step_keeps [OF Cons.prems] by (simp add: form_run_def)
  qed
qed (simp add: form_run_def)

text \<open>
  C5: a form sets out again only after it has arrived or has been set back: in every run, the requests that
  are on their way with the form are at most one more than the resets and the calls that set its status,
  so at most one where there is none of them. Where the form is sent by requests and nothing sets it back, a
  request is on its way exactly while the status says so; and if it may be sent only once, nothing is sent
  any more after the server has taken it.
\<close>

theorem one_form_at_a_time:
  assumes "fm_status f = Normal" "fm_posts f = []" "g = form_run es f"
  shows "length (fm_posts g) \<le> Suc (length (filter restarts es)) \<and>
    (vs_ajax (fm_set f) \<and> (\<forall>e\<in>set es. \<not> restarts e) \<longrightarrow> (fm_status g = Posting \<longleftrightarrow> fm_posts g \<noteq> [])) \<and>
    (vs_ajax (fm_set f) \<and> (\<forall>e\<in>set (es @ later). \<not> restarts e) \<and> vs_once (fm_set g) \<and> fm_status g = Posted \<longrightarrow>
       sends (form_run later g) = sends g)"
proof -
  have "few_posts 0 f" using assms(2) by (simp add: few_posts_def)
  then have few: "few_posts (length (filter restarts es)) g" unfolding assms(3) using run_few [of 0 f es] by simp
  have g: "one_post g" if "vs_ajax (fm_set f)" "\<forall>e\<in>set es. \<not> restarts e"
  proof -
    have "one_post f" using assms(1,2) that(1) by (simp add: one_post_def)
    then show ?thesis unfolding assms(3) by (rule one.run_keeps) (use that(2) in simp)
  qed
  have "sends (form_run later g) = sends g"
    if "vs_ajax (fm_set f)" "\<forall>e\<in>set (es @ later). \<not> restarts e" "vs_once (fm_set g)" "fm_status g = Posted"
  proof -
    have "closed_form g \<and> sends g = sends g" using g that by (auto simp: closed_form_def one_post_def)
    then have "closed_form (form_run later g) \<and> sends (form_run later g) = sends g"
      by (rule closed.run_keeps) (use that(2) in simp)
    then show ?thesis by simp
  qed
  then show ?thesis using few g by (auto simp: few_posts_def one_post_def split: if_splits)
qed

section \<open>A form that is ready arrives\<close>

text \<open>The server has nothing to say about a field, or has confirmed it.\<close>

definition confirmed :: "nat \<Rightarrow> vform \<Rightarrow> bool" where
  "confirmed i f \<longleftrightarrow>
     (let x = fm_fields f ! i
      in left_out (fm_set f) x \<or> \<not> filled (vi_url x) \<or> isEmpty x (value_at i f) \<or> vi_valid x = js ''true'')"

text \<open>
  A field that is ready: it is left out, or meets what it asks; if the server is to check it, it is a text
  nobody repeats, it does not have the focus, and no question about it is under way.
\<close>

definition ready_field :: "nat \<Rightarrow> vform \<Rightarrow> bool" where
  "ready_field i f \<longleftrightarrow>
     (let x = fm_fields f ! i; T = vc_types (fm_cx f)
      in left_out (fm_set f) x \<or>
         sound_field T (value_at i f) x \<and> meets T (other_val (fm_fields f)) (value_at i f) x \<and>
         (\<not> confirmed i f \<longrightarrow> vi_kind x = PlainInput \<and> repeaters i f = [] \<and> fm_focus f \<noteq> Some i \<and>
            vi_valid x \<noteq> js ''posting''))"

lemma value_still: "still f g \<Longrightarrow> i < length (fm_fields f) \<Longrightarrow> value_at i g = value_at i f"
  using frame_eq(1) [OF still_nth [of f g i]] by (simp add: value_at_def still_def)

lemma kind_frame: "bare x = bare y \<Longrightarrow> vi_kind x = vi_kind y"
proof -
  have "vi_kind (bare x) = vi_kind x" for x by (simp add: bare_def unmarked_def)
  then show "bare x = bare y \<Longrightarrow> vi_kind x = vi_kind y" by metis
qed

lemma repeaters_still:
  assumes "still f g" "i < length (fm_fields f)"
  shows "repeaters i g = repeaters i f"
proof -
  have len: "length (fm_fields g) = length (fm_fields f)" using assms(1) by (simp add: still_def undisturbed_def)
  note e = frame_eq [OF still_nth [OF assms(1)]]
  show ?thesis unfolding repeaters_def len
    by (rule filter_cong [OF refl]) (simp add: e assms(2))
qed

lemma reg_passes:
  assumes "i < length (fm_fields f)" "sound_field (vc_types (fm_cx f)) (value_at i f) (fm_fields f ! i)"
    "meets (vc_types (fm_cx f)) (other_val (fm_fields f)) (value_at i f) (fm_fields f ! i)"
  obtains h r where "reg_at i f = (h, Some r)" "vr_passed r" "still f h"
    "\<And>j. j < length (fm_fields f) \<Longrightarrow> vi_valid (fm_fields h ! j) = vi_valid (fm_fields f ! j)" "fm_air h = fm_air f"
proof -
  obtain h res where h: "reg_at i f = (h, res)" by (cases "reg_at i f")
  note s = reg_still [OF h]
  obtain r where r: "res = Some r" "vr_passed r" using s assms by (cases res) (auto simp: Let_def)
  have len: "length (fm_fields h) = length (fm_fields f)" using s by (simp add: still_def undisturbed_def)
  have maps: "map vi_valid (fm_fields h) = map vi_valid (fm_fields f)" using s by simp
  have "vi_valid (fm_fields h ! j) = vi_valid (fm_fields f ! j)" if "j < length (fm_fields f)" for j
    using arg_cong [OF maps, of "\<lambda>xs. xs ! j"] that len by simp
  then show ?thesis using that [of h r] h r s by simp
qed

lemma abort_idle: "fm_air f = [] \<Longrightarrow> abort i f = f"
  by (simp add: abort_def split: option.split)

lemma show_sub: "vi_subpost (fm_fields (showmsg m ob k trig f) ! j) = vi_subpost (fm_fields f ! j)"
proof -
  have "vi_subpost (fm_fields (upd_field i (vi_mark_update u) f) ! j) = vi_subpost (fm_fields f ! j)" for i u and f :: vform
    by (cases "i < length (fm_fields f)"; cases "i = j") (simp_all add: upd_field_def list_update_beyond)
  then show ?thesis by (auto simp: showmsg_def Let_def split: option.split)
qed

lemma upd_last: "(\<And>x. vi_last (h x) = vi_last x) \<Longrightarrow> vi_last (fm_fields (upd_field i h f) ! j) = vi_last (fm_fields f ! j)"
  by (cases "i < length (fm_fields f)"; cases "i = j") (simp_all add: upd_field_def list_update_beyond)

lemma show_last: "vi_last (fm_fields (showmsg m ob k trig f) ! j) = vi_last (fm_fields f ! j)"
  by (auto simp: showmsg_def Let_def upd_last split: option.split)

lemma reg_last:
  assumes "reg_at i f = (g, res)"
  shows "vi_last (fm_fields g ! j) = vi_last (fm_fields f ! j)"
proof -
  obtain cx x res' where e: "regcheck (other_val (fm_fields f)) (value_at i f) (fm_cx f) (fm_fields f ! i) = (cx, x, res')"
    by (cases "regcheck (other_val (fm_fields f)) (value_at i f) (fm_cx f) (fm_fields f ! i)")
  have "same_field (fm_fields f ! i) x" using regcheck_spec [OF e] by (simp add: kept_def)
  then have "unmarked x = unmarked (fm_fields f ! i)" by (simp add: same_field_def)
  from arg_cong [OF this, of vi_last] have "vi_last x = vi_last (fm_fields f ! i)" by (simp add: unmarked_def)
  moreover have "fm_fields g = (fm_fields f)[i := x]" using assms e by (auto simp: reg_at_def)
  ultimately show ?thesis
    by (cases "i < length (fm_fields f)"; cases "i = j") (simp_all add: list_update_beyond)
qed

lemma show_length: "length (fm_fields (showmsg m ob k trig f)) = length (fm_fields f)"
  using showmsg_still [of f m ob k trig] by (simp add: still_def undisturbed_def)

text \<open>The question to the server, for the sake of sending the form (\<open>sub\<close>) or not.\<close>

lemma check_ajax_asks:
  assumes "i < length (fm_fields f)" "vi_valid (fm_fields f ! i) \<noteq> js ''posting''" "fm_air f = []" "g = check_ajax sub i v f"
  shows "fm_air g = [(fm_next f, i)] \<and> vi_valid (fm_fields g ! i) = js ''posting'' \<and> vi_subpost (fm_fields g ! i) = sub \<and>
    (\<forall>j<length (fm_fields f). j \<noteq> i \<longrightarrow> vi_valid (fm_fields g ! j) = vi_valid (fm_fields f ! j))"
proof -
  define a where "a = upd_field i (\<lambda>x. x\<lparr>vi_subpost := sub\<rparr>) f"
  define b where "b = upd_field i (\<lambda>x. x\<lparr>vi_valid := js ''posting'', vi_ckvalue := Some v\<rparr>) a"
  define c where "c = showmsg (Some tipmsg_c) (Some i) (Suc 0) ByCheck b"
  have len: "length (fm_fields a) = length (fm_fields f)" "length (fm_fields b) = length (fm_fields f)"
    "length (fm_fields c) = length (fm_fields f)"
    by (simp_all add: a_def b_def c_def show_length)
  have "vi_valid (fm_fields a ! i) \<noteq> js ''posting''" using assms(1,2) by (simp add: a_def nth_upd_field)
  moreover have air: "fm_air c = []" "fm_next c = fm_next f" using assms(3) by (simp_all add: a_def b_def c_def show_air upd_field_def)
  ultimately have g: "g = ask_server i v c"
    using assms(4) by (simp add: check_ajax_def Let_def a_def [symmetric] b_def [symmetric] c_def [symmetric] abort_idle)
  have v: "vi_valid (fm_fields c ! j) = (if j = i then js ''posting'' else vi_valid (fm_fields f ! j))"
    "vi_subpost (fm_fields c ! i) = sub" for j
    using assms(1) len by (simp_all add: c_def show_valid show_sub b_def a_def nth_upd_field)
  show ?thesis using v air len assms(1) by (simp add: g ask_server_def nth_upd_field)
qed

lemma check_asks:
  assumes "i < length (fm_fields f)" "ready_field i f" "\<not> confirmed i f" "fm_air f = []"
    "sub \<or> vi_last (fm_fields f ! i) \<noteq> Some (value_at i f)"
  obtains g where "check sub False i f = (g, Some Asked)" "still f g" "\<exists>k. fm_air g = [(k, i)]"
    "vi_valid (fm_fields g ! i) = js ''posting''" "vi_subpost (fm_fields g ! i) = sub"
    "\<And>j. j < length (fm_fields f) \<Longrightarrow> j \<noteq> i \<Longrightarrow> vi_valid (fm_fields g ! j) = vi_valid (fm_fields f ! j)"
proof -
  let ?x = "fm_fields f ! i" and ?v = "value_at i f"
  have x: "\<not> left_out (fm_set f) ?x" "filled (vi_url ?x)" "\<not> isEmpty ?x ?v"
    "sound_field (vc_types (fm_cx f)) ?v ?x" "meets (vc_types (fm_cx f)) (other_val (fm_fields f)) ?v ?x"
    "vi_valid ?x \<noteq> js ''posting''"
    using assms(2,3) by (auto simp: ready_field_def confirmed_def Let_def)
  obtain h r where h: "reg_at i f = (h, Some r)" "vr_passed r" "still f h"
    "\<And>j. j < length (fm_fields f) \<Longrightarrow> vi_valid (fm_fields h ! j) = vi_valid (fm_fields f ! j)" "fm_air h = fm_air f"
    using reg_passes [OF assms(1) x(4,5)] by blast
  define k where "k = (upd_field i (\<lambda>x. x\<lparr>vi_last := Some ?v\<rparr>) h)\<lparr>fm_errorobj := Some i\<rparr>"
  have len: "length (fm_fields h) = length (fm_fields f)" using h(3) by (simp add: still_def undisturbed_def)
  have kv: "vi_valid (fm_fields k ! j) = vi_valid (fm_fields f ! j)" if "j < length (fm_fields f)" for j
    using h(4) [OF that] len assms(1) by (auto simp: k_def nth_upd_field)
  have kl: "length (fm_fields k) = length (fm_fields f)" "fm_air k = []" using len h(5) assms(4) by (simp_all add: k_def, simp add: upd_field_def)
  let ?g = "check_ajax sub i ?v k"
  have e: "check sub False i f = (?g, Some Asked)" using x h assms(5) by (auto simp: check_def Let_def k_def [symmetric])
  have s: "still f ?g" using h(3) by (auto simp: k_def intro!: check_ajax_still still_into)
  show ?thesis
    by (rule that [OF e s]) (use check_ajax_asks [of i k ?g sub ?v] kv kl assms(1) x(6) in auto)
qed

text \<open>What a pass over fields that are ready changes, and what is left when one of them is asked about.\<close>

definition near_at :: "nat \<Rightarrow> vform \<Rightarrow> vform \<Rightarrow> bool" where
  "near_at j f g \<longleftrightarrow> vi_valid (fm_fields g ! j) = vi_valid (fm_fields f ! j) \<or>
     vi_valid (fm_fields g ! j) = js ''true'' \<and> confirmed j f"

definition near :: "vform \<Rightarrow> vform \<Rightarrow> bool" where
  "near f g \<longleftrightarrow> still f g \<and> (\<forall>j<length (fm_fields f). near_at j f g)"

definition questioned :: "nat \<Rightarrow> vform \<Rightarrow> vform \<Rightarrow> bool" where
  "questioned i f g \<longleftrightarrow> still f g \<and> (\<exists>k. fm_air g = [(k, i)]) \<and> vi_valid (fm_fields g ! i) = js ''posting'' \<and>
     vi_subpost (fm_fields g ! i) \<and> (\<forall>j<length (fm_fields f). j \<noteq> i \<longrightarrow> near_at j f g)"

lemma still_set: "still f g \<Longrightarrow> fm_set g = fm_set f" "still f g \<Longrightarrow> length (fm_fields g) = length (fm_fields f)"
  "still f g \<Longrightarrow> same_types (vc_types (fm_cx f)) (vc_types (fm_cx g))" "still f g \<Longrightarrow> fm_focus g = fm_focus f"
  by (simp_all add: still_def undisturbed_def)

lemma confirmed_still:
  assumes "still f g" "j < length (fm_fields f)" "near_at j f g"
  shows "confirmed j g = confirmed j f"
  using assms(3) frame_eq [OF still_nth [OF assms(1,2)]] value_still [OF assms(1,2)] still_set(1) [OF assms(1)]
  by (auto simp: confirmed_def near_at_def Let_def)

lemma ready_still:
  assumes "still f g" "j < length (fm_fields f)" "near_at j f g" "ready_field j f"
  shows "ready_field j g"
proof -
  note e = frame_eq [OF still_nth [OF assms(1,2)]]
  have v: "value_at j g = value_at j f" "other_val (fm_fields g) = other_val (fm_fields f)"
    using value_still [OF assms(1,2)] still_other_val [OF assms(1)] by simp_all
  note T = sound_field_stay [OF still_set(3) [OF assms(1)] same_field_refl [of "fm_fields f ! j"]]
    meets_stay [OF still_set(3) [OF assms(1)] same_field_refl [of "fm_fields f ! j"]]
  have "vi_valid (fm_fields g ! j) = vi_valid (fm_fields f ! j)" if "\<not> confirmed j f"
    using assms(3) that by (simp add: near_at_def)
  then show ?thesis
    using assms(4) kind_frame [OF still_nth [OF assms(1,2)]]
    by (auto simp: ready_field_def Let_def e v T still_set(1,4) [OF assms(1)] confirmed_still [OF assms(1-3)]
        repeaters_still [OF assms(1,2)])
qed

lemma near_trans:
  assumes "near f g" "near g h"
  shows "near f h"
proof -
  have "near_at j f h" if j: "j < length (fm_fields f)" for j
  proof -
    have fg: "still f g" "near_at j f g" using assms(1) j by (simp_all add: near_def)
    have "near_at j g h" using assms(2) j still_set(2) [OF fg(1)] by (simp add: near_def)
    then show ?thesis using confirmed_still [OF fg(1) j fg(2)] fg(2) by (auto simp: near_at_def)
  qed
  then show ?thesis using assms still_trans by (auto simp: near_def)
qed

lemma near_asked:
  assumes "near f g" "questioned i g h"
  shows "questioned i f h"
proof -
  have "near_at j f h" if j: "j < length (fm_fields f)" "j \<noteq> i" for j
  proof -
    have fg: "still f g" "near_at j f g" using assms(1) j by (simp_all add: near_def)
    have "near_at j g h" using assms(2) j still_set(2) [OF fg(1)] by (simp add: questioned_def)
    then show ?thesis using confirmed_still [OF fg(1) j(1) fg(2)] fg(2) by (auto simp: near_at_def)
  qed
  then show ?thesis using assms still_trans by (auto simp: near_def questioned_def)
qed

lemma field_goes_on:
  assumes "i < length (fm_fields f)" "ready_field i f" "confirmed i f" "fm_air f = []"
  obtains g where "submit_field i f = (g, FieldOk)" "near f g" "fm_air g = []"
proof -
  let ?f = "f\<lparr>fm_errorobj := Some i\<rparr>"
  have v: "value_at i ?f = value_at i f" by (simp add: value_at_def)
  have "\<exists>g. submit_field i f = (g, FieldOk)"
  proof (cases "left_out (fm_set f) (fm_fields f ! i)")
    case False
    then have x: "i < length (fm_fields ?f)" "sound_field (vc_types (fm_cx ?f)) (value_at i ?f) (fm_fields ?f ! i)"
        "meets (vc_types (fm_cx ?f)) (other_val (fm_fields ?f)) (value_at i ?f) (fm_fields ?f ! i)"
      using assms(1,2) by (auto simp: ready_field_def Let_def v)
    obtain h r where "reg_at i ?f = (h, Some r)" "vr_passed r"
      using reg_passes [OF x] by blast
    then show ?thesis using assms(3) False by (auto simp: submit_field_def confirmed_def Let_def)
  qed (simp add: submit_field_def)
  then obtain g where g: "submit_field i f = (g, FieldOk)" by blast
  note ok = submit_field_ok [OF g assms(1) same_types_refl]
  have "near_at j f g" if "j < length (fm_fields f)" for j
    using ok that by (cases "j = i") (auto simp: near_at_def confirmed_def Let_def)
  then show ?thesis using that [OF g] ok assms(4) by (simp add: near_def)
qed

text \<open>What a field that is to be confirmed shows before its question is asked.\<close>

lemma field_shows:
  assumes "i < length (fm_fields f)" "\<not> confirmed i f" "fm_air f = []"
    "sound_field (vc_types (fm_cx f)) (value_at i f) (fm_fields f ! i)"
    "meets (vc_types (fm_cx f)) (other_val (fm_fields f)) (value_at i f) (fm_fields f ! i)"
  obtains k where "submit_field i f = (case trigger_blur i k of (g, ok) \<Rightarrow> (g, if ok then FieldBad else FieldRaised))"
    "near f k" "fm_air k = []" "vi_last (fm_fields k ! i) = vi_last (fm_fields f ! i)"
proof -
  let ?f = "f\<lparr>fm_errorobj := Some i\<rparr>" and ?x = "fm_fields f ! i" and ?v = "value_at i f"
  have v: "value_at i ?f = ?v" by (simp add: value_at_def)
  have open_x: "\<not> left_out (fm_set f) ?x" "filled (vi_url ?x)" "\<not> isEmpty ?x ?v" "vi_valid ?x \<noteq> js ''true''"
    using assms(2) by (auto simp: confirmed_def Let_def)
  have x: "i < length (fm_fields ?f)" "sound_field (vc_types (fm_cx ?f)) (value_at i ?f) (fm_fields ?f ! i)"
      "meets (vc_types (fm_cx ?f)) (other_val (fm_fields ?f)) (value_at i ?f) (fm_fields ?f ! i)"
    using assms(1,4,5) by (auto simp: v)
  obtain h r where h: "reg_at i ?f = (h, Some r)" "vr_passed r" "still ?f h"
    "\<And>j. j < length (fm_fields ?f) \<Longrightarrow> vi_valid (fm_fields h ! j) = vi_valid (fm_fields ?f ! j)" "fm_air h = fm_air ?f"
    using reg_passes [OF x] by blast
  define k where "k = upd_field i (\<lambda>x. x\<lparr>vi_err := True\<rparr>) (showmsg (Some tipmsg_v) (Some i) 3 ByForm h)"
  have fk: "still f k" using still_trans [OF still_other(1) h(3)] by (auto simp: k_def intro!: still_into)
  have kv: "vi_valid (fm_fields k ! j) = vi_valid (fm_fields f ! j)" if "j < length (fm_fields f)" for j
    using h(4) that by (simp add: k_def upd_valid show_valid)
  have air: "fm_air k = []" using assms(3) h(5) by (simp add: k_def upd_field_def show_air)
  have "vi_last (fm_fields k ! i) = vi_last ?x" using reg_last [OF h(1), of i] by (simp add: k_def upd_last show_last)
  moreover have "submit_field i f = (case trigger_blur i k of (g, ok) \<Rightarrow> (g, if ok then FieldBad else FieldRaised))"
    using open_x h(1,2) by (simp add: submit_field_def Let_def k_def)
  ultimately show ?thesis using that fk kv air by (simp add: near_def near_at_def)
qed

lemma tip_stays:
  assumes "vi_kind (fm_fields k ! i) = PlainInput" "\<not> isEmpty (fm_fields k ! i) (value_at i k)"
  shows "tip_blur i k = k"
proof -
  have "js_trim (vi_val (fm_fields k ! i)) \<noteq> []"
    using assms by (auto simp: value_at_def getValue_def isEmpty_def Let_def split: if_splits)
  then show ?thesis by (auto simp: tip_blur_def Let_def split: option.split)
qed

lemma ready_parts:
  assumes "ready_field i f" "\<not> confirmed i f"
  shows "sound_field (vc_types (fm_cx f)) (value_at i f) (fm_fields f ! i)"
    "meets (vc_types (fm_cx f)) (other_val (fm_fields f)) (value_at i f) (fm_fields f ! i)"
    "vi_kind (fm_fields f ! i) = PlainInput" "repeaters i f = []" "\<not> isEmpty (fm_fields f ! i) (value_at i f)" "fm_focus f \<noteq> Some i"
  using assms by (auto simp: ready_field_def confirmed_def Let_def)

lemma field_asks:
  assumes "i < length (fm_fields f)" "vi_typed (fm_fields f ! i)" "ready_field i f" "\<not> confirmed i f" "fm_air f = []"
  obtains g where "submit_field i f = (g, FieldBad)" "questioned i f g"
proof -
  obtain k where k: "submit_field i f = (case trigger_blur i k of (g, ok) \<Rightarrow> (g, if ok then FieldBad else FieldRaised))"
      "near f k" "fm_air k = []"
    using field_shows [OF assms(1,4,5)] ready_parts [OF assms(3,4)] by metis
  have fk: "still f k" using k(2) by (simp add: near_def)
  have len: "i < length (fm_fields k)" using still_set(2) [OF fk] assms(1) by simp
  have rk: "ready_field i k" "\<not> confirmed i k"
    using ready_still [OF fk assms(1) _ assms(3)] confirmed_still [OF fk assms(1)] k(2) assms(1,4) by (simp_all add: near_def)
  note plain = ready_parts [OF rk]
  obtain g where g: "check True False i k = (g, Some Asked)" "still k g" "\<exists>n. fm_air g = [(n, i)]"
    "vi_valid (fm_fields g ! i) = js ''posting''" "vi_subpost (fm_fields g ! i) = True"
    "\<And>j. j < length (fm_fields k) \<Longrightarrow> j \<noteq> i \<Longrightarrow> vi_valid (fm_fields g ! j) = vi_valid (fm_fields k ! j)"
    using check_asks [OF len rk k(3)] by blast
  have "vi_typed (fm_fields k ! i)" using frame_eq(3) [OF still_nth [OF fk assms(1)]] assms(2) by simp
  then have "trigger_blur i k = (g, True)"
    using g(1) plain(4,6) tip_stays [OF plain(3,5)] by (simp add: trigger_blur_def blur_def blur0_def)
  then have s: "submit_field i f = (g, FieldBad)" using k(1) by simp
  have "questioned i k g" using g by (auto simp: questioned_def near_at_def)
  then show ?thesis using that [OF s] near_asked [OF k(2)] by blast
qed

lemma loop_ready:
  assumes "fm_air f = []" "\<not> vs_all (fm_set f)" "\<forall>i\<in>set ks. i < length (fm_fields f) \<and> vi_typed (fm_fields f ! i) \<and> ready_field i f"
  shows "if \<forall>i\<in>set ks. confirmed i f then \<exists>g. submit_loop ks f True = (g, True, False) \<and> near f g \<and> fm_air g = []
    else \<exists>g i. submit_loop ks f True = (g, False, False) \<and> i \<in> set ks \<and> \<not> confirmed i f \<and> questioned i f g"
  using assms
proof (induction ks arbitrary: f)
  case Nil
  then show ?case by (simp add: near_def near_at_def)
next
  case (Cons i ks)
  have i: "i < length (fm_fields f)" "vi_typed (fm_fields f ! i)" "ready_field i f" using Cons.prems(3) by simp_all
  show ?case
  proof (cases "confirmed i f")
    case False
    then obtain g where g: "submit_field i f = (g, FieldBad)" "questioned i f g" using field_asks [OF i False Cons.prems(1)] by blast
    then have "\<not> vs_all (fm_set g)" using Cons.prems(2) still_set(1) [of f g] by (simp add: questioned_def)
    then show ?thesis using g False by auto
  next
    case True
    then obtain h where h: "submit_field i f = (h, FieldOk)" "near f h" "fm_air h = []"
      using field_goes_on [OF i(1,3) True Cons.prems(1)] by blast
    have s: "still f h" using h(2) by (simp add: near_def)
    have c: "confirmed j h = confirmed j f" if "j \<in> set ks" for j
      using confirmed_still [OF s] h(2) Cons.prems(3) that by (simp add: near_def)
    have "\<forall>j\<in>set ks. j < length (fm_fields h) \<and> vi_typed (fm_fields h ! j) \<and> ready_field j h"
      using Cons.prems(3) h(2) still_set(2) [OF s] frame_eq(3) [OF still_nth [OF s]] ready_still [OF s]
      by (simp add: near_def)
    then have rest: "if \<forall>i\<in>set ks. confirmed i h then \<exists>g. submit_loop ks h True = (g, True, False) \<and> near h g \<and> fm_air g = []
      else \<exists>g i. submit_loop ks h True = (g, False, False) \<and> i \<in> set ks \<and> \<not> confirmed i h \<and> questioned i h g"
      using Cons.IH [OF h(3)] Cons.prems(2) still_set(1) [OF s] by simp
    have all: "(\<forall>j\<in>set (i # ks). confirmed j f) \<longleftrightarrow> (\<forall>j\<in>set ks. confirmed j h)" using True c by simp
    have step: "submit_loop (i # ks) f True = submit_loop ks h True" using h(1) by simp
    show ?thesis
    proof (cases "\<forall>j\<in>set ks. confirmed j h")
      case True
      then obtain g where "submit_loop ks h True = (g, True, False)" "near h g" "fm_air g = []" using rest by auto
      then show ?thesis using True all step near_trans [OF h(2), of g] by simp
    next
      case False
      then obtain g j where g: "submit_loop ks h True = (g, False, False)" "j \<in> set ks" "\<not> confirmed j h" "questioned j h g"
        using rest unfolding if_not_P [OF False] by blast
      then have "j \<in> set (i # ks) \<and> \<not> confirmed j f \<and> questioned j f g" using c near_asked [OF h(2)] by simp
      then show ?thesis unfolding all if_not_P [OF False] step using g(1) by blast
    qed
  qed
qed

text \<open>
  A form that is ready to be sent, and one that waits for an answer: some field of a form that was ready
  has been asked about.
\<close>

definition open_fields :: "vform \<Rightarrow> nat list" where
  "open_fields f = filter (\<lambda>i. \<not> confirmed i f) (typed_fields f)"

definition ready_form :: "vform \<Rightarrow> bool" where
  "ready_form f \<longleftrightarrow> \<not> fm_left f \<and> fm_status f = Normal \<and> vs_ajax (fm_set f) \<and> \<not> vs_all (fm_set f) \<and>
     fm_posts f = [] \<and> fm_air f = [] \<and> (\<forall>i\<in>set (typed_fields f). ready_field i f)"

text \<open>The form sent once, with the values that were there at the start; the page stays.\<close>

definition sent_once :: "vform \<Rightarrow> vform \<Rightarrow> bool" where
  "sent_once f g \<longleftrightarrow> fm_left g = fm_left f \<and> fm_set g = fm_set f \<and> (\<exists>k xs. fm_posts g = [k] \<and> sends g = sends f @ [Post k xs (fm_boxes f)] \<and> map bare xs = map bare (fm_fields f))"

lemma post_sent:
  assumes "still f h" "fm_posts f = []"
  shows "sent_once f (post_form (h\<lparr>fm_status := s\<rparr>))"
proof -
  let ?k = "showmsg (Some tipmsg_p) None 1 ByAjax (h\<lparr>fm_status := s\<rparr>)"
  have "sends ?k = sends f" "fm_posts ?k = []" "fm_left ?k = fm_left f" "fm_set ?k = fm_set f"
    using assms by (simp_all add: show_keeps still_def undisturbed_def) (simp add: sends_def)
  then show ?thesis using assms(1)
    by (auto simp: sent_once_def post_form_def Let_def show_form sends_def still_def)
qed

lemma submit_ready:
  assumes "ready_form f"
  shows "if open_fields f = [] then sent_once f (submit_event own True True cb f)
    else \<exists>i\<in>set (open_fields f). questioned i f (submit_event own True True cb f)"
proof -
  have f: "fm_status f = Normal" "vs_ajax (fm_set f)" "fm_posts f = []" using assms by (simp_all add: ready_form_def)
  have l: "if \<forall>i\<in>set (typed_fields f). confirmed i f then \<exists>g. submit_loop (typed_fields f) f True = (g, True, False) \<and> near f g \<and> fm_air g = []
    else \<exists>g i. submit_loop (typed_fields f) f True = (g, False, False) \<and> i \<in> set (typed_fields f) \<and> \<not> confirmed i f \<and> questioned i f g"
    by (rule loop_ready) (use assms in \<open>auto simp: ready_form_def typed_fields_def\<close>)
  show ?thesis
  proof (cases "open_fields f = []")
    case True
    then obtain g where g: "submit_loop (typed_fields f) f True = (g, True, False)" "near f g"
      using l by (auto simp: open_fields_def filter_empty_conv)
    then have "submit_event own True True cb f = post_form (g\<lparr>fm_status := Posting\<rparr>)"
      using f by (simp add: submit_event_def submitForm_def)
    then show ?thesis using True post_sent [OF _ f(3)] g(2) by (simp add: near_def)
  next
    case False
    then obtain g i where g: "submit_loop (typed_fields f) f True = (g, False, False)" "i \<in> set (open_fields f)" "questioned i f g"
      using l by (auto simp: open_fields_def filter_empty_conv split: if_splits)
    then have "submit_event own True True cb f = g" using f by (simp add: submit_event_def submitForm_def)
    then show ?thesis using False g by auto
  qed
qed

text \<open>The server confirms the value it was asked about.\<close>

definition agree :: "vform \<Rightarrow> vform" where
  "agree f = (case fm_air f of [] \<Rightarrow> f | (k, i) # _ \<Rightarrow> form_step (FieldAnswer k (AJson True None) True True True) f)"

definition confirm :: "nat \<Rightarrow> vform \<Rightarrow> vform" where
  "confirm i w =
     (let f = upd_field i (\<lambda>x. x\<lparr>vi_valid := js ''true'', vo_sucmsg := vo_sucmsg x\<rparr>) (w\<lparr>fm_air := []\<rparr>);
          f = showmsg (Some (or_text (vo_sucmsg (fm_fields f ! i)) tipmsg_r)) (Some i) 2 ByCheck f
      in (upd_field i (\<lambda>x. x\<lparr>vi_err := False\<rparr>) f)\<lparr>fm_errorobj := None\<rparr>)"

lemma typed_still: "still f g \<Longrightarrow> typed_fields g = typed_fields f"
proof -
  assume s: "still f g"
  show ?thesis unfolding typed_fields_def still_set(2) [OF s]
    by (rule filter_cong [OF refl]) (simp add: frame_eq(3) [OF still_nth [OF s]])
qed

lemma confirm_ready:
  assumes "ready_form f" "i \<in> set (open_fields f)" "questioned i f w"
  shows "ready_form (confirm i w) \<and> open_fields (confirm i w) = removeAll i (open_fields f) \<and>
    vi_subpost (fm_fields (confirm i w) ! i) \<and> still f (confirm i w)"
proof -
  have fw: "still f w" using assms(3) by (simp add: questioned_def)
  have i: "i < length (fm_fields f)" using assms(2) by (simp add: open_fields_def typed_fields_def)
  have s: "still f (confirm i w)" using fw by (auto simp: confirm_def Let_def intro!: still_into)
  have len: "length (fm_fields w) = length (fm_fields f)" using still_set(2) [OF fw] .
  have v: "vi_valid (fm_fields (confirm i w) ! j) = (if j = i then js ''true'' else vi_valid (fm_fields w ! j))"
    "vi_subpost (fm_fields (confirm i w) ! i)" for j
    using i len assms(3) by (simp_all add: confirm_def Let_def nth_upd_field show_valid show_sub show_length questioned_def)
  have nj: "near_at j f (confirm i w)" if "j < length (fm_fields f)" "j \<noteq> i" for j
    using assms(3) that v(1) [of j] by (simp add: questioned_def near_at_def)
  have ci: "confirmed i (confirm i w)" using v(1) [of i] by (simp add: confirmed_def Let_def)
  have c: "confirmed j (confirm i w) = (j = i \<or> confirmed j f)" if "j < length (fm_fields f)" for j
    using ci confirmed_still [OF s that nj] that by (cases "j = i") auto
  have ri: "ready_field j (confirm i w)" if "j \<in> set (typed_fields f)" for j
  proof (cases "j = i")
    case False
    then show ?thesis using that assms(1) ready_still [OF s _ nj] by (simp add: typed_fields_set ready_form_def)
  next
    case True
    have "ready_field i f" using assms(1) that True by (simp add: ready_form_def)
    then show ?thesis
      using ci True frame_eq [OF still_nth [OF s i]] value_still [OF s i] still_other_val [OF s] still_set(1) [OF s]
        sound_field_stay [OF still_set(3) [OF s] same_field_refl [of "fm_fields f ! i"]]
        meets_stay [OF still_set(3) [OF s] same_field_refl [of "fm_fields f ! i"]]
      by (auto simp: ready_field_def Let_def)
  qed
  have air: "fm_air (confirm i w) = []" by (simp add: confirm_def Let_def) (simp add: upd_field_def show_air)
  have "ready_form (confirm i w)"
    using assms(1) s ri air typed_still [OF s] by (simp add: ready_form_def still_def undisturbed_def)
  moreover have "open_fields (confirm i w) = removeAll i (open_fields f)"
    unfolding open_fields_def typed_still [OF s] removeAll_filter_not_eq filter_filter
    by (rule filter_cong) (use c in \<open>auto simp: typed_fields_set\<close>)
  ultimately show ?thesis using v(2) s by simp
qed

text \<open>
  A form that waits: a form \<open>c\<close>, the same as \<open>f\<close> and ready as well, has \<open>n\<close> fields left that are not confirmed,
  and the server has been asked about one of them.
\<close>

definition awaiting :: "nat \<Rightarrow> vform \<Rightarrow> vform \<Rightarrow> bool" where
  "awaiting n f w \<longleftrightarrow> (\<exists>c. ready_form c \<and> still f c \<and> length (open_fields c) = n \<and> (\<exists>i\<in>set (open_fields c). questioned i c w))"

lemma waiting_start: "ready_form f \<Longrightarrow> questioned i f w \<Longrightarrow> i \<in> set (open_fields f) \<Longrightarrow> awaiting (length (open_fields f)) f w"
  unfolding awaiting_def by (rule exI [of _ f]) auto

lemma sent_once_still: "still f c \<Longrightarrow> sent_once c g \<Longrightarrow> sent_once f g"
  by (auto simp: sent_once_def still_def undisturbed_def)

lemma asked_upd: "questioned j f g \<Longrightarrow> questioned j f (upd_field i (\<lambda>x. x\<lparr>vi_air := None\<rparr>) g)"
proof -
  let ?h = "upd_field i (\<lambda>x. x\<lparr>vi_air := None\<rparr>) g"
  have s: "still g ?h" by (rule still_upd) (simp add: frame_marks)
  have "vi_valid (fm_fields ?h ! k) = vi_valid (fm_fields g ! k) \<and> vi_subpost (fm_fields ?h ! k) = vi_subpost (fm_fields g ! k)" for k
    by (cases "i < length (fm_fields g)"; cases "i = k") (simp_all add: upd_field_def list_update_beyond)
  moreover have "fm_air ?h = fm_air g" by (simp add: upd_field_def)
  ultimately show "questioned j f g \<Longrightarrow> questioned j f ?h" using still_trans [OF _ s] by (simp add: questioned_def near_at_def)
qed

lemma sent_once_upd: "sent_once f g \<Longrightarrow> sent_once f (upd_field i h g)"
  by (simp add: sent_once_def sends_other) (simp add: upd_field_def)

lemma agree_confirms:
  assumes "\<not> fm_left w" "fm_air w = [(k, i)]" "vi_subpost (fm_fields (confirm i w) ! i)"
  shows "agree w = upd_field i (\<lambda>x. x\<lparr>vi_air := None\<rparr>) (submit_event False True True True (confirm i w))"
  using assms by (simp add: agree_def form_step_def form_event_def field_answer_def field_success_def confirm_def Let_def filled_def)

lemma agree_waits:
  assumes "awaiting n f w"
  shows "n \<noteq> 0 \<and> (if n = 1 then sent_once f (agree w) else awaiting (n - 1) f (agree w))"
proof -
  obtain c i where c: "ready_form c" "still f c" "length (open_fields c) = n" "i \<in> set (open_fields c)" "questioned i c w"
    using assms by (auto simp: awaiting_def)
  let ?d = "confirm i w" and ?h = "submit_event False True True True (confirm i w)"
  have d: "ready_form ?d" "open_fields ?d = removeAll i (open_fields c)" "vi_subpost (fm_fields ?d ! i)" "still c ?d"
    using confirm_ready [OF c(1,4,5)] by simp_all
  have "distinct (open_fields c)" by (simp add: open_fields_def typed_fields_def)
  then have "open_fields ?d = remove1 i (open_fields c)" using d(2) distinct_remove1_removeAll by metis
  then have len: "length (open_fields ?d) = n - 1" using c(3,4) by (simp add: length_remove1)
  have n: "n \<noteq> 0" using c(3,4) by auto
  have left: "\<not> fm_left w" using c(1,5) by (simp add: ready_form_def questioned_def still_def undisturbed_def)
  obtain k where k: "fm_air w = [(k, i)]" using c(5) by (auto simp: questioned_def)
  note a = agree_confirms [OF left k d(3)]
  have fd: "still f ?d" by (rule still_trans [OF c(2) d(4)])
  show ?thesis
  proof (cases "n = 1")
    case True
    then have "sent_once ?d ?h" using submit_ready [OF d(1), of False True] len by (cases "open_fields ?d = []") simp_all
    then show ?thesis using True a sent_once_still [OF fd] by (simp add: sent_once_upd)
  next
    case False
    then have "open_fields ?d \<noteq> []" using len n by auto
    then obtain j where j: "j \<in> set (open_fields ?d)" "questioned j ?d ?h"
      using submit_ready [OF d(1), of False True] by auto
    have "questioned j ?d (agree w)" unfolding a by (rule asked_upd [OF j(2)])
    then have "awaiting (n - 1) f (agree w)" unfolding awaiting_def using d(1) fd len j(1) by blast
    then show ?thesis using False n by simp
  qed
qed

text \<open>
  C4: after one click, a form that meets what it asks is sent, once, with the values it had, as soon as
  the server has confirmed what it is asked, one question for each field that was not confirmed yet:
  every answer goes on with the form, and asks the next question or sends the form.
\<close>

theorem ready_form_arrives:
  assumes "ready_form f" "n = length (open_fields f)"
  shows "sent_once f ((agree ^^ n) (form_step (Submit own True True cb) f))"
proof -
  have run: "awaiting n f w \<Longrightarrow> sent_once f ((agree ^^ n) w)" for n w
  proof (induction n arbitrary: w)
    case 0
    then show ?case using agree_waits by blast
  next
    case (Suc n)
    show ?case
    proof (cases "n = 0")
      case True
      then show ?thesis using agree_waits [OF Suc.prems] by simp
    next
      case False
      then have "awaiting n f (agree w)" using agree_waits [OF Suc.prems] by simp
      then show ?thesis using Suc.IH by (simp only: funpow_Suc_right comp_def)
    qed
  qed
  have e: "form_step (Submit own True True cb) f = submit_event own True True cb f"
    using assms(1) by (simp add: form_step_def form_event_def ready_form_def)
  show ?thesis
  proof (cases "open_fields f = []")
    case True
    then show ?thesis using submit_ready [OF assms(1), of own cb] assms(2) e by simp
  next
    case False
    then obtain i where "i \<in> set (open_fields f)" "questioned i f (submit_event own True True cb f)"
      using submit_ready [OF assms(1), of own cb] by auto
    then show ?thesis using run [of n] waiting_start [OF assms(1)] assms(2) e by simp
  qed
qed

section \<open>Concrete forms\<close>

text \<open>Inputs for numbers of two to four digits, checked by the server or not, and forms of such inputs.\<close>

definition number_input :: "jstr option \<Rightarrow> jstr \<Rightarrow> jstr \<Rightarrow> vinput" where
  "number_input url n v =
     \<lparr>vo_name = n, vo_box = False, vo_types = js ''n2-4'', vo_recheck = None, vo_ignore = False, vo_tip = None,
      vo_nullmsg = None, vo_errormsg = None, vo_sucmsg = None, vo_label = [], vo_cked = False,
      vi_typed = True, vi_input = True, vi_kind = PlainInput, vi_val = v, vi_default = [], vi_url = url, vi_hidden = False,
      vi_skip = False, vi_last = None, vi_valid = [], vi_ckvalue = None, vi_subpost = False, vi_air = None, vi_err = False,
      vi_mark = None\<rparr>"

definition form_of :: "bool \<Rightarrow> vinput list \<Rightarrow> vform" where
  "form_of once xs =
     \<lparr>fm_fields = xs, fm_boxes = [],
      fm_set = \<lparr>vs_tiptype = Beside3, vs_sweep = False, vs_all = False, vs_once = once, vs_ajax = True, vs_hidden = False,
                vs_dragonfly = False\<rparr>,
      fm_status = Normal, fm_cx = \<lparr>vc_types = dataType, vc_w = []\<rparr>, fm_next = 0, fm_air = [], fm_posts = [], fm_log = [],
      fm_pop = [], fm_shown = False, fm_errorobj = None, fm_tips = [], fm_focus = None, fm_left = False\<rparr>"

lemma number_input_meets:
  "sound_field dataType (js ''12'') (number_input url n v)" "meets dataType other (js ''12'') (number_input url n v)"
proof -
  have "parseDatatype (js ''n2-4'') = Some [[Some (js ''n2-4'')]]"
    by (simp add: parseDatatype_def js_def type_unit_def word_unit_def is_digit_def Let_def)
  moreover have "js ''n2-4'' = range_of 110 2 4" by (simp add: range_of_def js_def nat_str_one)
  moreover have "says dataType (range_of 110 2 4) (js ''12'') = Some (True, None)"
    by (simp add: says_digits in_set_def js_def is_digit_def)
  ultimately show "sound_field dataType (js ''12'') (number_input url n v)" "meets dataType other (js ''12'') (number_input url n v)"
    by (simp_all add: sound_field_def meets_def number_input_def sound_type_def all_ok_def accepts_def repeats_def)
qed

lemma number_parts:
  "vo_recheck (number_input url n v) = None" "vi_kind (number_input url n v) = PlainInput" "vi_val (number_input url n v) = v"
  "vi_url (number_input url n v) = url" "vi_valid (number_input url n v) = []" "vi_typed (number_input url n v)"
  "left_out st (number_input url n v) = False" "vo_tip (number_input url n v) = None" "vo_name (number_input url n v) = n"
  by (simp_all add: number_input_def left_out_def)

lemma number_trim: "js_trim (js ''12'') = js ''12''" "js_trim [] = []"
  by (simp_all add: js_trim_def js_space_def js_def)

lemma number_some: "js ''12'' \<noteq> []" "js ''true'' \<noteq> []" "js ''posting'' \<noteq> []" "js ''u'' \<noteq> []"
  by (simp_all add: js_def)

lemma number_value: "getValue bs (number_input url n (js ''12'')) = js ''12''" "isEmpty (number_input url n v) (js ''12'') = False"
  by (simp_all add: getValue_def isEmpty_def number_parts number_trim number_some Let_def)

lemma form_parts:
  "fm_fields (form_of once xs) = xs" "fm_boxes (form_of once xs) = []" "vc_types (fm_cx (form_of once xs)) = dataType"
  "fm_left (form_of once xs) = False" "fm_status (form_of once xs) = Normal" "vs_ajax (fm_set (form_of once xs))"
  "vs_once (fm_set (form_of once xs)) = once" "vs_all (fm_set (form_of once xs)) = False" "fm_posts (form_of once xs) = []"
  "fm_air (form_of once xs) = []" "fm_focus (form_of once xs) = None" "fm_log (form_of once xs) = []"
  by (simp_all add: form_of_def)

lemma number_form_ready:
  assumes "\<forall>x\<in>set xs. \<exists>url n. x = number_input url n (js ''12'')"
  shows "ready_form (form_of once xs)"
proof -
  have "ready_field i (form_of once xs)" if i: "i < length xs" for i
  proof -
    obtain url n where x: "xs ! i = number_input url n (js ''12'')" using bspec [OF assms nth_mem [OF i]] by blast
    have v: "value_at i (form_of once xs) = js ''12''"
      by (simp add: value_at_def x form_parts number_value)
    have "vo_recheck (xs ! j) = None" if "j < length xs" for j
      using bspec [OF assms nth_mem [OF that]] number_parts(1) by metis
    then have "repeaters i (form_of once xs) = []" by (auto simp: repeaters_def form_parts filter_empty_conv)
    then show ?thesis
      using number_input_meets
      by (simp add: ready_field_def v form_parts x number_parts number_some number_some [symmetric] Let_def)
  qed
  then show ?thesis by (simp add: ready_form_def typed_fields_def form_parts)
qed

lemma one_number:
  "ready_form (form_of once [number_input None (js ''a'') (js ''12'')])"
  "open_fields (form_of once [number_input None (js ''a'') (js ''12'')]) = []"
proof -
  show "ready_form (form_of once [number_input None (js ''a'') (js ''12'')])"
    by (rule number_form_ready) auto
  show "open_fields (form_of once [number_input None (js ''a'') (js ''12'')]) = []"
    by (simp add: open_fields_def typed_fields_def confirmed_def form_parts number_parts filled_def filter_empty_conv Let_def)
qed

lemma one_number_sent:
  "sent_once (form_of once [number_input None (js ''a'') (js ''12'')])
     (form_run [Submit True True True True] (form_of once [number_input None (js ''a'') (js ''12'')]))"
proof -
  let ?f = "form_of once [number_input None (js ''a'') (js ''12'')]"
  have "form_run [Submit True True True True] ?f = submit_event True True True True ?f"
    by (simp add: form_run_def form_step_def form_event_def) (simp add: form_of_def)
  then show ?thesis using submit_ready [OF one_number(1)] by (simp add: one_number(2))
qed


theorem one_form_at_a_time_witness:
  "let f = form_of True [number_input None (js ''a'') (js ''12'')]
   in \<exists>k. let g = form_run [Submit True True True True, PostAnswer k (AJson True None)] f
       in fm_status g = Posted \<and> sends g \<noteq> [] \<and> sends (form_run [Submit True True True True] g) = sends g"
proof -
  let ?f = "form_of True [number_input None (js ''a'') (js ''12'')]"
  let ?S = "Submit True True True True"
  obtain k where k: "fm_posts (form_run [?S] ?f) = [k]" "sends (form_run [?S] ?f) \<noteq> []"
    using one_number_sent [of True] by (auto simp: sent_once_def)
  let ?g = "form_run [?S, PostAnswer k (AJson True None)] ?f"
  have left: "\<not> fm_left (form_run [?S] ?f)" "vs_once (fm_set (form_run [?S] ?f))"
    using one_number_sent [of True] by (simp_all add: sent_once_def) (simp_all add: form_of_def)
  have g: "?g = post_answer k (AJson True None) (form_run [?S] ?f)"
    using left(1) by (simp add: form_run_def form_step_def [of "PostAnswer k (AJson True None)"] form_event_def)
  have p: "fm_status ?g = Posted" "sends ?g \<noteq> []" unfolding g using k by (simp_all add: post_answer_def show_keeps) (simp add: sends_def)
  have f: "fm_status ?f = Normal" "fm_posts ?f = []" and ajax: "vs_ajax (fm_set ?f)" by (simp_all add: form_of_def)
  have once: "vs_once (fm_set ?g)" unfolding g using k left(2) by (simp add: post_answer_def show_keeps)
  have "\<forall>e\<in>set ([?S, PostAnswer k (AJson True None)] @ [?S]). \<not> restarts e" by (simp add: restarts_def)
  then show ?thesis using one_form_at_a_time [OF f refl] ajax p once unfolding Let_def by blast
qed

text \<open>Two fields, both checked by the server: one click and two answers.\<close>

theorem ready_form_arrives_witness:
  "let f = form_of True [number_input (Some (js ''u'')) (js ''a'') (js ''12''), number_input (Some (js ''u'')) (js ''b'') (js ''12'')]
   in ready_form f \<and> sent_once f (agree (agree (form_step (Submit True True True True) f)))"
proof -
  let ?f = "form_of True [number_input (Some (js ''u'')) (js ''a'') (js ''12''), number_input (Some (js ''u'')) (js ''b'') (js ''12'')]"
  have r: "ready_form ?f" by (rule number_form_ready) auto
  have "length (open_fields ?f) = 2"
    by (simp add: open_fields_def typed_fields_def confirmed_def value_at_def form_parts number_parts number_value number_some
        number_some [symmetric] filled_def upt_rec Let_def)
  then show ?thesis using ready_form_arrives [OF r, of 2 True True] r by (simp add: numeral_2_eq_2)
qed

section \<open>Ways around the checks\<close>

text \<open>
  What the server has confirmed is a field, not its value: the value that is typed afterwards is sent
  without a question, if the field does not lose the focus before (the key Enter sends the form).
\<close>

lemma stale_confirmation:
  assumes "ready_form f" "i < length (fm_fields f)" "vi_valid (fm_fields f ! i) = js ''true''" "vi_kind (fm_fields f ! i) = PlainInput"
    "open_fields f = []" "g = form_step (Type i v) f" "\<forall>j\<in>set (typed_fields g). ready_field j g"
  shows "sent_once g (form_step (Submit own True True cb) g) \<and> vi_val (fm_fields g ! i) = v"
proof -
  have g: "g = upd_field i (\<lambda>x. x\<lparr>vi_val := v\<rparr>) f"
    using assms(1,6) by (simp add: form_step_def form_event_def ready_form_def)
  have nth: "fm_fields g ! j = (if j = i then (fm_fields f ! i)\<lparr>vi_val := v\<rparr> else fm_fields f ! j)" for j
    using assms(2) by (simp add: g nth_upd_field)
  have keep: "fm_set g = fm_set f" "fm_boxes g = fm_boxes f" "length (fm_fields g) = length (fm_fields f)" "fm_left g = fm_left f"
    "fm_status g = fm_status f" "fm_posts g = fm_posts f" "fm_air g = fm_air f"
    by (simp_all add: g upd_field_def)
  have "confirmed j f \<Longrightarrow> confirmed j g" for j
    using assms(3) by (cases "j = i") (simp_all add: confirmed_def nth keep value_at_def Let_def)
  moreover have "typed_fields g = typed_fields f"
    unfolding typed_fields_def keep by (rule filter_cong) (simp_all add: nth)
  ultimately have "open_fields g = []" using assms(5) by (auto simp: open_fields_def filter_empty_conv)
  moreover have "ready_form g" using assms(1,7) by (simp add: ready_form_def keep)
  moreover have "form_step (Submit own True True cb) g = submit_event own True True cb g"
    using assms(1) by (simp add: form_step_def form_event_def ready_form_def keep)
  ultimately show ?thesis using submit_ready [of g own cb] by (simp add: nth)
qed

text \<open>
  The key Enter in a field the server has not confirmed asks the question, but not for the sake of
  sending: when the server agrees nothing is sent, and the key has to be pressed again.
\<close>

lemma enter_only_asks:
  assumes "i < length (fm_fields f)" "vi_typed (fm_fields f ! i)" "ready_field i (f\<lparr>fm_focus := None\<rparr>)"
    "\<not> confirmed i f" "fm_air f = []" "fm_focus f = Some i" "vi_last (fm_fields f ! i) \<noteq> Some (value_at i f)"
  obtains g n where "submit_field i f = (g, FieldBad)" "undisturbed f g" "fm_air g = [(n, i)]" "\<not> vi_subpost (fm_fields g ! i)"
proof -
  let ?d = "f\<lparr>fm_focus := None\<rparr>"
  have eq: "value_at i ?d = value_at i f" "confirmed i ?d = confirmed i f" by (simp_all add: value_at_def confirmed_def Let_def)
  note r = ready_parts [OF assms(3)]
  obtain k where k: "submit_field i f = (case trigger_blur i k of (g, ok) \<Rightarrow> (g, if ok then FieldBad else FieldRaised))"
      "near f k" "fm_air k = []" "vi_last (fm_fields k ! i) = vi_last (fm_fields f ! i)"
    using field_shows [OF assms(1,4,5)] r(1,2) assms(4) by (auto simp: eq)
  let ?k = "k\<lparr>fm_focus := None\<rparr>"
  have fk: "still f k" using k(2) by (simp add: near_def)
  then have dk: "still ?d ?k" by (simp add: still_def undisturbed_def sends_def)
  have near: "near_at i ?d ?k" using k(2) assms(1) by (simp add: near_def near_at_def confirmed_def value_at_def Let_def)
  have len: "i < length (fm_fields ?k)" using still_set(2) [OF fk] assms(1) by simp
  have rk: "ready_field i ?k" "\<not> confirmed i ?k"
    using ready_still [OF dk _ near assms(3)] confirmed_still [OF dk _ near] assms(1,4) eq(2) by simp_all
  note plain = ready_parts [OF rk]
  have fresh: "False \<or> vi_last (fm_fields ?k ! i) \<noteq> Some (value_at i ?k)"
    using k(4) assms(7) value_still [OF fk assms(1)] by (simp add: value_at_def)
  have "fm_air ?k = []" using k(3) by simp
  then obtain g where g: "check False False i ?k = (g, Some Asked)" "still ?k g" "\<exists>n. fm_air g = [(n, i)]"
    "vi_subpost (fm_fields g ! i) = False"
    using check_asks [OF len rk _ fresh] by metis
  have typed: "vi_typed (fm_fields ?k ! i)" using frame_eq(3) [OF still_nth [OF fk assms(1)]] assms(2) by simp
  have "blur False i ?k = (g, True)"
    using g(1) plain(4) typed tip_stays [OF plain(3,5)] by (simp add: blur_def blur0_def)
  moreover have "fm_focus k = Some i" using still_set(4) [OF fk] assms(6) by simp
  ultimately have "trigger_blur i k = (g, True)" by (simp add: trigger_blur_def)
  then have s: "submit_field i f = (g, FieldBad)" using k(1) by simp
  show ?thesis using that [OF s submit_field_calm [OF s]] g(3,4) by auto
qed

lemma enter_not_sent:
  assumes "fm_status f = Normal" "\<not> fm_left f" "\<not> vs_all (fm_set f)" "typed_fields f = [i]" "submit_field i f = (g, FieldBad)"
    "undisturbed f g" "fm_air g = [(n, i)]" "\<not> vi_subpost (fm_fields g ! i)"
  shows "sends (agree (form_step (Submit own True True cb) f)) = sends f"
proof -
  have set: "fm_set g = fm_set f" "fm_left g = fm_left f" "sends g = sends f" using assms(6) by (simp_all add: undisturbed_def)
  have "form_step (Submit own True True cb) f = g"
    using assms(1-5) set by (simp add: form_step_def form_event_def submit_event_def submitForm_def)
  moreover have "agree g = form_step (FieldAnswer n (AJson True None) True True True) g" by (simp add: agree_def assms(7))
  moreover have "\<not> vi_subpost (fm_fields (upd_field i h k) ! i)" if "\<And>x. vi_subpost (h x) = vi_subpost x" "\<not> vi_subpost (fm_fields k ! i)" for h k
    using that by (cases "i < length (fm_fields k)") (simp_all add: upd_field_def list_update_beyond)
  ultimately show ?thesis using set assms(2,7,8)
    by (simp add: form_step_def form_event_def field_answer_def field_success_def Let_def filled_def show_sub sends_other show_keeps)
qed

text \<open>A reset does not take the confirmation back.\<close>

lemma reset_keeps_confirmation:
  "i < length (fm_fields f) \<Longrightarrow> vi_valid (fm_fields (resetForm f) ! i) = vi_valid (fm_fields f ! i)"
  by (simp add: resetForm_def reset_field_def Let_def)

text \<open>A form that is reset while it is on its way can be sent again at once: two are on their way.\<close>

lemma reset_sends_twice:
  "length (fm_posts (form_run [Submit True True True True, ResetClick, Submit True True True True] (form_of True []))) = 2"
  by (simp add: form_run_def form_step_def form_event_def submit_event_def submitForm_def typed_fields_def post_form_def
      showmsg_def resetForm_def form_of_def Let_def)

text \<open>
  A field whose attribute names no type raises an exception, and the browser sends the form with the
  values that would not have passed.
\<close>

lemma broken_type_sends:
  "fm_log (form_run [Submit True True True True] (form_of True [(number_input None (js ''a'') v)\<lparr>vo_types := js ''|''\<rparr>])) =
    [SentBroken [(number_input None (js ''a'') v)\<lparr>vo_types := js ''|'', vo_cked := True\<rparr>] []]"
proof -
  let ?x = "(number_input None (js ''a'') v)\<lparr>vo_types := js ''|''\<rparr>"
  have p: "parseDatatype (js ''|'') = None" by (simp add: parseDatatype_def js_def type_unit_def word_unit_def is_digit_def)
  have r: "regcheck other w cx ?x = (cx, ?x\<lparr>vo_cked := True\<rparr>, None)" for other w cx
    by (simp add: regcheck_def p Let_def) (simp add: number_input_def)
  have l: "left_out st ?x = False" for st by (simp add: left_out_def number_input_def)
  have t: "typed_fields (form_of True [?x]) = [0]" by (simp add: typed_fields_def form_parts upt_rec) (simp add: number_input_def)
  have "submit_loop [0] (form_of True [?x]) True =
      ((form_of True [?x\<lparr>vo_cked := True\<rparr>])\<lparr>fm_errorobj := Some 0\<rparr>, True, True)"
    by (simp add: submit_field_def reg_at_def r l form_parts Let_def) (simp add: form_of_def)
  then show ?thesis
    by (simp add: form_run_def form_step_def form_event_def submit_event_def submitForm_def t form_parts)
qed

text \<open>
  A question that takes the place of another is not marked as being asked: the request it aborts ends
  with an error that sets the mark, so the same value is asked about again when the field is left
  again.
\<close>

lemma replaced_question_unmarked:
  assumes "i < length (fm_fields f)" "vi_air (fm_fields f ! i) = Some k" "(k, i) \<in> set (fm_air f)"
    "vi_ckvalue (fm_fields f ! i) \<noteq> Some v"
  shows "vi_valid (fm_fields (check_ajax sub i v f) ! i) = js ''abort''"
proof -
  define a where "a = upd_field i (\<lambda>x. x\<lparr>vi_subpost := sub\<rparr>) f"
  define b where "b = upd_field i (\<lambda>x. x\<lparr>vi_valid := js ''posting'', vi_ckvalue := Some v\<rparr>) a"
  define c where "c = showmsg (Some tipmsg_c) (Some i) (Suc 0) ByCheck b"
  have len: "length (fm_fields a) = length (fm_fields f)" "length (fm_fields b) = length (fm_fields f)" "length (fm_fields c) = length (fm_fields f)"
    by (simp_all add: a_def b_def c_def show_length)
  have "vi_air (fm_fields b ! i) = Some k" "fm_air c = fm_air f"
    using assms(1,2) len by (simp_all add: b_def a_def c_def nth_upd_field show_air, simp add: upd_field_def)
  moreover have "vi_air (fm_fields c ! i) = vi_air (fm_fields b ! i)"
  proof -
    have "vi_air (fm_fields (upd_field i (vi_mark_update u) f) ! j) = vi_air (fm_fields f ! j)" for i j u and f :: vform
      by (cases "i < length (fm_fields f)"; cases "i = j") (simp_all add: upd_field_def list_update_beyond)
    then show ?thesis by (auto simp: c_def showmsg_def Let_def split: option.split)
  qed
  ultimately have "abort i c = (upd_field i (\<lambda>x. x\<lparr>vi_valid := js ''abort'', vi_air := None\<rparr>) c)\<lparr>fm_air := removeAll (k, i) (fm_air c)\<rparr>"
    using assms(3) by (simp add: abort_def)
  moreover have "check_ajax sub i v f = ask_server i v (abort i c)"
    using assms(1,4) by (simp add: check_ajax_def Let_def a_def [symmetric] b_def [symmetric] c_def [symmetric])
      (simp add: a_def nth_upd_field)
  ultimately show ?thesis using assms(1) len by (simp add: ask_server_def nth_upd_field)
qed

text \<open>The mark is the text of the refusal, and a refusal that says \<open>true\<close> is a confirmation.\<close>

lemma refusal_confirms:
  "i < length (fm_fields f) \<Longrightarrow>
    vi_valid (fm_fields (field_success False (Some (js ''true'')) bc bs cb i f) ! i) = js ''true''"
  by (simp add: field_success_def Let_def nth_upd_field show_valid show_length)

end
