(* ===== verification/Js_Dom.thy ===== *)
theory Js_Dom
  imports Js_Prelude
begin

text \<open>
  What the handlers do to the page and to the event loop. Calls on page elements are
  recorded as a list of \<open>ui\<close> values in program order; numbers that may be NaN are
  \<open>jsnum\<close>; \<open>setTimeout\<close>, \<open>setInterval\<close>, \<open>clearTimeout\<close> and \<open>clearInterval\<close> work on a
  table of pending callbacks, and \<open>fire\<close> is the event loop running one that is due.
\<close>

section \<open>Page effects\<close>

datatype ui =
    Show string
  | Hide string
  | SetText string jstr
  | SetHtml string jstr
  | SetVal string jstr
  | SetAttr string string jstr
  | SetCss string string jstr
  | AddClass string string
  | RemoveClass string string
  | Focus string
  | Click string
  | Submit string
  | Append string jstr
  | Remove string
  | Alert jstr
  | LayerAlert jstr int
  | Play string
  | Pause string

section \<open>Numbers read from the page\<close>

datatype jsnum = NaN | Num int

fun num_add :: "jsnum \<Rightarrow> int \<Rightarrow> jsnum" where
  "num_add NaN k = NaN"
| "num_add (Num n) k = Num (n + k)"

section \<open>Timers\<close>

text \<open>
  A pending callback: its due time, the period when it was set by \<open>setInterval\<close>, and
  what to run. Identifiers are handed out in increasing order and never reused.
\<close>

datatype 'c entry = Entry (due: int) (period: "int option") (callback: 'c)

record 'c timers =
  next_id :: nat
  pending :: "(nat \<times> 'c entry) list"

definition no_timers :: "'c timers" where
  "no_timers = \<lparr>next_id = 1, pending = []\<rparr>"

definition set_timeout :: "int \<Rightarrow> int \<Rightarrow> 'c \<Rightarrow> 'c timers \<Rightarrow> nat \<times> 'c timers" where
  "set_timeout now d c t =
     (next_id t,
      \<lparr>next_id = Suc (next_id t), pending = pending t @ [(next_id t, Entry (now + d) None c)]\<rparr>)"

definition set_interval :: "int \<Rightarrow> int \<Rightarrow> 'c \<Rightarrow> 'c timers \<Rightarrow> nat \<times> 'c timers" where
  "set_interval now d c t =
     (next_id t,
      \<lparr>next_id = Suc (next_id t), pending = pending t @ [(next_id t, Entry (now + d) (Some d) c)]\<rparr>)"

definition clear_timer :: "nat \<Rightarrow> 'c timers \<Rightarrow> 'c timers" where
  "clear_timer i t = t\<lparr>pending := filter (\<lambda>(j, e). j \<noteq> i) (pending t)\<rparr>"

definition find_timer :: "'c timers \<Rightarrow> nat \<Rightarrow> 'c entry option" where
  "find_timer t i = map_of (pending t) i"

text \<open>
  Firing takes a one-shot entry out before its callback runs, and moves a periodic entry
  to its next due time.
\<close>

definition fire :: "nat \<Rightarrow> 'c timers \<Rightarrow> ('c \<times> 'c timers) option" where
  "fire i t = (case find_timer t i of
     None \<Rightarrow> None
   | Some e \<Rightarrow> Some (callback e,
       (case period e of
          None \<Rightarrow> clear_timer i t
        | Some d \<Rightarrow> t\<lparr>pending :=
            map (\<lambda>(j, x). (j, if j = i then Entry (due e + d) (Some d) (callback e) else x)) (pending t)\<rparr>)))"

definition timers_inv :: "'c timers \<Rightarrow> bool" where
  "timers_inv t \<longleftrightarrow> distinct (map fst (pending t)) \<and> (\<forall>i\<in>set (map fst (pending t)). i < next_id t)"

lemma timers_inv_no_timers [simp]: "timers_inv no_timers"
  by (simp add: timers_inv_def no_timers_def)

lemma find_no_timers [simp]: "find_timer no_timers i = None"
  by (simp add: find_timer_def no_timers_def)

lemma map_of_filter_key:
  "map_of (filter (\<lambda>(j, e). j \<noteq> i) xs) k = (if k = i then None else map_of xs k)"
  by (induction xs) auto

subsection \<open>The interface the components use\<close>

text \<open>
  What a component relies on: a new identifier is unused, a lookup sees exactly the timer
  set or cleared. A component that keeps the identifier of its last timer and clears it
  before setting the next one never has more than one pending.
\<close>

locale timeout_service =
  fixes set_t :: "int \<Rightarrow> int \<Rightarrow> 'c \<Rightarrow> 't \<Rightarrow> nat \<times> 't"
    and clear_t :: "nat \<Rightarrow> 't \<Rightarrow> 't"
    and find_t :: "'t \<Rightarrow> nat \<Rightarrow> 'e option"
    and inv_t :: "'t \<Rightarrow> bool"
  assumes inv_set: "inv_t t \<Longrightarrow> set_t now d c t = (i, t') \<Longrightarrow> inv_t t'"
    and inv_clear: "inv_t t \<Longrightarrow> inv_t (clear_t i t)"
    and fresh: "inv_t t \<Longrightarrow> set_t now d c t = (i, t') \<Longrightarrow> find_t t i = None"
    and found: "inv_t t \<Longrightarrow> set_t now d c t = (i, t') \<Longrightarrow> find_t t' i \<noteq> None"
    and find_other: "inv_t t \<Longrightarrow> set_t now d c t = (i, t') \<Longrightarrow> j \<noteq> i \<Longrightarrow> find_t t' j = find_t t j"
    and find_clear: "find_t (clear_t i t) j = (if j = i then None else find_t t j)"
begin

definition only :: "nat \<Rightarrow> 't \<Rightarrow> bool" where
  "only i t \<longleftrightarrow> (\<forall>j. find_t t j \<noteq> None \<longrightarrow> j = i)"

lemma only_set_after_clear:
  assumes "inv_t t" "only i t" "set_t now d c (clear_t i t) = (k, t')"
  shows "only k t' \<and> find_t t' k \<noteq> None \<and> inv_t t'"
proof -
  have inv: "inv_t (clear_t i t)" using assms(1) by (rule inv_clear)
  have "j = k" if "find_t t' j \<noteq> None" for j
  proof (rule ccontr)
    assume "j \<noteq> k"
    with that have "find_t (clear_t i t) j \<noteq> None"
      using find_other [OF inv assms(3)] by simp
    with assms(2) show False by (auto simp: find_clear only_def split: if_splits)
  qed
  then have "only k t'" by (simp add: only_def)
  moreover have "find_t t' k \<noteq> None" by (rule found [OF inv assms(3)])
  moreover have "inv_t t'" by (rule inv_set [OF inv assms(3)])
  ultimately show ?thesis by simp
qed

lemma set_injective:
  "inv_t t \<Longrightarrow> set_t now d c t = (i, t') \<Longrightarrow> find_t t j \<noteq> None \<Longrightarrow> find_t t' j = find_t t j"
  using find_other fresh by (metis)

lemma clear_none_left: "only i t \<Longrightarrow> find_t (clear_t i t) j = None"
  by (auto simp: only_def find_clear)

end

lemma find_next_id: "timers_inv t \<Longrightarrow> find_timer t (next_id t) = None"
  by (auto simp: timers_inv_def find_timer_def map_of_eq_None_iff)

lemma find_set_timeout:
  "timers_inv t \<Longrightarrow> set_timeout now d c t = (i, t') \<Longrightarrow>
    find_timer t' j = (if j = i then Some (Entry (now + d) None c) else find_timer t j)"
  using find_next_id [of t]
  by (auto simp: set_timeout_def find_timer_def map_add_def split: option.split)

lemma find_set_interval:
  "timers_inv t \<Longrightarrow> set_interval now d c t = (i, t') \<Longrightarrow>
    find_timer t' j = (if j = i then Some (Entry (now + d) (Some d) c) else find_timer t j)"
  using find_next_id [of t]
  by (auto simp: set_interval_def find_timer_def map_add_def split: option.split)

lemma find_clear_timer: "find_timer (clear_timer i t) j = (if j = i then None else find_timer t j)"
  by (simp add: find_timer_def clear_timer_def map_of_filter_key)

lemma timers_inv_set_timeout: "timers_inv t \<Longrightarrow> set_timeout now d c t = (i, t') \<Longrightarrow> timers_inv t'"
  by (fastforce simp: set_timeout_def timers_inv_def)

lemma timers_inv_set_interval: "timers_inv t \<Longrightarrow> set_interval now d c t = (i, t') \<Longrightarrow> timers_inv t'"
  by (fastforce simp: set_interval_def timers_inv_def)

lemma timers_inv_clear: "timers_inv t \<Longrightarrow> timers_inv (clear_timer i t)"
  by (auto simp: clear_timer_def timers_inv_def distinct_map_filter)

lemma set_timeout_id: "set_timeout now d c t = (i, t') \<Longrightarrow> i = next_id t"
  "set_interval now d c t = (i, t') \<Longrightarrow> i = next_id t"
  by (simp_all add: set_timeout_def set_interval_def)

lemma set_timer_fresh:
  "timers_inv t \<Longrightarrow> set_timeout now d c t = (i, t') \<Longrightarrow> find_timer t i = None"
  "timers_inv t \<Longrightarrow> set_interval now d c t = (i, t') \<Longrightarrow> find_timer t i = None"
  using find_next_id [of t] by (simp_all add: set_timeout_def set_interval_def)

interpretation tmo: timeout_service set_timeout clear_timer find_timer timers_inv
  by unfold_locales
    (auto simp: find_set_timeout find_clear_timer set_timer_fresh timers_inv_clear
      intro: timers_inv_set_timeout)

interpretation ivl: timeout_service set_interval clear_timer find_timer timers_inv
  by unfold_locales
    (auto simp: find_set_interval find_clear_timer set_timer_fresh timers_inv_clear
      intro: timers_inv_set_interval)

lemma fire_once:
  "find_timer t i = Some (Entry d None c) \<Longrightarrow> fire i t = Some (c, clear_timer i t)"
  by (simp add: fire_def)

lemma timers_inv_cong:
  "map fst (pending t') = map fst (pending t) \<Longrightarrow> next_id t' = next_id t \<Longrightarrow> timers_inv t' = timers_inv t"
  by (simp only: timers_inv_def)

lemma fire_inv: "timers_inv t \<Longrightarrow> fire i t = Some (c, t') \<Longrightarrow> timers_inv t'"
proof -
  have "map fst (map (\<lambda>(j, x). (j, f j x)) xs) = map fst xs" for f :: "nat \<Rightarrow> 'a entry \<Rightarrow> 'a entry" and xs
    by (induction xs) auto
  from this [of _ "pending t"]
  have "timers_inv (t\<lparr>pending := map (\<lambda>(j, x). (j, f j x)) (pending t)\<rparr>) = timers_inv t" for f
    by (intro timers_inv_cong) simp_all
  then show "timers_inv t \<Longrightarrow> fire i t = Some (c, t') \<Longrightarrow> timers_inv t'"
    by (auto simp: fire_def timers_inv_clear split: option.splits)
qed

subsection \<open>Counting pending callbacks\<close>

definition timer_count :: "('c \<Rightarrow> bool) \<Rightarrow> 'c timers \<Rightarrow> nat" where
  "timer_count P t = length (filter (\<lambda>(i, e). P (callback e)) (pending t))"

definition one_shot :: "'c timers \<Rightarrow> bool" where
  "one_shot t \<longleftrightarrow> timers_inv t \<and> (\<forall>(i, e)\<in>set (pending t). period e = None)"

lemma one_shot_no_timers [simp]: "one_shot no_timers" "timer_count P no_timers = 0"
  by (simp_all add: one_shot_def timer_count_def no_timers_def timers_inv_def)

lemma one_shot_set_timeout:
  "one_shot t \<Longrightarrow> one_shot (snd (set_timeout now d c t))"
  using timers_inv_set_timeout [of t now d c "fst (set_timeout now d c t)" "snd (set_timeout now d c t)"]
  by (auto simp: one_shot_def set_timeout_def)

lemma timer_count_set_timeout [simp]:
  "timer_count P (snd (set_timeout now d c t)) = timer_count P t + (if P c then 1 else 0)"
  by (simp add: timer_count_def set_timeout_def)

lemma count_filter_key:
  "distinct (map fst xs) \<Longrightarrow> map_of xs i = Some v \<Longrightarrow>
   length (filter Q xs) = length (filter Q (filter (\<lambda>(j, e). j \<noteq> i) xs)) + (if Q (i, v) then 1 else 0)"
proof (induction xs)
  case (Cons x xs)
  obtain j w where x: "x = (j, w)" by (cases x)
  show ?case
  proof (cases "j = i")
    case True
    then have "filter (\<lambda>(j, e). j \<noteq> i) xs = xs"
      using Cons.prems x by (intro filter_True) (force simp: image_iff)
    then show ?thesis using True Cons.prems x by simp
  next
    case False
    then show ?thesis using Cons x by simp
  qed
qed simp

lemma one_shot_fire:
  assumes "one_shot t" "fire i t = Some (c, t')"
  shows "one_shot t' \<and> timer_count P t = timer_count P t' + (if P c then 1 else 0)"
proof -
  obtain e where e: "find_timer t i = Some e" "c = callback e"
    using assms(2) by (auto simp: fire_def split: option.splits)
  then have "(i, e) \<in> set (pending t)" by (simp add: find_timer_def map_of_SomeD)
  then have "period e = None" using assms(1) by (auto simp: one_shot_def)
  then have t': "t' = clear_timer i t" using assms(2) e by (simp add: fire_def)
  have d: "distinct (map fst (pending t))" using assms(1) by (simp add: one_shot_def timers_inv_def)
  have "one_shot t'"
    using assms(1) timers_inv_clear [of t i] unfolding t' one_shot_def by (auto simp: clear_timer_def)
  then show ?thesis
    using count_filter_key [OF d, of i e "\<lambda>(i, e). P (callback e)"] e
    by (simp add: timer_count_def t' clear_timer_def find_timer_def)
qed

end
