(* ===== verification/AdminActions.thy ===== *)
theory AdminActions
  imports Js_Dom
begin

text \<open>
  The list pages of the administration (\<open>static/plug-in/js/common.js\<close>, first half): detail and
  edit dialogs loaded by ajax, form posts, and operations that ask for confirmation, on the
  message boxes of \<open>plug-in/plugin/layer/layer.js\<close>; then the permission trees
  (\<open>content/system/js/jwid_user.js\<close> and \<open>privilege_role.js\<close>, the same code for the accounts of a
  user and for the rights of a role). The tree widget is a parameter: its nodes are data.
\<close>

section \<open>State\<close>

text \<open>What the OK button of the final message does.\<close>

datatype after = SubmitForm | GridReload | ReturnClick

text \<open>The handlers a request was sent with.\<close>

datatype req =
    LoadInto string
  | JsonThen after
  | PostThen after
  | PostChecked after
  | Redirect

text \<open>The callback of a message box: none, send a request, or perform an action and close.\<close>

datatype layer_yes = YNone | YSend jstr req | YDone after

record admin =
  l_index :: nat
  dialog :: "(nat \<times> jstr \<times> layer_yes) option"
  sent :: nat
  flying :: "(nat \<times> jstr \<times> req) list"
  modal_body :: "(string \<times> jstr) list"
  modal_title :: "(string \<times> jstr) list"
  modal_shown :: "string list"
  effects :: "after list"
  href :: "jstr option"

definition admin0 :: admin where
  "admin0 = \<lparr>l_index = 0, dialog = None, sent = 0, flying = [], modal_body = [], modal_title = [],
     modal_shown = [], effects = [], href = None\<rparr>"

section \<open>Message boxes\<close>

text \<open>
  \<open>layer.alert\<close> and \<open>layer.confirm\<close> open a box of type 0, which first closes every other box of
  that type. A click on the first button runs the callback when there is one and closes the box
  otherwise; the second button and the cross close it.
\<close>

definition layer_open :: "jstr \<Rightarrow> layer_yes \<Rightarrow> admin \<Rightarrow> admin" where
  "layer_open msg yes st = st\<lparr>l_index := l_index st + 1, dialog := Some (l_index st + 1, msg, yes)\<rparr>"

definition layer_close :: "nat \<Rightarrow> admin \<Rightarrow> admin" where
  "layer_close i st =
     (case dialog st of
        Some (j, m, y) \<Rightarrow> if j = i then st\<lparr>dialog := None\<rparr> else st
      | None \<Rightarrow> st)"

definition layeralert :: "jstr \<Rightarrow> admin \<Rightarrow> admin" where
  "layeralert msg st = layer_open msg YNone st"

definition send :: "jstr \<Rightarrow> req \<Rightarrow> admin \<Rightarrow> admin" where
  "send url r st = st\<lparr>sent := sent st + 1, flying := flying st @ [(sent st, url, r)]\<rparr>"

definition perform :: "after \<Rightarrow> admin \<Rightarrow> admin" where
  "perform a st = st\<lparr>effects := effects st @ [a]\<rparr>"

definition press_ok :: "admin \<Rightarrow> admin" where
  "press_ok st =
     (case dialog st of
        None \<Rightarrow> st
      | Some (i, m, YNone) \<Rightarrow> layer_close i st
      | Some (i, m, YSend url r) \<Rightarrow> send url r st
      | Some (i, m, YDone a) \<Rightarrow> layer_close i (perform a st))"

definition press_cancel :: "admin \<Rightarrow> admin" where
  "press_cancel st = (case dialog st of None \<Rightarrow> st | Some (i, m, y) \<Rightarrow> layer_close i st)"

section \<open>Operations\<close>

definition msg_no_right :: jstr where
  "msg_no_right = [27809, 26377, 26435, 38480, 65281]"

definition msg_delete :: jstr where
  "msg_delete = [30830, 35748, 21024, 38500, 21527, 65311]"

definition msg_commit :: jstr where
  "msg_commit = [30830, 35748, 25552, 20132, 21527, 65311]"

definition msg_block :: jstr where
  "msg_block = [30830, 35748, 20572, 29992, 35813, 29992, 25143, 21527, 65311]"

definition msg_unlock :: jstr where
  "msg_unlock = [30830, 35748, 21551, 29992, 35813, 29992, 25143, 21527, 65311]"

text \<open>The random parameter that defeats caches; \<open>rnd\<close> is the text of the random number.\<close>

definition with_t :: "jstr \<Rightarrow> jstr \<Rightarrow> jstr" where
  "with_t url rnd =
     (if indexOf url (js ''?'') > -1 then url @ js ''&t='' @ rnd else url @ js ''?t='' @ rnd)"

definition open_modal :: "string \<Rightarrow> jstr \<Rightarrow> jstr \<Rightarrow> jstr \<Rightarrow> admin \<Rightarrow> admin" where
  "open_modal m url rnd title st =
     (let url = with_t url rnd;
          st = send url (LoadInto m) (st\<lparr>modal_title := AList.update m title (modal_title st)\<rparr>)
      in st\<lparr>modal_shown := modal_shown st @ [m]\<rparr>)"

definition remoteUrl :: "jstr \<Rightarrow> jstr \<Rightarrow> jstr \<Rightarrow> admin \<Rightarrow> admin" where
  "remoteUrl url title rnd = open_modal ''addOrUpdateModal'' url rnd title"

definition detail :: "jstr \<Rightarrow> jstr \<Rightarrow> jstr \<Rightarrow> admin \<Rightarrow> admin" where
  "detail url title rnd = open_modal ''detailModal'' url rnd title"

definition showPrivilegeTree :: "jstr \<Rightarrow> jstr \<Rightarrow> jstr \<Rightarrow> admin \<Rightarrow> admin" where
  "showPrivilegeTree url title rnd = open_modal ''privilegeTreeModal'' url rnd title"

definition doUrl :: "jstr \<Rightarrow> admin \<Rightarrow> admin" where
  "doUrl url st = st\<lparr>href := Some url\<rparr>"

definition dialogDiv :: "string \<Rightarrow> jstr \<Rightarrow> admin \<Rightarrow> admin" where
  "dialogDiv m title st =
     st\<lparr>modal_title := AList.update m title (modal_title st), modal_shown := modal_shown st @ [m]\<rparr>"

definition ajaxdoForm :: "jstr \<Rightarrow> admin \<Rightarrow> admin" where
  "ajaxdoForm url = send url (PostThen SubmitForm)"

definition ajaxdoFormSubmit :: "jstr \<Rightarrow> admin \<Rightarrow> admin" where
  "ajaxdoFormSubmit url = send url (PostChecked ReturnClick)"

definition delData :: "jstr \<Rightarrow> admin \<Rightarrow> admin" where
  "delData url = layer_open msg_delete (YSend url (JsonThen SubmitForm))"

definition delDataGrid :: "jstr \<Rightarrow> admin \<Rightarrow> admin" where
  "delDataGrid url = layer_open msg_commit (YSend url (JsonThen GridReload))"

definition blockUser :: "jstr \<Rightarrow> admin \<Rightarrow> admin" where
  "blockUser i =
     layer_open msg_block (YSend (js ''../rcOperateUser/blockUser.do?id='' @ i) (JsonThen SubmitForm))"

definition unlockUser :: "jstr \<Rightarrow> admin \<Rightarrow> admin" where
  "unlockUser i =
     layer_open msg_unlock (YSend (js ''../rcOperateUser/unlockUser.do?id='' @ i) (JsonThen SubmitForm))"

definition redirectUrl :: "jstr \<Rightarrow> admin \<Rightarrow> admin" where
  "redirectUrl url = send url Redirect"

section \<open>Answers\<close>

record ajax_data =
  success :: bool
  d_msg :: jstr
  d_status :: "jstr option"

text \<open>
  The body of an answer with the object it denotes when it is JSON, or a failure with its HTTP
  status. A body that is not JSON is a failure of status 200 for a request that expects JSON.
\<close>

datatype answer = Body jstr "ajax_data option" | Failure nat

definition on_data :: "after \<Rightarrow> ajax_data \<Rightarrow> admin \<Rightarrow> admin" where
  "on_data a d st =
     (if success d then layer_open (d_msg d) (YDone a) st else layeralert (d_msg d) st)"

definition on_error :: "nat \<Rightarrow> admin \<Rightarrow> admin" where
  "on_error status st = (if status = 401 then layeralert msg_no_right st else st)"

definition json_status :: "answer \<Rightarrow> nat + ajax_data" where
  "json_status ans =
     (case ans of Failure n \<Rightarrow> Inl n | Body t None \<Rightarrow> Inl 200 | Body t (Some d) \<Rightarrow> Inr d)"

definition handle :: "req \<Rightarrow> answer \<Rightarrow> admin \<Rightarrow> admin" where
  "handle r ans st =
     (case r of
        LoadInto m \<Rightarrow>
          (case ans of
             Body t d \<Rightarrow> st\<lparr>modal_body := AList.update m t (modal_body st)\<rparr>
           | Failure n \<Rightarrow> on_error n st)
      | JsonThen a \<Rightarrow> (case json_status ans of Inl n \<Rightarrow> on_error n st | Inr d \<Rightarrow> on_data a d st)
      | PostThen a \<Rightarrow> (case json_status ans of Inl n \<Rightarrow> on_error n st | Inr d \<Rightarrow> on_data a d st)
      | PostChecked a \<Rightarrow>
          (case json_status ans of
             Inl n \<Rightarrow> on_error n st
           | Inr d \<Rightarrow>
               if d_status d = Some (js ''401'') then layeralert msg_no_right st else on_data a d st)
      | Redirect \<Rightarrow>
          (case json_status ans of Inl n \<Rightarrow> st | Inr d \<Rightarrow> on_data SubmitForm d st))"

definition receive :: "nat \<Rightarrow> answer \<Rightarrow> admin \<Rightarrow> admin" where
  "receive i ans st =
     (case map_of (flying st) i of
        None \<Rightarrow> st
      | Some (url, r) \<Rightarrow> handle r ans (st\<lparr>flying := filter (\<lambda>e. fst e \<noteq> i) (flying st)\<rparr>))"

section \<open>Runs\<close>

datatype event =
    RemoteUrl jstr jstr jstr
  | Detail jstr jstr jstr
  | PrivilegeTree jstr jstr jstr
  | DoUrl jstr
  | DialogDiv string jstr
  | DoForm jstr
  | DoFormSubmit jstr
  | DelData jstr
  | DelDataGrid jstr
  | BlockUser jstr
  | UnlockUser jstr
  | RedirectUrl jstr
  | PressOk
  | PressCancel
  | Receive nat answer

fun admin_step :: "event \<Rightarrow> admin \<Rightarrow> admin" where
  "admin_step (RemoteUrl u t r) = remoteUrl u t r"
| "admin_step (Detail u t r) = detail u t r"
| "admin_step (PrivilegeTree u t r) = showPrivilegeTree u t r"
| "admin_step (DoUrl u) = doUrl u"
| "admin_step (DialogDiv m t) = dialogDiv m t"
| "admin_step (DoForm u) = ajaxdoForm u"
| "admin_step (DoFormSubmit u) = ajaxdoFormSubmit u"
| "admin_step (DelData u) = delData u"
| "admin_step (DelDataGrid u) = delDataGrid u"
| "admin_step (BlockUser i) = blockUser i"
| "admin_step (UnlockUser i) = unlockUser i"
| "admin_step (RedirectUrl u) = redirectUrl u"
| "admin_step PressOk = press_ok"
| "admin_step PressCancel = press_cancel"
| "admin_step (Receive i ans) = receive i ans"

definition admin_run :: "event list \<Rightarrow> admin \<Rightarrow> admin" where
  "admin_run evs st = fold admin_step evs st"

section \<open>Permission trees\<close>

datatype who = UserId | RoleId

definition who_query :: "who \<Rightarrow> jstr" where
  "who_query w = (case w of UserId \<Rightarrow> js ''?userId='' | RoleId \<Rightarrow> js ''?roleId='')"

definition msg_choose :: "who \<Rightarrow> jstr" where
  "msg_choose w =
     (case w of UserId \<Rightarrow> [35831, 36873, 25321, 19968, 20010, 20844, 20247, 21495, 33]
      | RoleId \<Rightarrow> [35831, 36873, 25321, 19968, 20010, 35282, 33394, 33])"

text \<open>The address the tree is loaded from, or the message shown when nobody is chosen.\<close>

definition showAuth :: "who \<Rightarrow> jstr \<Rightarrow> jstr option \<Rightarrow> jstr \<Rightarrow> jstr + jstr" where
  "showAuth w url who_id rnd =
     (case who_id of
        None \<Rightarrow> Inl (msg_choose w)
      | Some i \<Rightarrow> if i = [] then Inl (msg_choose w) else Inr (with_t (url @ who_query w @ i) rnd))"

fun push_ids :: "jstr list \<Rightarrow> jstr list \<Rightarrow> jstr list" where
  "push_ids acc [] = acc"
| "push_ids acc (n # ns) = push_ids (acc @ [n]) ns"

text \<open>\<open>saveAuth\<close>: the data sent for the ids of the checked nodes, and what follows the answer.\<close>

definition saveAuth :: "jstr list \<Rightarrow> jstr \<Rightarrow> jstr \<times> jstr" where
  "saveAuth checked who_id = (join_with (js '','') (push_ids [] checked), who_id)"

definition saveAuth_success :: "ajax_data \<Rightarrow> ui list" where
  "saveAuth_success d =
     (if success d then [Alert (d_msg d), Click ''#dialogFormClose''] else [Alert (d_msg d)])"

text \<open>A node of the tree: its id and the ids of the leaves below it.\<close>

record tnode =
  n_id :: jstr
  n_leaves :: "jstr list"

datatype tree_op = TAlert jstr | TDisable jstr | TEnable jstr

text \<open>
  \<open>Disabled1\<close>: both loops index with \<open>i\<close>; reading \<open>id\<close> beyond the end throws. The flag says
  whether the run ended in that error.
\<close>

fun disabled_inner :: "jstr list \<Rightarrow> nat \<Rightarrow> nat \<Rightarrow> tree_op list \<times> bool" where
  "disabled_inner cs i 0 = ([], False)"
| "disabled_inner cs i (Suc m) =
     (if i < length cs then
        (let (ops, e) = disabled_inner cs i m in (TAlert (cs ! i) # TDisable (cs ! i) # ops, e))
      else ([], True))"

fun disabled_loop :: "nat \<Rightarrow> tnode list \<Rightarrow> tree_op list \<times> bool" where
  "disabled_loop i [] = ([], False)"
| "disabled_loop i (n # ns) =
     (let (ops, e) =
        (if n_id n = js ''21''
         then (case disabled_inner (n_leaves n) i (length (n_leaves n)) of
                 (ops, e) \<Rightarrow> (TAlert (js ''a'') # ops, e))
         else ([], False))
      in if e then (TAlert (n_id n) # ops, True)
         else (case disabled_loop (i + 1) ns of (ops', e') \<Rightarrow> (TAlert (n_id n) # ops @ ops', e')))"

definition Disabled1 :: "tnode list \<Rightarrow> tree_op list \<times> bool" where
  "Disabled1 nodes = disabled_loop 0 nodes"

definition Disabled2 :: "jstr list \<Rightarrow> tree_op list" where
  "Disabled2 checked = map TEnable checked"

text \<open>
  \<open>getChildNodes\<close> asks \<open>ztree\<close>, while the files declare \<open>zTree\<close>: the tree is an argument, missing when
  nothing else on the page declares the name, and then the call throws.
\<close>

fun collect_ids :: "nat \<Rightarrow> tnode list \<Rightarrow> jstr list \<Rightarrow> jstr list" where
  "collect_ids i [] nodes = nodes"
| "collect_ids i (c # cs) nodes = collect_ids (i + 1) cs (nodes @ [n_id c])"

definition getChildNodes :: "('n \<Rightarrow> tnode list) option \<Rightarrow> 'n \<Rightarrow> jstr option" where
  "getChildNodes ztree node =
     (case ztree of None \<Rightarrow> None | Some transformToArray \<Rightarrow> Some (join_with (js '','') (collect_ids 0 (transformToArray node) [])))"

lemma collect_ids_map: "collect_ids i cs nodes = nodes @ map n_id cs"
  by (induction cs arbitrary: i nodes) auto

section \<open>Confirmed operations\<close>

definition is_success :: "event \<Rightarrow> bool" where
  "is_success e \<longleftrightarrow> (case e of Receive i (Body t (Some d)) \<Rightarrow> success d | _ \<Rightarrow> False)"

definition direct :: "event \<Rightarrow> bool" where
  "direct e \<longleftrightarrow>
     (case e of RemoteUrl u t r \<Rightarrow> True | Detail u t r \<Rightarrow> True | PrivilegeTree u t r \<Rightarrow> True
      | DoForm u \<Rightarrow> True | DoFormSubmit u \<Rightarrow> True | RedirectUrl u \<Rightarrow> True | _ \<Rightarrow> False)"

text \<open>Effects performed or announced by the box on screen.\<close>

definition weight :: "admin \<Rightarrow> nat" where
  "weight st = length (effects st) + (case dialog st of Some (i, m, YDone a) \<Rightarrow> 1 | _ \<Rightarrow> 0)"

lemmas box_defs = layer_open_def layer_close_def layeralert_def send_def perform_def weight_def

lemma weight_on_data: "weight (on_data a d st) \<le> length (effects st) + (if success d then 1 else 0)"
  by (simp add: on_data_def box_defs)

lemma weight_on_error: "weight (on_error n st) \<le> weight st"
  by (simp add: on_error_def box_defs)

lemma weight_ge: "length (effects st) \<le> weight st"
  by (simp add: weight_def)

text \<open>What a handler can do: nothing, fill a dialog, show a message, or follow a JSON answer.\<close>

lemma handle_cases:
  obtains (same) "handle r ans st = st"
  | (load) b where "handle r ans st = st\<lparr>modal_body := b\<rparr>"
  | (error) n where "handle r ans st = on_error n st"
  | (alert) m where "handle r ans st = layeralert m st"
  | (data) t d a where "ans = Body t (Some d)" "handle r ans st = on_data a d st"
proof (cases "json_status ans")
  case (Inl n)
  show ?thesis
  proof (cases r)
    case (LoadInto m)
    then show ?thesis using load error by (cases ans) (simp_all add: handle_def)
  next
    case Redirect
    then show ?thesis using same Inl by (simp add: handle_def)
  qed (use error [of n] Inl in \<open>simp_all add: handle_def\<close>)
next
  case (Inr d)
  then obtain t where a: "ans = Body t (Some d)"
    by (cases ans) (auto simp: json_status_def split: option.splits)
  show ?thesis
  proof (cases r)
    case (LoadInto m)
    then show ?thesis using load a by (simp add: handle_def)
  next
    case (PostChecked af)
    then show ?thesis using data [OF a] alert Inr by (cases "d_status d = Some (js ''401'')") (simp_all add: handle_def)
  qed (use data [OF a] Inr in \<open>simp_all add: handle_def\<close>)
qed

definition gain :: "answer \<Rightarrow> nat" where
  "gain ans = (case ans of Body t (Some d) \<Rightarrow> if success d then 1 else 0 | _ \<Rightarrow> 0)"

lemma weight_handle: "weight (handle r ans st) \<le> weight st + gain ans"
proof (cases rule: handle_cases [of r ans st])
  case (data t d a)
  then show ?thesis using weight_on_data [of a d st] weight_ge [of st] by (simp add: gain_def)
next
  case (error n)
  then show ?thesis using weight_on_error [of n st] by simp
qed (simp_all add: box_defs)

lemma handle_keeps:
  "sent (handle r ans st) = sent st \<and> flying (handle r ans st) = flying st"
  by (cases rule: handle_cases [of r ans st]) (simp_all add: on_data_def on_error_def box_defs)

lemma gain_le: "gain ans \<le> 1"
  by (simp add: gain_def split: answer.split option.split)

lemma filter_key_shorter: "map_of xs i = Some v \<Longrightarrow> length (filter (\<lambda>e. fst e \<noteq> i) xs) < length xs"
  by (rule length_filter_less [of "(i, v)"]) (auto dest: map_of_SomeD)

definition e_gain :: "event \<Rightarrow> nat" where
  "e_gain e = (case e of Receive i ans \<Rightarrow> gain ans | _ \<Rightarrow> 0)"

text \<open>
  One event: the weight grows only with a successful answer, which takes a request out of the
  air; a request is added only by a direct operation or by the OK button.
\<close>

lemma press_ok_step:
  "weight (press_ok st) \<le> weight st \<and> sent (press_ok st) \<le> sent st + 1 \<and>
   length (flying (press_ok st)) + sent st = length (flying st) + sent (press_ok st)"
proof (cases "dialog st")
  case (Some a)
  obtain i m y where "a = (i, m, y)" by (cases a) auto
  with Some show ?thesis by (cases y) (simp_all add: press_ok_def box_defs)
qed (simp add: press_ok_def)

lemma receive_step:
  "weight (receive i ans st) \<le> weight st + gain ans \<and> sent (receive i ans st) = sent st \<and>
   (receive i ans st = st \<or> length (flying (receive i ans st)) < length (flying st))"
proof (cases "map_of (flying st) i")
  case (Some a)
  obtain url r where a: "a = (url, r)" by (cases a)
  let ?s = "st\<lparr>flying := filter (\<lambda>e. fst e \<noteq> i) (flying st)\<rparr>"
  have "receive i ans st = handle r ans ?s" using Some a by (simp add: receive_def)
  moreover have "weight ?s = weight st" by (simp add: weight_def)
  ultimately show ?thesis
    using weight_handle [of r ans ?s] handle_keeps [of r ans ?s] filter_key_shorter [OF Some] by simp
qed (simp add: receive_def)

lemma other_step:
  assumes "case e of PressOk \<Rightarrow> False | Receive i ans \<Rightarrow> False | _ \<Rightarrow> True"
  shows "weight (admin_step e st) \<le> weight st \<and>
    sent (admin_step e st) = sent st + (if direct e then 1 else 0) \<and>
    length (flying (admin_step e st)) = length (flying st) + (if direct e then 1 else 0)"
  using assms
  by (cases e) (simp_all add: direct_def box_defs remoteUrl_def detail_def showPrivilegeTree_def open_modal_def
      doUrl_def dialogDiv_def ajaxdoForm_def ajaxdoFormSubmit_def delData_def delDataGrid_def blockUser_def
      unlockUser_def redirectUrl_def press_cancel_def Let_def split: option.split prod.split)

lemma admin_step_bounds:
  "weight (admin_step e st) \<le> weight st + e_gain e \<and>
   sent (admin_step e st) \<le> sent st + (if direct e \<or> e = PressOk then 1 else 0) \<and>
   weight (admin_step e st) + length (flying (admin_step e st)) + sent st
     \<le> weight st + length (flying st) + sent (admin_step e st)"
proof (cases e)
  case PressOk
  then show ?thesis using press_ok_step [of st] by (simp add: e_gain_def)
next
  case (Receive i ans)
  then show ?thesis
    using receive_step [of i ans st] gain_le [of ans] by (auto simp: e_gain_def)
qed (use other_step [of e st] in \<open>simp_all add: e_gain_def\<close>)

lemma admin_run_bounds:
  "weight (admin_run evs st) \<le> weight st + sum_list (map e_gain evs) \<and>
   sent (admin_run evs st) \<le> sent st + length (filter (\<lambda>e. direct e \<or> e = PressOk) evs) \<and>
   weight (admin_run evs st) + length (flying (admin_run evs st)) + sent st
     \<le> weight st + length (flying st) + sent (admin_run evs st)"
proof (induction evs arbitrary: st)
  case (Cons e evs)
  define s' where "s' = admin_step e st"
  define r where "r = admin_run evs s'"
  have r: "admin_run (e # evs) st = r" by (simp add: admin_run_def r_def s'_def)
  have n: "length (filter (\<lambda>e. direct e \<or> e = PressOk) (e # evs)) =
      (if direct e \<or> e = PressOk then 1 else 0) + length (filter (\<lambda>e. direct e \<or> e = PressOk) evs)"
    by simp
  have t: "sum_list (map e_gain (e # evs)) = e_gain e + sum_list (map e_gain evs)" by simp
  have IH: "weight r \<le> weight s' + sum_list (map e_gain evs)"
    "sent r \<le> sent s' + length (filter (\<lambda>e. direct e \<or> e = PressOk) evs)"
    "weight r + length (flying r) + sent s' \<le> weight s' + length (flying s') + sent r"
    using Cons [of s'] unfolding r_def by blast+
  have S: "weight s' \<le> weight st + e_gain e"
    "sent s' \<le> sent st + (if direct e \<or> e = PressOk then 1 else 0)"
    "weight s' + length (flying s') + sent st \<le> weight st + length (flying st) + sent s'"
    using admin_step_bounds [of e st] unfolding s'_def by blast+
  show ?case unfolding r n t using IH S by (intro conjI) linarith+
qed (simp add: admin_run_def)

lemma e_gain_count: "sum_list (map e_gain evs) = length (filter is_success evs)"
  by (induction evs) (auto simp: e_gain_def is_success_def gain_def split: event.splits answer.splits option.splits)

text \<open>
  C12: whatever the user clicks and whatever the server answers, in any order: a page action
  (submitting the list form, reloading the grid, going back) needs a successful answer of its
  own, never outnumbers the requests sent, and when only the confirmed operations are used no
  request goes out without a click on the OK button.
\<close>

theorem admin_effects_bounded:
  "length (effects (admin_run evs admin0)) \<le> length (filter is_success evs) \<and>
   length (effects (admin_run evs admin0)) + length (flying (admin_run evs admin0)) \<le> sent (admin_run evs admin0) \<and>
   (list_all (\<lambda>e. \<not> direct e) evs \<longrightarrow>
      sent (admin_run evs admin0) \<le> length (filter (\<lambda>e. e = PressOk) evs))"
proof -
  have z: "weight admin0 = 0" "sent admin0 = 0" "flying admin0 = []"
    by (simp_all add: admin0_def weight_def)
  moreover have "filter (\<lambda>e. direct e \<or> e = PressOk) evs = filter (\<lambda>e. e = PressOk) evs"
    if "list_all (\<lambda>e. \<not> direct e) evs"
    using that by (intro filter_cong) (auto simp: list_all_iff)
  ultimately have f: "list_all (\<lambda>e. \<not> direct e) evs \<Longrightarrow>
      sent (admin_run evs admin0) \<le> length (filter (\<lambda>e. e = PressOk) evs)"
    using admin_run_bounds [of evs admin0] by simp
  have "weight (admin_run evs admin0) \<le> length (filter is_success evs)"
    "weight (admin_run evs admin0) + length (flying (admin_run evs admin0)) \<le> sent (admin_run evs admin0)"
    using admin_run_bounds [of evs admin0] z unfolding e_gain_count by simp_all
  with f weight_ge [of "admin_run evs admin0"] show ?thesis
    by (intro conjI impI) linarith+
qed

theorem admin_effects_bounded_witness:
  "effects (admin_run [DelData (js ''d.do''), PressOk,
       Receive 0 (Body [] (Some \<lparr>success = True, d_msg = [], d_status = None\<rparr>)), PressOk] admin0) = [SubmitForm] \<and>
   sent (admin_run [DelData (js ''d.do''), PressOk,
       Receive 0 (Body [] (Some \<lparr>success = True, d_msg = [], d_status = None\<rparr>)), PressOk] admin0) \<le> 2"
proof -
  let ?evs = "[DelData (js ''d.do''), PressOk,
       Receive 0 (Body [] (Some \<lparr>success = True, d_msg = [], d_status = None\<rparr>)), PressOk]"
  have "list_all (\<lambda>e. \<not> direct e) ?evs" by (simp add: direct_def)
  then have "sent (admin_run ?evs admin0) \<le> 2" using admin_effects_bounded [of ?evs] by simp
  moreover have "effects (admin_run ?evs admin0) = [SubmitForm]"
    by (simp add: admin_run_def admin0_def delData_def box_defs press_ok_def receive_def handle_def
        json_status_def on_data_def)
  ultimately show ?thesis by blast
qed

text \<open>
  The confirmation box stays open while its request is in the air, so a second click on OK
  sends the same request again; the box goes only when the first answer's message replaces it.
\<close>

theorem admin_double_ok:
  "let st' = admin_run [DelData url, PressOk, PressOk] st
   in flying st' = flying st @ [(sent st, url, JsonThen SubmitForm), (sent st + 1, url, JsonThen SubmitForm)] \<and>
      dialog st' = Some (l_index st + 1, msg_delete, YSend url (JsonThen SubmitForm))"
  by (simp add: admin_run_def delData_def box_defs press_ok_def Let_def)

section \<open>Permission data\<close>

lemma push_ids_append: "push_ids acc ns = acc @ ns"
  by (induction ns arbitrary: acc) simp_all

text \<open>
  The ids of the checked nodes are recovered from the text that is sent, in order, by
  splitting it at commas (at least one node checked, no comma in an id).
\<close>

theorem saveAuth_recovers:
  assumes "checked \<noteq> []" "\<forall>i\<in>set checked. 44 \<notin> set i"
  shows "split_on [44] (fst (saveAuth checked who_id)) = checked"
  using split_join [of checked 44] assms by (simp add: saveAuth_def push_ids_append js_def)

theorem saveAuth_recovers_witness:
  "split_on [44] (fst (saveAuth [js ''21'', js ''2101''] (js ''u1''))) = [js ''21'', js ''2101'']"
  by (rule saveAuth_recovers) (simp_all add: js_def)

lemma disabled_inner_spec:
  "snd (disabled_inner cs i m) \<longleftrightarrow> m > 0 \<and> length cs \<le> i"
  "TDisable c \<in> set (fst (disabled_inner cs i m)) \<Longrightarrow> i < length cs \<and> c = cs ! i"
  by (induction m) (auto split: prod.splits if_splits)

lemma disabled_loop_error:
  "snd (disabled_loop k ns) \<longleftrightarrow>
   (\<exists>i<length ns. n_id (ns ! i) = js ''21'' \<and> n_leaves (ns ! i) \<noteq> [] \<and> length (n_leaves (ns ! i)) \<le> k + i)"
proof (induction ns arbitrary: k)
  case (Cons n ns)
  have ex: "(\<exists>i<length (n # ns). P ((n # ns) ! i) (k + i)) \<longleftrightarrow> P n k \<or> (\<exists>i<length ns. P (ns ! i) (k + 1 + i))"
    for P :: "tnode \<Rightarrow> nat \<Rightarrow> bool"
    by (simp add: Ex_less_Suc2)
  show ?case
    using Cons [of "k + 1"] disabled_inner_spec(1) [of "n_leaves n" k "length (n_leaves n)"]
    unfolding ex [of "\<lambda>n i. n_id n = js ''21'' \<and> n_leaves n \<noteq> [] \<and> length (n_leaves n) \<le> i"]
    by (auto split: prod.splits)
qed simp

lemma disabled_loop_leaf:
  "TDisable c \<in> set (fst (disabled_loop k ns)) \<Longrightarrow>
   \<exists>i<length ns. k + i < length (n_leaves (ns ! i)) \<and> c = n_leaves (ns ! i) ! (k + i)"
proof (induction ns arbitrary: k)
  case (Cons n ns)
  consider "TDisable c \<in> set (fst (disabled_inner (n_leaves n) k (length (n_leaves n))))"
    | "TDisable c \<in> set (fst (disabled_loop (k + 1) ns))"
    using Cons.prems by (auto split: prod.splits if_splits)
  then show ?case
  proof cases
    case 1
    then show ?thesis using disabled_inner_spec(2) by (intro exI [of _ 0]) simp
  next
    case 2
    then obtain i where "i < length ns" "k + 1 + i < length (n_leaves (ns ! i))"
      "c = n_leaves (ns ! i) ! (k + 1 + i)" using Cons.IH by blast
    then show ?thesis by (intro exI [of _ "i + 1"]) simp
  qed
qed simp

text \<open>
  \<open>Disabled1\<close> indexes the leaves with the position of their ancestor: of the leaves below the
  node at position \<open>i\<close> only leaf \<open>i\<close> is ever disabled, and it throws exactly when some node
  \<open>21\<close> has leaves but not that many.
\<close>

theorem Disabled1_one_leaf:
  "(snd (Disabled1 ns) \<longleftrightarrow>
     (\<exists>i<length ns. n_id (ns ! i) = js ''21'' \<and> n_leaves (ns ! i) \<noteq> [] \<and> length (n_leaves (ns ! i)) \<le> i)) \<and>
   (TDisable c \<in> set (fst (Disabled1 ns)) \<longrightarrow>
     (\<exists>i<length ns. i < length (n_leaves (ns ! i)) \<and> c = n_leaves (ns ! i) ! i))"
  using disabled_loop_error [of 0 ns] disabled_loop_leaf [of c 0 ns] by (simp add: Disabled1_def)

theorem Disabled1_one_leaf_witness:
  "let ns = [\<lparr>n_id = js ''21'', n_leaves = [js ''a'', js ''b'']\<rparr>]
   in TDisable (js ''a'') \<in> set (fst (Disabled1 ns)) \<and> TDisable (js ''b'') \<notin> set (fst (Disabled1 ns))"
proof -
  let ?ns = "[\<lparr>n_id = js ''21'', n_leaves = [js ''a'', js ''b'']\<rparr>]"
  have "TDisable (js ''b'') \<notin> set (fst (Disabled1 ?ns))"
    using Disabled1_one_leaf [of ?ns "js ''b''"] by (auto simp: js_def)
  moreover have "TDisable (js ''a'') \<in> set (fst (Disabled1 ?ns))"
    by (simp add: Disabled1_def js_def)
  ultimately show ?thesis by (simp add: Let_def)
qed

end
