(* ===== verification/Form_Checks.thy ===== *)
theory Form_Checks
  imports Complex_Main AdminActions
begin

text \<open>
  The checks of the administration forms: the messages beside a field (\<open>static/plug-in/js/Validform/tiptype.js\<close>),
  the function that shows them (\<open>forminit.p3.js\<close>), the answers of the other two forms (\<open>forminit.js\<close>, \<open>forminit.datagrid.js\<close>), the test of the permission of the WeChat pages
  (\<open>checkPermission.js\<close>), and the upload of pictures (\<open>plugin/webuploader/js/webuploaderUtils.js\<close>). The
  validation library has theories of its own (\<open>Validform\<close>), the upload library is outside; their events
  are events of the model.
\<close>

section \<open>Messages beside a field\<close>

text \<open>
  The field: its name and classes, its text and the attribute \<open>data-value\<close>; the messages in its
  parent and the class of that; the handlers bound for changes and, on the document, for clicks.
\<close>

record vfield =
  vf_name :: jstr
  vf_control :: bool
  vf_select :: bool
  vf_val :: jstr
  vf_data :: "jstr option"
  vf_tips :: "jstr list"
  vf_error :: bool
  vf_changes :: nat
  vf_doc :: nat
  vf_focus :: bool

definition removeMessage :: "vfield \<Rightarrow> vfield" where
  "removeMessage s = s\<lparr>vf_error := False, vf_tips := []\<rparr>"

text \<open>The names of the rows of awards and prizes, whose messages are left out.\<close>

definition no_tip :: "jstr \<Rightarrow> bool" where
  "no_tip name =
     (let idkey = replace1 name (js ''Name'') (js ''Id'')
      in indexOf idkey (js ''].awardId'') \<noteq> -1 \<or> indexOf idkey (js ''].awardsId'') \<noteq> -1 \<or>
         indexOf idkey (js ''].prizeId'') \<noteq> -1 \<or>
         indexOf idkey (js ''].name'') \<noteq> -1 \<and> indexOf idkey (js ''awarsList['') \<noteq> -1)"

definition poptip :: "jstr \<Rightarrow> jstr" where
  "poptip msg =
     (js ''<div class=\"poptip\"><span class=\"poptip-arrow poptip-arrow-top\"><em>'') @ [9670] @
     (js ''</em></span>'') @ msg @ (js ''</div>'')"

definition validationMessage :: "jstr \<Rightarrow> vfield \<Rightarrow> vfield" where
  "validationMessage msg s =
     (let s = (removeMessage s)\<lparr>vf_focus := True\<rparr>
      in if no_tip (vf_name s) then s
         else
           (let s = s\<lparr>vf_tips := vf_tips s @ [poptip msg]\<rparr>;
                s = (if vf_control s \<or> vf_select s then s\<lparr>vf_error := True\<rparr> else s);
                s = s\<lparr>vf_changes := vf_changes s + 1\<rparr>
            in if vf_select s then s\<lparr>vf_doc := vf_doc s + 1\<rparr> else s))"

text \<open>The function given to the library as \<open>tiptype\<close>; 3 is the kind of a failed check.\<close>

definition tiptype :: "nat \<Rightarrow> jstr \<Rightarrow> vfield \<Rightarrow> vfield" where
  "tiptype kind msg s = (if kind = 3 then validationMessage msg s else removeMessage s)"

datatype field_event = Checked nat jstr | Changed jstr | DataValue "jstr option" | DocClick

definition field_step :: "field_event \<Rightarrow> vfield \<Rightarrow> vfield" where
  "field_step e s =
     (case e of
        Checked k msg \<Rightarrow> tiptype k msg s
      | Changed v \<Rightarrow>
          (let s = s\<lparr>vf_val := v\<rparr> in if 0 < vf_changes s \<and> v \<noteq> [] then removeMessage s else s)
      | DataValue d \<Rightarrow> s\<lparr>vf_data := d\<rparr>
      | DocClick \<Rightarrow>
          if 0 < vf_doc s \<and> (case vf_data s of None \<Rightarrow> False | Some d \<Rightarrow> d \<noteq> []) then removeMessage s else s)"

definition field_run :: "field_event list \<Rightarrow> vfield \<Rightarrow> vfield" where
  "field_run es s = fold field_step es s"

fun last_check :: "field_event list \<Rightarrow> (nat \<times> jstr) option \<Rightarrow> (nat \<times> jstr) option" where
  "last_check [] c = c"
| "last_check (Checked k msg # es) c = last_check es (Some (k, msg))"
| "last_check (_ # es) c = last_check es c"

lemma last_check_snoc: "last_check (es @ [e]) c = (case e of Checked k msg \<Rightarrow> Some (k, msg) | _ \<Rightarrow> last_check es c)"
  by (induction es c rule: last_check.induct) (simp_all split: field_event.split)

definition field_inv :: "(nat \<times> jstr) option \<Rightarrow> vfield \<Rightarrow> bool" where
  "field_inv c s \<longleftrightarrow>
     (vf_tips s = [] \<or> (\<exists>msg. c = Some (3, msg) \<and> vf_tips s = [poptip msg] \<and> \<not> no_tip (vf_name s))) \<and>
     (vf_error s \<longrightarrow> vf_tips s \<noteq> [])"

lemma field_inv_step:
  "field_inv c s \<Longrightarrow> field_inv (case e of Checked k msg \<Rightarrow> Some (k, msg) | _ \<Rightarrow> c) (field_step e s)"
  by (cases e)
    (auto simp: field_inv_def field_step_def tiptype_def validationMessage_def removeMessage_def Let_def)

text \<open>
  Beside a field there is at most one message, whatever is checked, typed and clicked: that of
  the last check, which failed; the parent is marked only when there is one, and the rows of awards
  and prizes never show any.
\<close>

theorem field_one_tip:
  assumes "vf_tips s = []" "\<not> vf_error s" "r = field_run es s"
  shows "(vf_tips r = [] \<or> (\<exists>msg. last_check es None = Some (3, msg) \<and> vf_tips r = [poptip msg])) \<and>
    (vf_error r \<longrightarrow> vf_tips r \<noteq> []) \<and> (no_tip (vf_name s) \<longrightarrow> vf_tips r = [])"
proof -
  have "field_inv (last_check es None) (field_run es s) \<and> vf_name (field_run es s) = vf_name s"
  proof (induction es rule: rev_induct)
    case Nil
    then show ?case using assms(1,2) by (simp add: field_inv_def field_run_def)
  next
    case (snoc e es)
    have "vf_name (field_step e t) = vf_name t" for t
      by (cases e) (auto simp: field_step_def tiptype_def validationMessage_def removeMessage_def Let_def)
    then show ?case using snoc field_inv_step [of "last_check es None" "field_run es s" e]
      by (simp add: field_run_def last_check_snoc)
  qed
  then show ?thesis by (auto simp: assms(3) field_inv_def)
qed

theorem field_one_tip_witness:
  "vf_tips (field_run [Checked 3 (js ''a''), Checked 3 (js ''b''), Changed (js ''x''), Checked 2 []]
    \<lparr>vf_name = js ''prizeList[0].prizeId'', vf_control = True, vf_select = False, vf_val = [], vf_data = None, vf_tips = [],
      vf_error = False, vf_changes = 0, vf_doc = 0, vf_focus = False\<rparr>) = []"
proof -
  let ?s = "\<lparr>vf_name = js ''prizeList[0].prizeId'', vf_control = True, vf_select = False, vf_val = [], vf_data = None, vf_tips = [],
      vf_error = False, vf_changes = 0, vf_doc = 0, vf_focus = False\<rparr>"
  have "last_check [Checked 3 (js ''a''), Checked 3 (js ''b''), Changed (js ''x''), Checked 2 []] None = Some (2, [])" by simp
  then show ?thesis
    using field_one_tip [of ?s _ "[Checked 3 (js ''a''), Checked 3 (js ''b''), Changed (js ''x''), Checked 2 []]"] by auto
qed

section \<open>After a check\<close>

definition msg_not_passed :: jstr where
  "msg_not_passed = [20449, 24687, 26657, 39564, 27809, 26377, 36890, 36807, 65292, 35831, 26816, 26597, 22635, 20889,
     30340, 20449, 24687]"

text \<open>The answers of \<open>forminit.js\<close> and \<open>forminit.datagrid.js\<close>: a message, and on success what comes next.\<close>

definition forminit_callback :: "bool \<Rightarrow> ajax_data \<Rightarrow> ui list" where
  "forminit_callback grid d =
     Alert (d_msg d) #
       (if success d then (if grid then [Click ''#dialogFormClose'', Click ''reload''] else [Submit ''#formSubmit'']) else [])"

section \<open>Permission\<close>

text \<open>\<open>checkPermission.js\<close>: without permission a box is opened whose cross does not close it.\<close>

definition checkPermission :: "bool \<Rightarrow> jstr \<Rightarrow> jstr option" where
  "checkPermission ok basePath =
     (if ok then None
      else Some ((js ''<div style=\"padding:20px;font-size: 15px;text-align:center\"><img width=\"10\" src=\"'') @ basePath @
        (js ''/content/weixin/img/gantan.jpg\"> &nbsp;&nbsp;'') @
        [35831, 20808, 25480, 26435, 20844, 20247, 21495, 65292, 20851, 38381, 24403, 21069, 33756, 21333, 65281] @ (js ''</div>'')))"

section \<open>Uploads\<close>

text \<open>
  The options of an uploader. \<open>$.extend(dft, options)\<close> writes what is given into the defaults and
  returns them, so all uploaders of a page have one object of options in common.
\<close>

record upopts =
  uo_url :: "jstr option"
  uo_swf :: jstr
  uo_multiple :: bool
  uo_queue :: bool
  uo_duplicate :: bool
  uo_queueID :: jstr
  uo_limit :: int

record upgiven =
  ug_url :: "jstr option"
  ug_swf :: "jstr option"
  ug_multiple :: "bool option"
  ug_queue :: "bool option"
  ug_duplicate :: "bool option"
  ug_queueID :: "jstr option"
  ug_limit :: "int option"

definition dft :: "jstr \<Rightarrow> upopts" where
  "dft time =
     \<lparr>uo_url = None, uo_swf = js ''./Uploader.swf'', uo_multiple = False, uo_queue = True, uo_duplicate = True,
      uo_queueID = js ''progress'' @ time, uo_limit = 5 * 1024 * 1024\<rparr>"

definition or_keep :: "'a option \<Rightarrow> 'a \<Rightarrow> 'a" where
  "or_keep g old = (case g of None \<Rightarrow> old | Some v \<Rightarrow> v)"

definition extend_dft :: "upgiven \<Rightarrow> upopts \<Rightarrow> upopts" where
  "extend_dft g d =
     \<lparr>uo_url = (case ug_url g of None \<Rightarrow> uo_url d | Some u \<Rightarrow> Some u), uo_swf = or_keep (ug_swf g) (uo_swf d),
      uo_multiple = or_keep (ug_multiple g) (uo_multiple d), uo_queue = or_keep (ug_queue g) (uo_queue d),
      uo_duplicate = or_keep (ug_duplicate g) (uo_duplicate d), uo_queueID = or_keep (ug_queueID g) (uo_queueID d),
      uo_limit = or_keep (ug_limit g) (uo_limit d)\<rparr>"

text \<open>
  The page: the common options; for every uploader the options the library got when it was created
  (by value) and with them whether its progress is shown; the progress bars with their widths in
  percent, the messages and the results handed on.
\<close>

datatype up_alert = UpFailed | UpBadType | UpTooBig rat | UpOther jstr

record uppage =
  up_shared :: upopts
  up_made :: "upopts list"
  up_bars :: "(jstr \<times> rat) list"
  up_alerts :: "up_alert list"
  up_done :: "(nat \<times> jstr) list"

definition remove_bar :: "jstr \<Rightarrow> uppage \<Rightarrow> uppage" where
  "remove_bar b s = s\<lparr>up_bars := AList.delete b (up_bars s)\<rparr>"

definition uploader :: "upgiven \<Rightarrow> uppage \<Rightarrow> uppage" where
  "uploader g s = (let opts = extend_dft g (up_shared s) in s\<lparr>up_shared := opts, up_made := up_made s @ [opts]\<rparr>)"

definition upload_error :: "jstr \<Rightarrow> uppage \<Rightarrow> uppage" where
  "upload_error type s =
     s\<lparr>up_alerts := up_alerts s @
         [if type = (js ''Q_TYPE_DENIED'') then UpBadType
          else if type = (js ''Q_EXCEED_SIZE_LIMIT'') then UpTooBig (of_int (uo_limit (up_shared s)) / 1024 / 1024)
          else UpOther type]\<rparr>"

definition uploadProgress :: "rat \<Rightarrow> uppage \<Rightarrow> uppage" where
  "uploadProgress percentage s =
     (let q = uo_queueID (up_shared s);
          s = (if map_of (up_bars s) q = None then s\<lparr>up_bars := up_bars s @ [(q, 0)]\<rparr> else s)
      in s\<lparr>up_bars := AList.update q (percentage * 100) (up_bars s)\<rparr>)"

text \<open>What the library reports for uploader \<open>k\<close>, and the creation of another.\<close>

datatype up_event =
    NewUploader upgiven
  | UpSuccess nat jstr
  | UpError nat
  | UpRefused nat jstr
  | UpProgress nat rat
  | UpComplete nat

definition up_step :: "up_event \<Rightarrow> uppage \<Rightarrow> uppage" where
  "up_step e s =
     (case e of
        NewUploader g \<Rightarrow> uploader g s
      | UpSuccess k d \<Rightarrow> s\<lparr>up_done := up_done s @ [(k, d)]\<rparr>
      | UpError k \<Rightarrow>
          (let s = remove_bar (uo_queueID (up_shared s)) s in s\<lparr>up_alerts := up_alerts s @ [UpFailed]\<rparr>)
      | UpRefused k t \<Rightarrow> upload_error t s
      | UpProgress k p \<Rightarrow> if k < length (up_made s) \<and> uo_queue (up_made s ! k) then uploadProgress p s else s
      | UpComplete k \<Rightarrow>
          if k < length (up_made s) \<and> uo_queue (up_made s ! k) then remove_bar (uo_queueID (up_shared s)) s else s)"

definition up_run :: "jstr \<Rightarrow> up_event list \<Rightarrow> uppage" where
  "up_run time es =
     fold up_step es \<lparr>up_shared = dft time, up_made = [], up_bars = [], up_alerts = [], up_done = []\<rparr>"

fun created :: "up_event list \<Rightarrow> upgiven list" where
  "created [] = []"
| "created (NewUploader g # es) = g # created es"
| "created (_ # es) = created es"

lemma created_append: "created (es @ fs) = created es @ created fs"
  by (induction es rule: created.induct) simp_all

lemma up_run_snoc: "up_run time (es @ [e]) = up_step e (up_run time es)"
  by (simp add: up_run_def)

lemma up_run_options:
  "up_shared (up_run time es) = fold extend_dft (created es) (dft time) \<and>
   up_made (up_run time es) = map (\<lambda>k. fold extend_dft (take (Suc k) (created es)) (dft time)) [0..<length (created es)]"
proof (induction es rule: rev_induct)
  case Nil
  then show ?case by (simp add: up_run_def)
next
  case (snoc e es)
  show ?case
  proof (cases e)
    case (NewUploader g)
    then show ?thesis using snoc
      by (auto simp: up_run_snoc up_step_def uploader_def Let_def created_append)
  qed (use snoc in \<open>auto simp: up_run_snoc up_step_def remove_bar_def upload_error_def uploadProgress_def Let_def created_append\<close>)
qed

text \<open>
  The options of the uploaders of a page accumulate: each is created with the options given to
  it and to all before it, and every message about a file too big, whatever uploader refused it,
  names the limit of the uploader created last.
\<close>

theorem uploads_share_options:
  "up_made (up_run time es) =
     map (\<lambda>k. fold extend_dft (take (Suc k) (created es)) (dft time)) [0..<length (created es)] \<and>
   up_alerts (up_run time (es @ [UpRefused k (js ''Q_EXCEED_SIZE_LIMIT'')])) =
     up_alerts (up_run time es) @
       [UpTooBig (of_int (uo_limit (fold extend_dft (created es) (dft time))) / 1024 / 1024)]"
proof -
  have "js ''Q_EXCEED_SIZE_LIMIT'' \<noteq> js ''Q_TYPE_DENIED''" by (simp add: js_def)
  then show ?thesis
    using up_run_options [of time es] by (simp add: up_run_snoc up_step_def upload_error_def)
qed

text \<open>There is at most one progress bar of a name.\<close>

lemma bars_distinct: "distinct (map fst (up_bars (up_run time es)))"
proof (induction es rule: rev_induct)
  case Nil
  then show ?case by (simp add: up_run_def)
next
  case (snoc e es)
  then show ?case
    by (cases e) (auto simp: up_run_snoc up_step_def remove_bar_def upload_error_def uploadProgress_def uploader_def
        Let_def distinct_delete distinct_update map_of_eq_None_iff)
qed

end
