(* ===== verification/Valid_Page.thy ===== *)
theory Valid_Page
  imports Valid_Runs Form_Checks
begin

text \<open>
  The page of a form of the administration (\<open>static/plug-in/js/forminit.p3.js\<close>): the form of the library, the
  button that checks it and asks before it is sent, and the boxes and requests of \<open>common.js\<close>. The
  callback of the question is \<open>ajaxdoFormSubmit\<close>, which sends the fields as they are when it is called. While
  a box is open its shade covers the page.
\<close>

section \<open>The page\<close>

record vpage =
  pg_form :: vform
  pg_admin :: admin
  pg_sent :: "(vinput list \<times> vbox list) list"

text \<open>The click on \<open>formSubmit\<close>; an exception of the check ends the handler.\<close>

definition page_submit :: "jstr \<Rightarrow> vpage \<Rightarrow> vpage" where
  "page_submit url p =
     (case check_form False (pg_form p) of
        (f, None) \<Rightarrow> p\<lparr>pg_form := f\<rparr>
      | (f, Some flag) \<Rightarrow>
          p\<lparr>pg_form := f,
            pg_admin := (if flag then layer_open msg_commit (YSend url (PostChecked ReturnClick)) (pg_admin p)
                         else layeralert msg_not_passed (pg_admin p))\<rparr>)"

text \<open>The first button of a box; the question sends the form.\<close>

definition asks :: "vpage \<Rightarrow> bool" where
  "asks p \<longleftrightarrow> (case dialog (pg_admin p) of Some (i, m, YSend url r) \<Rightarrow> True | _ \<Rightarrow> False)"

definition page_ok :: "vpage \<Rightarrow> vpage" where
  "page_ok p =
     p\<lparr>pg_admin := press_ok (pg_admin p),
       pg_sent := (if asks p then pg_sent p @ [(fm_fields (pg_form p), fm_boxes (pg_form p))] else pg_sent p)\<rparr>"

datatype p3_event = OnForm vevent | OnSubmit | OnOk | OnCancel | OnAnswer nat answer

definition p3_step :: "jstr \<Rightarrow> p3_event \<Rightarrow> vpage \<Rightarrow> vpage" where
  "p3_step url e p =
     (if fm_left (pg_form p) then p
      else case e of
        OnForm x \<Rightarrow> p\<lparr>pg_form := form_step x (pg_form p)\<rparr>
      | OnSubmit \<Rightarrow> page_submit url p
      | OnOk \<Rightarrow> page_ok p
      | OnCancel \<Rightarrow> p\<lparr>pg_admin := press_cancel (pg_admin p)\<rparr>
      | OnAnswer k a \<Rightarrow> p\<lparr>pg_admin := receive k a (pg_admin p)\<rparr>)"

definition page_run :: "jstr \<Rightarrow> p3_event list \<Rightarrow> vpage \<Rightarrow> vpage" where
  "page_run url es p = fold (p3_step url) es p"

text \<open>While a box is open, only its buttons are within reach, and answers come.\<close>

definition within_reach :: "p3_event \<Rightarrow> vpage \<Rightarrow> bool" where
  "within_reach e p \<longleftrightarrow> dialog (pg_admin p) = None \<or> (case e of OnForm x \<Rightarrow> False | OnSubmit \<Rightarrow> False | _ \<Rightarrow> True)"

fun shaded :: "jstr \<Rightarrow> p3_event list \<Rightarrow> vpage \<Rightarrow> bool" where
  "shaded url [] p = True"
| "shaded url (e # es) p = (within_reach e p \<and> shaded url es (p3_step url e p))"

section \<open>What a check says\<close>

text \<open>Field \<open>i\<close> is left out or meets what its types ask.\<close>

definition passes :: "vtype jobj \<Rightarrow> vform \<Rightarrow> nat \<Rightarrow> bool" where
  "passes T f i \<longleftrightarrow>
     left_out (fm_set f) (fm_fields f ! i) \<or> meets T (other_val (fm_fields f)) (value_at i f) (fm_fields f ! i)"

definition sound_at :: "vtype jobj \<Rightarrow> vform \<Rightarrow> nat \<Rightarrow> bool" where
  "sound_at T f i \<longleftrightarrow> left_out (fm_set f) (fm_fields f ! i) \<or> sound_field T (value_at i f) (fm_fields f ! i)"

lemma passes_still:
  assumes "still f g" "i < length (fm_fields f)"
  shows "passes T g i = passes T f i" "sound_at T g i = sound_at T f i"
  using frame_eq [OF still_nth [OF assms]] value_still [OF assms] still_other_val [OF assms(1)] still_set(1) [OF assms(1)]
  by (simp_all add: passes_def sound_at_def)

lemma check_says:
  assumes "check False quiet i f = (g, out)" "i < length (fm_fields f)" "same_types T (vc_types (fm_cx f))"
    "\<not> vs_dragonfly (fm_set f)"
  shows "case out of None \<Rightarrow> \<not> sound_at T f i | Some r \<Rightarrow> (r \<noteq> Failed) = passes T f i"
proof (cases "left_out (fm_set f) (fm_fields f ! i)")
  case True
  then show ?thesis using assms(1) by (auto simp: check_def passes_def Let_def)
next
  case False
  let ?x = "fm_fields f ! i"
  obtain h res where h: "reg_at i f = (h, res)" by (cases "reg_at i f")
  have s: "sound_field T (value_at i f) ?x = sound_field (vc_types (fm_cx f)) (value_at i f) ?x"
    "meets T (other_val (fm_fields f)) (value_at i f) ?x = meets (vc_types (fm_cx f)) (other_val (fm_fields f)) (value_at i f) ?x"
    using sound_field_stay [OF assms(3) same_field_refl [of ?x]] meets_stay [OF assms(3) same_field_refl [of ?x]] by simp_all
  have r: "case res of None \<Rightarrow> \<not> sound_field (vc_types (fm_cx f)) (value_at i f) ?x
      | Some r \<Rightarrow> vr_passed r = meets (vc_types (fm_cx f)) (other_val (fm_fields f)) (value_at i f) ?x"
    using reg_still [OF h] assms(2) by (simp add: Let_def)
  show ?thesis
    using assms(1,4) False h r s
    by (auto simp: check_def passes_def sound_at_def Let_def split: option.splits if_splits)
qed

lemma check_all_says:
  assumes "check_all quiet ks f = (g, out)" "\<forall>i\<in>set ks. i < length (fm_fields f)" "same_types T (vc_types (fm_cx f))"
    "\<not> vs_dragonfly (fm_set f)"
  shows "case out of None \<Rightarrow> \<exists>i\<in>set ks. \<not> sound_at T f i | Some flag \<Rightarrow> flag = (\<forall>i\<in>set ks. passes T f i)"
  using assms
proof (induction ks arbitrary: f g out)
  case (Cons i ks)
  obtain h o1 where h: "check False quiet i f = (h, o1)" by (cases "check False quiet i f")
  have i: "i < length (fm_fields f)" "\<forall>j\<in>set ks. j < length (fm_fields f)" using Cons.prems(2) by simp_all
  note says = check_says [OF h i(1) Cons.prems(3,4)]
  have s: "still f h" by (rule check_still [OF h])
  show ?case
  proof (cases o1)
    case None
    then show ?thesis using Cons.prems(1) h says by auto
  next
    case (Some r)
    obtain k o2 where k: "check_all quiet ks h = (k, o2)" by (cases "check_all quiet ks h")
    have "case o2 of None \<Rightarrow> \<exists>i\<in>set ks. \<not> sound_at T h i | Some flag \<Rightarrow> flag = (\<forall>i\<in>set ks. passes T h i)"
      using Cons.IH [OF k] i(2) still_set [OF s] same_types_trans [OF Cons.prems(3)] Cons.prems(4) by simp
    then show ?thesis
      using Cons.prems(1) h k Some says passes_still [OF s] i(2) by (auto split: option.splits)
  qed
qed auto

text \<open>A form whose fields pass.\<close>

definition types_fit :: "vtype jobj \<Rightarrow> vset \<Rightarrow> vinput list \<Rightarrow> vbox list \<Rightarrow> bool" where
  "types_fit T st xs bs \<longleftrightarrow>
     (\<forall>x\<in>set xs. vi_typed x \<longrightarrow> left_out st x \<or> meets T (other_val xs) (getValue bs x) x)"

lemma types_fit_passes:
  "types_fit T (fm_set f) (fm_fields f) (fm_boxes f) \<longleftrightarrow> (\<forall>i\<in>set (typed_fields f). passes T f i)"
  by (auto simp: types_fit_def passes_def value_at_def typed_fields_set all_set_conv_all_nth)

section \<open>The question comes when the form passes\<close>

lemma submit_says:
  assumes "T = vc_types (fm_cx (pg_form p))" "\<not> fm_left (pg_form p)" "\<not> vs_dragonfly (fm_set (pg_form p))"
    "\<forall>i\<in>set (typed_fields (pg_form p)). sound_at T (pg_form p) i" "q = p3_step url OnSubmit p"
  shows "pg_admin q =
    (if types_fit T (fm_set (pg_form p)) (fm_fields (pg_form p)) (fm_boxes (pg_form p))
     then layer_open msg_commit (YSend url (PostChecked ReturnClick)) (pg_admin p)
     else layeralert msg_not_passed (pg_admin p)) \<and> pg_sent q = pg_sent p \<and> still (pg_form p) (pg_form q)"
proof -
  let ?f = "pg_form p"
  obtain g out where g: "check_all False (typed_fields ?f) ?f = (g, out)" by (cases "check_all False (typed_fields ?f) ?f")
  have says: "case out of None \<Rightarrow> \<exists>i\<in>set (typed_fields ?f). \<not> sound_at T ?f i
      | Some flag \<Rightarrow> flag = (\<forall>i\<in>set (typed_fields ?f). passes T ?f i)"
    by (rule check_all_says [OF g]) (simp_all add: typed_fields_set assms(1,3))
  then obtain flag where out: "out = Some flag" using assms(4) by (cases out) auto
  have "flag = types_fit T (fm_set ?f) (fm_fields ?f) (fm_boxes ?f)" using says by (simp add: out types_fit_passes)
  then show ?thesis
    using assms(2,5) g out check_all_calm [OF g] by (simp add: p3_step_def page_submit_def check_form_def)
qed

text \<open>
  C7: the button of the page asks whether to send exactly when every field that takes part meets what
  its types ask, and otherwise says that the check has failed; an exception comes only from a field
  whose types can not be read.
\<close>

theorem question_iff_fit:
  assumes "T = vc_types (fm_cx (pg_form p))" "\<not> fm_left (pg_form p)" "\<not> vs_dragonfly (fm_set (pg_form p))"
    "\<forall>i\<in>set (typed_fields (pg_form p)). sound_at T (pg_form p) i" "q = p3_step url OnSubmit p"
  shows "pg_admin q =
    (if types_fit T (fm_set (pg_form p)) (fm_fields (pg_form p)) (fm_boxes (pg_form p))
     then layer_open msg_commit (YSend url (PostChecked ReturnClick)) (pg_admin p)
     else layeralert msg_not_passed (pg_admin p)) \<and> pg_sent q = pg_sent p \<and> still (pg_form p) (pg_form q)"
  using assms by (rule submit_says)

text \<open>A page of one field, and its question.\<close>

definition page_of :: "vinput list \<Rightarrow> vpage" where
  "page_of xs =
     \<lparr>pg_form = (form_of False xs)\<lparr>fm_set := (fm_set (form_of False xs))\<lparr>vs_tiptype := TipFun, vs_ajax := False\<rparr>\<rparr>,
      pg_admin = admin0, pg_sent = []\<rparr>"

lemma page_parts:
  "fm_fields (pg_form (page_of xs)) = xs" "fm_boxes (pg_form (page_of xs)) = []" "vc_types (fm_cx (pg_form (page_of xs))) = dataType"
  "\<not> fm_left (pg_form (page_of xs))" "\<not> vs_dragonfly (fm_set (pg_form (page_of xs)))" "pg_admin (page_of xs) = admin0"
  "pg_sent (page_of xs) = []"
  by (simp_all add: page_of_def form_of_def)

lemma one_number_passes:
  "types_fit dataType st [number_input None (js ''a'') (js ''12'')] []"
  "sound_at dataType (pg_form (page_of [number_input None (js ''a'') (js ''12'')])) 0"
  "typed_fields (pg_form (page_of [number_input None (js ''a'') (js ''12'')])) = [0]"
  using number_input_meets
  by (simp_all add: types_fit_def sound_at_def number_value value_at_def page_parts typed_fields_def number_parts upt_rec)

theorem question_iff_fit_witness:
  "pg_admin (p3_step (js ''u'') OnSubmit (page_of [number_input None (js ''a'') (js ''12'')])) =
     layer_open msg_commit (YSend (js ''u'') (PostChecked ReturnClick)) admin0"
  using question_iff_fit [OF refl page_parts(4,5) _ refl, of "[number_input None (js ''a'') (js ''12'')]" "js ''u''"]
  by (simp add: one_number_passes page_parts)

section \<open>What the page sends\<close>

text \<open>The types and the settings of a form are kept by all its steps.\<close>

interpretation types: form_law "\<lambda>f. same_types T (vc_types (fm_cx f)) \<and> fm_set f = st" "\<lambda>e. True" for T st
proof
  fix f g own bc bs cb k a
  let ?P = "\<lambda>f :: vform. same_types T (vc_types (fm_cx f)) \<and> fm_set f = st"
  assume f: "?P f"
  have keep: "?P f \<Longrightarrow> undisturbed f g \<Longrightarrow> ?P g" for f g
    by (auto simp: undisturbed_def intro: same_types_trans)
  then show "undisturbed f g \<Longrightarrow> ?P g" using f by blast
  have show_k: "?P f \<Longrightarrow> ?P (showmsg m ob n trig f)" for m ob n trig f
    using keep [OF _ still_calm [OF showmsg_still]] by blast
  have post: "?P f \<Longrightarrow> ?P (post_form f)" for f
    using show_k [of f "Some tipmsg_p" None 1 ByAjax] by (simp add: post_form_def Let_def)
  have sub: "?P (fst (submitForm flg ajax bc bs cb f))" for flg ajax bc bs cb
  proof -
    obtain h flag raised where h: "(if flg then (f, True, False) else submit_loop (typed_fields f) f True) = (h, flag, raised)"
      by (cases "if flg then (f, True, False) else submit_loop (typed_fields f) f True")
    have "undisturbed f h" using h submit_loop_calm by (cases flg) auto
    then have "?P h" using keep f by blast
    then show ?thesis using f h post [of "h\<lparr>fm_status := Posting\<rparr>"] by (simp add: submitForm_def Let_def)
  qed
  show "?P (submit_event own bc bs cb f)"
    using sub [of False False bc bs cb] by (auto simp: submit_event_def split: prod.split sout.split)
  show "?P (send_unchecked a f)" for a
    using sub [of True a True True True] by (auto simp: send_unchecked_def split: prod.split sout.split)
  show "?P (post_answer k a f)"
    using f show_k [of "f\<lparr>fm_posts := removeAll k (fm_posts f)\<rparr>"] show_k [of "f\<lparr>fm_posts := removeAll k (fm_posts f), fm_status := s\<rparr>" for s]
    by (auto simp: post_answer_def Let_def split: vanswer.split)
  show "?P (resetForm f)" "?P (resetStatus f)" "?P (setStatus s f)" for s
    using f by (simp_all add: resetForm_def resetStatus_def setStatus_def)
qed

text \<open>While the question is open the form passes, and every form sent has passed.\<close>

definition page_fit :: "vtype jobj \<Rightarrow> vset \<Rightarrow> vpage \<Rightarrow> bool" where
  "page_fit T st p \<longleftrightarrow>
     same_types T (vc_types (fm_cx (pg_form p))) \<and> fm_set (pg_form p) = st \<and>
     (asks p \<longrightarrow> types_fit T st (fm_fields (pg_form p)) (fm_boxes (pg_form p))) \<and>
     (\<forall>(xs, bs)\<in>set (pg_sent p). types_fit T st xs bs) \<and> length (pg_sent p) = sent (pg_admin p)"

lemma receive_keeps:
  "sent (receive k a st) = sent st \<and> (dialog (receive k a st) = dialog st \<or>
     (\<exists>i m y. dialog (receive k a st) = Some (i, m, y) \<and> (\<forall>u r. y \<noteq> YSend u r)))"
  by (auto simp: receive_def handle_def on_error_def on_data_def layeralert_def layer_open_def
      split: option.split req.split answer.split sum.split)

lemma step_p3_fit:
  assumes "page_fit T st p" "within_reach e p" "\<not> vs_dragonfly st"
  shows "page_fit T st (p3_step url e p)"
proof (cases "fm_left (pg_form p)")
  case False
  let ?f = "pg_form p"
  have f: "same_types T (vc_types (fm_cx ?f))" "fm_set ?f = st" using assms(1) by (simp_all add: page_fit_def)
  show ?thesis
  proof (cases e)
    case (OnForm x)
    then have "\<not> asks p" using assms(2) by (simp add: within_reach_def asks_def)
    moreover have "same_types T (vc_types (fm_cx (form_step x ?f))) \<and> fm_set (form_step x ?f) = st"
      by (rule types.step_keeps) (use f in simp_all)
    ultimately show ?thesis using assms(1) False OnForm by (simp add: p3_step_def page_fit_def asks_def)
  next
    case OnSubmit
    have closed: "dialog (pg_admin p) = None" using assms(2) OnSubmit by (simp add: within_reach_def)
    obtain g out where g: "check_all False (typed_fields ?f) ?f = (g, out)" by (cases "check_all False (typed_fields ?f) ?f")
    have s: "still ?f g" by (rule check_all_calm [OF g])
    have keep: "same_types T (vc_types (fm_cx g))" "fm_set g = st" using f same_types_trans still_set [OF s] by auto
    have fit: "types_fit T st (fm_fields g) (fm_boxes g)" if "out = Some True"
    proof -
      have "\<forall>i\<in>set (typed_fields ?f). passes T ?f i"
        using check_all_says [OF g _ f(1)] assms(3) f(2) that by (simp add: typed_fields_set)
      then have "\<forall>i\<in>set (typed_fields g). passes T g i" using passes_still(1) [OF s] typed_still [OF s] by (simp add: typed_fields_set)
      then show ?thesis using types_fit_passes [of T g] keep(2) by simp
    qed
    show ?thesis
      using assms(1) False OnSubmit g keep fit closed
      by (auto simp: p3_step_def page_submit_def check_form_def page_fit_def asks_def layer_open_def layeralert_def
          split: option.split)
  next
    case OnOk
    then show ?thesis using assms(1) False
      by (auto simp: p3_step_def page_ok_def page_fit_def asks_def press_ok_def send_def layer_close_def perform_def
          split: option.splits layer_yes.splits)
  next
    case OnCancel
    then show ?thesis using assms(1) False
      by (auto simp: p3_step_def page_fit_def asks_def press_cancel_def layer_close_def split: option.splits)
  next
    case (OnAnswer k a)
    then show ?thesis using assms(1) False receive_keeps [of k a "pg_admin p"]
      by (auto simp: p3_step_def page_fit_def asks_def split: option.splits layer_yes.splits)
  qed
qed (use assms(1) in \<open>simp add: p3_step_def\<close>)

text \<open>What the form itself sends stays checked as well, unless the page sends it unchecked.\<close>

lemma step_p3_log:
  assumes "fit_log T st (pg_form p)" "\<forall>a. OnForm (SendUnchecked a) \<noteq> e"
  shows "fit_log T st (pg_form (p3_step url e p))"
proof (cases e)
  case (OnForm x)
  then have "fit_log T st (form_step x (pg_form p))" using assms by (intro fit.step_keeps) auto
  then show ?thesis using assms(1) OnForm by (simp add: p3_step_def)
next
  case OnSubmit
  obtain g out where g: "check_all False (typed_fields (pg_form p)) (pg_form p) = (g, out)"
    by (cases "check_all False (typed_fields (pg_form p)) (pg_form p)")
  have "fit_log T st g" by (rule fit_log_calm [OF assms(1) still_calm [OF check_all_calm [OF g]]])
  then show ?thesis using assms(1) OnSubmit g
    by (auto simp: p3_step_def page_submit_def check_form_def split: option.split)
qed (use assms(1) in \<open>simp_all add: p3_step_def page_ok_def\<close>)

text \<open>
  C6: what a page sends has passed the check: whatever is typed and clicked, as long as an open box covers the
  page, as often as the questions are answered and in whatever order the answers of the server come, every
  form that is sent by the question holds, when it is sent, values that meet the types of their fields, and
  there are as many of them as the boxes have sent. What the form sends besides, by a request of its own or
  by the browser (the key Enter goes around the question), meets its types as well, as long as the page
  does not ask for a form to be sent unchecked; only after an exception does the browser send a form that was
  not checked, and it holds a field whose types can not be read (\<open>sent_fit\<close>).
\<close>

theorem asked_forms_fit:
  assumes "pg_sent p = []" "sent (pg_admin p) = 0" "dialog (pg_admin p) = None" "\<not> vs_dragonfly (fm_set (pg_form p))"
    "fm_log (pg_form p) = []" "T = vc_types (fm_cx (pg_form p))" "st = fm_set (pg_form p)"
    "shaded url es p" "q = page_run url es p"
  shows "(\<forall>(xs, bs)\<in>set (pg_sent q). types_fit T st xs bs) \<and> length (pg_sent q) = sent (pg_admin q) \<and>
    ((\<forall>a. OnForm (SendUnchecked a) \<notin> set es) \<longrightarrow>
       (\<forall>e\<in>set (fm_log (pg_form q)). sent_fit T st e))"
proof -
  have run: "page_fit T st p \<Longrightarrow> shaded url es p \<Longrightarrow> \<not> vs_dragonfly st \<Longrightarrow> page_fit T st (page_run url es p)" for p
    by (induction es arbitrary: p) (simp_all add: page_run_def step_p3_fit)
  have log: "fit_log T st (pg_form p) \<Longrightarrow> (\<forall>a. OnForm (SendUnchecked a) \<notin> set es) \<Longrightarrow> fit_log T st (pg_form (page_run url es p))" for p
    by (induction es arbitrary: p) (auto simp: page_run_def intro: step_p3_log)
  have "page_fit T st p" using assms(1-3,6,7) by (simp add: page_fit_def asks_def)
  then have run_fit: "page_fit T st q" unfolding assms(9) by (rule run) (use assms(4,7,8) in simp_all)
  have "fit_log T st (pg_form p)" using assms(5-7) by (simp add: fit_log_def sends_def)
  then have l: "list_all (sent_fit T st) (sends (pg_form q))" if "\<forall>a. OnForm (SendUnchecked a) \<notin> set es"
    using log that assms(9) by (simp add: fit_log_def)
  have "\<forall>e\<in>set (fm_log (pg_form q)). sent_fit T st e" if "\<forall>a. OnForm (SendUnchecked a) \<notin> set es"
  proof
    fix e
    assume "e \<in> set (fm_log (pg_form q))"
    then have "(case e of Ask _ _ _ \<Rightarrow> False | _ \<Rightarrow> True) \<longrightarrow> e \<in> set (sends (pg_form q))" by (simp add: sends_def)
    then show "sent_fit T st e" using l [OF that] by (cases e) (auto simp only: list_all_iff sent_fit_def vsent.case simp_thms)
  qed
  then show ?thesis using run_fit unfolding page_fit_def by blast
qed

theorem asked_forms_fit_witness:
  "\<exists>xs. pg_sent (page_run (js ''u'') [OnSubmit, OnOk] (page_of [number_input None (js ''a'') (js ''12'')])) = [(xs, [])] \<and>
     types_fit dataType (fm_set (pg_form (page_of [number_input None (js ''a'') (js ''12'')]))) xs []"
proof -
  let ?p = "page_of [number_input None (js ''a'') (js ''12'')]"
  let ?q = "p3_step (js ''u'') OnSubmit ?p"
  have "\<forall>i\<in>set (typed_fields (pg_form ?p)). sound_at dataType (pg_form ?p) i" by (simp add: one_number_passes)
  from submit_says [OF refl page_parts(4,5) _ refl, of "[number_input None (js ''a'') (js ''12'')]" "js ''u''"] this
  have q: "pg_admin ?q = layer_open msg_commit (YSend (js ''u'') (PostChecked ReturnClick)) admin0" "pg_sent ?q = []"
    "still (pg_form ?p) (pg_form ?q)"
    by (simp_all add: one_number_passes page_parts)
  have "fm_left (pg_form ?q) = False" "fm_boxes (pg_form ?q) = []"
    using q(3) page_parts(2,4) by (simp_all add: still_def undisturbed_def)
  then have sent: "pg_sent (page_run (js ''u'') [OnSubmit, OnOk] ?p) = [(fm_fields (pg_form ?q), [])]"
    using q(1,2) by (simp add: page_run_def p3_step_def [of _ OnOk] page_ok_def asks_def layer_open_def)
  have reach: "shaded (js ''u'') [OnSubmit, OnOk] ?p" by (simp add: within_reach_def page_parts admin0_def)
  have log: "fm_log (pg_form ?p) = []" by (simp add: page_of_def form_of_def)
  have start: "sent (pg_admin ?p) = 0" "dialog (pg_admin ?p) = None" by (simp_all add: page_parts admin0_def)
  show ?thesis
    using asked_forms_fit [OF page_parts(7) start page_parts(5) log refl refl reach refl] sent by (simp add: page_parts(3))
qed

text \<open>
  The key Enter goes around the question: the event \<open>submit\<close> of the form is checked by the library and
  then done by the browser.
\<close>

lemma enter_skips_question:
  assumes "f = pg_form p" "\<not> fm_left f" "fm_status f = Normal" "\<not> vs_ajax (fm_set f)" "submit_loop (typed_fields f) f True = (g, True, False)"
    "q = p3_step url (OnForm (vevent.Submit True True True True)) p"
  shows "Native (fm_fields g) (fm_boxes g) \<in> set (fm_log (pg_form q)) \<and> fm_left (pg_form q) \<and> pg_admin q = pg_admin p"
  using assms by (simp add: p3_step_def form_step_def form_event_def submit_event_def submitForm_def Let_def)

end
