(* ===== verification/Base64.thy ===== *)
theory Base64
  imports Js_Prelude
begin

text \<open>
  The Base64 object of template/hd0921/js/base64.js: \<open>encode\<close>, \<open>decode\<close> and their UTF-8
  helpers, loop by loop, over strings of UTF-16 code units.
\<close>

definition keyStr :: jstr where
  "keyStr = js ''ABCDEFGHIJKLMNOPQRSTUVWXYZabcdefghijklmnopqrstuvwxyz0123456789+/''"

text \<open>The newline normalisation \<open>string.replace(/\r\n/g, "\n")\<close>.\<close>

fun crlf_to_lf :: "jstr \<Rightarrow> jstr" where
  "crlf_to_lf (a # b # s) =
     (if a = 13 \<and> b = 10 then 10 # crlf_to_lf s else a # crlf_to_lf (b # s))"
| "crlf_to_lf s = s"

text \<open>One round of the loop of \<open>_utf8_encode\<close>: the bytes of one code unit.\<close>

definition utf8_unit :: "nat \<Rightarrow> jstr" where
  "utf8_unit u =
     (let c = int u in
      if c < 128 then fromCharCode c
      else if c > 127 \<and> c < 2048 then
        fromCharCode (js_shr c 6 OR 192) @ fromCharCode ((c AND 63) OR 128)
      else
        fromCharCode (js_shr c 12 OR 224) @ fromCharCode ((js_shr c 6 AND 63) OR 128) @
        fromCharCode ((c AND 63) OR 128))"

definition utf8_encode :: "jstr \<Rightarrow> jstr" where
  "utf8_encode string = concat (map utf8_unit (crlf_to_lf string))"

function utf8_decode_loop :: "jstr \<Rightarrow> nat \<Rightarrow> jstr \<Rightarrow> jstr" where
  "utf8_decode_loop utftext i string =
     (if i < length utftext then
        let c = toInt32 (charCodeAt utftext i) in
        if c < 128 then utf8_decode_loop utftext (i + 1) (string @ fromCharCode c)
        else if c > 191 \<and> c < 224 then
          let c2 = toInt32 (charCodeAt utftext (i + 1)) in
          utf8_decode_loop utftext (i + 2)
            (string @ fromCharCode (js_shl (c AND 31) 6 OR (c2 AND 63)))
        else
          let c2 = toInt32 (charCodeAt utftext (i + 1));
              c3 = toInt32 (charCodeAt utftext (i + 2)) in
          utf8_decode_loop utftext (i + 3)
            (string @ fromCharCode (js_shl (c AND 15) 12 OR js_shl (c2 AND 63) 6 OR (c3 AND 63)))
      else string)"
  by pat_completeness auto
termination
  by (relation "measure (\<lambda>(t, i, s). length t - i)") auto

declare utf8_decode_loop.simps [simp del]

definition utf8_decode :: "jstr \<Rightarrow> jstr" where
  "utf8_decode utftext = utf8_decode_loop utftext 0 []"

function encode_loop :: "jstr \<Rightarrow> nat \<Rightarrow> jstr \<Rightarrow> jstr" where
  "encode_loop input i output =
     (if i < length input then
        let chr1 = charCodeAt input i; chr2 = charCodeAt input (i + 1);
            chr3 = charCodeAt input (i + 2);
            enc1 = js_shr (toInt32 chr1) 2;
            enc2 = js_shl (toInt32 chr1 AND 3) 4 OR js_shr (toInt32 chr2) 4;
            enc3 = (if chr2 = None then 64
                    else js_shl (toInt32 chr2 AND 15) 2 OR js_shr (toInt32 chr3) 6);
            enc4 = (if chr2 = None \<or> chr3 = None then 64 else toInt32 chr3 AND 63)
        in encode_loop input (i + 3)
             (output @ charAt keyStr (nat enc1) @ charAt keyStr (nat enc2) @
              charAt keyStr (nat enc3) @ charAt keyStr (nat enc4))
      else output)"
  by pat_completeness auto
termination
  by (relation "measure (\<lambda>(t, i, s). length t - i)") auto

declare encode_loop.simps [simp del]

definition encode :: "jstr \<Rightarrow> jstr" where
  "encode input = encode_loop (utf8_encode input) 0 []"

definition b64_kept :: "nat \<Rightarrow> bool" where
  "b64_kept u \<longleftrightarrow> u \<in> set keyStr \<or> u = 61"

function decode_loop :: "jstr \<Rightarrow> nat \<Rightarrow> jstr \<Rightarrow> jstr" where
  "decode_loop input i output =
     (if i < length input then
        let enc1 = indexOf keyStr (charAt input i);
            enc2 = indexOf keyStr (charAt input (i + 1));
            enc3 = indexOf keyStr (charAt input (i + 2));
            enc4 = indexOf keyStr (charAt input (i + 3));
            chr1 = js_shl enc1 2 OR js_shr enc2 4;
            chr2 = js_shl (enc2 AND 15) 4 OR js_shr enc3 2;
            chr3 = js_shl (enc3 AND 3) 6 OR enc4;
            output1 = output @ fromCharCode chr1;
            output2 = (if enc3 \<noteq> 64 then output1 @ fromCharCode chr2 else output1);
            output3 = (if enc4 \<noteq> 64 then output2 @ fromCharCode chr3 else output2)
        in decode_loop input (i + 4) output3
      else output)"
  by pat_completeness auto
termination
  by (relation "measure (\<lambda>(t, i, s). length t - i)") auto

declare decode_loop.simps [simp del]

definition decode :: "jstr \<Rightarrow> jstr" where
  "decode input = utf8_decode (decode_loop (filter b64_kept input) 0 [])"

section \<open>UTF-8\<close>

definition utf8_dec_step :: "jstr \<Rightarrow> jstr \<times> nat" where
  "utf8_dec_step r =
     (let c = toInt32 (charCodeAt r 0); c2 = toInt32 (charCodeAt r 1);
          c3 = toInt32 (charCodeAt r 2) in
      if c < 128 then (fromCharCode c, 1)
      else if c > 191 \<and> c < 224 then (fromCharCode (js_shl (c AND 31) 6 OR (c2 AND 63)), 2)
      else (fromCharCode (js_shl (c AND 15) 12 OR js_shl (c2 AND 63) 6 OR (c3 AND 63)), 3))"

lemma utf8_decode_loop_run:
  "utf8_decode_loop t i s = s @ chunk_run utf8_dec_step (drop i t)"
proof (rule loop_chunk_run)
  fix i s assume "i < length t"
  then show "utf8_decode_loop t i s =
      utf8_decode_loop t (i + snd (utf8_dec_step (drop i t))) (s @ fst (utf8_dec_step (drop i t)))"
    by (subst utf8_decode_loop.simps)
      (simp add: utf8_dec_step_def Let_def charCodeAt_drop0 [of t i]
        charCodeAt_drop [of t i "Suc 0", simplified] charCodeAt_drop [of t i 2, simplified])
qed (simp_all add: utf8_decode_loop.simps utf8_dec_step_def Let_def)

lemma utf8_decode_run: "utf8_decode t = chunk_run utf8_dec_step t"
  by (simp add: utf8_decode_def utf8_decode_loop_run)

text \<open>The bytes of a unit as arithmetic.\<close>

lemma utf8_unit_eq:
  assumes "u < 65536"
  shows "utf8_unit u =
    (if u < 128 then [u]
     else if u < 2048 then [192 + u div 64, 128 + u mod 64]
     else [224 + u div 4096, 128 + u div 64 mod 64, 128 + u mod 64])"
proof -
  have b: "x OR 128 = 128 + x" if "0 \<le> x" "x < 64" for x :: int
    using or_shl_add [of x 6 2] that by (simp add: or.commute push_bit_eq_mult)
  have c: "x OR 192 = 192 + x" if "0 \<le> x" "x < 64" for x :: int
    using or_shl_add [of x 6 3] that by (simp add: or.commute push_bit_eq_mult)
  have d: "x OR 224 = 224 + x" if "0 \<le> x" "x < 16" for x :: int
    using or_shl_add [of x 4 14] that by (simp add: or.commute push_bit_eq_mult)
  consider "u < 128" | "128 \<le> u" "u < 2048" | "2048 \<le> u" by linarith
  then show ?thesis
  proof cases
    case 1
    then show ?thesis by (simp add: utf8_unit_def)
  next
    case 2
    then have "u div 64 < 32" by auto
    then show ?thesis using 2
      by (simp add: utf8_unit_def Let_def and_masks js_shr_div int_div_numeral b c)
        (simp add: nat_add_distrib)
  next
    case 3
    have "u div 4096 < 16" using assms by auto
    then show ?thesis using 3
      by (simp add: utf8_unit_def Let_def and_masks js_shr_div int_div_numeral b d)
        (simp add: nat_add_distrib)
  qed
qed

lemma utf8_unit_bytes: "u < 65536 \<Longrightarrow> b \<in> set (utf8_unit u) \<Longrightarrow> b < 256"
  by (auto simp: utf8_unit_eq split: if_splits)

lemma utf8_dec_two:
  assumes "x < 32" "y < 64"
  shows "utf8_dec_step ((192 + x) # (128 + y) # r) = ([64 * x + y], 2)"
proof -
  have "(192 + int x) mod 32 = int x" "(128 + int y) mod 64 = int y"
    using mod_mult_self3 [of 6 32 "int x"] mod_mult_self3 [of 2 64 "int y"] assms by simp_all
  then have "js_shl ((192 + int x) AND 31) 6 OR ((128 + int y) AND 63) = int (64 * x + y)"
    using assms by (simp add: and_masks js_shl_or)
  moreover have "toInt32 (Some (192 + int x)) = 192 + int x" "toInt32 (Some (128 + int y)) = 128 + int y"
    using assms by (simp_all add: toInt32_small)
  ultimately show ?thesis
    using assms by (simp add: utf8_dec_step_def charCodeAt_def nat_add_distrib nat_mult_distrib)
qed

lemma utf8_dec_three:
  assumes "x < 16" "y < 64" "z < 64"
  shows "utf8_dec_step ((224 + x) # (128 + y) # (128 + z) # r) = ([4096 * x + (64 * y + z)], 3)"
proof -
  have m: "(224 + int x) mod 16 = int x" "(128 + int y) mod 64 = int y" "(128 + int z) mod 64 = int z"
    using mod_mult_self3 [of 14 16 "int x"] mod_mult_self3 [of 2 64 "int y"]
      mod_mult_self3 [of 2 64 "int z"] assms by simp_all
  have "js_shl (int x) 12 OR (64 * int y + int z) = int (4096 * x + (64 * y + z))"
    using assms by (subst js_shl_or) auto
  then have "js_shl ((224 + int x) AND 15) 12 OR js_shl ((128 + int y) AND 63) 6 OR ((128 + int z) AND 63)
      = int (4096 * x + (64 * y + z))"
    using assms by (simp add: and_masks m js_shl_or or.assoc mult.commute)
  moreover have "toInt32 (Some (224 + int x)) = 224 + int x" "toInt32 (Some (128 + int y)) = 128 + int y"
      "toInt32 (Some (128 + int z)) = 128 + int z"
    using assms by (simp_all add: toInt32_small)
  ultimately show ?thesis
    using assms by (simp add: utf8_dec_step_def charCodeAt_def nat_add_distrib nat_mult_distrib)
qed

lemma utf8_dec_unit:
  assumes "u < 65536"
  shows "utf8_dec_step (utf8_unit u @ r) = ([u], length (utf8_unit u))"
proof -
  consider "u < 128" | "128 \<le> u" "u < 2048" | "2048 \<le> u" by linarith
  then show ?thesis
  proof cases
    case 1
    then show ?thesis
      by (simp add: utf8_unit_eq utf8_dec_step_def charCodeAt_def toInt32_small Let_def)
  next
    case 2
    then have "u div 64 < 32" by auto
    from utf8_dec_two [OF this, of "u mod 64" r] 2 show ?thesis by (simp add: utf8_unit_eq)
  next
    case 3
    have "u div 4096 < 16" using assms by auto
    moreover have "4096 * (u div 4096) + (64 * (u div 64 mod 64) + u mod 64) = u"
    proof -
      have "u div 4096 = u div 64 div 64" by (simp add: div_mult2_eq [symmetric])
      moreover have "64 * (u div 64 div 64) + u div 64 mod 64 = u div 64" by simp
      moreover have "64 * (u div 64) + u mod 64 = u" by simp
      ultimately show ?thesis by linarith
    qed
    ultimately show ?thesis
      using 3 assms utf8_dec_three [of "u div 4096" "u div 64 mod 64" "u mod 64" r]
      by (simp add: utf8_unit_eq)
  qed
qed

lemma utf8_decode_units: "wf_jstr s \<Longrightarrow> utf8_decode (concat (map utf8_unit s) @ r) = s @ utf8_decode r"
proof (induction s)
  case (Cons u s)
  have "utf8_unit u \<noteq> []" using Cons.prems by (simp add: utf8_unit_eq)
  with Cons show ?case
    by (simp add: utf8_decode_run chunk_run_prefix [where f = utf8_dec_step, OF utf8_dec_unit])
qed simp

lemma utf8_decode_zeros: "utf8_decode (replicate n 0) = replicate n 0"
proof (induction n)
  case (Suc n)
  have "utf8_dec_step ([0] @ replicate n 0) = ([0], length [0::nat])"
    by (simp add: utf8_dec_step_def charCodeAt_def toInt32_small)
  from chunk_run_prefix [where f = utf8_dec_step, OF this] Suc show ?case by (simp add: utf8_decode_run)
qed (simp add: utf8_decode_run)


section \<open>The alphabet\<close>

lemma length_keyStr [simp]: "length keyStr = 64"
  by (simp add: keyStr_def)

lemma distinct_keyStr [simp]: "distinct keyStr"
  by (simp add: keyStr_def js_def)

lemma indexOf_key: "a < 64 \<Longrightarrow> indexOf keyStr [keyStr ! a] = int a"
  by (rule indexOf_nth_distinct) simp_all

lemma charAt_key: "a < 64 \<Longrightarrow> charAt keyStr a = [keyStr ! a]"
  by (simp add: charAt_nth)

lemma charAt_key_64 [simp]: "charAt keyStr 64 = []"
  by (simp add: charAt_def)

section \<open>Encoding\<close>

text \<open>
  The reference: groups of three bytes as four six-bit digits, a last group of one or two
  bytes as two or three digits and no padding.
\<close>

fun enc_bytes :: "jstr \<Rightarrow> jstr" where
  "enc_bytes [] = []"
| "enc_bytes [x] = map ((!) keyStr) [x div 4, 16 * (x mod 4)]"
| "enc_bytes [x, y] = map ((!) keyStr) [x div 4, 16 * (x mod 4) + y div 16, 4 * (y mod 16)]"
| "enc_bytes (x # y # z # r) =
     map ((!) keyStr) [x div 4, 16 * (x mod 4) + y div 16, 4 * (y mod 16) + z div 64, z mod 64]
     @ enc_bytes r"

definition enc_step :: "jstr \<Rightarrow> jstr \<times> nat" where
  "enc_step r =
     (let chr1 = charCodeAt r 0; chr2 = charCodeAt r 1; chr3 = charCodeAt r 2;
          enc1 = js_shr (toInt32 chr1) 2;
          enc2 = js_shl (toInt32 chr1 AND 3) 4 OR js_shr (toInt32 chr2) 4;
          enc3 = (if chr2 = None then 64
                  else js_shl (toInt32 chr2 AND 15) 2 OR js_shr (toInt32 chr3) 6);
          enc4 = (if chr2 = None \<or> chr3 = None then 64 else toInt32 chr3 AND 63)
      in (charAt keyStr (nat enc1) @ charAt keyStr (nat enc2) @
          charAt keyStr (nat enc3) @ charAt keyStr (nat enc4), 3))"

lemma encode_loop_run: "encode_loop t i s = s @ chunk_run enc_step (drop i t)"
proof (rule loop_chunk_run)
  fix i s assume "i < length t"
  then show "encode_loop t i s = encode_loop t (i + snd (enc_step (drop i t))) (s @ fst (enc_step (drop i t)))"
    by (subst encode_loop.simps)
      (simp add: enc_step_def Let_def charCodeAt_drop0 [of t i]
        charCodeAt_drop [of t i "Suc 0", simplified] charCodeAt_drop [of t i 2, simplified])
qed (simp_all add: encode_loop.simps enc_step_def Let_def)

lemma sextet_join: "x < 256 \<Longrightarrow> y < 256 \<Longrightarrow>
    js_shl (int (x mod 4)) 4 OR int (y div 16) = int (16 * (x mod 4) + y div 16)"
  by (subst js_shl_or) auto

lemma sextet_join': "y < 256 \<Longrightarrow> z < 256 \<Longrightarrow>
    js_shl (int (y mod 16)) 2 OR int (z div 64) = int (4 * (y mod 16) + z div 64)"
  by (subst js_shl_or) auto

lemmas enc_step_simps =
  enc_step_def Let_def charCodeAt_Cons toInt32_small and_masks js_shr_div int_div_numeral
  sextet_join sextet_join' numeral_2_eq_2

lemma key_bounds:
  "x < 256 \<Longrightarrow> x div 4 < (64::nat)"
  "y < 256 \<Longrightarrow> 16 * (x mod 4) + y div 16 < (64::nat)"
  "z < 256 \<Longrightarrow> 4 * (y mod 16) + z div 64 < (64::nat)"
proof -
  show "x < 256 \<Longrightarrow> x div 4 < 64" by simp
  have "x mod 4 < 4" "y mod 16 < 16" by simp_all
  then show "y < 256 \<Longrightarrow> 16 * (x mod 4) + y div 16 < 64"
    and "z < 256 \<Longrightarrow> 4 * (y mod 16) + z div 64 < 64"
    using div_less_iff_less_mult [of 16 y 16] div_less_iff_less_mult [of 64 z 4] by simp_all
qed

lemma byte_parts: "y < 256 \<Longrightarrow> y div 16 < (16::nat)" "z < 256 \<Longrightarrow> z div 64 < (4::nat)"
  by (simp_all add: div_less_iff_less_mult)

lemma enc_step_three:
  assumes "x < 256" "y < 256" "z < 256"
  shows "enc_step (x # y # z # r) =
    (map ((!) keyStr) [x div 4, 16 * (x mod 4) + y div 16, 4 * (y mod 16) + z div 64, z mod 64], 3)"
proof -
  have "toInt32 (Some (int x)) = int x" "toInt32 (Some (int y)) = int y" "toInt32 (Some (int z)) = int z"
    using assms by (simp_all add: toInt32_small)
  with assms key_bounds show ?thesis
    by (simp add: enc_step_def Let_def charCodeAt_def and_masks js_shr_div int_div_numeral
        sextet_join sextet_join' charAt_key del: of_nat_add of_nat_mult)
qed

lemma enc_step_two:
  assumes "x < 256" "y < 256"
  shows "enc_step [x, y] =
    (map ((!) keyStr) [x div 4, 16 * (x mod 4) + y div 16, 4 * (y mod 16)], 3)"
proof -
  have "toInt32 (Some (int x)) = int x" "toInt32 (Some (int y)) = int y"
    using assms by (simp_all add: toInt32_small)
  moreover have "js_shl (int (y mod 16)) 2 = int (4 * (y mod 16))"
    by (subst js_shl_mult) auto
  moreover have "4 * (y mod 16) < 64" by presburger
  ultimately show ?thesis
    using assms key_bounds
    by (simp add: enc_step_def Let_def charCodeAt_def and_masks js_shr_div int_div_numeral
        sextet_join charAt_key del: of_nat_add of_nat_mult)
qed

lemma enc_step_one:
  assumes "x < 256"
  shows "enc_step [x] = (map ((!) keyStr) [x div 4, 16 * (x mod 4)], 3)"
proof -
  have "toInt32 (Some (int x)) = int x"
    using assms by (simp_all add: toInt32_small)
  moreover have "js_shl (int (x mod 4)) 4 = int (16 * (x mod 4))"
    by (subst js_shl_mult) auto
  moreover have "16 * (x mod 4) < 64" by presburger
  ultimately show ?thesis
    using assms key_bounds
    by (simp add: enc_step_def Let_def charCodeAt_def and_masks js_shr_div int_div_numeral
        charAt_key del: of_nat_add of_nat_mult)
qed

lemma encode_run_bytes: "\<forall>b\<in>set bs. b < 256 \<Longrightarrow> chunk_run enc_step bs = enc_bytes bs"
proof (induction bs rule: enc_bytes.induct)
  case (2 x)
  then show ?case by (simp add: chunk_run.simps [of _ "[x]"] enc_step_one)
next
  case (3 x y)
  then show ?case by (simp add: chunk_run.simps [of _ "[x, y]"] enc_step_two)
next
  case (4 x y z r)
  then show ?case by (simp add: chunk_run.simps [of _ "x # y # z # r"] enc_step_three)
qed simp

lemma wf_crlf_to_lf: "wf_jstr s \<Longrightarrow> wf_jstr (crlf_to_lf s)"
  by (induction s rule: crlf_to_lf.induct) auto

lemma utf8_encode_bytes: "wf_jstr s \<Longrightarrow> \<forall>b\<in>set (utf8_encode s). b < 256"
  using wf_crlf_to_lf [of s] by (auto simp: utf8_encode_def wf_jstr_def intro: utf8_unit_bytes)

lemma encode_eq: "wf_jstr s \<Longrightarrow> encode s = enc_bytes (utf8_encode s)"
  by (simp add: encode_def encode_loop_run encode_run_bytes utf8_encode_bytes)

section \<open>Decoding\<close>

definition dec_step :: "jstr \<Rightarrow> jstr \<times> nat" where
  "dec_step r =
     (let enc1 = indexOf keyStr (charAt r 0); enc2 = indexOf keyStr (charAt r 1);
          enc3 = indexOf keyStr (charAt r 2); enc4 = indexOf keyStr (charAt r 3)
      in (fromCharCode (js_shl enc1 2 OR js_shr enc2 4) @
          (if enc3 \<noteq> 64 then fromCharCode (js_shl (enc2 AND 15) 4 OR js_shr enc3 2) else []) @
          (if enc4 \<noteq> 64 then fromCharCode (js_shl (enc3 AND 3) 6 OR enc4) else []), 4))"

lemma decode_loop_run: "decode_loop t i s = s @ chunk_run dec_step (drop i t)"
proof (rule loop_chunk_run)
  fix i s assume "i < length t"
  then show "decode_loop t i s = decode_loop t (i + snd (dec_step (drop i t))) (s @ fst (dec_step (drop i t)))"
    by (subst decode_loop.simps)
      (simp add: dec_step_def Let_def charAt_drop0 [of t i] charAt_drop [of t i "Suc 0", simplified]
        charAt_drop [of t i 2, simplified] charAt_drop [of t i 3, simplified])
qed (simp_all add: decode_loop.simps dec_step_def Let_def)

lemma dec_step_digits:
  assumes "indexOf keyStr (charAt r 0) = int a" "indexOf keyStr (charAt r 1) = int b"
    "indexOf keyStr (charAt r 2) = int c" "indexOf keyStr (charAt r 3) = int d"
    and "a < 64" "b < 64" "c < 64" "d < 64"
  shows "dec_step r = ([4 * a + b div 16, 16 * (b mod 16) + c div 4, 64 * (c mod 4) + d], 4)"
proof -
  have e: "js_shl (int a) 2 OR int (b div 16) = int (4 * a + b div 16)"
    "js_shl (int (b mod 16)) 4 OR int (c div 4) = int (16 * (b mod 16) + c div 4)"
    "js_shl (int (c mod 4)) 6 OR int d = int (64 * (c mod 4) + d)"
    using assms(5-) by (subst js_shl_or; simp)+
  have f: "fromCharCode (int n) = [n]" if "n < 65536" for n
    using that by simp
  have "b div 16 \<le> b" "b mod 16 \<le> b" "c div 4 \<le> c" "c mod 4 \<le> c" by simp_all
  then have "4 * a + b div 16 < 65536" "16 * (b mod 16) + c div 4 < 65536" "64 * (c mod 4) + d < 65536"
    using assms(5-) by linarith+
  then show ?thesis
    using assms by (simp add: dec_step_def Let_def and_masks js_shr_div int_div_numeral e f
        del: of_nat_add of_nat_mult)
qed

lemma decode_run_enc_bytes:
  "\<forall>b\<in>set bs. b < 256 \<Longrightarrow>
   chunk_run dec_step (enc_bytes bs) = bs @ replicate ((3 - length bs mod 3) mod 3) 0"
proof (induction bs rule: enc_bytes.induct)
  case (2 x)
  let ?r = "enc_bytes [x]"
  have "dec_step ?r = ([4 * (x div 4) + 16 * (x mod 4) div 16, 16 * (16 * (x mod 4) mod 16) + 0 div 4, 64 * (0 mod 4) + 0], 4)"
    using 2 key_bounds by (intro dec_step_digits) (simp_all add: charAt_def indexOf_key)
  then have "dec_step ?r = ([x, 0, 0], 4)" by simp
  then show ?case by (subst chunk_run.simps) (simp add: numeral_2_eq_2)
next
  case (3 x y)
  let ?r = "enc_bytes [x, y]"
  have "dec_step ?r = ([4 * (x div 4) + (16 * (x mod 4) + y div 16) div 16,
      16 * ((16 * (x mod 4) + y div 16) mod 16) + 4 * (y mod 16) div 4, 64 * (4 * (y mod 16) mod 4) + 0], 4)"
    using 3 key_bounds by (intro dec_step_digits) (simp_all add: charAt_def indexOf_key)
  also have "\<dots> = ([x, y, 0], 4)" using 3 byte_parts(1) [of y] by simp
  finally show ?case by (subst chunk_run.simps) (simp add: numeral_2_eq_2)
next
  case (4 x y z r)
  let ?r = "enc_bytes (x # y # z # r)"
  have "dec_step ?r = ([4 * (x div 4) + (16 * (x mod 4) + y div 16) div 16,
      16 * ((16 * (x mod 4) + y div 16) mod 16) + (4 * (y mod 16) + z div 64) div 4,
      64 * ((4 * (y mod 16) + z div 64) mod 4) + z mod 64], 4)"
    using 4 key_bounds by (intro dec_step_digits) (simp_all add: charAt_def indexOf_key)
  also have "\<dots> = ([x, y, z], 4)" using 4 byte_parts(1) [of y] byte_parts(2) [of z] by simp
  finally show ?case using 4 by (subst chunk_run.simps) simp
qed simp

lemma enc_bytes_alphabet: "\<forall>b\<in>set bs. b < 256 \<Longrightarrow> set (enc_bytes bs) \<subseteq> set keyStr"
  by (induction bs rule: enc_bytes.induct) (auto intro!: nth_mem simp: key_bounds)

lemma length_enc_bytes: "length (enc_bytes bs) = (4 * length bs + 2) div 3"
  by (induction bs rule: enc_bytes.induct) auto

lemma decode_kept: "filter b64_kept s = s \<Longrightarrow> decode s = utf8_decode (chunk_run dec_step s)"
  by (simp add: decode_def decode_loop_run)

lemma decode_enc_bytes:
  assumes "\<forall>b\<in>set bs. b < 256"
  shows "decode (enc_bytes bs) = utf8_decode (bs @ replicate ((3 - length bs mod 3) mod 3) 0)"
proof -
  have "filter b64_kept (enc_bytes bs) = enc_bytes bs"
    using enc_bytes_alphabet [OF assms] by (auto simp: filter_id_conv b64_kept_def)
  with assms show ?thesis by (simp add: decode_kept decode_run_enc_bytes)
qed

text \<open>
  C11: decoding an encoded string gives the string back, with every CR LF turned into LF
  and up to two NUL units appended: as many as are needed to fill the last group of three
  bytes, because the encoder writes no padding and the decoder reads a missing digit as 0.
\<close>

theorem base64_decode_encode:
  assumes "wf_jstr s"
  shows "decode (encode s) =
    crlf_to_lf s @ replicate ((3 - length (utf8_encode s) mod 3) mod 3) 0"
  using assms wf_crlf_to_lf [OF assms]
  by (simp add: encode_eq decode_enc_bytes utf8_encode_bytes utf8_decode_units utf8_decode_zeros
      utf8_encode_def [of s])

theorem base64_decode_encode_witness:
  "wf_jstr (js ''Man'') \<and> decode (encode (js ''Man'')) = js ''Man''"
  using base64_decode_encode [of "js ''Man''"]
  by (simp add: utf8_encode_def js_simps utf8_unit_eq)

text \<open>
  C16: the loop with its shifts and masks computes unpadded Base64 of the UTF-8 bytes (the
  three-byte group reference), so the result has \<open>(4 n + 2) div 3\<close> characters, all of
  the alphabet.
\<close>

theorem base64_encode_reference:
  assumes "wf_jstr s"
  shows "encode s = enc_bytes (utf8_encode s) \<and>
    length (encode s) = (4 * length (utf8_encode s) + 2) div 3 \<and>
    set (encode s) \<subseteq> set keyStr"
  using assms by (simp add: encode_eq length_enc_bytes enc_bytes_alphabet utf8_encode_bytes)

theorem base64_encode_reference_witness:
  "encode (js ''Ma'') = js ''TWE''"
proof -
  have "encode (js ''Ma'') = enc_bytes (utf8_encode (js ''Ma''))"
    using base64_encode_reference [of "js ''Ma''"] by simp
  then show ?thesis
    by (simp add: utf8_encode_def js_simps utf8_unit_eq keyStr_def)
qed

text \<open>
  The UTF-8 decoder undoes the UTF-8 encoder on every string of code units (surrogates
  are encoded one by one, three bytes each), up to the newline normalisation.
\<close>

theorem utf8_round_trip:
  assumes "wf_jstr s"
  shows "utf8_decode (utf8_encode s) = crlf_to_lf s"
  using utf8_decode_units [OF wf_crlf_to_lf [OF assms], of "[]"]
  by (simp add: utf8_encode_def utf8_decode_run)

theorem utf8_round_trip_witness:
  "utf8_encode [8364, 13, 10] = [226, 130, 172, 10] \<and>
   utf8_decode (utf8_encode [8364, 13, 10]) = [8364, 10]"
  using utf8_round_trip [of "[8364, 13, 10]"]
  by (simp add: utf8_encode_def utf8_unit_eq)

text \<open>
  Padded Base64, as other encoders write it, is not decoded: the alphabet lacks the
  padding character, whose index is then -1 and not 64, so that for every ASCII unit the
  two padding characters come out as the stray unit 65472 instead of nothing.
\<close>

theorem base64_padding_not_decoded:
  assumes "x < 128"
  shows "decode (enc_bytes [x] @ js ''=='') = [x, 65472]"
proof -
  let ?r = "enc_bytes [x] @ js ''==''"
  have "filter b64_kept ?r = ?r"
    using enc_bytes_alphabet [of "[x]"] assms
    by (auto simp: b64_kept_def js_def)
  moreover have neg: "indexOf keyStr [61] = -1"
    by (simp add: keyStr_def js_def indexOf_def)
  have "dec_step ?r = ([x, 65535, 65535], 4)"
  proof -
    have d: "x div 4 < 64" "16 * (x mod 4) < 64" using assms key_bounds(2) [of 0 x] by simp_all
    have "js_shl (int (x div 4)) 2 OR int (16 * (x mod 4) div 16) = int x"
    proof -
      have "x div 4 * 4 + x mod 4 = x" by simp
      then have "int (x div 4) * 4 + int (x mod 4) = int x" by (metis of_nat_add of_nat_mult of_nat_numeral)
      then show ?thesis using assms by (subst js_shl_or) auto
    qed
    then show ?thesis
      using d assms
      by (simp add: dec_step_def js_simps charAt_def indexOf_key neg and_masks js_shr_div int_div_numeral
          fromCharCode_def js_shl_def del: of_nat_mult)
  qed
  ultimately have "decode ?r = utf8_decode [x, 65535, 65535]"
    by (subst decode_kept, simp, subst chunk_run.simps) simp
  also have "\<dots> = [x] @ utf8_decode [65535, 65535]"
    using assms utf8_decode_units [of "[x]" "[65535, 65535]"] by (simp add: utf8_unit_eq)
  also have "utf8_decode [65535, 65535] = [65472]"
  proof -
    have "utf8_dec_step [65535, 65535] = ([65472], 3)"
      by (simp add: utf8_dec_step_def charCodeAt_def toInt32_def fromCharCode_def js_shl_def)
    then show ?thesis by (simp add: utf8_decode_run, subst chunk_run.simps) simp
  qed
  finally show ?thesis by simp
qed

theorem base64_padding_not_decoded_witness:
  "decode (js ''QQ=='') = [65, 65472]"
  using base64_padding_not_decoded [of 65]
  by (simp add: keyStr_def js_simps)

end
