(* ===== verification/Lottery.thy ===== *)
theory Lottery
  imports Js_Dom
begin

text \<open>
  The nine-grid lottery wheel of goldeneggs/js/common.js: the \<open>lottery\<close> object, the tap
  handler \<open>jiugong\<close> with its ajax callbacks, and the self-rescheduling \<open>roll\<close>.
\<close>

datatype wheel_cb = CbRoll | CbShowZjl | CbShowMzj

text \<open>
  \<open>units\<close> is the number of \<open>.lottery-unit\<close> elements of the page and \<open>lit\<close> the units that
  carry the class \<open>active\<close>; \<open>inflight\<close> counts the requests not yet answered; \<open>counter_el\<close>
  and \<open>num_el\<close> are the contents of \<open>#count\<close> and \<open>#num\<close>, \<open>None\<close> when the element is absent.
\<close>

record wheel =
  index :: int
  count :: int
  timer :: nat
  speed :: int
  times :: int
  cycle :: int
  prize :: int
  obj :: bool
  units :: int
  lit :: "int set"
  click :: bool
  flag :: int
  myindex :: int
  inflight :: nat
  counter_el :: "jsnum option"
  num_el :: "jsnum option"
  clock :: int
  tm :: "wheel_cb timers"
  shown :: "ui list"

definition lottery0 :: "int \<Rightarrow> jsnum option \<Rightarrow> jsnum option \<Rightarrow> wheel" where
  "lottery0 n c m =
     \<lparr>index = 0, count = 0, timer = 0, speed = 1000, times = 0, cycle = 50, prize = -1,
      obj = False, units = n, lit = {}, click = False, flag = 1, myindex = 7, inflight = 0,
      counter_el = c, num_el = m, clock = 0, tm = no_timers, shown = []\<rparr>"

definition say :: "ui list \<Rightarrow> wheel \<Rightarrow> wheel" where
  "say us s = s\<lparr>shown := shown s @ us\<rparr>"

definition mark :: "int \<Rightarrow> wheel \<Rightarrow> wheel" where
  "mark i s = (if 0 \<le> i \<and> i < units s then s\<lparr>lit := insert i (lit s)\<rparr> else s)"

definition unmark :: "int \<Rightarrow> wheel \<Rightarrow> wheel" where
  "unmark i s = s\<lparr>lit := lit s - {i}\<rparr>"

definition lottery_init :: "wheel \<Rightarrow> wheel" where
  "lottery_init s =
     (if units s > 0 then mark (index s) (s\<lparr>obj := True, count := units s\<rparr>) else s)"

definition lottery_roll :: "wheel \<Rightarrow> wheel" where
  "lottery_roll s =
     (let s1 = (if obj s then unmark (index s) s else s);
          i = index s + 1;
          i = (if i > count s - 1 then 0 else i);
          s2 = (if obj s1 then mark i s1 else s1)
      in s2\<lparr>index := i\<rparr>)"

definition start_timer :: "int \<Rightarrow> wheel_cb \<Rightarrow> wheel \<Rightarrow> nat \<times> wheel" where
  "start_timer d c s = (let (i, t) = set_timeout (clock s) d c (tm s) in (i, s\<lparr>tm := t\<rparr>))"

definition roll_speed :: "wheel \<Rightarrow> wheel" where
  "roll_speed s =
     (let s1 =
        (if times s < cycle s then s\<lparr>speed := speed s - 10\<rparr>
         else if times s = cycle s then s\<lparr>prize := myindex s\<rparr>
         else if times s > cycle s + 10 \<and>
                 ((prize s = 0 \<and> index s = 7) \<or> prize s = index s + 1)
         then s\<lparr>speed := speed s + 110\<rparr>
         else s\<lparr>speed := speed s + 20\<rparr>)
      in if speed s1 < 40 then s1\<lparr>speed := 40\<rparr> else s1)"

definition roll :: "wheel \<Rightarrow> wheel" where
  "roll s0 =
     (let s = lottery_roll (s0\<lparr>times := times s0 + 1\<rparr>) in
      if times s > cycle s + 10 \<and> prize s = index s then
        let s1 = s\<lparr>tm := clear_timer (timer s) (tm s), prize := -1, times := 0, click := False\<rparr>
        in if index s1 < 7 then snd (start_timer 1300 CbShowZjl s1)
           else snd (start_timer 1300 CbShowMzj s1)
      else
        let s1 = roll_speed s; (i, s2) = start_timer (speed s1) CbRoll s1
        in s2\<lparr>timer := i\<rparr>)"

text \<open>The reply of \<open>getAwards.do\<close>; \<open>img_src\<close> is the image address the handler puts together.\<close>

record award_reply =
  success :: bool
  awardsValue :: int
  awardsName :: jstr
  prize_name :: jstr
  basePath :: jstr
  jwid :: jstr
  img :: jstr
  recordId :: jstr
  reply_obj :: string
  msg :: jstr

definition img_src :: "award_reply \<Rightarrow> jstr" where
  "img_src d = basePath d @ js ''/upload/img/jiugongge/'' @ jwid d @ js ''/'' @ img d"

definition prize_ui :: "award_reply \<Rightarrow> ui list" where
  "prize_ui d =
     [SetAttr ''#jpimg'' ''src'' (img_src d), SetHtml ''#jptype'' (awardsName d),
      (if awardsValue d = 4 then SetHtml ''#jpname'' (prize_name d)
       else SetText ''#jpname'' (prize_name d))]"

definition on_success :: "award_reply \<Rightarrow> wheel \<Rightarrow> wheel" where
  "on_success d s =
     (if success d then
        let s = say [SetVal ''#recordId'' (recordId d)] s in
        if awardsValue d = 1 then (say (prize_ui d) s)\<lparr>flag := 1, myindex := 0\<rparr>
        else if awardsValue d = 2 then (say (prize_ui d) s)\<lparr>flag := 1, myindex := 4\<rparr>
        else if awardsValue d = 3 then (say (prize_ui d) s)\<lparr>flag := 1, myindex := 6\<rparr>
        else if awardsValue d = 4 then (say (prize_ui d) s)\<lparr>flag := 1, myindex := 2\<rparr>
        else if awardsValue d = 5 then (say (prize_ui d) s)\<lparr>flag := 1, myindex := 5\<rparr>
        else if awardsValue d = 6 then (say (prize_ui d) s)\<lparr>flag := 1, myindex := 1\<rparr>
        else s\<lparr>flag := 1, myindex := 7\<rparr>
      else
        let s = s\<lparr>flag := 0, myindex := 7\<rparr> in
        if reply_obj d = ''isNotFoucs'' then say [Show ''#no_foucs''] (s\<lparr>flag := 3\<rparr>)
        else if reply_obj d = ''isNotBind'' then say [Show ''#no_binding_phone''] (s\<lparr>flag := 3\<rparr>)
        else say [Show ''#mzj'', SetText ''#ncz'' (msg d), SetHtml ''#hyh'' []] s)"

definition use_one :: "wheel \<Rightarrow> wheel" where
  "use_one s =
     (case counter_el s of
        None \<Rightarrow> s\<lparr>num_el := map_option (\<lambda>n. num_add n (-1)) (num_el s)\<rparr>
      | Some n \<Rightarrow> s\<lparr>counter_el := Some (num_add n (-1))\<rparr>)"

definition on_complete :: "wheel \<Rightarrow> wheel" where
  "on_complete s =
     (if flag s = 1 then (use_one (roll (s\<lparr>speed := 100\<rparr>)))\<lparr>click := True\<rparr>
      else if flag s = 0 then (say [Show ''#mzj''] s)\<lparr>myindex := 7\<rparr>
      else s)"

definition jiugong :: "wheel \<Rightarrow> wheel" where
  "jiugong s0 =
     (let s = lottery_init s0 in
      if click s then s
      else say [Hide ''#zjl'', Hide ''#mzj''] (s\<lparr>inflight := inflight s + 1\<rparr>))"

text \<open>
  The events: a tap, the answer to a request (\<open>None\<close>: the request failed, \<open>complete\<close> runs
  without \<open>success\<close>), and a due timer.
\<close>

definition answer :: "award_reply option \<Rightarrow> wheel \<Rightarrow> wheel" where
  "answer r s =
     (let s = s\<lparr>inflight := inflight s - 1\<rparr>
      in on_complete (case r of None \<Rightarrow> s | Some d \<Rightarrow> on_success d s))"

definition wheel_run_cb :: "wheel_cb \<Rightarrow> wheel \<Rightarrow> wheel" where
  "wheel_run_cb c s =
     (case c of CbRoll \<Rightarrow> roll s
      | CbShowZjl \<Rightarrow> say [Show ''#zjl''] s
      | CbShowMzj \<Rightarrow> say [Show ''#mzj''] s)"

definition wheel_fire :: "nat \<Rightarrow> wheel \<Rightarrow> wheel" where
  "wheel_fire i s =
     (case find_timer (tm s) i of
        None \<Rightarrow> s
      | Some e \<Rightarrow> (case fire i (tm s) of
            None \<Rightarrow> s
          | Some (c, t) \<Rightarrow> wheel_run_cb c (s\<lparr>tm := t, clock := max (clock s) (due e)\<rparr>)))"

text \<open>The chain of rolls: the timer of \<open>lottery.timer\<close> fires \<open>k\<close> times.\<close>

fun spin :: "nat \<Rightarrow> wheel \<Rightarrow> wheel" where
  "spin 0 s = s"
| "spin (Suc k) s = spin k (wheel_fire (timer s) s)"

section \<open>Laws of the operations\<close>

lemma say_fields [simp]:
  "index (say u s) = index s" "count (say u s) = count s" "timer (say u s) = timer s"
  "speed (say u s) = speed s" "times (say u s) = times s" "cycle (say u s) = cycle s"
  "prize (say u s) = prize s" "obj (say u s) = obj s" "units (say u s) = units s"
  "lit (say u s) = lit s" "click (say u s) = click s" "flag (say u s) = flag s"
  "myindex (say u s) = myindex s" "inflight (say u s) = inflight s" "tm (say u s) = tm s"
  "clock (say u s) = clock s"
  by (simp_all add: say_def)

lemma use_one_fields [simp]:
  "index (use_one s) = index s" "count (use_one s) = count s" "timer (use_one s) = timer s"
  "speed (use_one s) = speed s" "times (use_one s) = times s" "cycle (use_one s) = cycle s"
  "prize (use_one s) = prize s" "obj (use_one s) = obj s" "units (use_one s) = units s"
  "lit (use_one s) = lit s" "click (use_one s) = click s" "flag (use_one s) = flag s"
  "myindex (use_one s) = myindex s" "inflight (use_one s) = inflight s" "tm (use_one s) = tm s"
  by (simp_all add: use_one_def split: option.split)

lemma mark_unmark_fields [simp]:
  "index (mark i s) = index s" "count (mark i s) = count s" "obj (mark i s) = obj s"
  "units (mark i s) = units s" "tm (mark i s) = tm s" "times (mark i s) = times s"
  "cycle (mark i s) = cycle s" "prize (mark i s) = prize s" "click (mark i s) = click s"
  "speed (mark i s) = speed s" "myindex (mark i s) = myindex s" "timer (mark i s) = timer s"
  "flag (mark i s) = flag s" "clock (mark i s) = clock s"
  "index (unmark i s) = index s" "count (unmark i s) = count s" "obj (unmark i s) = obj s"
  "units (unmark i s) = units s" "tm (unmark i s) = tm s" "times (unmark i s) = times s"
  "cycle (unmark i s) = cycle s" "prize (unmark i s) = prize s" "click (unmark i s) = click s"
  "speed (unmark i s) = speed s" "myindex (unmark i s) = myindex s" "timer (unmark i s) = timer s"
  "flag (unmark i s) = flag s" "clock (unmark i s) = clock s"
  by (simp_all add: mark_def unmark_def)

text \<open>The wheel is ready: \<open>init\<close> has found the units and exactly the current one is lit.\<close>

definition wheel_ok :: "wheel \<Rightarrow> bool" where
  "wheel_ok s \<longleftrightarrow> obj s \<and> 0 < units s \<and> count s = units s \<and> 0 \<le> index s \<and> index s < units s \<and>
     lit s = {index s} \<and> timers_inv (tm s)"

lemma lottery_roll_fields [simp]:
  "count (lottery_roll s) = count s" "obj (lottery_roll s) = obj s"
  "units (lottery_roll s) = units s" "tm (lottery_roll s) = tm s"
  "times (lottery_roll s) = times s" "cycle (lottery_roll s) = cycle s"
  "prize (lottery_roll s) = prize s" "click (lottery_roll s) = click s"
  "speed (lottery_roll s) = speed s" "myindex (lottery_roll s) = myindex s"
  "timer (lottery_roll s) = timer s" "flag (lottery_roll s) = flag s"
  "clock (lottery_roll s) = clock s"
  by (simp_all add: lottery_roll_def Let_def)

lemma lottery_roll_index:
  assumes "wheel_ok s" shows "index (lottery_roll s) = (index s + 1) mod units s"
proof -
  have "0 \<le> index s" "index s < units s" "count s = units s"
    using assms by (auto simp: wheel_ok_def)
  then show ?thesis
    by (cases "index s + 1 = units s") (auto simp: lottery_roll_def Let_def)
qed

lemma lottery_roll_ok: "wheel_ok s \<Longrightarrow> wheel_ok (lottery_roll s)"
  by (auto simp: wheel_ok_def lottery_roll_def Let_def mark_def unmark_def)

lemma wheel_ok_update [simp]:
  "wheel_ok (s\<lparr>times := a\<rparr>) = wheel_ok s" "wheel_ok (s\<lparr>speed := b\<rparr>) = wheel_ok s"
  "wheel_ok (s\<lparr>prize := c\<rparr>) = wheel_ok s" "wheel_ok (s\<lparr>click := d\<rparr>) = wheel_ok s"
  "wheel_ok (s\<lparr>timer := e\<rparr>) = wheel_ok s" "wheel_ok (s\<lparr>clock := h\<rparr>) = wheel_ok s"
  "wheel_ok (s\<lparr>flag := k\<rparr>) = wheel_ok s" "wheel_ok (s\<lparr>myindex := l\<rparr>) = wheel_ok s"
  "wheel_ok (s\<lparr>inflight := m\<rparr>) = wheel_ok s"
  "wheel_ok (say u s) = wheel_ok s" "wheel_ok (use_one s) = wheel_ok s"
  by (simp_all add: wheel_ok_def)

lemma wheel_ok_tm: "wheel_ok s \<Longrightarrow> timers_inv t \<Longrightarrow> wheel_ok (s\<lparr>tm := t\<rparr>)"
  by (simp add: wheel_ok_def)

lemma wheel_ok_inv: "wheel_ok s \<Longrightarrow> timers_inv (tm s)"
  by (simp add: wheel_ok_def)

lemma start_timer_eq:
  "start_timer d c s = (i, s') \<Longrightarrow> \<exists>t. s' = s\<lparr>tm := t\<rparr> \<and> set_timeout (clock s) d c (tm s) = (i, t)"
  by (auto simp: start_timer_def Let_def split: prod.splits)

lemma start_timer_ok:
  assumes "wheel_ok s" "start_timer d c s = (i, s')" shows "wheel_ok s'"
proof -
  from start_timer_eq [OF assms(2)] obtain t where
    "s' = s\<lparr>tm := t\<rparr>" "set_timeout (clock s) d c (tm s) = (i, t)" by auto
  moreover have "timers_inv t"
    using wheel_ok_inv [OF assms(1)] calculation(2) by (rule timers_inv_set_timeout)
  ultimately show ?thesis using assms(1) wheel_ok_tm by simp
qed

lemma roll_speed_fields [simp]:
  "index (roll_speed s) = index s" "count (roll_speed s) = count s" "timer (roll_speed s) = timer s"
  "times (roll_speed s) = times s" "cycle (roll_speed s) = cycle s" "obj (roll_speed s) = obj s"
  "units (roll_speed s) = units s" "lit (roll_speed s) = lit s" "click (roll_speed s) = click s"
  "flag (roll_speed s) = flag s" "myindex (roll_speed s) = myindex s" "tm (roll_speed s) = tm s"
  "clock (roll_speed s) = clock s"
  by (simp_all add: roll_speed_def Let_def)

lemma roll_speed_ok [simp]: "wheel_ok (roll_speed s) = wheel_ok s"
  by (simp add: wheel_ok_def)

lemma roll_speed_min: "40 \<le> speed (roll_speed s)"
  by (simp add: roll_speed_def Let_def)

lemma roll_speed_prize:
  "prize (roll_speed s) = (if times s = cycle s then myindex s else prize s)"
  by (simp add: roll_speed_def Let_def)

text \<open>One roll, in the two cases of its test.\<close>

lemma roll_stop:
  assumes ok: "wheel_ok s" and "times s + 1 > cycle s + 10"
    and "prize s = (index s + 1) mod units s"
  shows "wheel_ok (roll s) \<and> times (roll s) = 0 \<and> prize (roll s) = -1 \<and> \<not> click (roll s) \<and>
    index (roll s) = (index s + 1) mod units s \<and> units (roll s) = units s \<and>
    (\<exists>i. tm (roll s) = snd (set_timeout (clock s) 1300
        (if index (roll s) < 7 then CbShowZjl else CbShowMzj) (clear_timer (timer s) (tm s))))"
proof -
  let ?a = "lottery_roll (s\<lparr>times := times s + 1\<rparr>)"
  have ix: "index ?a = (index s + 1) mod units s"
    using ok lottery_roll_index [of "s\<lparr>times := times s + 1\<rparr>"] by simp
  let ?b = "?a\<lparr>tm := clear_timer (timer s) (tm s), prize := -1, times := 0, click := False\<rparr>"
  have r: "roll s = snd (start_timer 1300 (if index ?a < 7 then CbShowZjl else CbShowMzj) ?b)"
    using assms ix by (simp add: roll_def Let_def)
  have b: "wheel_ok ?b"
    using ok lottery_roll_ok [of "s\<lparr>times := times s + 1\<rparr>"]
    by (simp add: wheel_ok_tm timers_inv_clear wheel_ok_inv)
  obtain i s' where st: "start_timer 1300 (if index ?a < 7 then CbShowZjl else CbShowMzj) ?b = (i, s')"
    by force
  from start_timer_eq [OF st] obtain t where
    "s' = ?b\<lparr>tm := t\<rparr>" "set_timeout (clock s) 1300 (if index ?a < 7 then CbShowZjl else CbShowMzj)
        (clear_timer (timer s) (tm s)) = (i, t)" by auto
  with r st ix start_timer_ok [OF b st] show ?thesis by (auto simp del: wheel_ok_update)
qed

lemma roll_go:
  assumes ok: "wheel_ok s"
    and go: "\<not> (times s + 1 > cycle s + 10 \<and> prize s = (index s + 1) mod units s)"
  shows "wheel_ok (roll s) \<and> times (roll s) = times s + 1 \<and> click (roll s) = click s \<and>
    index (roll s) = (index s + 1) mod units s \<and> cycle (roll s) = cycle s \<and>
    units (roll s) = units s \<and> myindex (roll s) = myindex s \<and>
    prize (roll s) = (if times s + 1 = cycle s then myindex s else prize s) \<and>
    40 \<le> speed (roll s) \<and>
    set_timeout (clock s) (speed (roll s)) CbRoll (tm s) = (timer (roll s), tm (roll s))"
proof -
  let ?a = "lottery_roll (s\<lparr>times := times s + 1\<rparr>)"
  let ?b = "roll_speed ?a"
  have ix: "index ?a = (index s + 1) mod units s"
    using ok lottery_roll_index [of "s\<lparr>times := times s + 1\<rparr>"] by simp
  obtain i s' where st: "start_timer (speed ?b) CbRoll ?b = (i, s')" by force
  have r: "roll s = s'\<lparr>timer := i\<rparr>"
    using go ix st by (auto simp: roll_def Let_def)
  have b: "wheel_ok ?b"
    using ok lottery_roll_ok [of "s\<lparr>times := times s + 1\<rparr>"] by simp
  from start_timer_eq [OF st] obtain t where
    "s' = ?b\<lparr>tm := t\<rparr>" "set_timeout (clock s) (speed ?b) CbRoll (tm s) = (i, t)" by auto
  with r ix start_timer_ok [OF b st] roll_speed_min [of ?a] show ?thesis
    by (simp add: roll_speed_prize)
qed


section \<open>The chain of rolls\<close>

text \<open>
  A spin towards position \<open>m\<close> that started at \<open>i0\<close> and has made \<open>k\<close> rolls: the next roll is
  pending under the identifier the wheel remembers, and no other roll is.
\<close>

definition spinning :: "int \<Rightarrow> int \<Rightarrow> int \<Rightarrow> wheel \<Rightarrow> bool" where
  "spinning m i0 k s \<longleftrightarrow> wheel_ok s \<and> cycle s = 50 \<and> times s = k \<and> myindex s = m \<and>
     prize s = (if k \<ge> 50 then m else -1) \<and> index s = (i0 + k) mod units s \<and> 40 \<le> speed s \<and>
     (\<exists>d. find_timer (tm s) (timer s) = Some (Entry d None CbRoll)) \<and>
     (\<forall>j e. find_timer (tm s) j = Some e \<and> callback e = CbRoll \<longrightarrow> j = timer s)"

definition stopped :: "int \<Rightarrow> wheel \<Rightarrow> bool" where
  "stopped m s \<longleftrightarrow> wheel_ok s \<and> index s = m \<and> times s = 0 \<and> prize s = -1 \<and> \<not> click s \<and>
     (\<forall>j e. find_timer (tm s) j = Some e \<longrightarrow> callback e \<noteq> CbRoll) \<and>
     (\<exists>j d. find_timer (tm s) j = Some (Entry d None (if m < 7 then CbShowZjl else CbShowMzj)))"

lemma spinning_fire:
  assumes "spinning m i0 k s"
  shows "\<exists>d. wheel_fire (timer s) s =
      roll (s\<lparr>tm := clear_timer (timer s) (tm s), clock := d\<rparr>)"
  using assms
  by (auto simp: spinning_def wheel_fire_def fire_once wheel_run_cb_def)

lemma spinning_cleared:
  assumes "spinning m i0 k s"
  shows "wheel_ok (s\<lparr>tm := clear_timer (timer s) (tm s), clock := d\<rparr>)"
    and "find_timer (clear_timer (timer s) (tm s)) j = Some e \<Longrightarrow> callback e \<noteq> CbRoll"
proof -
  show "wheel_ok (s\<lparr>tm := clear_timer (timer s) (tm s), clock := d\<rparr>)"
    using assms by (simp add: spinning_def wheel_ok_def timers_inv_clear)
  show "find_timer (clear_timer (timer s) (tm s)) j = Some e \<Longrightarrow> callback e \<noteq> CbRoll"
    using assms by (auto simp: spinning_def find_clear_timer split: if_splits)
qed

lemma spinning_step:
  assumes sp: "spinning m i0 k s" and k: "0 \<le> k"
    and go: "k + 1 \<le> 60 \<or> (i0 + (k + 1)) mod units s \<noteq> m"
  shows "spinning m i0 (k + 1) (wheel_fire (timer s) s) \<and>
    units (wheel_fire (timer s) s) = units s \<and> click (wheel_fire (timer s) s) = click s"
proof -
  obtain d where f: "wheel_fire (timer s) s =
      roll (s\<lparr>tm := clear_timer (timer s) (tm s), clock := d\<rparr>)"
    using spinning_fire [OF sp] by blast
  let ?c = "s\<lparr>tm := clear_timer (timer s) (tm s), clock := d\<rparr>"
  have c: "wheel_ok ?c" by (rule spinning_cleared [OF sp])
  have fields: "cycle s = 50" "times s = k" "myindex s = m" "prize s = (if k \<ge> 50 then m else -1)"
    "index s = (i0 + k) mod units s"
    using sp by (auto simp: spinning_def)
  have ix: "(index s + 1) mod units s = (i0 + (k + 1)) mod units s"
    by (simp add: fields mod_simps algebra_simps)
  have "\<not> (times ?c + 1 > cycle ?c + 10 \<and> prize ?c = (index ?c + 1) mod units ?c)"
    using go fields ix by auto
  note r = roll_go [OF c this]
  have st: "set_timeout d (speed (roll ?c)) CbRoll (clear_timer (timer s) (tm s)) =
      (timer (roll ?c), tm (roll ?c))"
    using r by simp
  have inv: "timers_inv (clear_timer (timer s) (tm s))"
    using wheel_ok_inv [OF c] by simp
  have "\<exists>d. find_timer (tm (roll ?c)) (timer (roll ?c)) = Some (Entry d None CbRoll)"
    by (simp add: find_set_timeout [OF inv st])
  moreover have "\<forall>j e. find_timer (tm (roll ?c)) j = Some e \<and> callback e = CbRoll \<longrightarrow> j = timer (roll ?c)"
    using spinning_cleared(2) [OF sp] by (simp add: find_set_timeout [OF inv st])
  moreover have "prize (roll ?c) = (if k + 1 \<ge> 50 then m else -1)"
    using r fields by simp
  ultimately show ?thesis
    unfolding spinning_def f using r fields ix by simp
qed

lemma spinning_stop:
  assumes sp: "spinning m i0 k s" and k: "60 \<le> k" and m: "(i0 + (k + 1)) mod units s = m"
  shows "stopped m (wheel_fire (timer s) s)"
proof -
  obtain d where f: "wheel_fire (timer s) s =
      roll (s\<lparr>tm := clear_timer (timer s) (tm s), clock := d\<rparr>)"
    using spinning_fire [OF sp] by blast
  let ?c = "s\<lparr>tm := clear_timer (timer s) (tm s), clock := d\<rparr>"
  let ?t = "clear_timer (timer s) (tm s)"
  have c: "wheel_ok ?c" by (rule spinning_cleared [OF sp])
  have fields: "cycle s = 50" "times s = k" "prize s = m" "index s = (i0 + k) mod units s"
    using sp k by (auto simp: spinning_def)
  have ix: "(index s + 1) mod units s = m"
    using m by (simp add: fields mod_simps algebra_simps)
  have r: "wheel_ok (roll ?c) \<and> times (roll ?c) = 0 \<and> prize (roll ?c) = -1 \<and> \<not> click (roll ?c) \<and>
      index (roll ?c) = m \<and>
      tm (roll ?c) = snd (set_timeout d 1300 (if m < 7 then CbShowZjl else CbShowMzj) (clear_timer (timer s) ?t))"
    using roll_stop [OF c] fields ix k by auto
  have inv: "timers_inv (clear_timer (timer s) ?t)"
    using wheel_ok_inv [OF c] by (simp add: timers_inv_clear)
  obtain i t' where st: "set_timeout d 1300 (if m < 7 then CbShowZjl else CbShowMzj) (clear_timer (timer s) ?t) = (i, t')"
    by force
  have "callback e \<noteq> CbRoll" if "find_timer t' j = Some e" for j e
    using that spinning_cleared(2) [OF sp, of j e]
    by (auto simp: find_set_timeout [OF inv st] find_clear_timer split: if_splits)
  moreover have "\<exists>j d. find_timer t' j = Some (Entry d None (if m < 7 then CbShowZjl else CbShowMzj))"
    by (intro exI [of _ i]) (simp add: find_set_timeout [OF inv st])
  moreover have "tm (roll ?c) = t'" using r st by simp
  ultimately show ?thesis
    using r unfolding stopped_def f by simp
qed

text \<open>The wheel passes the target for the first time after roll 60.\<close>

lemma first_hit:
  fixes n i0 m :: int
  assumes "0 < n" "0 \<le> m" "m < n"
  defines "j \<equiv> (m - i0 - 61) mod n"
  shows "(i0 + 61 + j) mod n = m" and "0 \<le> h \<Longrightarrow> h < j \<Longrightarrow> (i0 + 61 + h) mod n \<noteq> m"
proof -
  have "(i0 + 61 + j) mod n = (i0 + 61 + (m - i0 - 61)) mod n"
    by (simp add: j_def mod_simps)
  with assms show "(i0 + 61 + j) mod n = m" by simp
  assume h: "0 \<le> h" "h < j"
  show "(i0 + 61 + h) mod n \<noteq> m"
  proof
    assume "(i0 + 61 + h) mod n = m"
    then have "(m - i0 - 61) mod n = ((i0 + 61 + h) mod n - i0 - 61) mod n" by simp
    also have "\<dots> = h mod n" by (simp add: mod_simps algebra_simps)
    finally have "j = h mod n" by (simp add: j_def)
    moreover have "j < n" using assms by (simp add: j_def)
    ultimately show False using h by simp
  qed
qed

lemma spin_snoc: "spin (Suc k) s = wheel_fire (timer (spin k s)) (spin k s)"
  by (induction k arbitrary: s) auto

lemma spin_run:
  assumes "spinning m i0 1 s" "0 \<le> m" "m < units s"
    and "int k \<le> 59 + (m - i0 - 61) mod units s"
  shows "spinning m i0 (int k + 1) (spin k s) \<and> units (spin k s) = units s \<and> click (spin k s) = click s"
  using assms(4)
proof (induction k)
  case 0
  then show ?case using assms(1) by simp
next
  case (Suc k)
  let ?s = "spin k s"
  have IH: "spinning m i0 (int k + 1) ?s" "units ?s = units s" "click ?s = click s"
    using Suc by auto
  have "int k + 1 + 1 \<le> 60 \<or> (i0 + (int k + 1 + 1)) mod units ?s \<noteq> m"
  proof (cases "int k + 2 \<le> 60")
    case False
    then have "(i0 + 61 + (int k - 59)) mod units s \<noteq> m"
      using first_hit(2) [of "units s" m "int k - 59" i0] assms(2,3) Suc.prems by auto
    then show ?thesis using IH by (simp add: algebra_simps)
  qed simp
  from spinning_step [OF IH(1) _ this] IH show ?case
    by (simp add: spin_snoc algebra_simps del: spin.simps(2))
qed

lemma spin_stops:
  assumes "spinning m i0 1 s" "0 \<le> m" "m < units s"
  shows "stopped m (spin (nat (60 + (m - i0 - 61) mod units s)) s)"
proof -
  let ?j = "(m - i0 - 61) mod units s"
  have j: "0 \<le> ?j" using assms by simp
  let ?k = "nat (59 + ?j)"
  from spin_run [OF assms, of ?k] j have "spinning m i0 (60 + ?j) (spin ?k s)" "units (spin ?k s) = units s"
    by auto
  moreover from first_hit(1) [of "units s" m i0] assms
  have "(i0 + (60 + ?j + 1)) mod units s = m" by (simp add: algebra_simps)
  ultimately have "stopped m (wheel_fire (timer (spin ?k s)) (spin ?k s))"
    using j by (intro spinning_stop) auto
  moreover have "nat (60 + ?j) = Suc ?k" using j by simp
  ultimately show ?thesis by (simp add: spin_snoc del: spin.simps(2))
qed


section \<open>Draws\<close>

definition wheel_idle :: "wheel \<Rightarrow> bool" where
  "wheel_idle s \<longleftrightarrow> wheel_ok s \<and> times s = 0 \<and> prize s = -1 \<and> cycle s = 50 \<and> \<not> click s \<and>
     (\<forall>j e. find_timer (tm s) j = Some e \<longrightarrow> callback e \<noteq> CbRoll)"

definition prize_slot :: "int \<Rightarrow> int" where
  "prize_slot v = (if v = 1 then 0 else if v = 2 then 4 else if v = 3 then 6 else if v = 4 then 2
     else if v = 5 then 5 else if v = 6 then 1 else 7)"

lemma prize_slot_range: "0 \<le> prize_slot v \<and> prize_slot v \<le> 7"
  by (simp add: prize_slot_def)

lemma lottery_init_ok: "wheel_ok s \<Longrightarrow> lottery_init s = s"
  by (cases s) (auto simp: wheel_ok_def lottery_init_def mark_def)

lemma jiugong_idle:
  assumes "wheel_idle s"
  shows "wheel_idle (jiugong s) \<and> index (jiugong s) = index s \<and> units (jiugong s) = units s \<and>
    flag (jiugong s) = flag s \<and> myindex (jiugong s) = myindex s \<and> tm (jiugong s) = tm s"
proof -
  have "wheel_ok s" "count s = units s" "obj s" "\<not> click s"
    using assms by (auto simp: wheel_idle_def wheel_ok_def)
  then have "jiugong s = say [Hide ''#zjl'', Hide ''#mzj''] (s\<lparr>inflight := inflight s + 1\<rparr>)"
    by (simp add: jiugong_def lottery_init_ok Let_def)
  with assms show ?thesis by (simp add: wheel_idle_def)
qed

lemma on_success_fields [simp]:
  "index (on_success d s) = index s" "times (on_success d s) = times s"
  "cycle (on_success d s) = cycle s" "prize (on_success d s) = prize s"
  "units (on_success d s) = units s" "click (on_success d s) = click s"
  "tm (on_success d s) = tm s" "clock (on_success d s) = clock s"
  "wheel_ok (on_success d s) = wheel_ok s"
  by (simp_all add: on_success_def Let_def)

lemma on_success_win:
  "success d \<Longrightarrow> flag (on_success d s) = 1 \<and> myindex (on_success d s) = prize_slot (awardsValue d)"
  by (simp add: on_success_def Let_def prize_slot_def)

lemma on_success_lose:
  "\<not> success d \<Longrightarrow> flag (on_success d s) \<noteq> 1 \<and> myindex (on_success d s) = 7"
  by (simp add: on_success_def Let_def)

lemma spinning_use_one: "spinning m i0 k (use_one s) = spinning m i0 k s"
  by (simp add: spinning_def)

lemma on_complete_spins:
  assumes idle: "wheel_idle s" and f: "flag s = 1"
  shows "spinning (myindex s) (index s) 1 (on_complete s) \<and> units (on_complete s) = units s \<and>
    click (on_complete s)"
proof -
  let ?c = "s\<lparr>speed := 100\<rparr>"
  have ok: "wheel_ok ?c" using idle by (simp add: wheel_idle_def)
  have go: "\<not> (times ?c + 1 > cycle ?c + 10 \<and> prize ?c = (index ?c + 1) mod units ?c)"
    using idle by (simp add: wheel_idle_def)
  note r = roll_go [OF ok go]
  have inv: "timers_inv (tm s)" using ok wheel_ok_inv [of ?c] by simp
  have st: "set_timeout (clock s) (speed (roll ?c)) CbRoll (tm s) = (timer (roll ?c), tm (roll ?c))"
    using r by simp
  have "\<exists>d. find_timer (tm (roll ?c)) (timer (roll ?c)) = Some (Entry d None CbRoll)"
    by (simp add: find_set_timeout [OF inv st])
  moreover have "\<forall>j e. find_timer (tm (roll ?c)) j = Some e \<and> callback e = CbRoll \<longrightarrow> j = timer (roll ?c)"
    using idle by (simp add: find_set_timeout [OF inv st] wheel_idle_def)
  moreover have "times s = 0" "prize s = -1" "cycle s = 50"
    using idle by (simp_all add: wheel_idle_def)
  ultimately have "spinning (myindex s) (index s) 1 (roll ?c)"
    unfolding spinning_def using r by simp
  then have "spinning (myindex s) (index s) 1 ((use_one (roll ?c))\<lparr>click := True\<rparr>)"
    by (simp add: spinning_def)
  then show ?thesis using r f by (simp add: on_complete_def)
qed

lemma wheel_idle_inflight [simp]: "wheel_idle (s\<lparr>inflight := n\<rparr>) = wheel_idle s"
  by (simp add: wheel_idle_def)

lemma wheel_idle_on_success [simp]: "wheel_idle (on_success d s) = wheel_idle s"
  by (simp add: wheel_idle_def)

lemma answer_spins:
  assumes idle: "wheel_idle s"
    and f: "case r of None \<Rightarrow> flag s = 1 \<and> myindex s = m | Some d \<Rightarrow> success d \<and> prize_slot (awardsValue d) = m"
  shows "spinning m (index s) 1 (answer r (jiugong s)) \<and> units (answer r (jiugong s)) = units s \<and>
    click (answer r (jiugong s))"
proof -
  let ?a = "(jiugong s)\<lparr>inflight := inflight (jiugong s) - 1\<rparr>"
  let ?b = "case r of None \<Rightarrow> ?a | Some d \<Rightarrow> on_success d ?a"
  have "wheel_idle ?b" "flag ?b = 1" "myindex ?b = m" "index ?b = index s" "units ?b = units s"
    using jiugong_idle [OF idle] f on_success_win by (auto split: option.splits)
  moreover have "answer r (jiugong s) = on_complete ?b" unfolding answer_def Let_def ..
  ultimately show ?thesis using on_complete_spins [of ?b] by simp
qed

text \<open>
  C2: a draw lands on the prize the server chose. From an idle wheel with its eight units, a
  tap and a successful answer start a chain of rolls that stops by itself, on the position of
  the answer's award, after between 61 and 68 rolls in all; the wheel accepts taps again, no
  roll is left pending, and the overlay that will show is the winning one for positions below
  7 and the losing one for position 7.
\<close>

theorem lottery_draw_lands:
  assumes "wheel_idle s" "units s = 8" "success d"
  defines "m \<equiv> prize_slot (awardsValue d)"
  shows "stopped m (spin (nat (60 + (m - index s - 61) mod 8)) (answer (Some d) (jiugong s)))"
  using answer_spins [of s m "Some d"] spin_stops [of m "index s" "answer (Some d) (jiugong s)"]
    prize_slot_range [of "awardsValue d"] assms by simp

text \<open>
  A request that fails (no \<open>success\<close> callback, only \<open>complete\<close>) is treated as a draw with
  the outcome of the previous one: the stale \<open>flag\<close> starts the wheel, which lands on the
  previous position, and the stale prize is announced again.
\<close>

theorem lottery_failed_request_replays:
  assumes "wheel_idle s" "flag s = 1" "0 \<le> myindex s" "myindex s < units s"
  shows "stopped (myindex s) (spin (nat (60 + (myindex s - index s - 61) mod units s))
    (answer None (jiugong s)))"
  using answer_spins [of s "myindex s" None] spin_stops [of "myindex s" "index s" "answer None (jiugong s)"]
    assms by simp

lemma spinning_forever:
  assumes "spinning m i0 1 s" "units s \<le> m"
  shows "spinning m i0 (int k + 1) (spin k s) \<and> units (spin k s) = units s \<and> click (spin k s) = click s"
proof (induction k)
  case 0
  then show ?case using assms(1) by simp
next
  case (Suc k)
  have "(i0 + (int k + 1 + 1)) mod units s < units s"
    using assms(1) by (auto simp: spinning_def wheel_ok_def)
  with assms(2) have "(i0 + (int k + 1 + 1)) mod units s \<noteq> m" by simp
  with Suc spinning_step [of m i0 "int k + 1" "spin k s"] show ?case
    by (simp add: spin_snoc algebra_simps del: spin.simps(2))
qed

text \<open>
  The wheel stops only because the target is one of its units. With seven units or fewer a
  losing draw (position 7) rolls for ever: however often the timer fires, another roll is
  pending and taps stay blocked.
\<close>

theorem lottery_short_wheel_never_stops:
  assumes "wheel_idle s" "units s \<le> 7" "success d" "awardsValue d \<notin> {1..6}"
  shows "times (spin k (answer (Some d) (jiugong s))) = int k + 1 \<and>
    click (spin k (answer (Some d) (jiugong s))) \<and>
    (\<exists>i e. find_timer (tm (spin k (answer (Some d) (jiugong s)))) i = Some e \<and> callback e = CbRoll)"
proof -
  have "prize_slot (awardsValue d) = 7" using assms(4) by (auto simp: prize_slot_def)
  with answer_spins [of s 7 "Some d"] assms
  have "spinning 7 (index s) 1 (answer (Some d) (jiugong s))"
    "units (answer (Some d) (jiugong s)) \<le> 7" "click (answer (Some d) (jiugong s))" by auto
  with spinning_forever [OF this(1,2), of k] show ?thesis
    by (auto simp: spinning_def) force
qed


section \<open>Any interleaving of taps, answers and timers\<close>

datatype wheel_event = Tap | Answer "award_reply option" | Timer nat

fun wheel_step :: "wheel_event \<Rightarrow> wheel \<Rightarrow> wheel" where
  "wheel_step Tap s = jiugong s"
| "wheel_step (Answer r) s = (if inflight s = 0 then s else answer r s)"
| "wheel_step (Timer i) s = wheel_fire i s"

inductive wheel_reachable :: "int \<Rightarrow> wheel \<Rightarrow> bool" for n :: int where
  loaded: "wheel_reachable n (lottery_init (lottery0 n c m))"
| step: "wheel_reachable n s \<Longrightarrow> wheel_reachable n (wheel_step e s)"

lemma roll_ok: "wheel_ok s \<Longrightarrow> wheel_ok (roll s) \<and> units (roll s) = units s"
  using roll_stop [of s] roll_go [of s] by blast

lemma wheel_fire_ok:
  assumes "wheel_ok s" shows "wheel_ok (wheel_fire i s) \<and> units (wheel_fire i s) = units s"
proof (cases "find_timer (tm s) i")
  case (Some e)
  then obtain c t where ft: "fire i (tm s) = Some (c, t)" by (simp add: fire_def)
  let ?c = "s\<lparr>tm := t, clock := max (clock s) (due e)\<rparr>"
  have c: "wheel_ok ?c"
    using assms fire_inv [OF wheel_ok_inv [OF assms] ft] by (simp add: wheel_ok_def)
  show ?thesis
    using Some ft c roll_ok [OF c] by (simp add: wheel_fire_def wheel_run_cb_def split: wheel_cb.split)
qed (use assms in \<open>simp add: wheel_fire_def\<close>)

lemma jiugong_ok: "wheel_ok s \<Longrightarrow> wheel_ok (jiugong s) \<and> units (jiugong s) = units s"
  by (simp add: jiugong_def lottery_init_ok Let_def)

lemma on_complete_ok: "wheel_ok s \<Longrightarrow> wheel_ok (on_complete s) \<and> units (on_complete s) = units s"
  using roll_ok [of "s\<lparr>speed := 100\<rparr>"] by (simp add: on_complete_def)

lemma answer_ok:
  assumes "wheel_ok s" shows "wheel_ok (answer r s) \<and> units (answer r s) = units s"
  using assms by (cases r) (simp_all add: answer_def Let_def on_complete_ok)

lemma wheel_step_ok: "wheel_ok s \<Longrightarrow> wheel_ok (wheel_step e s) \<and> units (wheel_step e s) = units s"
  by (cases e) (simp_all add: jiugong_ok answer_ok wheel_fire_ok)

lemma loaded_ok: "0 < n \<Longrightarrow> wheel_ok (lottery_init (lottery0 n c m)) \<and> units (lottery_init (lottery0 n c m)) = n"
  by (simp add: wheel_ok_def lottery_init_def lottery0_def mark_def)

lemma reachable_ok: "wheel_reachable n s \<Longrightarrow> 0 < n \<Longrightarrow> wheel_ok s \<and> units s = n"
  by (induction rule: wheel_reachable.induct) (simp_all add: loaded_ok wheel_step_ok)

text \<open>
  C17: whatever the order of taps, answers (successful or failed, also of several requests in
  flight) and timers, the highlighted unit is always exactly the one at the current index, and
  the index stays on the wheel.
\<close>

theorem lottery_one_unit_lit:
  assumes "wheel_reachable n s" "0 < n"
  shows "lit s = {index s} \<and> 0 \<le> index s \<and> index s < n"
  using reachable_ok [OF assms] by (auto simp: wheel_ok_def)

lemma counter_el_roll [simp]: "counter_el (roll x) = counter_el x"
proof -
  have a: "counter_el (mark i s) = counter_el s" "counter_el (unmark i s) = counter_el s" for i s
    by (simp_all add: mark_def unmark_def)
  have b: "counter_el (lottery_roll s) = counter_el s" for s
    by (simp add: lottery_roll_def Let_def a)
  have c: "counter_el (roll_speed s) = counter_el s" for s
    by (simp add: roll_speed_def Let_def)
  have d: "counter_el (snd (start_timer n cb s)) = counter_el s" for n cb s
    by (simp add: start_timer_def Let_def split: prod.split)
  show ?thesis
    by (simp add: roll_def Let_def b d case_prod_beta) (simp add: b c)
qed

text \<open>
  The tap guard is set only when the answer arrives. Two taps before the first answer send
  two requests; both winning answers then start a chain, so that two rolls are pending at once,
  and two draws are taken off the daily counter.
\<close>

theorem lottery_double_tap_two_chains:
  assumes idle: "wheel_idle s" and ok: "success d" "success d'" and c: "counter_el s = Some (Num k)"
  shows "let s2 = answer (Some d') (answer (Some d) (jiugong (jiugong s))) in
    counter_el s2 = Some (Num (k - 2)) \<and>
    (\<exists>i j d1 d2. i \<noteq> j \<and> find_timer (tm s2) i = Some (Entry d1 None CbRoll) \<and>
       find_timer (tm s2) j = Some (Entry d2 None CbRoll))"
proof -
  let ?s0 = "jiugong s"
  have idle0: "wheel_idle ?s0" using jiugong_idle [OF idle] by simp
  have c0: "counter_el (jiugong ?s0) = Some (Num k)"
    using c jiugong_idle [OF idle] idle idle0
    by (simp add: jiugong_def lottery_init_ok wheel_idle_def Let_def say_def)
  let ?s1 = "answer (Some d) (jiugong ?s0)"
  have sp: "spinning (prize_slot (awardsValue d)) (index ?s0) 1 ?s1"
    using answer_spins [OF idle0, of "prize_slot (awardsValue d)" "Some d"] ok(1) by simp
  have cc: "counter_el (answer (Some e) x) = Some (Num (a - 1))"
    if "success e" "counter_el x = Some (Num a)" for e x a
    using that on_success_win [of e "x\<lparr>inflight := inflight x - 1\<rparr>"]
    by (simp add: answer_def on_complete_def use_one_def Let_def on_success_def say_def)
  have "counter_el (answer (Some d') ?s1) = Some (Num (k - 2))"
    using cc [OF ok(2) cc [OF ok(1) c0]] by simp
  moreover
  let ?b = "(on_success d' (?s1\<lparr>inflight := inflight ?s1 - 1\<rparr>))\<lparr>speed := 100\<rparr>"
  have okb: "wheel_ok ?b" using sp by (simp add: spinning_def)
  have "times ?b = 1" "cycle ?b = 50" using sp by (auto simp: spinning_def)
  then have r: "set_timeout (clock ?b) (speed (roll ?b)) CbRoll (tm ?b) = (timer (roll ?b), tm (roll ?b))"
    using roll_go [OF okb] by simp
  have t2: "tm (answer (Some d') ?s1) = tm (roll ?b)"
    using on_success_win [OF ok(2), of "?s1\<lparr>inflight := inflight ?s1 - 1\<rparr>"]
    by (simp add: answer_def on_complete_def Let_def)
  have inv: "timers_inv (tm ?b)" using okb by (rule wheel_ok_inv)
  obtain dl where old: "find_timer (tm ?b) (timer ?s1) = Some (Entry dl None CbRoll)"
    using sp by (auto simp: spinning_def)
  have ne: "timer (roll ?b) \<noteq> timer ?s1"
    using set_timer_fresh(1) [OF inv r] old by auto
  have "find_timer (tm (roll ?b)) (timer ?s1) = Some (Entry dl None CbRoll)"
    "find_timer (tm (roll ?b)) (timer (roll ?b)) = Some (Entry (clock ?b + speed (roll ?b)) None CbRoll)"
    unfolding find_set_timeout [OF inv r] using ne old by simp_all
  with ne t2 have "\<exists>i j d1 d2. i \<noteq> j \<and> find_timer (tm (answer (Some d') ?s1)) i = Some (Entry d1 None CbRoll) \<and>
       find_timer (tm (answer (Some d') ?s1)) j = Some (Entry d2 None CbRoll)" by metis
  ultimately show ?thesis by (simp add: Let_def)
qed

section \<open>Concrete draws\<close>

definition page8 :: wheel where
  "page8 = lottery_init (lottery0 8 (Some (Num 5)) None)"

definition reply0 :: "int \<Rightarrow> award_reply" where
  "reply0 v = \<lparr>success = True, awardsValue = v, awardsName = js ''A'', prize_name = js ''B'',
     basePath = [], jwid = [], img = [], recordId = js ''1'', reply_obj = [], msg = []\<rparr>"

lemma page8_idle [simp]: "wheel_idle page8"
  using loaded_ok [of 8 "Some (Num 5)" None]
  by (simp add: wheel_idle_def page8_def lottery_init_def lottery0_def mark_def)

lemma page8_fields [simp]:
  "units page8 = 8" "index page8 = 0" "flag page8 = 1" "myindex page8 = 7" "counter_el page8 = Some (Num 5)"
  by (simp_all add: page8_def lottery_init_def lottery0_def mark_def)

theorem lottery_draw_lands_witness:
  "stopped 6 (spin 61 (answer (Some (reply0 3)) (jiugong page8)))"
  using lottery_draw_lands [of page8 "reply0 3"] by (simp add: reply0_def prize_slot_def)

theorem lottery_failed_request_replays_witness:
  "stopped 7 (spin 62 (answer None (jiugong page8)))"
  using lottery_failed_request_replays [of page8] by simp

definition page6 :: wheel where
  "page6 = lottery_init (lottery0 6 None None)"

theorem lottery_short_wheel_never_stops_witness:
  "wheel_idle page6 \<and> times (spin 100 (answer (Some (reply0 0)) (jiugong page6))) = 101"
proof -
  have "wheel_idle page6"
    using loaded_ok [of 6 None None]
    by (simp add: wheel_idle_def page6_def lottery_init_def lottery0_def mark_def)
  moreover have "units page6 = 6"
    by (simp add: page6_def lottery_init_def lottery0_def mark_def)
  ultimately show ?thesis
    using lottery_short_wheel_never_stops [of page6 "reply0 0" 100] by (simp add: reply0_def)
qed

theorem lottery_one_unit_lit_witness:
  "lit (wheel_step Tap page8) = {index (wheel_step Tap page8)}"
proof -
  have "wheel_reachable 8 (wheel_step Tap page8)"
    unfolding page8_def by (intro wheel_reachable.intros)
  from lottery_one_unit_lit [OF this] show ?thesis by simp
qed

theorem lottery_double_tap_two_chains_witness:
  "counter_el (answer (Some (reply0 1)) (answer (Some (reply0 1)) (jiugong (jiugong page8)))) = Some (Num 3)"
  using lottery_double_tap_two_chains [of page8 "reply0 1" "reply0 1" 5]
  by (simp add: reply0_def Let_def)

end
