(* ===== verification/Forms.thy ===== *)
theory Forms
  imports Js_Dom
begin

text \<open>
  Form helpers: renumbering of table rows (goldeneggs/js/common.js, wxActGoldeneggs.js and
  plug-in/js/common.js), form serialisation, date and amount formats (plug-in/js/common.js),
  default texts (js_util.js), phone checks, and the template and array helpers of
  template/hd0921/js/util.js.
\<close>

section \<open>Row renumbering\<close>

definition idx_mark :: jstr where
  "idx_mark = js ''#index#''"

text \<open>
  The renaming all the \<open>resetIndex\<close> variants share: a template name gets its mark replaced,
  any other name the text between its first brackets.
\<close>

definition reindex :: "jstr \<Rightarrow> nat \<Rightarrow> jstr" where
  "reindex name i =
     (if indexOf name idx_mark \<ge> 0 then replace1 name idx_mark (nat_str i)
      else
        let s = indexOf name (js ''[''); e = indexOf name (js '']'');
            new_name = substring name (s + 1) e
        in replace1 name new_name (nat_str i))"

text \<open>
  goldeneggs/js/common.js: every cell of row \<open>i\<close> reads the name of its first child element and
  writes the new one to all its children.
\<close>

fun reset_cell :: "nat \<Rightarrow> jstr option list \<Rightarrow> jstr option list" where
  "reset_cell i [] = []"
| "reset_cell i (c # cs) =
     (case c of None \<Rightarrow> c # cs
      | Some name \<Rightarrow> map (\<lambda>_. Some (reindex name i)) (c # cs))"

definition resetIndex_table :: "jstr option list list list \<Rightarrow> jstr option list list list" where
  "resetIndex_table rows = map (\<lambda>(i, row). map (reset_cell i) row) (enumerate 0 rows)"

text \<open>wxActGoldeneggs.js: the controls of a row, the row itself with its number cells.\<close>

record control =
  c_name :: "jstr option"
  c_id :: "jstr option"
  c_onclick :: "jstr option"

record trow =
  controls :: "control list"
  xh :: jstr
  picked :: bool

definition reset_control :: "nat \<Rightarrow> control \<Rightarrow> control" where
  "reset_control i c =
     c\<lparr>c_name := map_option (\<lambda>name. reindex name i) (c_name c),
       c_id := map_option (\<lambda>n. reindex n i) (c_id c),
       c_onclick := map_option (\<lambda>f. if indexOf f idx_mark \<ge> 0
         then replace_all f idx_mark (nat_str i) else f) (c_onclick c)\<rparr>"

definition resetTrNum :: "trow list \<Rightarrow> trow list" where
  "resetTrNum rows =
     map (\<lambda>(i, r). r\<lparr>controls := map (reset_control i) (controls r), xh := nat_str (i + 1)\<rparr>)
       (enumerate 0 rows)"

definition msg_six_prizes :: jstr where
  "msg_six_prizes = [26368, 22810, 33021, 28155, 21152, 20845, 20010, 22870, 21697]"

definition add_click :: "trow \<Rightarrow> trow list \<Rightarrow> trow list \<times> ui list" where
  "add_click tpl rows =
     (if length rows < 6 then (resetTrNum (rows @ [tpl]), []) else (rows, [Alert msg_six_prizes]))"

definition del_click :: "trow list \<Rightarrow> trow list" where
  "del_click rows = resetTrNum (filter (\<lambda>r. \<not> picked r) rows)"

text \<open>
  plug-in/js/common.js: a box has controls (with the title labels reached from each) and a
  second pass over its select elements. An absent id makes the second pass throw.
\<close>

record box_input =
  b_name :: "jstr option"
  b_labels :: "nat list"

record box_select =
  s_id :: "jstr option"
  s_labels :: "nat list"

record box =
  inputs :: "box_input list"
  selects :: "box_select list"
  titles :: "jstr list"

datatype bound = ChangeTpp nat | ChangePm nat

datatype form_error = TypeError

definition retitle :: "nat \<Rightarrow> nat list \<Rightarrow> jstr list \<Rightarrow> jstr list" where
  "retitle i ls ts = fold (\<lambda>l ts. if l < length ts then ts[l := reindex (ts ! l) (i + 1)] else ts) ls ts"

definition reset_box_inputs :: "nat \<Rightarrow> box \<Rightarrow> box" where
  "reset_box_inputs i b =
     b\<lparr>inputs := map (\<lambda>x. x\<lparr>b_name := map_option (\<lambda>n. reindex n i) (b_name x)\<rparr>) (inputs b),
       titles := fold (\<lambda>x ts. retitle i (b_labels x) ts) (inputs b) (titles b)\<rparr>"

definition reset_select_id :: "nat \<Rightarrow> jstr \<Rightarrow> jstr" where
  "reset_select_id i nid =
     (if indexOf nid idx_mark \<ge> 0 then replace1 nid idx_mark (nat_str i) else nid)"

text \<open>
  The handlers are bound by the id read at the start of the round (it is not read again
  after the rename).
\<close>

fun reset_box_selects ::
  "nat \<Rightarrow> box_select list \<Rightarrow> jstr list \<Rightarrow> form_error + (box_select list \<times> jstr list \<times> bound list)" where
  "reset_box_selects i [] ts = Inr ([], ts, [])"
| "reset_box_selects i (x # xs) ts =
     (let ts1 = retitle i (s_labels x) ts in
      case s_id x of
        None \<Rightarrow> Inl TypeError
      | Some nid \<Rightarrow>
          (case reset_box_selects i xs ts1 of
             Inl e \<Rightarrow> Inl e
           | Inr (ys, ts2, hs) \<Rightarrow>
               Inr (x\<lparr>s_id := Some (reset_select_id i nid)\<rparr> # ys, ts2,
                 (if indexOf nid (js ''tppCode'') \<ge> 0 then [ChangeTpp i] else []) @
                 (if indexOf nid (js ''pmCode'') \<ge> 0 then [ChangePm i] else []) @ hs)))"

definition reset_box :: "nat \<Rightarrow> box \<Rightarrow> form_error + (box \<times> bound list)" where
  "reset_box i b =
     (case reset_box_selects i (selects b) (titles b) of
        Inl e \<Rightarrow> Inl e
      | Inr (ss, ts, hs) \<Rightarrow> Inr (b\<lparr>selects := ss, titles := ts\<rparr>, hs))"

fun reset_boxes :: "nat \<Rightarrow> box list \<Rightarrow> form_error + (box list \<times> bound list)" where
  "reset_boxes i [] = Inr ([], [])"
| "reset_boxes i (b # bs) =
     (case reset_box i b of
        Inl e \<Rightarrow> Inl e
      | Inr (b', hs) \<Rightarrow>
          (case reset_boxes (i + 1) bs of
             Inl e \<Rightarrow> Inl e
           | Inr (bs', hs') \<Rightarrow> Inr (b' # bs', hs @ hs')))"

definition resetIndex_boxes :: "box list \<Rightarrow> form_error + (box list \<times> bound list)" where
  "resetIndex_boxes bs = reset_boxes 0 (map (\<lambda>(i, b). reset_box_inputs i b) (enumerate 0 bs))"

section \<open>Form serialisation\<close>

text \<open>
  Property reads on a fresh object also see the methods every object inherits;
  \<open>proto_names\<close> are their names.
\<close>

datatype fval = Str jstr | Arr "fval list" | Builtin jstr

definition proto_names :: "jstr list" where
  "proto_names = map js [''constructor'', ''hasOwnProperty'', ''isPrototypeOf'',
     ''propertyIsEnumerable'', ''toLocaleString'', ''toString'', ''valueOf'',
     ''__defineGetter__'', ''__defineSetter__'', ''__lookupGetter__'', ''__lookupSetter__'', ''__proto__'']"

definition read_prop :: "fval option \<Rightarrow> jstr \<Rightarrow> fval option" where
  "read_prop v n =
     (case v of Some w \<Rightarrow> Some w
      | None \<Rightarrow> if n \<in> set proto_names then Some (Builtin n) else None)"

definition add_field :: "fval option \<Rightarrow> jstr \<times> jstr \<Rightarrow> fval" where
  "add_field old e =
     (case read_prop old (fst e) of
        None \<Rightarrow> Str (snd e)
      | Some (Arr vs) \<Rightarrow> Arr (vs @ [Str (snd e)])
      | Some w \<Rightarrow> Arr [w, Str (snd e)])"

definition serialize_step :: "jstr \<times> jstr \<Rightarrow> fval jobj \<Rightarrow> fval jobj" where
  "serialize_step e ob = obj_put (fst e) (add_field (obj_get ob (fst e)) e) ob"

definition serializeObject :: "(jstr \<times> jstr) list \<Rightarrow> fval jobj" where
  "serializeObject fs = fold serialize_step fs []"

section \<open>Dates\<close>

record jsdate =
  getFullYear :: int
  getMonth :: nat
  getDate :: nat
  getHours :: nat
  getMinutes :: nat
  getSeconds :: nat
  getMilliseconds :: nat

definition substr_from :: "'a list \<Rightarrow> int \<Rightarrow> 'a list" where
  "substr_from s k = (if 0 \<le> k then drop (nat k) s else drop (nat (int (length s) + k)) s)"

definition first_run :: "nat \<Rightarrow> jstr \<Rightarrow> jstr" where
  "first_run u s = takeWhile (\<lambda>x. x = u) (dropWhile (\<lambda>x. x \<noteq> u) s)"

definition date_fields :: "jsdate \<Rightarrow> (nat \<times> bool \<times> nat) list" where
  "date_fields d =
     [(77, True, getMonth d + 1), (100, True, getDate d), (104, True, getHours d),
      (109, True, getMinutes d), (115, True, getSeconds d), (113, True, (getMonth d + 3) div 3),
      (83, False, getMilliseconds d)]"

definition date_year :: "jsdate \<Rightarrow> jstr \<Rightarrow> jstr" where
  "date_year d fmt =
     (if 121 \<in> set fmt then
        let g = first_run 121 fmt
        in replace1 fmt g (substr_from (int_str (getFullYear d)) (4 - int (length g)))
      else fmt)"

definition date_field :: "nat \<times> bool \<times> nat \<Rightarrow> jstr \<Rightarrow> jstr" where
  "date_field f fmt =
     (case f of (u, many, v) \<Rightarrow>
        if u \<in> set fmt then
          let g = (if many then first_run u fmt else [u])
          in replace1 fmt g
               (if length g = 1 then nat_str v
                else substr_from (js ''00'' @ nat_str v) (int (length (nat_str v))))
        else fmt)"

definition default_format :: jstr where
  "default_format = js ''yyyy-MM-dd hh:mm:ss''"

definition date_format :: "jsdate option \<Rightarrow> jstr option \<Rightarrow> jstr" where
  "date_format date fmt =
     (case date of
        None \<Rightarrow> []
      | Some d \<Rightarrow>
          let f = (case fmt of None \<Rightarrow> default_format | Some f \<Rightarrow> if f = [] then default_format else f)
          in fold date_field (date_fields d) (date_year d f))"

definition FormatDateTime :: "('a \<Rightarrow> jsdate option) \<Rightarrow> 'a option \<Rightarrow> jstr option \<Rightarrow> jstr" where
  "FormatDateTime new_date obj farmat =
     (case obj of None \<Rightarrow> [] | Some x \<Rightarrow> date_format (new_date x) farmat)"

section \<open>Amounts and phone numbers\<close>

definition js_space :: "nat \<Rightarrow> bool" where
  "js_space u \<longleftrightarrow> u \<in> {9..13} \<or> u \<in> {32, 160, 5760, 8232, 8233, 8239, 8287, 12288, 65279} \<or> u \<in> {8192..8202}"

text \<open>
  \<open>parseFloat(s) == 0\<close>: the numeral read has only zero digits (numbers so small that they
  round to zero, below \<open>10 ^ -323\<close>, are not told apart).
\<close>

definition parseFloat_is_zero :: "jstr \<Rightarrow> bool" where
  "parseFloat_is_zero s =
     (let t = dropWhile js_space s;
          t = (case t of [] \<Rightarrow> [] | u # r \<Rightarrow> if u = 43 \<or> u = 45 then r else t);
          ip = takeWhile is_digit t; r = dropWhile is_digit t;
          fp = (case r of [] \<Rightarrow> [] | u # f \<Rightarrow> if u = 46 then takeWhile is_digit f else [])
      in ip @ fp \<noteq> [] \<and> (\<forall>u\<in>set (ip @ fp). u = 48))"

text \<open>The pattern \<open>^([1-9][\d]{0,7}|0)(\.[\d]{1,2})?$\<close>.\<close>

definition s_currency :: "jstr \<Rightarrow> bool" where
  "s_currency s =
     (let ip = takeWhile (\<lambda>u. u \<noteq> 46) s; r = dropWhile (\<lambda>u. u \<noteq> 46) s
      in (ip = [48] \<or> ip \<noteq> [] \<and> hd ip \<noteq> 48 \<and> length ip \<le> 8 \<and> list_all is_digit ip) \<and>
         (r = [] \<or> 1 \<le> length (tl r) \<and> length (tl r) \<le> 2 \<and> list_all is_digit (tl r)))"

definition msg_zero_amount :: jstr where
  "msg_zero_amount = [37329, 39069, 19981, 33021, 20026, 48]"

definition msg_bad_number :: jstr where
  "msg_bad_number = [35831, 36755, 20837, 27491, 30830, 30340, 25968, 23383, 12290]"

definition amountIsNotZero :: "string \<Rightarrow> jstr \<Rightarrow> bool \<times> ui list" where
  "amountIsNotZero obj amount =
     (if parseFloat_is_zero amount
      then (False, [SetVal obj [], LayerAlert msg_zero_amount 0, Focus obj])
      else (True, []))"

definition isAmount :: "string \<Rightarrow> jstr \<Rightarrow> bool \<times> ui list" where
  "isAmount obj amount =
     (if amount = [] then (False, [])
      else if parseFloat_is_zero amount
      then (False, [SetVal obj [], LayerAlert msg_zero_amount 0, Focus obj])
      else if \<not> s_currency amount
      then (False, [SetVal obj [], LayerAlert msg_bad_number 0, Focus obj])
      else (True, []))"

text \<open>\<open>$.escapeHTML\<close>: the markup of a text node (ampersand, angle brackets, no-break space).\<close>

definition escape_unit :: "nat \<Rightarrow> jstr" where
  "escape_unit u =
     (if u = 38 then js ''&amp;'' else if u = 60 then js ''&lt;'' else if u = 62 then js ''&gt;''
      else if u = 160 then js ''&nbsp;'' else [u])"

definition escapeHTML :: "jstr option \<Rightarrow> jstr" where
  "escapeHTML obj = (case obj of None \<Rightarrow> [] | Some s \<Rightarrow> concat (map escape_unit s))"

text \<open>The pattern \<open>^1((3\d)|(4[579])|(5[012356789])|(7[01235678])|(8\d))\d{8}$\<close>.\<close>

definition isMobile :: "jstr \<Rightarrow> bool" where
  "isMobile s \<longleftrightarrow>
     (case s of
        a # b # c # r \<Rightarrow>
          a = 49 \<and>
          (b = 51 \<and> is_digit c \<or> b = 52 \<and> c \<in> set (js ''579'') \<or> b = 53 \<and> c \<in> set (js ''012356789'') \<or>
           b = 55 \<and> c \<in> set (js ''01235678'') \<or> b = 56 \<and> is_digit c) \<and>
          length r = 8 \<and> list_all is_digit r
      | _ \<Rightarrow> False)"

section \<open>Default texts of inputs\<close>

record dfield =
  d_val :: jstr
  d_color :: string

definition setDefauleValue :: "dfield \<Rightarrow> jstr \<times> dfield" where
  "setDefauleValue f = (d_val f, f\<lparr>d_color := ''#9f9f9f''\<rparr>)"

definition default_focus :: "jstr \<Rightarrow> dfield \<Rightarrow> dfield" where
  "default_focus dv f = (if d_val f = dv then f\<lparr>d_color := ''#555555''\<rparr> else f)"

definition default_blur :: "jstr \<Rightarrow> dfield \<Rightarrow> dfield" where
  "default_blur dv f =
     (let f = (if d_val f = [] then f\<lparr>d_val := dv, d_color := ''#9f9f9f''\<rparr> else f)
      in if d_val f = dv then f\<lparr>d_color := ''#9f9f9f''\<rparr> else f)"

section \<open>Templates and arrays\<close>

definition line_terminator :: "nat \<Rightarrow> bool" where
  "line_terminator u \<longleftrightarrow> u \<in> {10, 13, 8232, 8233}"

text \<open>
  The lazy group after an opening brace: at least \<open>k\<close> units that are not line terminators,
  up to the first closing brace after them.
\<close>

fun brace_body :: "nat \<Rightarrow> jstr \<Rightarrow> (jstr \<times> jstr) option" where
  "brace_body k [] = None"
| "brace_body k (x # xs) =
     (if k = 0 \<and> x = 125 then Some ([], xs)
      else if line_terminator x then None
      else map_option (\<lambda>(g, r). (x # g, r)) (brace_body (k - 1) xs))"

lemma brace_body_length: "brace_body k s = Some (g, r) \<Longrightarrow> length r < length s"
proof (induction k s arbitrary: g rule: brace_body.induct)
  case (2 k x xs)
  then show ?case by (fastforce split: if_splits)
qed simp

function brace_replace :: "nat \<Rightarrow> (jstr \<Rightarrow> jstr) \<Rightarrow> jstr \<Rightarrow> jstr" where
  "brace_replace k f [] = []"
| "brace_replace k f (x # xs) =
     (if x = 123 then
        (case brace_body k xs of
           None \<Rightarrow> x # brace_replace k f xs
         | Some (g, r) \<Rightarrow> f g @ brace_replace k f r)
      else x # brace_replace k f xs)"
  by pat_completeness auto
termination
  by (relation "measure (\<lambda>(k, f, s). length s)") (auto dest: brace_body_length)

text \<open>
  \<open>Util.template\<close>: one copy of the template per element of \<open>json\<close>. \<open>prop\<close> and \<open>txt\<close> read a
  property of an element and the element itself as text; \<open>inherited\<close> is the text of a method that
  every object inherits (the \<open>in\<close> test finds those as well); \<open>json2\<close> is the object the callback
  returned last (empty without a callback).
\<close>

definition template_value ::
  "('e \<Rightarrow> jstr \<Rightarrow> jstr option) \<Rightarrow> ('e \<Rightarrow> jstr) \<Rightarrow> (jstr \<Rightarrow> jstr) \<Rightarrow> jstr jobj \<Rightarrow> 'e \<Rightarrow> jstr \<Rightarrow> jstr" where
  "template_value prop txt inherited json2 e k =
     (case obj_get json2 k of
        Some v \<Rightarrow> v
      | None \<Rightarrow>
          if k \<in> set proto_names then inherited k
          else (case prop e k of None \<Rightarrow> txt e | Some v \<Rightarrow> v))"

fun template_loop ::
  "('e \<Rightarrow> jstr \<Rightarrow> jstr option) \<Rightarrow> ('e \<Rightarrow> jstr) \<Rightarrow> (jstr \<Rightarrow> jstr) \<Rightarrow> jstr \<Rightarrow>
   (jstr \<Rightarrow> 'e \<Rightarrow> nat \<Rightarrow> jstr jobj) option \<Rightarrow> nat \<Rightarrow> (jstr \<times> 'e) list \<Rightarrow> jstr list" where
  "template_loop prop txt inherited tpl fn i [] = []"
| "template_loop prop txt inherited tpl fn i ((el, e) # json) =
     (let json2 = (case fn of None \<Rightarrow> [] | Some f \<Rightarrow> f el e i)
      in brace_replace 1 (template_value prop txt inherited json2 e) tpl
         # template_loop prop txt inherited tpl fn (i + 1) json)"

definition Util_template ::
  "('e \<Rightarrow> jstr \<Rightarrow> jstr option) \<Rightarrow> ('e \<Rightarrow> jstr) \<Rightarrow> (jstr \<Rightarrow> jstr) \<Rightarrow> jstr \<Rightarrow> (jstr \<times> 'e) list \<Rightarrow>
   (jstr \<Rightarrow> 'e \<Rightarrow> nat \<Rightarrow> jstr jobj) option \<Rightarrow> jstr" where
  "Util_template prop txt inherited tpl json fn = concat (template_loop prop txt inherited tpl fn 0 json)"

text \<open>
  \<open>Util.unique\<close>: \<open>key\<close> is the callback (or the identity) followed by the conversion of the key
  to a property name; storing under \<open>__proto__\<close> a number has no effect.
\<close>

fun unique_loop :: "('a \<Rightarrow> jstr) \<Rightarrow> 'a list \<Rightarrow> nat jobj \<Rightarrow> 'a list \<Rightarrow> 'a list" where
  "unique_loop key [] obj ret = ret"
| "unique_loop key (item # arr) obj ret =
     (if obj_get obj (key item) \<noteq> Some 1 then
        unique_loop key arr
          (if key item = js ''__proto__'' then obj else obj_put (key item) 1 obj) (ret @ [item])
      else unique_loop key arr obj ret)"

definition Util_unique :: "('a \<Rightarrow> jstr) \<Rightarrow> 'a list \<Rightarrow> 'a list" where
  "Util_unique key arr = unique_loop key arr [] []"


section \<open>Renumbering\<close>

text \<open>
  A row field: a prefix without digits, brackets or hash, then the index (or its mark) in
  brackets, then a rest without hash.
\<close>

definition field_name :: "jstr \<Rightarrow> nat \<Rightarrow> jstr \<Rightarrow> jstr" where
  "field_name p i q = p @ js ''['' @ nat_str i @ js '']'' @ q"

definition name_shape :: "jstr \<Rightarrow> jstr \<Rightarrow> jstr \<Rightarrow> jstr \<Rightarrow> bool" where
  "name_shape name p c q \<longleftrightarrow> name = p @ js ''['' @ c @ js '']'' @ q \<and>
     (\<forall>u\<in>set p. \<not> is_digit u \<and> u \<noteq> 91 \<and> u \<noteq> 93 \<and> u \<noteq> 35) \<and> 35 \<notin> set q \<and>
     (c = idx_mark \<or> c \<noteq> [] \<and> (\<forall>u\<in>set c. is_digit u))"

lemma js_brackets: "js ''['' = [91]" "js '']'' = [93]"
  by (simp_all add: js_def)

lemma idx_mark_units: "idx_mark = [35, 105, 110, 100, 101, 120, 35]"
  by (simp add: idx_mark_def js_def)

lemma digit_units: "is_digit u \<Longrightarrow> u \<noteq> 91 \<and> u \<noteq> 93 \<and> u \<noteq> 35 \<and> u \<noteq> 46"
  by (auto simp: is_digit_def)

lemma idx_mark_absent: "35 \<notin> set s \<Longrightarrow> \<not> sublist idx_mark s"
  using sublist_set [of idx_mark s] by (auto simp: idx_mark_units)

lemma reindex_shape:
  assumes "name_shape name p c q"
  shows "reindex name i = field_name p i q"
proof (cases "c = idx_mark")
  case True
  have n: "name = (p @ [91]) @ idx_mark @ [93] @ q"
    using assms True by (simp add: name_shape_def js_brackets)
  have "index_at idx_mark ((p @ [91]) @ idx_mark @ [93] @ q) = Some (length (p @ [91]))"
    using assms by (intro index_at_first) (auto simp: name_shape_def idx_mark_units)
  then show ?thesis
    unfolding reindex_def
    by (simp add: indexOf_def replace1_def n field_name_def js_brackets)
next
  case False
  then have c: "c \<noteq> []" "\<forall>u\<in>set c. is_digit u" using assms by (auto simp: name_shape_def)
  have n: "name = p @ 91 # c @ 93 # q" "name = (p @ 91 # c) @ 93 # q" "name = (p @ [91]) @ c @ 93 # q"
    using assms by (auto simp: name_shape_def js_brackets)
  have "\<not> sublist idx_mark name"
    using assms c digit_units by (intro idx_mark_absent) (auto simp: name_shape_def js_brackets)
  then have m: "indexOf name idx_mark = -1" by (rule indexOf_absent)
  have "91 \<notin> set p" "93 \<notin> set (p @ 91 # c)"
    using assms c digit_units by (auto simp: name_shape_def)
  then have se: "indexOf name [91] = int (length p)" "indexOf name [93] = int (length p + 1 + length c)"
    using indexOf_unit [of 91 p "c @ 93 # q"] indexOf_unit [of 93 "p @ 91 # c" q] n by simp_all
  have sub: "substring name (int (length p) + 1) (int (length p + 1 + length c)) = c"
  proof -
    have "int (length p) + 1 = int (length (p @ [91]))"
      "int (length p + 1 + length c) = int (length (p @ [91]) + length c)" by simp_all
    then show ?thesis unfolding n(3) by (simp only: substring_mid)
  qed
  have "replace1 name c (nat_str i) = (p @ [91]) @ nat_str i @ 93 # q"
    unfolding n(3)
  proof (rule replace1_first)
    show "hd c \<notin> set (p @ [91])"
      using assms c digit_units by (cases c) (auto simp: name_shape_def)
  qed (rule c(1))
  moreover have "reindex name i = replace1 name (substring name (indexOf name [91] + 1) (indexOf name [93])) (nat_str i)"
    using m by (simp add: reindex_def Let_def js_brackets)
  ultimately show ?thesis unfolding se sub by (simp add: field_name_def js_brackets)
qed

lemma field_name_shape: "name_shape name p c q \<Longrightarrow> name_shape (field_name p i q) p (nat_str i) q"
  by (auto simp: name_shape_def field_name_def nat_str_digits)

lemma reindex_reindex: "name_shape name p c q \<Longrightarrow> reindex (reindex name i) j = reindex name j"
  by (simp add: reindex_shape reindex_shape [OF field_name_shape])

lemma field_name_inject:
  assumes "91 \<notin> set p" "91 \<notin> set p'" "field_name p i q = field_name p' j q'"
  shows "p = p' \<and> i = j \<and> q = q'"
proof -
  have "p = p'" "nat_str i @ 93 # q = nat_str j @ 93 # q'"
    using split_at_unit [of 91 p p'] assms by (auto simp: field_name_def js_brackets)
  moreover have "93 \<notin> set (nat_str i)" "93 \<notin> set (nat_str j)"
    using nat_str_digits digit_units by blast+
  ultimately show ?thesis by (simp add: split_at_unit)
qed

lemma reindex_rows_differ:
  assumes "name_shape n p c q" "name_shape m p' c' q'" "reindex n i = reindex m j"
  shows "i = j"
proof -
  have "91 \<notin> set p" "91 \<notin> set p'" using assms by (auto simp: name_shape_def)
  with assms field_name_inject [of p p' i q j q'] show ?thesis by (simp add: reindex_shape)
qed

text \<open>The table handlers: numbering and names of every row.\<close>

lemma length_resetTrNum [simp]: "length (resetTrNum rows) = length rows"
  by (simp add: resetTrNum_def)

lemma nth_resetTrNum:
  "k < length rows \<Longrightarrow> resetTrNum rows ! k =
    (rows ! k)\<lparr>controls := map (reset_control k) (controls (rows ! k)), xh := nat_str (k + 1)\<rparr>"
  by (simp add: resetTrNum_def nth_enumerate_eq)

definition shaped_rows :: "trow list \<Rightarrow> bool" where
  "shaped_rows rows \<longleftrightarrow> (\<forall>r\<in>set rows. \<forall>c\<in>set (controls r). \<forall>n. c_name c = Some n \<longrightarrow>
     (\<exists>p x q. name_shape n p x q))"

definition row_names :: "trow \<Rightarrow> jstr set" where
  "row_names r = {n. \<exists>c\<in>set (controls r). c_name c = Some n}"

lemma resetTrNum_disjoint:
  assumes "shaped_rows rows" "k < length rows" "l < length rows" "k \<noteq> l"
  shows "row_names (resetTrNum rows ! k) \<inter> row_names (resetTrNum rows ! l) = {}"
proof -
  have "\<exists>m p x q. n = reindex m k \<and> name_shape m p x q"
    if "n \<in> row_names (resetTrNum rows ! k)" "k < length rows" for n k
  proof -
    from that obtain c where c: "c \<in> set (controls (rows ! k))" "map_option (\<lambda>n. reindex n k) (c_name c) = Some n"
      by (auto simp: row_names_def nth_resetTrNum reset_control_def)
    then obtain m where "c_name c = Some m" "n = reindex m k" by auto
    moreover have "rows ! k \<in> set rows" using that(2) by simp
    ultimately show ?thesis using assms(1) c(1) unfolding shaped_rows_def by blast
  qed
  with assms(2-4) show ?thesis
    by (metis (no_types, lifting) disjoint_iff reindex_rows_differ)
qed

lemma shaped_rows_filter: "shaped_rows rows \<Longrightarrow> shaped_rows (filter P rows)"
  by (auto simp: shaped_rows_def)

text \<open>
  The table on the page: the button that adds a row from the template, the boxes that mark rows, and the
  button that deletes the marked ones.
\<close>

datatype row_event = AddRow trow | MarkRow nat bool | DropRows

definition row_step :: "row_event \<Rightarrow> trow list \<Rightarrow> trow list" where
  "row_step e rows =
     (case e of
        AddRow tpl \<Rightarrow> fst (add_click tpl rows)
      | MarkRow k b \<Rightarrow> rows[k := (rows ! k)\<lparr>picked := b\<rparr>]
      | DropRows \<Rightarrow> del_click rows)"

definition row_run :: "row_event list \<Rightarrow> trow list \<Rightarrow> trow list" where
  "row_run es rows = fold row_step es rows"

definition numbered :: "trow list \<Rightarrow> bool" where
  "numbered rows \<longleftrightarrow>
     (\<forall>k < length rows. xh (rows ! k) = nat_str (k + 1) \<and>
        (\<forall>l < length rows. k \<noteq> l \<longrightarrow> row_names (rows ! k) \<inter> row_names (rows ! l) = {}))"

lemma resetTrNum_numbered: "shaped_rows rows \<Longrightarrow> numbered (resetTrNum rows)"
  using resetTrNum_disjoint [of rows] by (auto simp: numbered_def nth_resetTrNum)

lemma resetTrNum_shaped:
  assumes "shaped_rows rows"
  shows "shaped_rows (resetTrNum rows)"
  unfolding shaped_rows_def
proof (intro ballI allI impI)
  fix r c n
  assume r: "r \<in> set (resetTrNum rows)" and c: "c \<in> set (controls r)" and n: "c_name c = Some n"
  obtain k where k: "k < length rows" "r = resetTrNum rows ! k" using r by (auto simp: in_set_conv_nth)
  obtain d where d: "d \<in> set (controls (rows ! k))" "c = reset_control k d"
    using c k by (auto simp: nth_resetTrNum)
  then obtain m where m: "c_name d = Some m" "n = reindex m k" using n by (auto simp: reset_control_def)
  obtain p x q where "name_shape m p x q"
    using assms nth_mem [OF k(1)] d(1) m(1) unfolding shaped_rows_def by blast
  then show "\<exists>p x q. name_shape n p x q" using field_name_shape reindex_shape m(2) by metis
qed

lemma marked_rows:
  "shaped_rows rows \<Longrightarrow> shaped_rows (rows[k := (rows ! k)\<lparr>picked := b\<rparr>])"
  "numbered rows \<Longrightarrow> numbered (rows[k := (rows ! k)\<lparr>picked := b\<rparr>])"
proof -
  have "controls (rows[k := (rows ! k)\<lparr>picked := b\<rparr>] ! l) = controls (rows ! l)"
    "xh (rows[k := (rows ! k)\<lparr>picked := b\<rparr>] ! l) = xh (rows ! l)" for l
    by (cases "k < length rows"; cases "l = k"; simp add: list_update_beyond)+
  then show "shaped_rows rows \<Longrightarrow> shaped_rows (rows[k := (rows ! k)\<lparr>picked := b\<rparr>])"
    "numbered rows \<Longrightarrow> numbered (rows[k := (rows ! k)\<lparr>picked := b\<rparr>])"
    by (simp_all add: shaped_rows_def numbered_def row_names_def all_set_conv_all_nth [of "rows[k := (rows ! k)\<lparr>picked := b\<rparr>]"]
        all_set_conv_all_nth [of rows])
qed

lemma clicked_rows:
  assumes "shaped_rows rows"
  shows "shaped_rows (del_click rows) \<and> numbered (del_click rows)"
    and "shaped_rows [tpl] \<Longrightarrow> shaped_rows (fst (add_click tpl rows)) \<and>
      (length rows < 6 \<or> numbered rows \<longrightarrow> numbered (fst (add_click tpl rows)))"
proof -
  have "shaped_rows (filter (\<lambda>r. \<not> picked r) rows)" by (rule shaped_rows_filter [OF assms])
  then show "shaped_rows (del_click rows) \<and> numbered (del_click rows)"
    by (simp add: del_click_def resetTrNum_shaped resetTrNum_numbered)
  assume "shaped_rows [tpl]"
  then have "shaped_rows (rows @ [tpl])" using assms by (simp add: shaped_rows_def ball_Un)
  then show "shaped_rows (fst (add_click tpl rows)) \<and> (length rows < 6 \<or> numbered rows \<longrightarrow> numbered (fst (add_click tpl rows)))"
    using assms by (simp add: add_click_def resetTrNum_shaped resetTrNum_numbered)
qed

lemma row_run_keeps:
  "shaped_rows rows \<Longrightarrow> \<forall>tpl. AddRow tpl \<in> set es \<longrightarrow> shaped_rows [tpl] \<Longrightarrow>
    shaped_rows (row_run es rows) \<and> (numbered rows \<or> DropRows \<in> set es \<longrightarrow> numbered (row_run es rows))"
proof (induction es arbitrary: rows)
  case (Cons e es)
  have "shaped_rows (row_step e rows) \<and> (numbered rows \<or> e = DropRows \<longrightarrow> numbered (row_step e rows))"
    using clicked_rows [OF Cons.prems(1)] marked_rows Cons.prems by (cases e) (simp_all add: row_step_def)
  then show ?case using Cons.IH [of "row_step e rows"] Cons.prems(2) by (auto simp: row_run_def)
qed (simp add: row_run_def)

text \<open>
  C18: however rows are added, marked and deleted, the rows are numbered \<open>1, 2, \<dots>\<close> and no field name occurs in
  two of them, as the server needs to tell them apart: once this holds it stays, and a deletion brings it
  about, as well as the addition of a row to fewer than six. A seventh row is refused with a message, and
  the rows stay as they are.
\<close>

theorem del_click_renumbers:
  assumes "shaped_rows rows" "\<forall>tpl. AddRow tpl \<in> set es \<longrightarrow> shaped_rows [tpl]" "q = row_run es rows" "shaped_rows [tpl]"
  shows "(numbered rows \<or> DropRows \<in> set es \<longrightarrow> numbered q) \<and> numbered (del_click q) \<and>
    (if length q < 6 then numbered (fst (add_click tpl q)) \<and> length (fst (add_click tpl q)) = Suc (length q)
     else add_click tpl q = (q, [Alert msg_six_prizes]))"
proof -
  have q: "shaped_rows q \<and> (numbered rows \<or> DropRows \<in> set es \<longrightarrow> numbered q)"
    unfolding assms(3) by (rule row_run_keeps [OF assms(1,2)])
  then show ?thesis using clicked_rows(1) [of q] clicked_rows(2) [of q tpl] assms(4) by (auto simp: add_click_def)
qed

text \<open>
  A name with neither mark nor brackets is not left alone: both searches give -1, the text
  between them is empty, and every renumbering puts the row number in front once more.
\<close>

theorem reindex_plain_name_grows:
  assumes "set name \<inter> {35, 91, 93} = {}"
  shows "reindex name i = nat_str i @ name \<and>
    reindex (reindex name i) j = nat_str j @ nat_str i @ name"
proof -
  have g: "reindex n k = nat_str k @ n" if "set n \<inter> {35, 91, 93} = {}" for n k
  proof -
    have "indexOf n idx_mark = -1" "indexOf n [91] = -1" "indexOf n [93] = -1"
      using that by (auto intro!: indexOf_absent idx_mark_absent simp: sublist_unit)
    then show ?thesis by (simp add: reindex_def js_brackets substring_def)
  qed
  have "set (nat_str i @ name) \<inter> {35, 91, 93} = {}"
    using assms nat_str_digits digit_units by fastforce
  then show ?thesis using g [OF assms] g by simp
qed


lemma reset_box_selects_error:
  "(\<exists>e. reset_box_selects i xs ts = Inl e) \<longleftrightarrow> (\<exists>x\<in>set xs. s_id x = None)"
  by (induction i xs ts rule: reset_box_selects.induct)
    (auto simp: Let_def split: option.splits sum.splits)

lemma reset_boxes_error:
  "(\<exists>e. reset_boxes i bs = Inl e) \<longleftrightarrow> (\<exists>b\<in>set bs. \<exists>x\<in>set (selects b). s_id x = None)"
proof (induction bs arbitrary: i)
  case (Cons b bs)
  have "(\<exists>e. reset_box i b = Inl e) \<longleftrightarrow> (\<exists>x\<in>set (selects b). s_id x = None)"
    using reset_box_selects_error [of i "selects b" "titles b"]
    by (auto simp: reset_box_def split: sum.splits)
  then show ?case
    using Cons [of "i + 1"]
    by (cases "reset_box i b"; cases "reset_boxes (i + 1) bs") (fastforce split: sum.splits)+
qed simp

text \<open>
  A select box without an id aborts the renumbering: the null check guards the rename only,
  and the next test reads the id again. Every select having an id is exactly what it takes for
  \<open>resetIndex\<close> to finish.
\<close>

theorem resetIndex_needs_ids:
  "(\<exists>e. resetIndex_boxes bs = Inl e) \<longleftrightarrow> (\<exists>b\<in>set bs. \<exists>x\<in>set (selects b). s_id x = None)"
proof -
  have "selects (reset_box_inputs i b) = selects b" for i b by (simp add: reset_box_inputs_def)
  then have "(\<exists>b\<in>set (map (\<lambda>(i, b). reset_box_inputs i b) (enumerate n bs)). \<exists>x\<in>set (selects b). s_id x = None)
      \<longleftrightarrow> (\<exists>b\<in>set bs. \<exists>x\<in>set (selects b). s_id x = None)" for n
    by (induction bs arbitrary: n) auto
  then show ?thesis by (simp add: resetIndex_boxes_def reset_boxes_error)
qed

section \<open>Serialisation\<close>

lemma obj_get_serialize:
  "obj_get (serializeObject fs) n =
    fold (\<lambda>e acc. Some (add_field acc e)) (filter (\<lambda>e. fst e = n) fs) None"
  using jo.get_fold [where step = serialize_step and key = fst and f = add_field, of fs "[]" n]
  by (simp add: serializeObject_def serialize_step_def jo.get_empty)

lemma add_fields_many:
  "(\<forall>e\<in>set es. fst e = n) \<Longrightarrow>
   fold (\<lambda>e acc. Some (add_field acc e)) es (Some (Arr vs)) = Some (Arr (vs @ map (Str \<circ> snd) es))"
  by (induction es arbitrary: vs) (auto simp: add_field_def read_prop_def)

lemma fold_add_field:
  assumes "n \<notin> set proto_names" "\<forall>e\<in>set es. fst e = n"
  shows "fold (\<lambda>e acc. Some (add_field acc e)) es None =
    (case map snd es of [] \<Rightarrow> None | [v] \<Rightarrow> Some (Str v) | vs \<Rightarrow> Some (Arr (map Str vs)))"
proof (cases es)
  case (Cons e xs)
  with assms have 1: "add_field None e = Str (snd e)"
    by (simp add: add_field_def read_prop_def)
  show ?thesis
  proof (cases xs)
    case (Cons e' ys)
    have "add_field (Some (Str (snd e))) e' = Arr [Str (snd e), Str (snd e')]"
      by (simp add: add_field_def read_prop_def)
    with Cons \<open>es = e # xs\<close> 1 assms add_fields_many [of ys n] show ?thesis by simp
  qed (use \<open>es = e # xs\<close> 1 in simp)
qed simp

text \<open>
  C19: the serialised object holds, under each field name, the text of the only field of that
  name, or the array of the texts of all fields of that name in form order, and nothing under
  other names. (Names of inherited methods are excluded: for these the first value is paired
  with the method.)
\<close>

theorem serializeObject_spec:
  assumes "n \<notin> set proto_names"
  shows "obj_get (serializeObject fs) n =
    (case map snd (filter (\<lambda>e. fst e = n) fs) of
       [] \<Rightarrow> None
     | [v] \<Rightarrow> Some (Str v)
     | vs \<Rightarrow> Some (Arr (map Str vs)))"
  unfolding obj_get_serialize by (rule fold_add_field [OF assms]) simp

theorem serializeObject_spec_witness:
  "obj_get (serializeObject [(js ''a'', js ''1''), (js ''b'', js ''2''), (js ''a'', js ''3'')]) (js ''a'')
    = Some (Arr [Str (js ''1''), Str (js ''3'')])"
  using serializeObject_spec [of "js ''a''" "[(js ''a'', js ''1''), (js ''b'', js ''2''), (js ''a'', js ''3'')]"]
  by (simp add: js_def proto_names_def)

section \<open>Dates\<close>

lemma first_run_mid:
  assumes "u \<notin> set p" "q = [] \<or> hd q \<noteq> u"
  shows "first_run u (p @ replicate (Suc n) u @ q) = replicate (Suc n) u"
proof -
  have "dropWhile (\<lambda>x. x \<noteq> u) (p @ replicate (Suc n) u @ q) = replicate (Suc n) u @ q"
    using assms(1) by (induction p) auto
  moreover have "takeWhile (\<lambda>x. x = u) (replicate m u @ q) = replicate m u" for m
    using assms(2) by (induction m) (auto simp: takeWhile_eq_Nil_iff)
  ultimately show ?thesis unfolding first_run_def by simp
qed

text \<open>One field of a format: two letters become two digits.\<close>

definition pad2 :: "nat \<Rightarrow> jstr" where
  "pad2 v = [48 + v div 10, 48 + v mod 10]"

lemma pad2_eq: "v < 100 \<Longrightarrow> substr_from (js ''00'' @ nat_str v) (int (length (nat_str v))) = pad2 v"
  by (cases "v < 10") (simp_all add: substr_from_def js_def nat_str_one nat_str_two pad2_def)

lemma date_field_two:
  assumes "u \<notin> set p" "q = [] \<or> hd q \<noteq> u" "v < 100"
  shows "date_field (u, True, v) (p @ [u, u] @ q) = p @ pad2 v @ q"
proof -
  have "first_run u (p @ [u, u] @ q) = [u, u]"
    using first_run_mid [OF assms(1,2), of 1] by simp
  moreover have "replace1 (p @ [u, u] @ q) [u, u] (pad2 v) = p @ pad2 v @ q"
    using assms(1) by (intro replace1_first) auto
  ultimately show ?thesis
    using pad2_eq [OF assms(3)] by (simp add: date_field_def)
qed

lemma date_field_absent: "u \<notin> set fmt \<Longrightarrow> date_field (u, m, v) fmt = fmt"
  by (simp add: date_field_def)

lemma int_str_year: "0 \<le> y \<Longrightarrow> int_str y = nat_str (nat y)"
  by (simp add: int_str_def)

lemma nat_str_four:
  assumes "1000 \<le> n" "n < 10000"
  shows "length (nat_str n) = 4"
proof -
  have "100 \<le> n div 10" "10 \<le> n div 100" "n div 1000 < 10" "1 \<le> n div 1000"
    "n div 10 div 10 = n div 100" "n div 100 div 10 = n div 1000"
    using assms by (auto simp: div_mult2_eq [symmetric])
  with assms show ?thesis
    by (simp add: nat_str.simps [of n] nat_str.simps [of "n div 10"] nat_str.simps [of "n div 100"] nat_str_one)
qed

definition valid_date :: "jsdate \<Rightarrow> bool" where
  "valid_date d \<longleftrightarrow> 1000 \<le> getFullYear d \<and> getFullYear d < 10000 \<and> getMonth d < 12 \<and> 1 \<le> getDate d \<and>
     getDate d \<le> 31 \<and> getHours d < 24 \<and> getMinutes d < 60 \<and> getSeconds d < 60 \<and> getMilliseconds d < 1000"

lemma pad2_not: "v < 100 \<Longrightarrow> \<not> is_digit u \<Longrightarrow> u \<notin> set (pad2 v)"
  by (auto simp: pad2_def is_digit_def)

lemma default_format_units:
  "default_format = [121, 121, 121, 121, 45, 77, 77, 45, 100, 100, 32, 104, 104, 58, 109, 109, 58, 115, 115]"
  by (simp add: default_format_def js_def)

text \<open>
  With no format given, a date is printed as \<open>yyyy-MM-dd hh:mm:ss\<close>: the four digits of the
  year, then each field in two digits, in this order and with these separators (so the text is
  always 19 characters long and sorts as the dates do).
\<close>

theorem date_format_default:
  assumes "valid_date d" "fmt = None \<or> fmt = Some []"
  shows "date_format (Some d) fmt =
    nat_str (nat (getFullYear d)) @ js ''-'' @ pad2 (getMonth d + 1) @ js ''-'' @ pad2 (getDate d) @
    js '' '' @ pad2 (getHours d) @ js '':'' @ pad2 (getMinutes d) @ js '':'' @ pad2 (getSeconds d)"
proof -
  let ?Y = "nat_str (nat (getFullYear d))"
  have b: "getMonth d + 1 < 100" "getDate d < 100" "getHours d < 100" "getMinutes d < 100" "getSeconds d < 100"
    using assms by (auto simp: valid_date_def)
  have Y: "u \<notin> set ?Y" if "\<not> is_digit u" for u
    using that nat_str_digits by blast
  have nd: "\<not> is_digit 77" "\<not> is_digit 100" "\<not> is_digit 104" "\<not> is_digit 109" "\<not> is_digit 115"
    "\<not> is_digit 113" "\<not> is_digit 83"
    by (simp_all add: is_digit_def)
  note out = Y [OF nd(1)] Y [OF nd(2)] Y [OF nd(3)] Y [OF nd(4)] Y [OF nd(5)] Y [OF nd(6)] Y [OF nd(7)]
  note pads = pad2_not [OF _ nd(2)] pad2_not [OF _ nd(3)] pad2_not [OF _ nd(4)] pad2_not [OF _ nd(5)]
    pad2_not [OF _ nd(6)] pad2_not [OF _ nd(7)]
  let ?M = "pad2 (getMonth d + 1)" and ?D = "pad2 (getDate d)" and ?h = "pad2 (getHours d)"
    and ?m = "pad2 (getMinutes d)" and ?s = "pad2 (getSeconds d)"
  let ?r0 = "[45, 77, 77, 45, 100, 100, 32, 104, 104, 58, 109, 109, 58, 115, 115] :: jstr"
  have y: "date_year d default_format = ?Y @ ?r0"
  proof -
    have g: "first_run 121 default_format = [121, 121, 121, 121]"
      by (simp add: first_run_def default_format_units)
    have "replace1 default_format [121, 121, 121, 121] ?Y = ?Y @ ?r0"
      using replace1_first [of "[121, 121, 121, 121]" "[]" ?r0 ?Y] by (simp add: default_format_units)
    moreover have "substr_from (int_str (getFullYear d)) 0 = ?Y"
      using assms by (simp add: substr_from_def int_str_year valid_date_def)
    ultimately show ?thesis using g by (simp add: date_year_def) (simp add: default_format_units)
  qed
  have M: "date_field (77, True, getMonth d + 1) (?Y @ ?r0) =
      ?Y @ [45] @ ?M @ [45, 100, 100, 32, 104, 104, 58, 109, 109, 58, 115, 115]"
    using date_field_two [of 77 "?Y @ [45]" "[45, 100, 100, 32, 104, 104, 58, 109, 109, 58, 115, 115]"] b out by simp
  have D: "date_field (100, True, getDate d) (?Y @ [45] @ ?M @ [45, 100, 100, 32, 104, 104, 58, 109, 109, 58, 115, 115]) =
      ?Y @ [45] @ ?M @ [45] @ ?D @ [32, 104, 104, 58, 109, 109, 58, 115, 115]"
    using date_field_two [of 100 "?Y @ [45] @ ?M @ [45]" "[32, 104, 104, 58, 109, 109, 58, 115, 115]"] b out pads by simp
  have h: "date_field (104, True, getHours d) (?Y @ [45] @ ?M @ [45] @ ?D @ [32, 104, 104, 58, 109, 109, 58, 115, 115]) =
      ?Y @ [45] @ ?M @ [45] @ ?D @ [32] @ ?h @ [58, 109, 109, 58, 115, 115]"
    using date_field_two [of 104 "?Y @ [45] @ ?M @ [45] @ ?D @ [32]" "[58, 109, 109, 58, 115, 115]"] b out pads by simp
  have m: "date_field (109, True, getMinutes d) (?Y @ [45] @ ?M @ [45] @ ?D @ [32] @ ?h @ [58, 109, 109, 58, 115, 115]) =
      ?Y @ [45] @ ?M @ [45] @ ?D @ [32] @ ?h @ [58] @ ?m @ [58, 115, 115]"
    using date_field_two [of 109 "?Y @ [45] @ ?M @ [45] @ ?D @ [32] @ ?h @ [58]" "[58, 115, 115]"] b out pads by simp
  have s: "date_field (115, True, getSeconds d) (?Y @ [45] @ ?M @ [45] @ ?D @ [32] @ ?h @ [58] @ ?m @ [58, 115, 115]) =
      ?Y @ [45] @ ?M @ [45] @ ?D @ [32] @ ?h @ [58] @ ?m @ [58] @ ?s"
    using date_field_two [of 115 "?Y @ [45] @ ?M @ [45] @ ?D @ [32] @ ?h @ [58] @ ?m @ [58]" "[]"] b out pads by simp
  have q: "113 \<notin> set (?Y @ [45] @ ?M @ [45] @ ?D @ [32] @ ?h @ [58] @ ?m @ [58] @ ?s)"
    "83 \<notin> set (?Y @ [45] @ ?M @ [45] @ ?D @ [32] @ ?h @ [58] @ ?m @ [58] @ ?s)"
    using b out pads by simp_all
  have "date_format (Some d) fmt = fold date_field (date_fields d) (?Y @ ?r0)"
    using assms(2) y by (auto simp: date_format_def Let_def)
  also have "\<dots> = ?Y @ [45] @ ?M @ [45] @ ?D @ [32] @ ?h @ [58] @ ?m @ [58] @ ?s"
    unfolding date_fields_def fold_simps M D h m s
      date_field_absent [OF q(1)] date_field_absent [OF q(2)] ..
  finally show ?thesis by (simp add: js_def)
qed


theorem date_format_default_witness:
  "date_format (Some \<lparr>getFullYear = 2020, getMonth = 5, getDate = 7, getHours = 9, getMinutes = 30,
      getSeconds = 0, getMilliseconds = 0\<rparr>) None = js ''2020-06-07 09:30:00''"
proof -
  have "nat_str 2020 = [50, 48, 50, 48]"
    by (simp add: nat_str.simps [of 2020] nat_str.simps [of 202] nat_str.simps [of 20] nat_str_one)
  then show ?thesis
    using date_format_default [of "\<lparr>getFullYear = 2020, getMonth = 5, getDate = 7, getHours = 9,
        getMinutes = 30, getSeconds = 0, getMilliseconds = 0\<rparr>" None]
    by (simp add: valid_date_def pad2_def js_def)
qed

theorem del_click_renumbers_witness:
  "let c = \<lparr>c_name = Some (js ''jp[#index#].name''), c_id = None, c_onclick = None\<rparr>;
       r = \<lparr>controls = [c], xh = [], picked = False\<rparr>;
       q = row_run [AddRow r, AddRow r, AddRow r, MarkRow 1 True, DropRows] []
   in length q = 2 \<and> xh (q ! 1) = js ''2'' \<and> row_names (q ! 0) \<inter> row_names (q ! 1) = {}"
proof -
  let ?c = "\<lparr>c_name = Some (js ''jp[#index#].name''), c_id = None, c_onclick = None\<rparr>"
  let ?r = "\<lparr>controls = [?c], xh = [], picked = False\<rparr>"
  let ?q = "row_run [AddRow ?r, AddRow ?r, AddRow ?r, MarkRow 1 True, DropRows] []"
  have "name_shape (js ''jp[#index#].name'') (js ''jp'') idx_mark (js ''.name'')"
    by (simp add: name_shape_def idx_mark_def js_def is_digit_def)
  then have s: "shaped_rows [?r]" by (auto simp: shaped_rows_def)
  have "shaped_rows []" by (simp add: shaped_rows_def)
  from del_click_renumbers [OF this _ refl s, of "[AddRow ?r, AddRow ?r, AddRow ?r, MarkRow 1 True, DropRows]"] s
  have n: "numbered ?q" by simp
  have l: "length ?q = 2"
    by (simp add: row_run_def row_step_def add_click_def del_click_def resetTrNum_def)
  have "xh (?q ! 1) = nat_str 2 \<and> row_names (?q ! 0) \<inter> row_names (?q ! 1) = {}"
    using n unfolding numbered_def l by (metis One_nat_def one_add_one zero_less_numeral lessI numeral_2_eq_2 zero_neq_one)
  then show ?thesis using l by (simp add: Let_def nat_str_one js_def)
qed

theorem reindex_plain_name_grows_witness:
  "reindex (reindex (js ''total'') 1) 1 = js ''11total''"
proof -
  have c: "set (js ''total'') \<inter> {35, 91, 93} = {}" by (simp add: js_def)
  have "reindex (reindex (js ''total'') 1) 1 = nat_str 1 @ nat_str 1 @ js ''total''"
    by (rule conjunct2 [OF reindex_plain_name_grows [OF c]])
  also have "\<dots> = js ''11total''" by (simp add: js_def nat_str_one)
  finally show ?thesis .
qed

section \<open>Amounts\<close>

text \<open>The amount a text of the accepted form denotes, in hundredths.\<close>

definition cents :: "jstr \<Rightarrow> nat" where
  "cents s =
     (let ip = takeWhile (\<lambda>u. u \<noteq> 46) s; fp = tl (dropWhile (\<lambda>u. u \<noteq> 46) s)
      in 100 * digits_val ip +
         (case fp of [] \<Rightarrow> 0 | [a] \<Rightarrow> 10 * (a - 48) | a # b # _ \<Rightarrow> 10 * (a - 48) + (b - 48)))"

lemma digits_val_bound: "list_all is_digit s \<Longrightarrow> digits_val s < 10 ^ length s"
proof (induction s rule: rev_induct)
  case (snoc u s)
  then have "u \<le> 57" by (simp add: is_digit_def)
  with snoc show ?case by (simp add: digits_val_snoc)
qed (simp add: digits_val_def)

lemma digits_val_zero: "list_all is_digit s \<Longrightarrow> digits_val s = 0 \<Longrightarrow> \<forall>u\<in>set s. u = 48"
proof (induction s rule: rev_induct)
  case (snoc u s)
  then show ?case by (auto simp: digits_val_snoc is_digit_def)
qed simp

definition decimal :: "jstr \<Rightarrow> jstr \<Rightarrow> jstr" where
  "decimal ip fp = ip @ (if fp = [] then [] else 46 # fp)"

lemma s_currency_split:
  assumes "s_currency s"
  shows "\<exists>ip fp. s = decimal ip fp \<and> ip \<noteq> [] \<and> list_all is_digit ip \<and> length ip \<le> 8 \<and>
    length fp \<le> 2 \<and> list_all is_digit fp"
proof -
  let ?ip = "takeWhile (\<lambda>u. u \<noteq> 46) s" and ?r = "dropWhile (\<lambda>u. u \<noteq> 46) s"
  have c: "?ip = [48] \<or> ?ip \<noteq> [] \<and> hd ?ip \<noteq> 48 \<and> length ?ip \<le> 8 \<and> list_all is_digit ?ip"
    and f: "?r = [] \<or> 1 \<le> length (tl ?r) \<and> length (tl ?r) \<le> 2 \<and> list_all is_digit (tl ?r)"
    using assms unfolding s_currency_def Let_def by blast+
  define ip r where "ip = ?ip" and "r = ?r"
  have s: "s = ip @ r" by (simp add: ip_def r_def)
  have ip: "ip \<noteq> []" "list_all is_digit ip" "length ip \<le> 8"
    using c unfolding ip_def [symmetric] by (auto simp: is_digit_def)
  have u: "r \<noteq> [] \<Longrightarrow> hd r = 46" using hd_dropWhile [of "\<lambda>u. u \<noteq> 46" s] by (auto simp: r_def)
  show ?thesis
  proof (cases r)
    case Nil
    then have "s = decimal ip []" using s by (simp add: decimal_def)
    then show ?thesis using ip by (metis le0 list.pred_inject(1) list.size(3))
  next
    case (Cons v g)
    then have g: "g \<noteq> []" "length g \<le> 2" "list_all is_digit g"
      using f unfolding r_def [symmetric] by auto
    have "s = decimal ip g" using s u Cons g by (simp add: decimal_def)
    then show ?thesis using ip g by blast
  qed
qed

lemma digits_no_dot: "list_all is_digit ip \<Longrightarrow> u \<in> set ip \<Longrightarrow> is_digit u \<and> u \<noteq> 46 \<and> u \<noteq> 43 \<and> u \<noteq> 45 \<and> \<not> js_space u"
  by (auto simp: list_all_iff is_digit_def js_space_def)

lemma takeWhile_decimal:
  assumes "list_all is_digit ip"
  shows "takeWhile (\<lambda>u. u \<noteq> 46) (decimal ip fp) = ip"
    "dropWhile (\<lambda>u. u \<noteq> 46) (decimal ip fp) = (if fp = [] then [] else 46 # fp)"
  using digits_no_dot [OF assms] by (auto simp: decimal_def takeWhile_append2 dropWhile_append2 takeWhile_eq_all_conv)

lemma digits_prefix:
  assumes "\<forall>u\<in>set ip. is_digit u" "r = [] \<or> \<not> is_digit (hd r)"
  shows "takeWhile is_digit (ip @ r) = ip" "dropWhile is_digit (ip @ r) = r"
  using assms by (cases r; simp add: takeWhile_append2 dropWhile_append2 takeWhile_eq_all_conv)+

lemma parseFloat_zero_decimal:
  assumes "ip \<noteq> []" "\<forall>u\<in>set ip. u = 48" "\<forall>u\<in>set fp. u = 48"
  shows "parseFloat_is_zero (decimal ip fp)"
proof -
  obtain ip' where ip: "ip = 48 # ip'" using assms by (cases ip) auto
  let ?r = "if fp = [] then [] else 46 # fp"
  have d: "\<forall>u\<in>set ip. is_digit u" "\<forall>u\<in>set fp. is_digit u" using assms by (auto simp: is_digit_def)
  have r: "?r = [] \<or> \<not> is_digit (hd ?r)" by (simp add: is_digit_def)
  have 1: "dropWhile js_space (ip @ ?r) = ip @ ?r"
    by (simp add: ip js_space_def)
  have 2: "(case ip @ ?r of [] \<Rightarrow> [] | u # r \<Rightarrow> if u = 43 \<or> u = 45 then r else ip @ ?r) = ip @ ?r"
    by (simp add: ip)
  have 3: "(case ?r of [] \<Rightarrow> [] | u # f \<Rightarrow> if u = 46 then takeWhile is_digit f else []) = fp"
    using d by (simp add: takeWhile_eq_all_conv)
  show ?thesis
    unfolding parseFloat_is_zero_def Let_def decimal_def 1 2 digits_prefix [OF d(1) r] 3
    using assms by auto
qed

lemma cents_decimal:
  assumes "list_all is_digit ip"
  shows "cents (decimal ip fp) = 100 * digits_val ip +
    (case fp of [] \<Rightarrow> 0 | [a] \<Rightarrow> 10 * (a - 48) | a # b # _ \<Rightarrow> 10 * (a - 48) + (b - 48))"
  by (simp add: cents_def takeWhile_decimal [OF assms])

text \<open>
  An amount is accepted only if it denotes at least one hundredth and at most 99999999.99;
  whenever a non-empty text is refused, the input is emptied, a message is shown and the input
  takes the focus.
\<close>

theorem isAmount_bounds:
  "(fst (isAmount ob s) \<longrightarrow> 1 \<le> cents s \<and> cents s \<le> 9999999999) \<and>
   (\<not> fst (isAmount ob s) \<and> s \<noteq> [] \<longrightarrow>
     (\<exists>m. snd (isAmount ob s) = [SetVal ob [], LayerAlert m 0, Focus ob]))"
proof -
  have "1 \<le> cents s \<and> cents s \<le> 9999999999" if ok: "fst (isAmount ob s)"
  proof -
    have nz: "\<not> parseFloat_is_zero s" and "s_currency s"
      using ok by (auto simp: isAmount_def split: if_splits)
    then obtain ip fp where s: "s = decimal ip fp" and ip: "ip \<noteq> []" "list_all is_digit ip" "length ip \<le> 8"
      and fp: "length fp \<le> 2" "list_all is_digit fp"
      using s_currency_split by blast
    have "digits_val ip < 10 ^ 8"
      using digits_val_bound [OF ip(2)] ip(3) power_increasing [of "length ip" 8 "10::nat"] by linarith
    then have "digits_val ip < 100000000" by simp
    moreover define f where "f = (case fp of [] \<Rightarrow> 0 | [a] \<Rightarrow> 10 * (a - 48) | a # b # _ \<Rightarrow> 10 * (a - 48) + (b - 48))"
    moreover have "f \<le> 99"
      unfolding f_def using fp by (auto simp: is_digit_def split: list.split)
    moreover have "cents s \<noteq> 0"
    proof
      assume z: "cents s = 0"
      then have "\<forall>u\<in>set ip. u = 48"
        using digits_val_zero [OF ip(2)] by (simp add: s cents_decimal [OF ip(2)])
      moreover have "\<forall>u\<in>set fp. u = 48"
        using z fp by (auto simp: s cents_decimal [OF ip(2)] is_digit_def split: list.splits)
      ultimately show False using nz parseFloat_zero_decimal [OF ip(1)] by (simp add: s)
    qed
    moreover have "cents s = 100 * digits_val ip + f" by (simp only: s cents_decimal [OF ip(2)] f_def)
    ultimately show ?thesis by linarith
  qed
  moreover have "\<exists>m. snd (isAmount ob s) = [SetVal ob [], LayerAlert m 0, Focus ob]"
    if "\<not> fst (isAmount ob s)" "s \<noteq> []"
    using that by (auto simp: isAmount_def split: if_splits)
  ultimately show ?thesis by blast
qed

theorem isAmount_bounds_witness:
  "fst (isAmount ''#price'' (js ''12.50'')) \<and> 1 \<le> cents (js ''12.50'')"
proof -
  have "fst (isAmount ''#price'' (js ''12.50''))"
    by (simp add: isAmount_def js_def parseFloat_is_zero_def js_space_def is_digit_def s_currency_def)
  with isAmount_bounds [of "''#price''" "js ''12.50''"] show ?thesis by simp
qed

section \<open>Arrays and templates\<close>

lemma unique_loop_ret: "unique_loop key arr obj ret = ret @ unique_loop key arr obj []"
proof (induction arr arbitrary: obj ret)
  case (Cons x arr)
  show ?case
  proof (cases "obj_get obj (key x) = Some 1")
    case True
    then show ?thesis using Cons.IH [of obj ret] by simp
  next
    case False
    let ?o = "if key x = js ''__proto__'' then obj else obj_put (key x) 1 obj"
    show ?thesis
      using False Cons.IH [of ?o "ret @ [x]"] Cons.IH [of ?o "[x]"] by simp
  qed
qed simp

lemma unique_loop_new:
  assumes "obj_get obj (key x) \<noteq> Some 1"
  shows "unique_loop key (x # arr) obj [] =
    x # unique_loop key arr (if key x = js ''__proto__'' then obj else obj_put (key x) 1 obj) []"
  using assms unique_loop_ret [of key arr "if key x = js ''__proto__'' then obj else obj_put (key x) 1 obj" "[x]"]
  by simp

lemma unique_loop_subseq: "subseq (unique_loop key arr obj []) arr"
proof (induction arr arbitrary: obj)
  case (Cons x arr)
  show ?case
  proof (cases "obj_get obj (key x) = Some 1")
    case True
    have "subseq (unique_loop key arr obj []) (x # arr)" by (rule list_emb_Cons) (rule Cons.IH)
    with True show ?thesis by simp
  next
    case False
    show ?thesis unfolding unique_loop_new [of obj key x, OF False] using Cons.IH by simp
  qed
qed simp

text \<open>What the table \<open>obj\<close> knows after a run: the names stored, never \<open>__proto__\<close>.\<close>

lemma unique_loop_spec:
  assumes "obj_get obj (js ''__proto__'') = None"
  shows "distinct (filter (\<lambda>k. k \<noteq> js ''__proto__'') (map key (unique_loop key arr obj []))) \<and>
    (\<forall>k. obj_get obj k = Some 1 \<longrightarrow> k \<notin> set (map key (unique_loop key arr obj []))) \<and>
    set (map key (unique_loop key arr obj [])) = {k \<in> set (map key arr). obj_get obj k \<noteq> Some 1} \<and>
    filter (\<lambda>x. key x = js ''__proto__'') (unique_loop key arr obj []) = filter (\<lambda>x. key x = js ''__proto__'') arr"
  using assms
proof (induction arr arbitrary: obj)
  case (Cons x arr)
  show ?case
  proof (cases "obj_get obj (key x) = Some 1")
    case True
    then show ?thesis using Cons.IH [of obj] Cons.prems by auto
  next
    case new: False
    show ?thesis
    proof (cases "key x = js ''__proto__''")
      case True
      then show ?thesis
        using Cons.IH [of obj] Cons.prems unique_loop_new [of obj key x arr, OF new] new by auto
    next
      case False
      let ?o = "obj_put (key x) 1 obj"
      have o: "obj_get ?o k = (if k = key x then Some 1 else obj_get obj k)" for k
        by (rule jo.get_put)
      then have "obj_get ?o (js ''__proto__'') = None"
        using False Cons.prems by (auto split: if_splits)
      note IH = Cons.IH [OF this]
      have u: "unique_loop key (x # arr) obj [] = x # unique_loop key arr ?o []"
        using False unique_loop_new [of obj key x arr, OF new] by simp
      show ?thesis unfolding u using IH new False by (auto simp: jo.get_put split: if_splits)
    qed
  qed
qed simp

text \<open>
  \<open>Util.unique\<close> keeps a subsequence of the array in which every key of the array still
  occurs, and no key twice, except that elements whose key is the name \<open>__proto__\<close> are all kept.
\<close>

theorem Util_unique_spec:
  "subseq (Util_unique key arr) arr \<and>
   key ` set (Util_unique key arr) = key ` set arr \<and>
   distinct (filter (\<lambda>k. k \<noteq> js ''__proto__'') (map key (Util_unique key arr))) \<and>
   filter (\<lambda>x. key x = js ''__proto__'') (Util_unique key arr) = filter (\<lambda>x. key x = js ''__proto__'') arr"
proof -
  have "obj_get ([] :: nat jobj) k = None" for k by (simp add: obj_get_def)
  then show ?thesis
    unfolding Util_unique_def
    using unique_loop_spec [of "[]" key arr] unique_loop_subseq [of key arr "[]"] by simp
qed

lemma brace_body_split: "brace_body k s = Some (g, r) \<Longrightarrow> s = g @ 125 # r"
proof (induction k s arbitrary: g rule: brace_body.induct)
  case (2 k x xs)
  then show ?case by (auto split: if_splits)
qed simp

text \<open>
  Replacing every place holder by itself gives the template back: the scan loses and repeats
  nothing.
\<close>

lemma brace_replace_same: "brace_replace k (\<lambda>g. 123 # g @ [125]) s = s"
proof (induction "length s" arbitrary: s rule: less_induct)
  case less
  show ?case
  proof (cases s)
    case (Cons x xs)
    show ?thesis
    proof (cases "brace_body k xs")
      case (Some a)
      obtain g r where a: "a = (g, r)" by (cases a)
      have "xs = g @ 125 # r" using Some a by (simp add: brace_body_split)
      with less [of r] less [of xs] Some Cons a show ?thesis by simp
    qed (use Cons less [of xs] in simp)
  qed simp
qed

lemma brace_body_first:
  assumes "k \<le> length g" "\<forall>u\<in>set g. \<not> line_terminator u" "\<forall>u\<in>set (drop k g). u \<noteq> 125"
  shows "brace_body k (g @ 125 # r) = Some (g, r)"
  using assms
proof (induction g arbitrary: k)
  case (Cons x g)
  then show ?case by (cases k) auto
qed simp

lemma brace_replace_plain: "123 \<notin> set p \<Longrightarrow> brace_replace k f (p @ s) = p @ brace_replace k f s"
  by (induction p) auto

definition plain_name :: "jstr \<Rightarrow> bool" where
  "plain_name g \<longleftrightarrow> g \<noteq> [] \<and> 123 \<notin> set g \<and> 125 \<notin> set g \<and> (\<forall>u\<in>set g. \<not> line_terminator u)"

text \<open>A template given as pieces: literal text without an opening brace, and names in braces.\<close>

definition tpl_text :: "(jstr \<times> jstr) list \<Rightarrow> jstr \<Rightarrow> jstr" where
  "tpl_text ps rest = concat (map (\<lambda>(p, g). p @ 123 # g @ [125]) ps) @ rest"

lemma brace_replace_pieces:
  assumes "\<forall>(p, g)\<in>set ps. 123 \<notin> set p \<and> plain_name g" "123 \<notin> set rest"
  shows "brace_replace 1 f (tpl_text ps rest) = concat (map (\<lambda>(p, g). p @ f g) ps) @ rest"
  using assms
proof (induction ps)
  case Nil
  then show ?case using brace_replace_plain [of rest 1 f "[]"] by (simp add: tpl_text_def)
next
  case (Cons a ps)
  obtain p g where a: "a = (p, g)" by (cases a)
  with Cons have p: "123 \<notin> set p" and g: "plain_name g" by auto
  have b: "brace_body 1 (g @ 125 # r) = Some (g, r)" for r
    by (rule brace_body_first) (use g in \<open>auto simp: plain_name_def Suc_le_eq dest: in_set_dropD\<close>)
  have "tpl_text (a # ps) rest = p @ 123 # g @ 125 # tpl_text ps rest" by (simp add: tpl_text_def a)
  then show ?case using Cons b by (simp add: a brace_replace_plain [OF p])
qed

text \<open>
  Instantiating a template replaces exactly its place holders, each by the callback's value
  for the name, else by an inherited method of that name, else by the element's property, else by
  the element's own text (the last rule also catches misspelt names), and the copies, one per
  element, are joined in order.
\<close>

theorem Util_template_spec:
  assumes "\<forall>(p, g)\<in>set ps. 123 \<notin> set p \<and> plain_name g" "123 \<notin> set rest"
  shows "Util_template prop txt inherited (tpl_text ps rest) json fn =
    concat (map (\<lambda>(i, el, e). concat (map (\<lambda>(p, g). p @
        (case obj_get (case fn of None \<Rightarrow> [] | Some f \<Rightarrow> f el e i) g of None \<Rightarrow>
           if g \<in> set proto_names then inherited g
           else (case prop e g of None \<Rightarrow> txt e | Some v \<Rightarrow> v) | Some v \<Rightarrow> v)) ps) @ rest)
      (enumerate 0 json))"
proof -
  have "concat (template_loop prop txt inherited (tpl_text ps rest) fn n json) =
    concat (map (\<lambda>(i, el, e). concat (map (\<lambda>(p, g). p @
        (case obj_get (case fn of None \<Rightarrow> [] | Some f \<Rightarrow> f el e i) g of None \<Rightarrow>
           if g \<in> set proto_names then inherited g
           else (case prop e g of None \<Rightarrow> txt e | Some v \<Rightarrow> v) | Some v \<Rightarrow> v)) ps) @ rest)
      (enumerate n json))" for n
  proof (induction json arbitrary: n)
    case (Cons a json)
    obtain el e where a: "a = (el, e)" by (cases a)
    show ?case
      unfolding a template_loop.simps Let_def brace_replace_pieces [OF assms] concat.simps enumerate_simps
        list.map prod.case template_value_def
      using Cons.IH [of "n + 1"] by (simp only: Suc_eq_plus1)
  qed simp
  then show ?thesis by (simp add: Util_template_def)
qed

theorem Util_template_spec_witness:
  "Util_template (\<lambda>e k. if k = js ''n'' then Some e else None) (\<lambda>e. e) (\<lambda>k. k) (js ''<b>{n}</b>'')
     [(js ''0'', js ''x''), (js ''1'', js ''y'')] None = js ''<b>x</b><b>y</b>''"
proof -
  let ?ps = "[(js ''<b>'', js ''n'')]" and ?rest = "js ''</b>''"
  have h: "\<forall>(p, g)\<in>set ?ps. 123 \<notin> set p \<and> plain_name g" "123 \<notin> set ?rest"
    by (auto simp: plain_name_def js_def line_terminator_def)
  have "tpl_text ?ps ?rest = js ''<b>{n}</b>''" by (simp add: tpl_text_def js_def)
  then show ?thesis
    using Util_template_spec [OF h, of "\<lambda>e k. if k = js ''n'' then Some e else None" "\<lambda>e. e" "\<lambda>k. k"
        "[(js ''0'', js ''x''), (js ''1'', js ''y'')]" None]
    by (simp add: jo.get_empty proto_names_def js_def)
qed

end
