(* ===== verification/EggDialog.thy ===== *)
theory EggDialog
  imports Js_Dom Forms
begin

text \<open>
  The golden-egg page's own widgets, under \<open>template/hd0921/js\<close>: the result dialog
  (\<open>dialog.js\<close>), the registration form with its verification countdown (\<open>register.js\<close>), the guide
  page (\<open>guide.js\<close>) and the music player (\<open>player.js\<close>). Answers of the server are arguments;
  the markup of a dialog is built as text, its buttons as items so that what is bound to them
  can be stated.
\<close>

section \<open>Values of the server's answers\<close>

datatype jval = JStr jstr | JNum int | JBool bool | JNull

fun truthy :: "jval option \<Rightarrow> bool" where
  "truthy None = False"
| "truthy (Some (JStr s)) = (s \<noteq> [])"
| "truthy (Some (JNum n)) = (n \<noteq> 0)"
| "truthy (Some (JBool b)) = b"
| "truthy (Some JNull) = False"

fun text_of :: "jval option \<Rightarrow> jstr" where
  "text_of None = (js ''undefined'')"
| "text_of (Some (JStr s)) = s"
| "text_of (Some (JNum n)) = int_str n"
| "text_of (Some (JBool b)) = (if b then (js ''true'') else (js ''false''))"
| "text_of (Some JNull) = (js ''null'')"

text \<open>
  \<open>v == n\<close> for a number: a text is equal when it is the decimal numeral (other spellings of the
  number, with blanks or a fraction of zeros, are not told apart from texts that are no number).
\<close>

fun eq_num :: "jval option \<Rightarrow> int \<Rightarrow> bool" where
  "eq_num None n = False"
| "eq_num (Some (JStr s)) n = (s = int_str n)"
| "eq_num (Some (JNum k)) n = (k = n)"
| "eq_num (Some (JBool b)) n = ((if b then 1 else 0) = n)"
| "eq_num (Some JNull) n = False"

type_synonym opts = "jval jobj"

section \<open>The dialog\<close>

datatype dtype =
    TRegister | TTake | TTakeOK | TAgain | TNoDayTimes | TNoAllTimes | TExchange | TExchangeOK | TWeixinOK

text \<open>The page's settings (\<open>APP\<close> and the globals the page writes) and the registration markup.\<close>

record app =
  a_uid :: int
  a_regFirst :: bool
  a_name :: jstr
  a_onmobile :: bool
  a_logo :: jstr
  a_snName :: jstr
  a_register :: jstr
  shareFlag1 :: jstr
  extraLuckyDraw :: jstr

definition SN_NAME :: "app \<Rightarrow> jstr" where
  "SN_NAME ap = (if a_snName ap = [] then (js ''SN'' @ [30721]) else a_snName ap) @ (js '': '')"

datatype foot_item =
    CloseBtn string jstr
  | SubmitBtn string jstr
  | LinkBtn jstr jstr jstr jstr

fun item_html :: "foot_item \<Rightarrow> jstr" where
  "item_html (CloseBtn c t) =
     (js ''<a href=\"javascript:;\" id=\"J_CloseBtn\" class=\"'') @ js c @ (js ''\">'') @ t @ (js ''</a>'')"
| "item_html (SubmitBtn c t) =
     (js ''<a href=\"javascript:;\" id=\"J_SubmitBtn\" class=\"'') @ js c @ (js ''\">'') @ t @ (js ''</a>'')"
| "item_html (LinkBtn snid url attr label) =
     (js ''<a href=\"javascript:;\" data-role=\"link\"'') @ (js '' data-id=\"'') @ snid @ (js ''\"'') @ (js '' data-url=\"'') @ url @ (js ''\"'') @
     (js '' data-attr=\"'') @ attr @ (js ''\"'') @ (js '' class=\"btn-yes\">'') @ label @ (js ''</a>'')"

definition foot_html :: "foot_item list \<Rightarrow> jstr" where
  "foot_html foot = concat (map item_html foot)"

text \<open>The button of a prize with a link; its label is chosen by \<open>switch\<close>, which does not convert.\<close>

definition or_empty :: "jval option \<Rightarrow> jstr" where
  "or_empty v = (if truthy v then text_of v else [])"

definition initUlrBtnHtml :: "opts \<Rightarrow> foot_item" where
  "initUlrBtnHtml ob =
     (let attr = (if truthy (obj_get ob (js ''c_attr'')) then obj_get ob (js ''c_attr'') else Some (JNum 0))
      in LinkBtn (or_empty (obj_get ob (js ''snid''))) (or_empty (obj_get ob (js ''c_url''))) (text_of attr)
           (if attr = Some (JNum 1) then [31435, 21363, 20351, 29992]
            else if attr = Some (JNum 2) then [26597, 30475, 32418, 21253]
            else if attr = Some (JNum 3) then [39046, 21462, 32418, 21253] else []))"

definition prize_list :: "opts \<Rightarrow> jstr" where
  "prize_list ob =
     (js ''<div class=\"prize-wrap\"><ul><li>'') @ text_of (obj_get ob (js ''c_type'')) @ (js ''</li><li><img src=\"'') @
     text_of (obj_get ob (js ''c_img'')) @ (js ''\"/></li><li>'') @ text_of (obj_get ob (js ''c_name'')) @ (js ''</li></ul>'')"

definition head_cls :: "dtype \<Rightarrow> string" where
  "head_cls t = (if t \<in> {TAgain, TNoDayTimes, TWeixinOK, TNoAllTimes} then ''h-wrap h-wrap2'' else ''h-wrap'')"

definition take_html :: "app \<Rightarrow> opts \<Rightarrow> jstr \<times> jstr \<times> foot_item list" where
  "take_html ap ob =
     (let title = text_of (obj_get ob (js ''title'')); red = eq_num (obj_get ob (js ''c_attr'')) 3 in
      if a_name ap \<noteq> [] then
        (if truthy (obj_get ob (js ''c_url'')) \<or> \<not> a_onmobile ap then
           ((js ''<p class=\"prize-shop-wrap\"><img src=\"'') @ a_logo ap @ (js ''\"><span>'') @
              (if red then [24494, 20449, 32418, 21253] else title) @ (js ''</span></p>''),
            (js ''<div class=\"prize-top\">'') @ (if red then title else SN_NAME ap @ text_of (obj_get ob (js ''sn''))) @ (js ''</div>'') @
              prize_list ob,
            (if truthy (obj_get ob (js ''c_url'')) then [CloseBtn ''btn-no'' [20851, 38381], initUlrBtnHtml ob]
             else [CloseBtn ''btn-yes'' ([30693, 36947, 21862] @ js ''!!'')]))
         else
           ((js ''<p>'') @ title @ (js ''</p>''), prize_list ob @ (js ''</div>''),
            [CloseBtn ''btn-no'' [20851, 38381], SubmitBtn ''btn-yes'' [31435, 21363, 20817, 22870]]))
      else
        ((js ''<p>'') @ title @ (js ''</p>''), prize_list ob @ (js ''<hr/></div>'') @ a_register ap,
         [CloseBtn ''btn-no'' [20851, 38381],
          SubmitBtn ''btn-yes''
            (if eq_num (obj_get ob (js ''c_attr'')) 2 \<or> red then ([39046, 21462] @ js '' '') else [39046, 21462])]))"

text \<open>
  Head, body and foot of each kind. For the messages of kind 5 and 9 the closing tags are a
  statement of their own, \<open>+'</span></p>'\<close>, whose value is dropped.
\<close>

definition dialog_html :: "app \<Rightarrow> dtype \<Rightarrow> opts \<Rightarrow> jstr \<times> jstr \<times> foot_item list" where
  "dialog_html ap t ob =
     (let title = text_of (obj_get ob (js ''title'')); sn = text_of (obj_get ob (js ''sn'')) in
      case t of
        TRegister \<Rightarrow>
          ((js ''<img src=\"'') @ a_logo ap @ (js ''\">'' @ [20146, 65292, 22635, 20889, 20449, 24687, 25277, 22870, 21727] @ js ''~~~~''), a_register ap, [SubmitBtn ''btn-yes'' [24320, 22987, 25277, 22870]])
      | TTake \<Rightarrow> take_html ap ob
      | TTakeOK \<Rightarrow>
          ((js ''<p>'' @ [39046, 21462, 25104, 21151] @ js ''</p>''),
           (js ''<div class=\"take-ok-wrap\"><img src=\"'') @ a_logo ap @ (js ''\"><span>'') @ SN_NAME ap @ sn @ (js ''</span></div>''),
           [CloseBtn ''btn-yes'' [30693, 36947, 21862]])
      | TAgain \<Rightarrow> ((js ''<p class=\"hit-again-wrap\"><i></i>'') @ title @ (js ''</p>''), [], [CloseBtn ''btn-yes'' [20877, 30776, 19968, 27425]])
      | TNoAllTimes \<Rightarrow>
          ((js ''<p class=\"noall-times-wrap\"><i></i><span>'') @ title @ (js ''</span></p>''), [], [CloseBtn ''btn-yes'' [30693, 36947, 21862]])
      | TExchange \<Rightarrow>
          ((js ''<p>'') @ SN_NAME ap @ sn @ (js ''</p>''),
           (js ''<div class=\"exchange-wrap\"><i></i><input type=\"text\" name=\"snpwd\" placeholder=\"'' @ [20817, 22870, 23494, 30721] @ js ''\" required/></div>''),
           [CloseBtn ''btn-no'' [21462, 28040], SubmitBtn ''btn-yes'' [20817, 22870]])
      | TExchangeOK \<Rightarrow>
          ((js ''<p class=\"prize-shop-wrap\"><img src=\"'') @ a_logo ap @ (js ''\"><span>'') @ SN_NAME ap @ sn @ (js ''</span></p>''), [],
           [CloseBtn ''btn-no'' [21462, 28040], initUlrBtnHtml ob])
      | _ \<Rightarrow>
          (if shareFlag1 ap = (js ''1'') \<and> extraLuckyDraw ap = (js ''0'') then
             (js ''<p class=\"noday-times-wrap\"><span>'') @ title @
             (js ''<br><font size=\"3px;\" color=\"red\"><strong>'' @ [20998, 20139, 21487, 39069, 22806, 33719, 24471] @ js ''1'' @ [27425, 25277, 22870, 26426, 20250] @ js ''</strong></font>'')
           else (js ''<p class=\"noday-times-wrap\"><span>'') @ title,
           [], [CloseBtn ''btn-yes'' [30693, 36947, 21862]]))"

datatype close_act = CRefresh | CHide

datatype submit_act = SRegister | STake | SNothing

record dlg =
  d_type :: "dtype option"
  d_cls :: string
  d_head :: jstr
  d_body :: jstr
  d_foot :: "foot_item list"
  d_close :: "close_act option"
  d_submit :: "submit_act option"
  d_shown :: bool
  d_fields :: bool

definition dialog0 :: dlg where
  "dialog0 = \<lparr>d_type = None, d_cls = ''h-wrap'', d_head = [], d_body = [], d_foot = [], d_close = None,
     d_submit = None, d_shown = False, d_fields = False\<rparr>"

text \<open>
  \<open>_bindUI\<close>: handlers go to the buttons that exist; the buttons of the previous kind, and what
  was bound to them, are gone with the old markup.
\<close>

definition bound_close :: "dtype \<Rightarrow> close_act option" where
  "bound_close t =
     (case t of
        TRegister \<Rightarrow> None
      | TTake \<Rightarrow> Some CRefresh
      | TWeixinOK \<Rightarrow> Some CRefresh
      | TExchangeOK \<Rightarrow> Some CRefresh
      | TTakeOK \<Rightarrow> Some CRefresh
      | TAgain \<Rightarrow> Some CHide
      | TNoDayTimes \<Rightarrow> Some CHide
      | TNoAllTimes \<Rightarrow> Some CHide
      | TExchange \<Rightarrow> Some CRefresh)"

definition bound_submit :: "dtype \<Rightarrow> submit_act option" where
  "bound_submit t =
     (case t of TRegister \<Rightarrow> Some SRegister | TTake \<Rightarrow> Some STake | TExchange \<Rightarrow> Some SNothing | _ \<Rightarrow> None)"

definition has_close :: "foot_item list \<Rightarrow> bool" where
  "has_close foot \<longleftrightarrow> (\<exists>b\<in>set foot. case b of CloseBtn c t \<Rightarrow> True | _ \<Rightarrow> False)"

definition has_submit :: "foot_item list \<Rightarrow> bool" where
  "has_submit foot \<longleftrightarrow> (\<exists>b\<in>set foot. case b of SubmitBtn c t \<Rightarrow> True | _ \<Rightarrow> False)"

definition renderUI :: "app \<Rightarrow> dtype \<Rightarrow> opts \<Rightarrow> dlg \<Rightarrow> dlg" where
  "renderUI ap t ob d =
     (let (head, body, foot) = dialog_html ap t ob
      in d\<lparr>d_type := Some t, d_cls := head_cls t, d_head := head, d_body := body, d_foot := foot,
           d_close := (if has_close foot then bound_close t else None),
           d_submit := (if has_submit foot then bound_submit t else None),
           d_fields := (t = TRegister \<or> d_fields d), d_shown := True\<rparr>)"

definition dialog_init :: "app \<Rightarrow> dlg" where
  "dialog_init ap = (if a_uid ap \<le> 0 \<and> a_regFirst ap then renderUI ap TRegister [] dialog0 else dialog0)"

text \<open>\<open>refresh\<close>: the address without its last time stamp, and a new one.\<close>

definition refresh_href :: "jstr \<Rightarrow> jstr \<Rightarrow> jstr" where
  "refresh_href href rnd = hd (split_on (js ''&time='') href) @ (js ''&time='') @ rnd"

text \<open>The close button: hide the dialog, or leave for the returned address.\<close>

definition press_close :: "jstr \<Rightarrow> jstr \<Rightarrow> dlg \<Rightarrow> dlg \<times> jstr option" where
  "press_close href rnd d =
     (case d_close d of
        None \<Rightarrow> (d, None)
      | Some CHide \<Rightarrow> (d\<lparr>d_shown := False\<rparr>, None)
      | Some CRefresh \<Rightarrow> (d, Some (refresh_href href rnd)))"

section \<open>Taking a prize\<close>

text \<open>The pattern \<open>^[1][3-8]+\d{9}$\<close>: the repeated class is greedy but gives units back.\<close>

definition take_phone :: "jstr \<Rightarrow> bool" where
  "take_phone s \<longleftrightarrow>
     (case s of
        [] \<Rightarrow> False
      | a # r \<Rightarrow> a = 49 \<and> 10 \<le> length r \<and>
          list_all (\<lambda>u. 51 \<le> u \<and> u \<le> 56) (take (length r - 9) r) \<and> list_all is_digit (drop (length r - 9) r))"

record take_form =
  f_mobile :: jstr
  f_name :: jstr
  f_address :: jstr
  f_code :: jstr

definition take_submit :: "take_form \<Rightarrow> jstr + take_form" where
  "take_submit f =
     (if f_name f = [] then Inl [35831, 36755, 20837, 22995, 21517]
      else if f_address f = [] then Inl [35831, 36755, 20837, 22320, 22336]
      else if f_mobile f = [] then Inl [35831, 36755, 20837, 25163, 26426, 21495, 30721]
      else if \<not> take_phone (f_mobile f) then Inl [35831, 36755, 20837, 27491, 30830, 25163, 26426, 21495, 30721]
      else Inr f)"

text \<open>The answer: the message and, on success, the address to go to.\<close>

definition take_success :: "bool \<Rightarrow> jstr \<Rightarrow> jstr \<Rightarrow> jstr \<Rightarrow> jstr \<Rightarrow> jstr \<Rightarrow> jstr \<times> jstr option" where
  "take_success ok msg base actId jwid openid =
     (if ok then
        ([25552, 20132, 25104, 21151, 65292, 35874, 35874, 21442, 19982, 65281],
         Some (base @ (js ''/goldeneggs/new/toGoldenegg.do'') @ (js ''?actId='') @ actId @ (js ''&jwid='') @ jwid @ (js ''&openid='') @ openid))
      else (msg, None))"

definition msg_red_sent :: jstr where
  "msg_red_sent = ([39046, 21462, 25104, 21151, 65292, 31995, 32479, 24050, 32463, 27966, 21457, 32473, 24744, 65292] @ js ''<br/>'' @ [35831, 21450, 26102, 22312, 20844, 20247, 21495, 20869, 26597, 30475])"

definition renderWeixinOK :: "app \<Rightarrow> dlg \<Rightarrow> dlg" where
  "renderWeixinOK ap d = renderUI ap TWeixinOK [((js ''title''), JStr msg_red_sent)] d"

text \<open>An answer with \<open>success\<close>, or an \<open>error\<close> text (possibly empty), as the handlers test them.\<close>

definition handleTake :: "app \<Rightarrow> opts \<Rightarrow> bool \<Rightarrow> jstr \<Rightarrow> dlg \<Rightarrow> dlg \<times> ui list" where
  "handleTake ap ob ok err d =
     (if ok then
        (if truthy (obj_get ob (js ''c_url'')) then
           (if eq_num (obj_get ob (js ''c_attr'')) 3 then (renderWeixinOK ap d, [])
            else (renderUI ap TExchangeOK ob d, []))
         else if a_onmobile ap then (renderUI ap TExchange ob d, [])
         else (renderUI ap TTakeOK (case obj_get ob (js ''sn'') of None \<Rightarrow> [] | Some v \<Rightarrow> [((js ''sn''), v)]) d, []))
      else (d, if err \<noteq> [] then [Alert err] else []))"

text \<open>\<open>_handleExchange\<close>: the request is sent unless the password is empty; then its answer.\<close>

definition handleExchange :: "jstr \<Rightarrow> ui list option" where
  "handleExchange snpwd = (if snpwd = [] then Some [Alert ([20817, 22870, 23494, 30721] @ [19981, 33021, 20026, 31354, 65281])] else None)"

definition exchange_answer :: "bool \<Rightarrow> jstr \<Rightarrow> jstr \<Rightarrow> jstr \<Rightarrow> jstr option \<times> ui list" where
  "exchange_answer ok err href rnd =
     (if ok then (Some (refresh_href href rnd), []) else (None, if err \<noteq> [] then [Alert err] else []))"

datatype url_result = Posts jstr | ReferenceError | Ignored

text \<open>\<open>handleUrlBtn\<close>: kinds 1 and 2 post through \<open>jQiery\<close>, a name that is declared nowhere.\<close>

definition handleUrlBtn :: "opts \<Rightarrow> url_result" where
  "handleUrlBtn ob =
     (if eq_num (obj_get ob (js ''c_attr'')) 3 then Posts (text_of (obj_get ob (js ''c_url'')))
      else if eq_num (obj_get ob (js ''c_attr'')) 1 \<or> eq_num (obj_get ob (js ''c_attr'')) 2 then ReferenceError
      else Ignored)"

section \<open>Registration\<close>

record reg =
  r_waiting :: bool
  r_text :: jstr
  r_timeout :: nat
  r_timers :: "unit timers"
  r_posts :: "jstr list"
  r_locked :: bool
  r_saves :: nat

definition reg0 :: reg where
  "reg0 = \<lparr>r_waiting = False, r_text = [33719, 21462, 39564, 35777, 30721], r_timeout = 0, r_timers = no_timers, r_posts = [],
     r_locked = False, r_saves = 0\<rparr>"

text \<open>
  \<open>_handleVerify\<close> at time \<open>now\<close>: refused while waiting, else the countdown starts and the mobile
  number is posted. One countdown exists at a time, so its counter is kept in the state.
\<close>

definition handleVerify :: "int \<Rightarrow> jstr \<Rightarrow> reg \<Rightarrow> reg" where
  "handleVerify now mob st =
     (if r_waiting st then st
      else
        (let (i, ts) = set_interval now 1000 () (r_timers st)
         in st\<lparr>r_waiting := True, r_timeout := 59, r_timers := ts, r_posts := r_posts st @ [mob]\<rparr>))"

definition verify_tick :: "nat \<Rightarrow> reg \<Rightarrow> reg" where
  "verify_tick oTimer st =
     (if r_timeout st \<noteq> 0 then
        st\<lparr>r_text := nat_str (r_timeout st) @ [31186, 21518, 37325, 21457], r_timeout := r_timeout st - 1\<rparr>
      else st\<lparr>r_timers := clear_timer oTimer (r_timers st), r_waiting := False, r_text := [33719, 21462, 39564, 35777, 30721]\<rparr>)"

definition isMobile_reg :: "jstr \<Rightarrow> bool" where
  "isMobile_reg s \<longleftrightarrow> 5 \<le> length s \<and> length s \<le> 20 \<and> list_all is_digit s"

record required =
  q_id :: string
  q_val :: jstr
  q_placeholder :: jstr

fun reg_verify :: "required list \<Rightarrow> jstr option" where
  "reg_verify [] = None"
| "reg_verify (q # qs) =
     (if q_val q = [] then Some (q_placeholder q @ [19981, 33021, 20026, 31354, 65281])
      else if q_id q = ''J_InputMoblie'' \<and> \<not> isMobile_reg (q_val q) then Some [35831, 36755, 20837, 27491, 30830, 30340, 25163, 26426, 21495, 65281]
      else reg_verify qs)"

definition handleSave :: "reg \<Rightarrow> reg" where
  "handleSave st = (if r_locked st then st else st\<lparr>r_locked := True, r_saves := r_saves st + 1\<rparr>)"

text \<open>The submit button: the message of the first field refused, or the form is saved.\<close>

definition reg_submit :: "required list \<Rightarrow> reg \<Rightarrow> reg \<times> jstr option" where
  "reg_submit qs st =
     (case reg_verify qs of None \<Rightarrow> (handleSave st, None) | Some m \<Rightarrow> (st, Some m))"

text \<open>\<open>parseInt(Math.random * 10000)\<close> multiplies the function itself, so the stamp is always \<open>NaN\<close>.\<close>

definition save_answer :: "jstr \<Rightarrow> reg \<Rightarrow> reg \<times> jstr" where
  "save_answer href st =
     (st\<lparr>r_locked := False\<rparr>, hd (split_on (js ''&randomsdata='') href) @ (js ''&randomsdata='') @ (js ''NaN''))"

datatype reg_event = VClick int jstr | VFire nat

definition reg_fire :: "nat \<Rightarrow> reg \<Rightarrow> reg" where
  "reg_fire i st =
     (case fire i (r_timers st) of
        None \<Rightarrow> st
      | Some (c, ts) \<Rightarrow> verify_tick i (st\<lparr>r_timers := ts\<rparr>))"

fun reg_step :: "reg_event \<Rightarrow> reg \<Rightarrow> reg" where
  "reg_step (VClick now mob) st = handleVerify now mob st"
| "reg_step (VFire i) st = reg_fire i st"

section \<open>Guide page and player\<close>

record guide =
  g_class :: string
  g_shown :: bool

definition guide_render :: "string \<Rightarrow> bool \<Rightarrow> guide" where
  "guide_render t vis =
     \<lparr>g_class = ''ui-guide ui-guide-'' @ (if t = [] then ''share'' else t), g_shown = vis\<rparr>"

definition guide_show :: "guide \<Rightarrow> guide" where
  "guide_show g = g\<lparr>g_shown := True\<rparr>"

definition guide_click :: "guide \<Rightarrow> guide" where
  "guide_click g = g\<lparr>g_shown := False\<rparr>"

record player =
  p_on :: bool
  p_btn_on :: bool
  p_playing :: bool

definition player_play :: "player \<Rightarrow> player" where
  "player_play p = p\<lparr>p_playing := True, p_btn_on := True, p_on := True\<rparr>"

definition player_pause :: "player \<Rightarrow> player" where
  "player_pause p = p\<lparr>p_playing := False, p_btn_on := False, p_on := False\<rparr>"

text \<open>\<open>!!autoPlay || true\<close> is true whatever the argument.\<close>

definition player_new :: "bool \<Rightarrow> player" where
  "player_new autoPlay =
     (let p = \<lparr>p_on = False, p_btn_on = False, p_playing = False\<rparr>
      in if autoPlay \<or> True then player_play p else p)"

datatype player_event = PlayerClick | BridgeReady

definition player_step :: "player_event \<Rightarrow> player \<Rightarrow> player" where
  "player_step e p =
     (case e of PlayerClick \<Rightarrow> if p_on p then player_pause p else player_play p | BridgeReady \<Rightarrow> player_play p)"

section \<open>Every dialog can be left\<close>

lemma has_close_items [simp]:
  "has_close (CloseBtn c t # foot)" "has_close (SubmitBtn c t # foot) = has_close foot" "\<not> has_close []"
  by (simp_all add: has_close_def)

text \<open>
  Every dialog except the registration form shows a close button that works: after a draw
  without a prize, or with no draws left, it hides the dialog and the game goes on; after a
  prize it reloads the page at the same address with a new time stamp.
\<close>

theorem dialog_close_works:
  assumes "t \<noteq> TRegister"
  shows "has_close (d_foot (renderUI ap t ob d)) \<and>
    press_close href rnd (renderUI ap t ob d) =
      (if t \<in> {TAgain, TNoDayTimes, TNoAllTimes}
       then ((renderUI ap t ob d)\<lparr>d_shown := False\<rparr>, None)
       else (renderUI ap t ob d, Some (refresh_href href rnd)))"
  using assms
  by (cases t) (simp_all add: renderUI_def dialog_html_def take_html_def Let_def press_close_def bound_close_def)

theorem dialog_close_works_witness:
  "let ap = \<lparr>a_uid = 7, a_regFirst = False, a_name = [], a_onmobile = True, a_logo = (js ''l.png''), a_snName = [],
       a_register = [], shareFlag1 = [], extraLuckyDraw = []\<rparr>
   in has_close (d_foot (renderUI ap TAgain [] dialog0)) \<and>
      d_shown (fst (press_close [] [] (renderUI ap TAgain [] dialog0))) = False"
  using dialog_close_works [of TAgain "\<lparr>a_uid = 7, a_regFirst = False, a_name = [], a_onmobile = True,
      a_logo = (js ''l.png''), a_snName = [], a_register = [], shareFlag1 = [], extraLuckyDraw = []\<rparr>" "[]" dialog0 "[]" "[]"]
  by (simp add: Let_def)

lemma index_at_border:
  assumes "hd c \<notin> set (tl c)" "c \<noteq> []" "\<not> sublist c p"
  shows "index_at c (p @ c @ q) = Some (length p)"
  using assms(3)
proof (induction p)
  case Nil
  then show ?case using assms(2) by (cases c) (simp_all add: prefix_def)
next
  case (Cons x p)
  have "\<not> prefix c (x # p @ c @ q)"
  proof
    assume a: "prefix c (x # p @ c @ q)"
    obtain h r where c: "c = h # r" using assms(2) by (cases c) auto
    have "\<not> prefix c (x # p)" using Cons.prems by auto
    with a have "prefix (x # p) c" by (metis append_Cons prefix_append prefix_same_cases prefixI)
    then obtain z where z: "c = (x # p) @ z" by (auto simp: prefix_def)
    have "z \<noteq> []" using z Cons.prems by auto
    with z a c have "prefix z (c @ q)" by auto
    then have "hd z = h" using \<open>z \<noteq> []\<close> c by (cases z) auto
    then have "h \<in> set r" using z c \<open>z \<noteq> []\<close> by (cases z) auto
    with assms(1) c show False by simp
  qed
  moreover have "\<not> sublist c p" using Cons.prems by (meson sublist_Cons_right)
  ultimately show ?case using Cons.IH by simp
qed

lemma index_at_before: "c \<noteq> [] \<Longrightarrow> index_at c s = Some i \<Longrightarrow> \<not> sublist c (take i s)"
proof (induction s arbitrary: i)
  case (Cons x s)
  show ?case
  proof (cases "prefix c (x # s)")
    case True
    then show ?thesis using Cons.prems by simp
  next
    case False
    then obtain k where k: "index_at c s = Some k" "i = Suc k" using Cons.prems by auto
    have "\<not> prefix c (x # take k s)"
      using False by (metis prefix_order.trans take_Suc_Cons take_is_prefix)
    then show ?thesis using Cons.IH [OF Cons.prems(1) k(1)] k(2) by (simp add: sublist_Cons_right)
  qed
qed (simp split: if_splits)

lemma split_hd:
  assumes "c \<noteq> []"
  shows "hd (split_on c s) = (case index_at c s of None \<Rightarrow> s | Some i \<Rightarrow> take i s)"
  using assms by (subst split_on.simps) (simp split: option.split)

lemma split_hd_again:
  assumes "c \<noteq> []" "hd c \<notin> set (tl c)"
  shows "hd (split_on c (hd (split_on c s) @ c @ r)) = hd (split_on c s)"
proof -
  have "\<not> sublist c (hd (split_on c s))"
    using index_at_before [OF assms(1), of s] index_at_None [of c s]
    by (simp add: split_hd [OF assms(1)] split: option.split)
  then have "index_at c (hd (split_on c s) @ c @ r) = Some (length (hd (split_on c s)))"
    by (rule index_at_border [OF assms(2,1)])
  then show ?thesis by (simp add: split_hd [OF assms(1), of "hd (split_on c s) @ c @ r"])
qed

text \<open>
  Reloading replaces the time stamp instead of adding another one, so the address does not
  grow however often dialogs are closed; the part before the stamp is kept as it is.
\<close>

theorem refresh_does_not_grow:
  "refresh_href (refresh_href href r1) r2 = refresh_href href r2 \<and>
   (\<not> sublist (js ''&time='') href \<longrightarrow> refresh_href href r1 = href @ (js ''&time='') @ r1)"
proof -
  have c: "(js ''&time='') \<noteq> []" "hd (js ''&time='') \<notin> set (tl (js ''&time=''))" by (simp_all add: js_def)
  have "refresh_href href r1 = href @ (js ''&time='') @ r1" if "\<not> sublist (js ''&time='') href"
    using that index_at_None [of "(js ''&time='')" href] by (simp add: refresh_href_def split_hd [OF c(1)])
  then show ?thesis
    using split_hd_again [OF c, of href r1] by (simp add: refresh_href_def)
qed

theorem refresh_does_not_grow_witness:
  "refresh_href (refresh_href (js ''g.do?a=1'') (js ''0.5'')) (js ''0.25'') = (js ''g.do?a=1&time=0.25'')"
proof -
  have "index_at (js ''&time='') (js ''g.do?a=1'') = None" by (simp add: js_def prefix_def)
  then have "\<not> sublist (js ''&time='') (js ''g.do?a=1'')" by (simp add: index_at_None)
  then have "refresh_href (js ''g.do?a=1'') (js ''0.25'') = (js ''g.do?a=1'') @ (js ''&time='') @ (js ''0.25'')"
    using refresh_does_not_grow [of "(js ''g.do?a=1'')" "(js ''0.25'')" "[]"] by blast
  then show ?thesis
    using refresh_does_not_grow [of "(js ''g.do?a=1'')" "(js ''0.5'')" "(js ''0.25'')"] by (simp add: js_def)
qed

section \<open>The verification countdown\<close>

definition counting :: "reg \<Rightarrow> nat \<Rightarrow> jstr \<Rightarrow> nat \<Rightarrow> reg \<Rightarrow> bool" where
  "counting st0 i mob n st \<longleftrightarrow>
     r_waiting st \<and> r_timeout st = 59 - n \<and> r_posts st = r_posts st0 @ [mob] \<and>
     (\<exists>d. pending (r_timers st) = [(i, Entry d (Some 1000) ())]) \<and>
     (n > 0 \<longrightarrow> r_text st = nat_str (60 - n) @ [31186, 21518, 37325, 21457])"

lemma counting_click: "counting st0 i mob n st \<Longrightarrow> counting st0 i mob n (handleVerify now mob' st)"
  by (simp add: counting_def handleVerify_def)

lemma counting_other: "counting st0 i mob n st \<Longrightarrow> j \<noteq> i \<Longrightarrow> reg_fire j st = st"
  by (auto simp: counting_def reg_fire_def fire_def find_timer_def)

lemma counting_fire:
  assumes "counting st0 i mob n st" "n < 59"
  shows "counting st0 i mob (n + 1) (reg_fire i st)"
proof -
  obtain d where "pending (r_timers st) = [(i, Entry d (Some 1000) ())]"
    using assms by (auto simp: counting_def)
  with assms show ?thesis
    by (auto simp: counting_def reg_fire_def fire_def find_timer_def verify_tick_def)
qed

lemma counting_end:
  assumes "counting st0 i mob 59 st"
  shows "\<not> r_waiting (reg_fire i st) \<and> pending (r_timers (reg_fire i st)) = [] \<and>
    r_text (reg_fire i st) = [33719, 21462, 39564, 35777, 30721] \<and> r_posts (reg_fire i st) = r_posts st0 @ [mob]"
proof -
  obtain d where "pending (r_timers st) = [(i, Entry d (Some 1000) ())]"
    using assms by (auto simp: counting_def)
  with assms show ?thesis
    by (auto simp: counting_def reg_fire_def fire_def find_timer_def verify_tick_def clear_timer_def)
qed

lemma counting_run:
  "counting st0 i mob k st \<Longrightarrow> k + length (filter (\<lambda>e. e = VFire i) evs) \<le> 59 \<Longrightarrow>
   counting st0 i mob (k + length (filter (\<lambda>e. e = VFire i) evs)) (fold reg_step evs st)"
proof (induction evs arbitrary: k st)
  case (Cons e evs)
  show ?case
  proof (cases "e = VFire i")
    case True
    then show ?thesis
      using Cons.IH [of "k + 1" "reg_fire i st"] Cons.prems counting_fire [OF Cons.prems(1)] by simp
  next
    case False
    then have "counting st0 i mob k (reg_step e st)"
      using Cons.prems(1) counting_click counting_other by (cases e) auto
    then show ?thesis using Cons.IH [of k "reg_step e st"] Cons.prems False by simp
  qed
qed simp

text \<open>
  A click on the verification button sends one message and blocks the button: while the
  countdown runs further clicks send nothing, the label counts from 59 to 1, and the sixtieth
  tick removes the timer and makes the button usable again.
\<close>

theorem verify_countdown:
  assumes "\<not> r_waiting st" "pending (r_timers st) = []"
    and "i = next_id (r_timers st)" "s = fold reg_step evs (handleVerify now mob st)"
    and "length (filter (\<lambda>e. e = VFire i) evs) = n" "n \<le> 59"
  shows "r_waiting s \<and> r_posts s = r_posts st @ [mob] \<and>
    (n > 0 \<longrightarrow> r_text s = nat_str (60 - n) @ [31186, 21518, 37325, 21457]) \<and>
    (n = 59 \<longrightarrow> \<not> r_waiting (reg_step (VFire i) s) \<and> pending (r_timers (reg_step (VFire i) s)) = [] \<and>
       r_text (reg_step (VFire i) s) = [33719, 21462, 39564, 35777, 30721])"
proof -
  have "counting st i mob 0 (handleVerify now mob st)"
    using assms by (simp add: counting_def handleVerify_def set_interval_def)
  then have "counting st i mob n s"
    using counting_run [of st i mob 0 "handleVerify now mob st" evs] assms by simp
  then show ?thesis using counting_end [of st i mob s] by (auto simp: counting_def)
qed

theorem verify_countdown_witness:
  "r_posts (fold reg_step [VFire 1, VClick 1500 (js ''13800000001''), VFire 1] (handleVerify 0 (js ''13800000000'') reg0))
    = [(js ''13800000000'')]"
proof -
  have s: "\<not> r_waiting reg0" "pending (r_timers reg0) = []" "1 = next_id (r_timers reg0)"
    by (simp_all add: reg0_def no_timers_def)
  show ?thesis
    using verify_countdown [OF s refl, of "[VFire 1, VClick 1500 (js ''13800000001''), VFire 1]" 2 0 "(js ''13800000000'')"]
    by (simp add: reg0_def)
qed

lemma reg_verify_none:
  "reg_verify qs = None \<longleftrightarrow>
   (\<forall>q\<in>set qs. q_val q \<noteq> [] \<and> (q_id q = ''J_InputMoblie'' \<longrightarrow> isMobile_reg (q_val q)))"
  by (induction qs) auto

text \<open>
  Saving sends one request until its answer comes (a second submit is refused by the lock),
  and only when every required field is filled and the mobile number has 5 to 20 digits; a
  request that fails leaves the lock on, as no handler takes it off.
\<close>

theorem reg_submit_locked:
  "r_saves (fst (reg_submit qs st)) =
     r_saves st + (if \<not> r_locked st \<and>
       (\<forall>q\<in>set qs. q_val q \<noteq> [] \<and> (q_id q = ''J_InputMoblie'' \<longrightarrow> isMobile_reg (q_val q))) then 1 else 0) \<and>
   r_saves (fst (reg_submit qs' (fst (reg_submit qs st)))) \<le> r_saves st + 1"
  by (auto simp: reg_submit_def handleSave_def reg_verify_none [symmetric] split: option.split)

theorem reg_submit_locked_witness:
  "r_saves (fst (reg_submit [\<lparr>q_id = ''J_InputMoblie'', q_val = (js ''13800000000''), q_placeholder = []\<rparr>] reg0)) = 1"
  using reg_submit_locked [of "[\<lparr>q_id = ''J_InputMoblie'', q_val = (js ''13800000000''), q_placeholder = []\<rparr>]" reg0 "[]"]
  by (simp add: reg0_def isMobile_reg_def js_def is_digit_def)

section \<open>The phone number of a prize\<close>

lemma is_digit_range: "is_digit u \<longleftrightarrow> 48 \<le> u \<and> u \<le> 57"
  by (simp add: is_digit_def)

text \<open>
  The number asked for when a prize is taken is checked more weakly than \<open>isMobile\<close> does:
  every number that passes there passes here, but so does one followed by any number of further
  digits, since the class of the second digit may repeat.
\<close>

theorem take_phone_weaker:
  "(isMobile s \<longrightarrow> take_phone s) \<and> (take_phone (49 # replicate n 51) \<longleftrightarrow> 10 \<le> n)"
proof -
  have "take_phone s" if m: "isMobile s"
  proof -
    obtain a b c r where s: "s = a # b # c # r" and l: "length r = 8" and d: "list_all is_digit r" "a = 49"
      and bc: "51 \<le> b \<and> b \<le> 56" "is_digit c"
      using m by (auto simp: isMobile_def js_def is_digit_def split: list.splits)
    then show ?thesis by (simp add: take_phone_def)
  qed
  then show ?thesis by (auto simp: take_phone_def is_digit_def list_all_iff)
qed

theorem take_phone_weaker_witness: "take_phone (js ''13812345678'')"
proof -
  have "isMobile (js ''13812345678'')" by (simp add: isMobile_def js_def is_digit_def)
  then show ?thesis using take_phone_weaker [of "(js ''13812345678'')" 10] by blast
qed

end
