(* ===== verification/EggGame.thy ===== *)
theory EggGame
  imports EggDialog
begin

text \<open>
  The golden-egg game itself: the three eggs on the canvas (\<open>template/hd0921/js/pass.js\<close>) and the
  controller (\<open>egg.js\<close>) that asks the server for a draw, animates the egg that was hit and shows the
  result in the dialog. A click takes the click handlers off all eggs; only \<open>reset\<close> puts them back.
\<close>

section \<open>State\<close>

datatype call = CallTake | CallWin

text \<open>The callbacks left to the clock, one constructor per place that sets a timer.\<close>

datatype todo =
    Refused dtype opts
  | Won opts
  | NotWon opts "jval option"
  | NoTimes dtype opts "jval option"
  | Odd opts
  | HitSound

record egg =
  e_app :: app
  e_point :: int
  e_armed :: "bool list"
  e_zhong :: "nat option"
  e_frames :: "(bool \<times> bool) list"
  e_asking :: "jstr option"
  e_flying :: "(nat \<times> call) list"
  e_sent :: nat
  e_timers :: "todo timers"
  e_dialog :: dlg
  e_player :: "player option"
  e_follow :: "guide option"
  e_top :: "int option"
  e_times :: jsnum
  e_awards :: jsnum
  e_day :: jsnum
  e_code :: jstr
  e_ui :: "ui list"
  e_thrown :: bool

text \<open>
  \<open>Egg._init\<close>: dialog, player (when the page has one) and the page that asks to follow; the player
  moves below the advertisement. \<open>ad\<close> is the height of the advertisement.
\<close>

definition egg_init ::
  "app \<Rightarrow> int \<Rightarrow> bool \<Rightarrow> bool \<Rightarrow> int \<Rightarrow> int \<Rightarrow> jsnum \<Rightarrow> jsnum \<Rightarrow> jsnum \<Rightarrow> egg" where
  "egg_init ap point mustFollow hasPlayer gPlayerTop ad tms awards day =
     \<lparr>e_app = ap, e_point = point, e_armed = [True, True, True], e_zhong = None,
      e_frames = [(False, False), (False, False), (False, False)], e_asking = None, e_flying = [],
      e_sent = 0, e_timers = no_timers, e_dialog = dialog_init ap,
      e_player = (if hasPlayer then Some (player_new False) else None),
      e_follow = (if mustFollow then Some (guide_render ''follow'' False) else None),
      e_top = (if hasPlayer then Some (if ad > 0 then ad else gPlayerTop) else None),
      e_times = tms, e_awards = awards, e_day = day, e_code = [], e_ui = [], e_thrown = False\<rparr>"

section \<open>The canvas\<close>

definition pass_play :: "bool \<Rightarrow> egg \<Rightarrow> egg" where
  "pass_play p st =
     (case e_zhong st of
        None \<Rightarrow> st
      | Some i \<Rightarrow> st\<lparr>e_frames := (e_frames st)[i := (True, p \<or> snd (e_frames st ! i))]\<rparr>)"

definition pass_reset :: "egg \<Rightarrow> egg" where
  "pass_reset st =
     (case e_zhong st of
        None \<Rightarrow> st\<lparr>e_thrown := True\<rparr>
      | Some i \<Rightarrow> st\<lparr>e_frames := (e_frames st)[i := (False, False)], e_armed := [True, True, True]\<rparr>)"

text \<open>
  The drawing order of the eggs at heights \<open>y\<close>: \<open>px\<close> is built egg by egg; the stage then gets
  them from the last entry to the first, so the first is on top.
\<close>

definition depth_order :: "(nat \<Rightarrow> 'y :: linorder) \<Rightarrow> nat list" where
  "depth_order y =
     (let (px0, px1) = (if y 0 < y 1 then (1, 0) else (0, 1))
      in if y px1 > y 2 then [px0, px1, 2]
         else if y px0 > y 2 then [px0, 2, px1]
         else [2, px0, px1])"

definition stage_order :: "(nat \<Rightarrow> 'y :: linorder) \<Rightarrow> nat list" where
  "stage_order y = rev (depth_order y)"

text \<open>Loading the images: the start function runs when as many have loaded as were asked for.\<close>

definition onLoadHandle :: "nat \<Rightarrow> nat \<Rightarrow> nat \<times> bool" where
  "onLoadHandle n num = (num + 1, num + 1 = n)"

fun loads :: "nat \<Rightarrow> nat \<Rightarrow> nat \<Rightarrow> nat" where
  "loads n num 0 = 0"
| "loads n num (Suc k) =
     (case onLoadHandle n num of (num', start) \<Rightarrow> (if start then 1 else 0) + loads n num' k)"

section \<open>The controller\<close>

definition post :: "call \<Rightarrow> egg \<Rightarrow> egg" where
  "post c st = st\<lparr>e_sent := e_sent st + 1, e_flying := e_flying st @ [(e_sent st, c)]\<rparr>"

definition later :: "int \<Rightarrow> int \<Rightarrow> todo \<Rightarrow> egg \<Rightarrow> egg" where
  "later now d c st = st\<lparr>e_timers := snd (set_timeout now d c (e_timers st))\<rparr>"

definition render :: "dtype \<Rightarrow> opts \<Rightarrow> egg \<Rightarrow> egg" where
  "render t ob st = st\<lparr>e_dialog := renderUI (e_app st) t ob (e_dialog st)\<rparr>"

text \<open>No element gets the class \<open>on\<close> any more, so the first test never holds.\<close>

definition handleEggClick :: "int \<Rightarrow> egg \<Rightarrow> egg" where
  "handleEggClick now st = later now 800 HitSound (post CallWin st)"

definition msg_points :: "int \<Rightarrow> jstr" where
  "msg_points point = [20817, 25442, 23558, 28040, 32791] @ int_str point @ [31215, 20998, 65292, 20320, 30830, 23450, 20817, 25442, 65311]"

definition pass_callback :: "egg \<Rightarrow> egg" where
  "pass_callback st =
     (if e_point st > 0 then st\<lparr>e_asking := Some (msg_points (e_point st))\<rparr>
      else post CallTake st)"

definition onClickHandle :: "nat \<Rightarrow> egg \<Rightarrow> egg" where
  "onClickHandle i st =
     (if i < length (e_armed st) \<and> e_armed st ! i
      then pass_callback (st\<lparr>e_armed := [False, False, False], e_zhong := Some i\<rparr>)
      else st)"

text \<open>The confirmation: any button destroys the box, only the second one goes on.\<close>

definition confirm_click :: "int \<Rightarrow> bool \<Rightarrow> egg \<Rightarrow> egg" where
  "confirm_click now ok st =
     (case e_asking st of
        None \<Rightarrow> st
      | Some m \<Rightarrow>
          (let st = st\<lparr>e_asking := None\<rparr> in if ok then handleEggClick now st else st))"

subsection \<open>Counters\<close>

text \<open>\<open>(+num) || 0\<close>; texts other than plain numerals count as 0.\<close>

definition plus_or_0 :: "jval \<Rightarrow> int" where
  "plus_or_0 v =
     (case v of
        JStr s \<Rightarrow> if s \<noteq> [] \<and> list_all is_digit s then int (digits_val s) else 0
      | JNum n \<Rightarrow> n
      | JBool b \<Rightarrow> if b then 1 else 0
      | JNull \<Rightarrow> 0)"

definition resetCount :: "jval option \<Rightarrow> egg \<Rightarrow> egg" where
  "resetCount num st =
     (case num of
        None \<Rightarrow> st
      | Some JNull \<Rightarrow> st
      | Some v \<Rightarrow> st\<lparr>e_times := Num (plus_or_0 v)\<rparr>)"

definition resetCountNew :: "egg \<Rightarrow> egg" where
  "resetCountNew st = st\<lparr>e_awards := num_add (e_awards st) (-1), e_day := num_add (e_day st) (-1)\<rparr>"

subsection \<open>Answers\<close>

record reply =
  y_success :: bool
  y_obj :: jstr
  y_error :: "jval option"
  y_attributes :: "opts option"
  y_remain :: "jval option"

text \<open>A parsed answer (possibly \<open>null\<close>), or a request that failed, which has no handler.\<close>

datatype got = Got "reply option" | Lost

definition empty_reply :: reply where
  "empty_reply = \<lparr>y_success = False, y_obj = [], y_error = None, y_attributes = None, y_remain = None\<rparr>"

definition title_of :: "jval option \<Rightarrow> opts" where
  "title_of err = (case err of None \<Rightarrow> [] | Some v \<Rightarrow> [((js ''title''), v)])"

fun eq_empty :: "jval option \<Rightarrow> bool" where
  "eq_empty None = False"
| "eq_empty (Some (JStr s)) = (s = [])"
| "eq_empty (Some (JNum n)) = (n = 0)"
| "eq_empty (Some (JBool b)) = (\<not> b)"
| "eq_empty (Some JNull) = False"

definition subscribed :: "opts \<Rightarrow> bool" where
  "subscribed a =
     (let w = obj_get a (js ''whetherSubscribe'')
      in eq_num w 1 \<or> eq_empty w \<or> w = None \<or> w = Some JNull)"

definition on_take :: "int \<Rightarrow> reply option \<Rightarrow> egg \<Rightarrow> egg" where
  "on_take now r st =
     (let d = (case r of None \<Rightarrow> empty_reply | Some d \<Rightarrow> d) in
      if \<not> y_success d then
        (if y_obj d = (js ''5'') then pass_reset (st\<lparr>e_ui := e_ui st @ [Show ''#actTimeTitle'']\<rparr>)
         else
           (case y_attributes d of
              None \<Rightarrow> st\<lparr>e_thrown := True\<rparr>
            | Some a \<Rightarrow>
                if subscribed a then
                  (if y_obj d = (js ''3'') then later now 500 (Refused TNoDayTimes a) st
                   else if y_obj d = (js ''4'') then later now 500 (Refused TNoAllTimes a) st
                   else later now 500 (Refused TNoDayTimes (title_of (y_error d))) st)
                else pass_reset (st\<lparr>e_ui := e_ui st @ [Show ''#subscript'']\<rparr>)))
      else handleEggClick now st)"

definition attrs :: "reply \<Rightarrow> opts" where
  "attrs d = (case y_attributes d of None \<Rightarrow> [] | Some a \<Rightarrow> a)"

definition on_win :: "int \<Rightarrow> reply option \<Rightarrow> egg \<Rightarrow> egg" where
  "on_win now r st =
     (case r of
        None \<Rightarrow> st\<lparr>e_thrown := True\<rparr>
      | Some d \<Rightarrow>
          if y_obj d = (js ''1'') then
            (let st = pass_play True st in
             case y_attributes d of
               None \<Rightarrow> st\<lparr>e_thrown := True\<rparr>
             | Some a \<Rightarrow>
                 later now 2000 (Won a)
                   (st\<lparr>e_code := (case obj_get a (js ''code'') of None \<Rightarrow> [] | Some JNull \<Rightarrow> [] | Some v \<Rightarrow> text_of (Some v)),
                      e_ui := e_ui st @ [SetText ''#commonTitle'' []]\<rparr>))
          else if y_obj d = (js ''2'') then later now 2000 (NotWon (attrs d) (y_remain d)) (pass_play False st)
          else if y_obj d = (js ''3'') then
            later now 2000 (NoTimes TNoDayTimes (attrs d) (y_remain d)) (pass_play False st)
          else if y_obj d = (js ''4'') then
            later now 2000 (NoTimes TNoAllTimes (attrs d) (y_remain d)) (pass_play False st)
          else later now 2000 (Odd (title_of (y_error d))) (pass_play False st))"

definition egg_receive :: "nat \<Rightarrow> int \<Rightarrow> got \<Rightarrow> egg \<Rightarrow> egg" where
  "egg_receive i now g st =
     (case map_of (e_flying st) i of
        None \<Rightarrow> st
      | Some c \<Rightarrow>
          (let st = st\<lparr>e_flying := filter (\<lambda>(j, e). j \<noteq> i) (e_flying st)\<rparr> in
           case g of
             Lost \<Rightarrow> st
           | Got r \<Rightarrow> (case c of CallTake \<Rightarrow> on_take now r st | CallWin \<Rightarrow> on_win now r st)))"

fun run_todo :: "todo \<Rightarrow> egg \<Rightarrow> egg" where
  "run_todo (Refused t a) st = pass_reset (render t a st)"
| "run_todo (Won a) st = resetCountNew (render TTake a st)"
| "run_todo (NotWon a n) st = pass_reset (resetCountNew (resetCount n (render TAgain a st)))"
| "run_todo (NoTimes t a n) st = resetCount n (pass_reset (render t a st))"
| "run_todo (Odd a) st = render TNoDayTimes a st"
| "run_todo HitSound st = st\<lparr>e_ui := e_ui st @ [Play ''#J_HitAudio'']\<rparr>"

definition egg_fire :: "nat \<Rightarrow> egg \<Rightarrow> egg" where
  "egg_fire i st =
     (case fire i (e_timers st) of
        None \<Rightarrow> st
      | Some (c, ts) \<Rightarrow> run_todo c (st\<lparr>e_timers := ts\<rparr>))"

definition ad_close :: "int \<Rightarrow> egg \<Rightarrow> egg" where
  "ad_close gPlayerTop st =
     st\<lparr>e_ui := e_ui st @ [Hide ''.ad'', SetAttr ''sessionStorage'' ''adClosed'' (js ''true'')],
        e_top := map_option (\<lambda>_. gPlayerTop) (e_top st)\<rparr>"

definition mask_click :: "egg \<Rightarrow> egg" where
  "mask_click st = st\<lparr>e_follow := map_option guide_show (e_follow st)\<rparr>"

datatype egg_event =
    Tap nat
  | Choose int bool
  | Arrive nat int got
  | Clock nat
  | AdClose int
  | MaskClick

fun egg_step :: "egg_event \<Rightarrow> egg \<Rightarrow> egg" where
  "egg_step (Tap i) = onClickHandle i"
| "egg_step (Choose now ok) = confirm_click now ok"
| "egg_step (Arrive i now g) = egg_receive i now g"
| "egg_step (Clock i) = egg_fire i"
| "egg_step (AdClose t) = ad_close t"
| "egg_step MaskClick = mask_click"

definition egg_run :: "egg_event list \<Rightarrow> egg \<Rightarrow> egg" where
  "egg_run evs st = fold egg_step evs st"

section \<open>The table of prizes\<close>

datatype table_post = PostWin "jval option" | PostUrl jstr

text \<open>
  \<open>_handleWinTable\<close>: the role of the button; \<open>attr\<close> gives the text of an attribute of the button
  or of its row. The answer to \<open>PostWin\<close> opens the prize when \<open>success\<close> is 1.
\<close>

datatype table_act = Render dtype opts | SendPost table_post | LinkButton opts | NoAct

definition opt_field :: "jstr \<Rightarrow> jstr option \<Rightarrow> opts" where
  "opt_field k v = (case v of None \<Rightarrow> [] | Some s \<Rightarrow> [(k, JStr s)])"

definition handleWinTable :: "int \<Rightarrow> jstr \<Rightarrow> (string \<Rightarrow> jstr option) \<Rightarrow> table_act" where
  "handleWinTable uid role attr =
     (let sn = attr ''data-code''; snid = attr ''data-id'' in
      if role = (js ''exchange'') then Render TExchange (opt_field (js ''sn'') sn @ opt_field (js ''snid'') snid)
      else if role = (js ''take'') then SendPost (PostWin (map_option JStr snid))
      else if role = (js ''link'') then
        (if uid \<le> 0 then SendPost (PostWin (map_option JStr snid))
         else LinkButton (opt_field (js ''c_url'') (attr ''data-url'') @ opt_field (js ''c_attr'') (attr ''data-attr'') @
                opt_field (js ''snid'') snid))
      else if role = (js ''look'') then Render TTakeOK (opt_field (js ''sn'') sn)
      else NoAct)"

definition table_answer :: "jval option \<Rightarrow> opts \<Rightarrow> table_act" where
  "table_answer ok data = (if eq_num ok 1 then Render TTake data else NoAct)"

section \<open>One phase at a time\<close>

definition resets :: "todo \<Rightarrow> bool" where
  "resets c \<longleftrightarrow> (case c of Refused t a \<Rightarrow> True | NotWon a n \<Rightarrow> True | NoTimes t a n \<Rightarrow> True | _ \<Rightarrow> False)"

text \<open>
  The phases of a draw: eggs that can be hit, a question on screen, a request in the air, a
  timer that will put the handlers back.
\<close>

definition phases :: "egg \<Rightarrow> nat" where
  "phases st =
     (if True \<in> set (e_armed st) then 1 else 0) + (if e_asking st \<noteq> None then 1 else 0) +
     length (e_flying st) + timer_count resets (e_timers st)"

definition egg_inv :: "egg \<Rightarrow> bool" where
  "egg_inv st \<longleftrightarrow>
     (e_armed st = [True, True, True] \<or> e_armed st = [False, False, False] \<and> e_zhong st \<noteq> None) \<and>
     distinct (map fst (e_flying st)) \<and> (\<forall>i\<in>set (map fst (e_flying st)). i < e_sent st) \<and>
     one_shot (e_timers st)"

text \<open>Events that end a draw without putting the handlers back.\<close>

definition dead :: "egg \<Rightarrow> egg_event \<Rightarrow> bool" where
  "dead st e \<longleftrightarrow>
     (case e of
        Choose now ok \<Rightarrow> e_asking st \<noteq> None \<and> \<not> ok
      | Arrive i now g \<Rightarrow>
          (case map_of (e_flying st) i of
             None \<Rightarrow> False
           | Some c \<Rightarrow>
               (case g of
                  Lost \<Rightarrow> True
                | Got None \<Rightarrow> True
                | Got (Some d) \<Rightarrow>
                    (case c of
                       CallTake \<Rightarrow> \<not> y_success d \<and> y_obj d \<noteq> (js ''5'') \<and> y_attributes d = None
                     | CallWin \<Rightarrow> y_obj d \<notin> {(js ''2''), (js ''3''), (js ''4'')})))
      | _ \<Rightarrow> False)"

fun dead_run :: "egg \<Rightarrow> egg_event list \<Rightarrow> bool" where
  "dead_run st [] = False"
| "dead_run st (e # es) = (dead st e \<or> dead_run (egg_step e st) es)"

lemma phases_render [simp]: "phases (render t ob st) = phases st" "egg_inv (render t ob st) = egg_inv st"
  "e_zhong (render t ob st) = e_zhong st"
  by (simp_all add: render_def phases_def egg_inv_def)

lemma phases_counts [simp]:
  "phases (resetCount n st) = phases st" "egg_inv (resetCount n st) = egg_inv st"
  "e_zhong (resetCount n st) = e_zhong st"
  "phases (resetCountNew st) = phases st" "egg_inv (resetCountNew st) = egg_inv st"
  "e_zhong (resetCountNew st) = e_zhong st"
  by (simp_all add: resetCount_def resetCountNew_def phases_def egg_inv_def split: option.split jval.split)

lemma phases_ui [simp]:
  "phases (st\<lparr>e_ui := u\<rparr>) = phases st" "egg_inv (st\<lparr>e_ui := u\<rparr>) = egg_inv st"
  "phases (st\<lparr>e_thrown := b\<rparr>) = phases st" "egg_inv (st\<lparr>e_thrown := b\<rparr>) = egg_inv st"
  "phases (st\<lparr>e_code := c\<rparr>) = phases st" "egg_inv (st\<lparr>e_code := c\<rparr>) = egg_inv st"
  by (simp_all add: phases_def egg_inv_def)

lemma phases_play [simp]:
  "phases (pass_play p st) = phases st" "egg_inv (pass_play p st) = egg_inv st"
  by (simp_all add: pass_play_def phases_def egg_inv_def split: option.split)

lemma phases_later [simp]:
  "phases (later now d c st) = phases st + (if resets c then 1 else 0)"
  "egg_inv st \<Longrightarrow> egg_inv (later now d c st)"
  by (simp_all add: later_def phases_def egg_inv_def one_shot_set_timeout)

lemma phases_post [simp]:
  "phases (post c st) = phases st + 1"
  "egg_inv st \<Longrightarrow> egg_inv (post c st)"
  by (auto simp: post_def phases_def egg_inv_def less_Suc_eq)

lemma pass_reset_phase:
  assumes "egg_inv st" "phases st = 0"
  shows "egg_inv (pass_reset st) \<and> phases (pass_reset st) = 1"
  using assms by (auto simp: pass_reset_def phases_def egg_inv_def split: option.split if_splits)

lemma resets_simps [simp]:
  "resets (Refused t a)" "resets (NotWon a n)" "resets (NoTimes t a n)"
  "\<not> resets (Won a)" "\<not> resets (Odd a)" "\<not> resets HitSound"
  by (simp_all add: resets_def)

lemma pass_callback_phase:
  assumes "egg_inv st" "phases st = 0"
  shows "egg_inv (pass_callback st) \<and> phases (pass_callback st) = 1"
proof (cases "e_point st > 0")
  case True
  then show ?thesis using assms by (auto simp: pass_callback_def phases_def egg_inv_def split: if_splits)
qed (use assms in \<open>simp add: pass_callback_def\<close>)

lemma tap_phase:
  assumes "egg_inv st" "phases st \<le> 1"
  shows "egg_inv (onClickHandle i st) \<and> phases (onClickHandle i st) = phases st"
proof (cases "i < length (e_armed st) \<and> e_armed st ! i")
  case True
  then have "True \<in> set (e_armed st)" by (metis nth_mem)
  with assms have z: "phases (st\<lparr>e_armed := [False, False, False], e_zhong := Some i\<rparr>) = 0" "phases st = 1"
    by (auto simp: phases_def split: if_splits)
  have "egg_inv (st\<lparr>e_armed := [False, False, False], e_zhong := Some i\<rparr>)"
    using assms by (simp add: egg_inv_def)
  from pass_callback_phase [OF this z(1)] show ?thesis
    using True z(2) by (simp add: onClickHandle_def)
next
  case False
  then show ?thesis using assms by (simp only: onClickHandle_def if_False)
qed

lemma choose_phase:
  assumes "egg_inv st" "phases st \<le> 1"
  shows "egg_inv (confirm_click now ok st) \<and>
    phases (confirm_click now ok st) = phases st - (if dead st (Choose now ok) then 1 else 0)"
proof (cases "e_asking st")
  case (Some m)
  let ?s = "st\<lparr>e_asking := None\<rparr>"
  have "phases ?s = 0" "phases st = 1" "egg_inv ?s"
    using assms Some by (auto simp: phases_def egg_inv_def)
  then show ?thesis using Some by (simp add: confirm_click_def dead_def handleEggClick_def)
qed (use assms in \<open>simp add: confirm_click_def dead_def\<close>)

lemma on_take_phase:
  assumes "egg_inv st" "phases st = 0"
  shows "egg_inv (on_take now r st) \<and>
    phases (on_take now r st) = (case r of None \<Rightarrow> 0
      | Some d \<Rightarrow> if \<not> y_success d \<and> y_obj d \<noteq> (js ''5'') \<and> y_attributes d = None then 0 else 1)"
proof -
  have z: "egg_inv (st\<lparr>e_ui := u\<rparr>)" "phases (st\<lparr>e_ui := u\<rparr>) = 0" for u using assms by simp_all
  show ?thesis
    using assms pass_reset_phase [OF z]
    by (auto simp: on_take_def Let_def empty_reply_def handleEggClick_def js_def split: option.split)
qed

lemma on_win_phase:
  assumes "egg_inv st" "phases st = 0"
  shows "egg_inv (on_win now r st) \<and>
    phases (on_win now r st) = (case r of None \<Rightarrow> 0 | Some d \<Rightarrow> if y_obj d \<in> {(js ''2''), (js ''3''), (js ''4'')} then 1 else 0)"
  using assms by (auto simp: on_win_def Let_def js_def split: option.split jval.split)

lemma receive_phase:
  assumes "egg_inv st" "phases st \<le> 1"
  shows "egg_inv (egg_receive i now g st) \<and>
    phases (egg_receive i now g st) = phases st - (if dead st (Arrive i now g) then 1 else 0)"
proof (cases "map_of (e_flying st) i")
  case (Some c)
  let ?s = "st\<lparr>e_flying := filter (\<lambda>(j, e). j \<noteq> i) (e_flying st)\<rparr>"
  have d: "distinct (map fst (e_flying st))" using assms by (simp add: egg_inv_def)
  have n: "length (e_flying st) = length (filter (\<lambda>(j, e). j \<noteq> i) (e_flying st)) + 1"
    using count_filter_key [OF d Some, of "\<lambda>_. True"] by simp
  have p: "phases ?s = 0" "phases st = 1"
    using assms(2) n by (auto simp: phases_def)
  have inv: "egg_inv ?s" using assms(1) by (auto simp: egg_inv_def distinct_map_filter)
  show ?thesis
  proof (cases g)
    case Lost
    then show ?thesis using Some p inv by (simp add: egg_receive_def dead_def)
  next
    case (Got r)
    show ?thesis
    proof (cases c)
      case CallTake
      then show ?thesis
        using Some p Got on_take_phase [OF inv p(1), of now r]
        by (cases r) (auto simp: egg_receive_def dead_def)
    next
      case CallWin
      then show ?thesis
        using Some p Got on_win_phase [OF inv p(1), of now r]
        by (cases r) (auto simp: egg_receive_def dead_def)
    qed
  qed
qed (use assms in \<open>simp add: egg_receive_def dead_def\<close>)

lemma run_todo_phase:
  assumes "egg_inv st" "phases st + (if resets c then 1 else 0) \<le> 1"
  shows "egg_inv (run_todo c st) \<and> phases (run_todo c st) = phases st + (if resets c then 1 else 0)"
proof (cases c)
  case (Refused t a)
  then show ?thesis using assms pass_reset_phase [of "render t a st"] by simp
next
  case (NotWon a n)
  then show ?thesis using assms pass_reset_phase [of "resetCountNew (resetCount n (render TAgain a st))"] by simp
next
  case (NoTimes t a n)
  then show ?thesis using assms pass_reset_phase [of "render t a st"] by simp
qed (use assms in simp_all)

lemma fire_phase:
  assumes "egg_inv st" "phases st \<le> 1"
  shows "egg_inv (egg_fire i st) \<and> phases (egg_fire i st) = phases st"
proof (cases "fire i (e_timers st)")
  case (Some a)
  obtain c ts where a: "a = (c, ts)" by (cases a)
  have o: "one_shot ts" "timer_count resets (e_timers st) = timer_count resets ts + (if resets c then 1 else 0)"
    using one_shot_fire [of "e_timers st" i c ts resets] assms(1) Some a by (auto simp: egg_inv_def)
  let ?s = "st\<lparr>e_timers := ts\<rparr>"
  have "egg_inv ?s" using assms(1) o by (simp add: egg_inv_def)
  moreover have "phases st = phases ?s + (if resets c then 1 else 0)" using o by (simp add: phases_def)
  ultimately show ?thesis
    using run_todo_phase [of ?s c] assms(2) Some a by (simp add: egg_fire_def)
qed (use assms in \<open>simp add: egg_fire_def\<close>)

lemma egg_step_phase:
  assumes "egg_inv st" "phases st \<le> 1"
  shows "egg_inv (egg_step e st) \<and> phases (egg_step e st) = phases st - (if dead st e then 1 else 0)"
proof (cases e)
  case (Tap i)
  then show ?thesis using tap_phase [OF assms] by (simp add: dead_def)
next
  case (Choose now ok)
  then show ?thesis using choose_phase [OF assms] by simp
next
  case (Arrive i now g)
  then show ?thesis using receive_phase [OF assms] by simp
next
  case (Clock i)
  then show ?thesis using fire_phase [OF assms] by (simp add: dead_def)
qed (use assms in \<open>simp_all add: dead_def ad_close_def mask_click_def egg_inv_def phases_def\<close>)

lemma dead_phase: "egg_inv st \<Longrightarrow> dead st e \<Longrightarrow> phases st > 0"
proof -
  assume "dead st e"
  then consider "e_asking st \<noteq> None" | i where "map_of (e_flying st) i \<noteq> None"
    by (cases e) (auto simp: dead_def split: option.splits)
  then show ?thesis by cases (auto simp: phases_def)
qed

lemma egg_run_phase:
  "egg_inv st \<Longrightarrow> phases st \<le> 1 \<Longrightarrow>
   egg_inv (egg_run evs st) \<and> phases (egg_run evs st) = phases st - (if dead_run st evs then 1 else 0)"
proof (induction evs arbitrary: st)
  case (Cons e evs)
  have s: "egg_inv (egg_step e st)" "phases (egg_step e st) = phases st - (if dead st e then 1 else 0)"
    using egg_step_phase [OF Cons.prems] by auto
  have r: "egg_run (e # evs) st = egg_run evs (egg_step e st)" by (simp add: egg_run_def)
  show ?case
    using Cons.IH [OF s(1)] s Cons.prems(2) dead_phase [OF Cons.prems(1), of e] unfolding r by auto
qed (simp add: egg_run_def)

lemma egg_init_inv: "egg_inv (egg_init ap p m h g ad t w d)" "phases (egg_init ap p m h g ad t w d) = 1"
  by (simp_all add: egg_init_def egg_inv_def phases_def)

text \<open>
  C1: for every order of taps, answers, timers and clicks, a draw is in exactly one phase at a
  time (eggs that can be hit, a question, one request in the air, or one timer that will put the
  handlers back), so no second draw starts before the first is over; the only way to lose the
  phase is a dead end: a question declined, a request that fails, an answer without the fields
  read, a prize, or a result code the code does not know.
\<close>

theorem egg_one_phase:
  "phases (egg_run evs (egg_init ap p m h g ad t w d)) =
     (if dead_run (egg_init ap p m h g ad t w d) evs then 0 else 1)"
  using egg_run_phase [OF egg_init_inv(1), of ap p m h g ad t w d evs] egg_init_inv(2) by simp

lemma locked_step:
  assumes "egg_inv st" "phases st = 0"
  shows "egg_inv (egg_step e st) \<and> phases (egg_step e st) = 0 \<and> e_sent (egg_step e st) = e_sent st"
proof -
  have a: "e_armed st = [False, False, False]" "e_asking st = None" "e_flying st = []"
    using assms by (auto simp: phases_def egg_inv_def split: if_splits)
  have "e_sent (egg_fire i st) = e_sent st" for i
  proof (cases "fire i (e_timers st)")
    case (Some b)
    obtain c ts where b: "b = (c, ts)" by (cases b)
    show ?thesis
      using Some b by (cases c) (simp_all add: egg_fire_def render_def pass_reset_def resetCount_def
          resetCountNew_def split: option.split jval.split)
  qed (simp add: egg_fire_def)
  then have "e_sent (egg_step e st) = e_sent st"
    using a by (cases e) (simp_all add: onClickHandle_def confirm_click_def egg_receive_def ad_close_def
        mask_click_def nth_Cons split: nat.split)
  then show ?thesis using egg_step_phase [of st e] assms by simp
qed

lemma locked_run:
  "egg_inv st \<Longrightarrow> phases st = 0 \<Longrightarrow>
   True \<notin> set (e_armed (egg_run evs st)) \<and> e_sent (egg_run evs st) = e_sent st"
proof (induction evs arbitrary: st)
  case Nil
  then show ?case by (simp add: egg_run_def phases_def split: if_splits)
next
  case (Cons e evs)
  then show ?case using locked_step [of st e] Cons.IH [of "egg_step e st"] by (simp add: egg_run_def)
qed

text \<open>
  Declining the question about the points is such a dead end: whatever happens afterwards,
  the eggs never react again and no request is sent until the page is loaded anew.
\<close>

theorem egg_decline_locks:
  assumes "e_asking (egg_run evs (egg_init ap p m h g ad t w d)) \<noteq> None"
  shows "True \<notin> set (e_armed (egg_run (evs @ Choose now False # evs') (egg_init ap p m h g ad t w d))) \<and>
    e_sent (egg_run (evs @ Choose now False # evs') (egg_init ap p m h g ad t w d)) =
    e_sent (egg_run evs (egg_init ap p m h g ad t w d))"
proof -
  define s where "s = egg_run evs (egg_init ap p m h g ad t w d)"
  have s: "egg_inv s" "phases s \<le> 1"
    using egg_run_phase [OF egg_init_inv(1), of ap p m h g ad t w d evs] egg_init_inv(2)
    by (simp_all add: s_def)
  have q: "e_asking s \<noteq> None" using assms by (simp add: s_def)
  have c: "egg_inv (confirm_click now False s)" "phases (confirm_click now False s) = 0"
    using choose_phase [OF s, of now False] q s(2) by (simp_all add: dead_def)
  have "e_sent (confirm_click now False s) = e_sent s" using q by (auto simp: confirm_click_def)
  moreover have "egg_run (evs @ Choose now False # evs') (egg_init ap p m h g ad t w d)
      = egg_run evs' (confirm_click now False s)"
    by (simp add: egg_run_def s_def)
  ultimately show ?thesis using locked_run [OF c, of evs'] by (simp add: s_def [symmetric])
qed

definition app1 :: app where
  "app1 = \<lparr>a_uid = 7, a_regFirst = False, a_name = [], a_onmobile = True, a_logo = (js ''l.png''), a_snName = [],
     a_register = [], shareFlag1 = [], extraLuckyDraw = []\<rparr>"

theorem egg_decline_locks_witness:
  "e_sent (egg_run [Tap 1, Choose 0 False, Tap 0, Tap 1, Tap 2]
     (egg_init app1 10 False True 20 0 (Num 3) (Num 1) (Num 2))) = 0"
proof -
  let ?i = "egg_init app1 10 False True 20 0 (Num 3) (Num 1) (Num 2)"
  have "e_asking (egg_run [Tap 1] ?i) \<noteq> None" "e_sent (egg_run [Tap 1] ?i) = 0"
    by (simp_all add: egg_run_def egg_init_def onClickHandle_def pass_callback_def)
  then show ?thesis
    using egg_decline_locks [of "[Tap 1]" app1 10 False True 20 0 "Num 3" "Num 1" "Num 2" 0 "[Tap 0, Tap 1, Tap 2]"]
    by simp
qed

text \<open>
  The three eggs are drawn in the order of their heights: the stage receives each egg once,
  from the smallest coordinate to the largest, so the nearest egg covers the others.
\<close>

theorem eggs_drawn_by_depth:
  "distinct (stage_order y) \<and> set (stage_order y) = {0, 1, 2} \<and> sorted (map y (stage_order y))"
  by (auto simp: stage_order_def depth_order_def Let_def)

end
