(* ===== verification/Js_Uri.thy ===== *)
theory Js_Uri
  imports Js_Prelude
begin

text \<open>
  \<open>encodeURIComponent\<close> and \<open>decodeURIComponent\<close> of the language: percent-encoded UTF-8, with the
  \<open>URIError\<close> of lone surrogates and of malformed sequences as \<open>None\<close>, and the proof that decoding
  undoes encoding.
\<close>

definition uri_plain :: "nat \<Rightarrow> bool" where
  "uri_plain u \<longleftrightarrow>
     is_digit u \<or> 65 \<le> u \<and> u \<le> 90 \<or> 97 \<le> u \<and> u \<le> 122 \<or> u \<in> {45, 95, 46, 33, 126, 42, 39, 40, 41}"

definition hex_digit :: "nat \<Rightarrow> nat" where
  "hex_digit d = (if d < 10 then 48 + d else 55 + d)"

definition hex_value :: "nat \<Rightarrow> nat option" where
  "hex_value u =
     (if 48 \<le> u \<and> u \<le> 57 then Some (u - 48)
      else if 65 \<le> u \<and> u \<le> 70 then Some (u - 55)
      else if 97 \<le> u \<and> u \<le> 102 then Some (u - 87) else None)"

definition pct :: "nat \<Rightarrow> jstr" where
  "pct b = [37, hex_digit (b div 16), hex_digit (b mod 16)]"

definition high_surrogate :: "nat \<Rightarrow> bool" where
  "high_surrogate u \<longleftrightarrow> 55296 \<le> u \<and> u \<le> 56319"

definition low_surrogate :: "nat \<Rightarrow> bool" where
  "low_surrogate u \<longleftrightarrow> 56320 \<le> u \<and> u \<le> 57343"

text \<open>The UTF-8 bytes of a code point.\<close>

definition utf8_point :: "nat \<Rightarrow> nat list" where
  "utf8_point p =
     (if p < 128 then [p]
      else if p < 2048 then [192 + p div 64, 128 + p mod 64]
      else if p < 65536 then [224 + p div 4096, 128 + p div 64 mod 64, 128 + p mod 64]
      else [240 + p div 262144, 128 + p div 4096 mod 64, 128 + p div 64 mod 64, 128 + p mod 64])"

fun encodeURIComponent :: "jstr \<Rightarrow> jstr option" where
  "encodeURIComponent [] = Some []"
| "encodeURIComponent (u # s) =
     (if uri_plain u then map_option ((#) u) (encodeURIComponent s)
      else if low_surrogate u then None
      else if high_surrogate u then
        (case s of
           v # t \<Rightarrow>
             if low_surrogate v then
               map_option ((@) (concat (map pct (utf8_point ((u - 55296) * 1024 + (v - 56320) + 65536)))))
                 (encodeURIComponent t)
             else None
         | [] \<Rightarrow> None)
      else map_option ((@) (concat (map pct (utf8_point u)))) (encodeURIComponent s))"

text \<open>One byte \<open>%XX\<close> off the front.\<close>

definition take_byte :: "jstr \<Rightarrow> (nat \<times> jstr) option" where
  "take_byte s =
     (case s of
        p # a # b # r \<Rightarrow>
          (case (hex_value a, hex_value b) of
             (Some x, Some y) \<Rightarrow> if p = 37 then Some (16 * x + y, r) else None
           | _ \<Rightarrow> None)
      | _ \<Rightarrow> None)"

fun take_cont :: "nat \<Rightarrow> nat \<Rightarrow> jstr \<Rightarrow> (nat \<times> jstr) option" where
  "take_cont 0 acc s = Some (acc, s)"
| "take_cont (Suc n) acc s =
     (case take_byte s of
        None \<Rightarrow> None
      | Some (b, r) \<Rightarrow> if 128 \<le> b \<and> b < 192 then take_cont n (acc * 64 + (b - 128)) r else None)"

definition point_units :: "nat \<Rightarrow> jstr" where
  "point_units p =
     (if p < 65536 then [p]
      else [55296 + (p - 65536) div 1024, 56320 + (p - 65536) mod 1024])"

text \<open>One percent-encoded code point, with the range checks on overlong forms and surrogates.\<close>

definition take_point :: "jstr \<Rightarrow> (nat \<times> jstr) option" where
  "take_point s =
     (case take_byte s of
        None \<Rightarrow> None
      | Some (b, r) \<Rightarrow>
          if b < 128 then Some (b, r)
          else if 192 \<le> b \<and> b < 224 then
            (case take_cont 1 (b - 192) r of
               Some (p, t) \<Rightarrow> if 128 \<le> p then Some (p, t) else None | None \<Rightarrow> None)
          else if 224 \<le> b \<and> b < 240 then
            (case take_cont 2 (b - 224) r of
               Some (p, t) \<Rightarrow>
                 if 2048 \<le> p \<and> \<not> high_surrogate p \<and> \<not> low_surrogate p then Some (p, t) else None
             | None \<Rightarrow> None)
          else if 240 \<le> b \<and> b < 248 then
            (case take_cont 3 (b - 240) r of
               Some (p, t) \<Rightarrow> if 65536 \<le> p \<and> p < 1114112 then Some (p, t) else None | None \<Rightarrow> None)
          else None)"

lemma take_byte_length: "take_byte s = Some (b, r) \<Longrightarrow> length r < length s"
  by (auto simp: take_byte_def split: list.splits option.splits if_splits)

lemma take_cont_length: "take_cont n acc s = Some (p, r) \<Longrightarrow> length r \<le> length s"
  by (induction n arbitrary: acc s) (force split: option.splits prod.splits if_splits dest: take_byte_length)+

lemma take_point_length: "take_point s = Some (p, r) \<Longrightarrow> length r < length s"
  by (auto simp: take_point_def split: option.splits prod.splits if_splits
      dest!: take_byte_length take_cont_length)

function decodeURIComponent :: "jstr \<Rightarrow> jstr option" where
  "decodeURIComponent s =
     (case s of
        [] \<Rightarrow> Some []
      | u # t \<Rightarrow>
          if u = 37 then
            (case take_point s of
               None \<Rightarrow> None
             | Some (p, r) \<Rightarrow> map_option ((@) (point_units p)) (decodeURIComponent r))
          else map_option ((#) u) (decodeURIComponent t))"
  by pat_completeness auto
termination
  by (relation "measure length") (auto dest: take_point_length)

declare decodeURIComponent.simps [simp del]

section \<open>Round trip\<close>

lemma hex_value_digit: "d < 16 \<Longrightarrow> hex_value (hex_digit d) = Some d"
  by (simp add: hex_value_def hex_digit_def)

lemma take_byte_pct [simp]: "b < 256 \<Longrightarrow> take_byte (pct b @ s) = Some (b, s)"
  by (simp add: take_byte_def pct_def hex_value_digit)

lemma take_cont_pct: "x < 64 \<Longrightarrow> take_cont (Suc n) acc (pct (128 + x) @ s) = take_cont n (acc * 64 + x) s"
  by simp

lemma point_parts:
  fixes p :: nat
  shows "p div 64 * 64 + p mod 64 = p"
    "(p div 4096 * 64 + p div 64 mod 64) * 64 + p mod 64 = p"
    "((p div 262144 * 64 + p div 4096 mod 64) * 64 + p div 64 mod 64) * 64 + p mod 64 = p"
proof -
  have a: "p div 4096 = p div 64 div 64" "p div 262144 = p div 64 div 64 div 64"
    by (simp_all add: div_mult2_eq [symmetric])
  show "p div 64 * 64 + p mod 64 = p" by simp
  have b: "p div 4096 * 64 + p div 64 mod 64 = p div 64" unfolding a by simp
  then show "(p div 4096 * 64 + p div 64 mod 64) * 64 + p mod 64 = p" by simp
  have "p div 262144 * 64 + p div 4096 mod 64 = p div 4096" unfolding a by simp
  with b show "((p div 262144 * 64 + p div 4096 mod 64) * 64 + p div 64 mod 64) * 64 + p mod 64 = p" by simp
qed

lemma take_point_utf8:
  assumes "p < 1114112" "\<not> high_surrogate p" "\<not> low_surrogate p"
  shows "take_point (concat (map pct (utf8_point p)) @ s) = Some (p, s)"
proof -
  consider "p < 128" | "128 \<le> p" "p < 2048" | "2048 \<le> p" "p < 65536" | "65536 \<le> p" by linarith
  then show ?thesis
  proof cases
    case 1
    then show ?thesis by (simp add: take_point_def utf8_point_def)
  next
    case 2
    then have "p div 64 < 32" by simp
    have c: "take_cont 1 (p div 64) (pct (128 + p mod 64) @ s) = Some (p, s)"
      by (simp only: One_nat_def take_cont_pct mod_less_divisor zero_less_numeral take_cont.simps(1) point_parts)
    with 2 assms \<open>p div 64 < 32\<close> show ?thesis
      by (simp add: take_point_def utf8_point_def del: take_cont.simps One_nat_def)
  next
    case 3
    then have "p div 4096 < 16" by simp
    have c: "take_cont 2 (p div 4096) (pct (128 + p div 64 mod 64) @ pct (128 + p mod 64) @ s) = Some (p, s)"
      by (simp only: numeral_2_eq_2 take_cont_pct mod_less_divisor zero_less_numeral take_cont.simps(1) point_parts)
    with 3 assms \<open>p div 4096 < 16\<close> show ?thesis
      by (simp add: take_point_def utf8_point_def del: take_cont.simps)
  next
    case 4
    then have "p div 262144 < 5" using assms by (simp add: less_mult_imp_div_less)
    have c: "take_cont 3 (p div 262144)
        (pct (128 + p div 4096 mod 64) @ pct (128 + p div 64 mod 64) @ pct (128 + p mod 64) @ s) = Some (p, s)"
      by (simp only: numeral_3_eq_3 take_cont_pct mod_less_divisor zero_less_numeral take_cont.simps(1) point_parts)
    with 4 assms \<open>p div 262144 < 5\<close> show ?thesis
      by (simp add: take_point_def utf8_point_def del: take_cont.simps)
  qed
qed

lemma decode_plain: "u \<noteq> 37 \<Longrightarrow> decodeURIComponent (u # s) = map_option ((#) u) (decodeURIComponent s)"
  by (subst decodeURIComponent.simps) simp

lemma utf8_point_cons: "\<exists>b bs. utf8_point p = b # bs"
  by (simp add: utf8_point_def)

lemma decode_point:
  assumes "p < 1114112" "\<not> high_surrogate p" "\<not> low_surrogate p"
  shows "decodeURIComponent (concat (map pct (utf8_point p)) @ s) =
    map_option ((@) (point_units p)) (decodeURIComponent s)"
proof -
  obtain b bs where "utf8_point p = b # bs" using utf8_point_cons by blast
  then obtain t where t: "concat (map pct (utf8_point p)) @ s = 37 # t" by (simp add: pct_def)
  show ?thesis
    using take_point_utf8 [OF assms, of s] unfolding t by (subst decodeURIComponent.simps) simp
qed

lemma pair_point:
  assumes "high_surrogate u" "low_surrogate v"
  defines "p \<equiv> (u - 55296) * 1024 + (v - 56320) + 65536"
  shows "p < 1114112" "\<not> high_surrogate p" "\<not> low_surrogate p" "point_units p = [u, v]"
proof -
  have u: "u - 55296 < 1024" "v - 56320 < 1024" "55296 \<le> u" "56320 \<le> v"
    using assms by (auto simp: high_surrogate_def low_surrogate_def)
  then show "p < 1114112" "\<not> high_surrogate p" "\<not> low_surrogate p"
    by (auto simp: p_def high_surrogate_def low_surrogate_def)
  have "(x + 1024 * y) div 1024 = y \<and> (x + 1024 * y) mod 1024 = x" if "x < 1024" for x y :: nat
    using that by simp
  moreover have "p - 65536 = (v - 56320) + 1024 * (u - 55296)" by (simp add: p_def)
  ultimately have "(p - 65536) div 1024 = u - 55296" "(p - 65536) mod 1024 = v - 56320"
    using u(2) by metis+
  then show "point_units p = [u, v]" using u by (simp add: point_units_def p_def)
qed

lemma decode_encode_uri:
  "wf_jstr s \<Longrightarrow> encodeURIComponent s = Some t \<Longrightarrow> decodeURIComponent t = Some s"
proof (induction s arbitrary: t rule: encodeURIComponent.induct)
  case 1
  then show ?case by (simp add: decodeURIComponent.simps)
next
  case (2 u s)
  have wf: "u < 65536" "wf_jstr s" using "2.prems"(1) by (simp_all add: wf_jstr_def)
  consider (plain) "uri_plain u" | (high) "\<not> uri_plain u" "high_surrogate u"
    | (unit) "\<not> uri_plain u" "\<not> high_surrogate u" "\<not> low_surrogate u"
    using "2.prems"(2) by (auto split: if_splits)
  then show ?case
  proof cases
    case plain
    then obtain r where "encodeURIComponent s = Some r" "t = u # r" using "2.prems" by auto
    moreover have "u \<noteq> 37" using plain by (auto simp: uri_plain_def is_digit_def)
    ultimately show ?thesis using "2.IH"(1) plain wf by (simp add: decode_plain)
  next
    case high
    then have nl: "\<not> low_surrogate u" by (auto simp: high_surrogate_def low_surrogate_def)
    with high "2.prems" obtain v w where s: "s = v # w" and v: "low_surrogate v"
      by (auto split: list.splits if_splits)
    let ?p = "(u - 55296) * 1024 + (v - 56320) + 65536"
    obtain r where r: "encodeURIComponent w = Some r" "t = concat (map pct (utf8_point ?p)) @ r"
      using "2.prems" high nl s v by auto
    have "wf_jstr w" using wf s by (simp add: wf_jstr_def)
    then have "decodeURIComponent r = Some w" using "2.IH"(2) high nl s v r(1) by blast
    then show ?thesis
      unfolding r(2) s using decode_point [OF pair_point(1-3) [OF high(2) v], of r] pair_point(4) [OF high(2) v]
      by simp
  next
    case unit
    then obtain r where r: "encodeURIComponent s = Some r" "t = concat (map pct (utf8_point u)) @ r"
      using "2.prems" by auto
    then have "decodeURIComponent r = Some s" using "2.IH"(3) unit wf by blast
    moreover have "u < 1114112" using wf by simp
    ultimately show ?thesis
      unfolding r(2) using decode_point [of u r] unit wf by (simp add: point_units_def)
  qed
qed

text \<open>What encoding leaves in a text.\<close>

definition uri_out :: "nat \<Rightarrow> bool" where
  "uri_out u \<longleftrightarrow> uri_plain u \<or> u = 37"

lemma pct_out: "b < 256 \<Longrightarrow> u \<in> set (pct b) \<Longrightarrow> uri_out u"
proof -
  assume "b < 256"
  then have "b div 16 < 16" by simp
  have h: "d < 16 \<Longrightarrow> uri_out (hex_digit d)" for d
    by (auto simp: hex_digit_def uri_out_def uri_plain_def is_digit_def)
  have m: "b mod 16 < 16" by simp
  assume "u \<in> set (pct b)"
  then consider "u = 37" | "u = hex_digit (b div 16)" | "u = hex_digit (b mod 16)" by (auto simp: pct_def)
  then show ?thesis
    using h [OF \<open>b div 16 < 16\<close>] h [OF m] by cases (simp_all add: uri_out_def)
qed

lemma utf8_point_byte: "p < 1114112 \<Longrightarrow> b \<in> set (utf8_point p) \<Longrightarrow> b < 256"
proof -
  assume "p < 1114112"
  then have "p div 262144 < 5" by (simp add: less_mult_imp_div_less)
  moreover have "p < 2048 \<Longrightarrow> p div 64 < 32" "p < 65536 \<Longrightarrow> p div 4096 < 16" by simp_all
  moreover assume "b \<in> set (utf8_point p)"
  moreover have "p mod 64 < 64" "p div 64 mod 64 < 64" "p div 4096 mod 64 < 64" by simp_all
  ultimately show ?thesis
    by (auto simp: utf8_point_def split: if_splits simp del: mod_less_divisor)
qed

lemma encode_uri_out:
  "wf_jstr s \<Longrightarrow> encodeURIComponent s = Some t \<Longrightarrow> \<forall>u\<in>set t. uri_out u"
proof (induction s arbitrary: t rule: encodeURIComponent.induct)
  case (2 u s)
  have wf: "u < 65536" "wf_jstr s" using "2.prems"(1) by (simp_all add: wf_jstr_def)
  have out: "p < 1114112 \<Longrightarrow> \<forall>x\<in>set (concat (map pct (utf8_point p))). uri_out x" for p
    using utf8_point_byte pct_out by fastforce
  consider (plain) "uri_plain u" | (high) "\<not> uri_plain u" "high_surrogate u"
    | (unit) "\<not> uri_plain u" "\<not> high_surrogate u" "\<not> low_surrogate u"
    using "2.prems"(2) by (auto split: if_splits)
  then show ?case
  proof cases
    case plain
    then obtain r where "encodeURIComponent s = Some r" "t = u # r" using "2.prems" by auto
    then show ?thesis using "2.IH"(1) plain wf by (simp add: uri_out_def)
  next
    case high
    then have nl: "\<not> low_surrogate u" by (auto simp: high_surrogate_def low_surrogate_def)
    with high "2.prems" obtain v w where s: "s = v # w" and v: "low_surrogate v"
      by (auto split: list.splits if_splits)
    let ?p = "(u - 55296) * 1024 + (v - 56320) + 65536"
    obtain r where r: "encodeURIComponent w = Some r" "t = concat (map pct (utf8_point ?p)) @ r"
      using "2.prems" high nl s v by auto
    have "wf_jstr w" using wf s by (simp add: wf_jstr_def)
    then have "\<forall>x\<in>set r. uri_out x" using "2.IH"(2) high nl s v r(1) by blast
    then show ?thesis unfolding r(2) using out [OF pair_point(1) [OF high(2) v]] by (simp only: set_append) blast
  next
    case unit
    then obtain r where r: "encodeURIComponent s = Some r" "t = concat (map pct (utf8_point u)) @ r"
      using "2.prems" by auto
    then have "\<forall>x\<in>set r. uri_out x" using "2.IH"(3) unit wf by blast
    then show ?thesis unfolding r(2) using out [of u] wf by (simp only: set_append) auto
  qed
qed simp

end
