(* ===== verification/Stat.thy ===== *)
theory Stat
  imports Js_Uri Js_Dom
begin

text \<open>
  Page statistics and shared links of the golden-egg page: \<open>template/hd0921/js/st.js\<close> (cookies, the
  action id of a visit, the statistics request and the polling that waits for the cookie) and
  \<open>share_channel.js\<close> (rewriting the channel parameter of a shared address). The browser's cookie
  store is a list of cookies with their expiry; the parsing of an address by the browser is an
  argument.
\<close>

section \<open>Cookies\<close>

text \<open>A cookie: name, value and the time in milliseconds at which it is dropped.\<close>

type_synonym jar = "(jstr \<times> jstr \<times> int) list"

definition visible :: "int \<Rightarrow> jar \<Rightarrow> (jstr \<times> jstr) list" where
  "visible now j = map (\<lambda>(n, v, e). (n, v)) (filter (\<lambda>(n, v, e). now < e) j)"

definition cookie_text :: "(jstr \<times> jstr) list \<Rightarrow> jstr" where
  "cookie_text cs = join_with (js ''; '') (map (\<lambda>(n, v). n @ (js ''='') @ v) cs)"

text \<open>\<open>_getCookie\<close>: \<open>None\<close> is the \<open>undefined\<close> of a piece without an equals sign.\<close>

fun cookie_loop :: "jstr list \<Rightarrow> jstr \<Rightarrow> jstr option" where
  "cookie_loop [] key = Some []"
| "cookie_loop (c # cs) key =
     (let arr = split_on (js ''='') c
      in if hd arr = key then (if length arr > 1 then Some (arr ! 1) else None)
         else cookie_loop cs key)"

definition getCookie :: "jstr \<Rightarrow> jstr \<Rightarrow> jstr option" where
  "getCookie doc key = cookie_loop (split_on (js ''; '') doc) key"

definition existCookie :: "jstr \<Rightarrow> jstr \<Rightarrow> bool" where
  "existCookie doc key \<longleftrightarrow> (\<exists>c\<in>set (split_on (js ''; '') doc). hd (split_on (js ''='') c) = key)"

definition setCookie :: "int \<Rightarrow> jstr \<Rightarrow> jstr \<Rightarrow> int \<Rightarrow> jar \<Rightarrow> jar" where
  "setCookie now key v expire j = AList.update key (v, now + expire) j"

section \<open>The statistics object\<close>

record stat =
  cookies :: jar
  memc :: jstr
  memcExpires :: int
  channel_info :: "jstr option"
  scripts :: "jstr list"

text \<open>
  \<open>st_config\<close> starts with empty texts; the expiry received later is a number, 0 standing for the
  initial empty text, which is false as well.
\<close>

definition doc_cookie :: "int \<Rightarrow> stat \<Rightarrow> jstr" where
  "doc_cookie now st = cookie_text (visible now (cookies st))"

definition read_cookie :: "int \<Rightarrow> stat \<Rightarrow> jstr \<Rightarrow> jstr option" where
  "read_cookie now st key = getCookie (doc_cookie now st) key"

definition or_undefined :: "jstr option \<Rightarrow> jstr" where
  "or_undefined v = (case v of None \<Rightarrow> (js ''undefined'') | Some s \<Rightarrow> s)"

definition truthy_text :: "jstr option \<Rightarrow> bool" where
  "truthy_text v \<longleftrightarrow> (case v of None \<Rightarrow> False | Some s \<Rightarrow> s \<noteq> [])"

text \<open>\<open>Math.ceil(Date.parse(new Date()) / 1000)\<close>: parsing drops the milliseconds.\<close>

definition seconds :: "int \<Rightarrow> int" where
  "seconds now = now div 1000"

definition getJSON :: "int \<Rightarrow> jstr \<Rightarrow> stat \<Rightarrow> stat" where
  "getJSON now url st =
     (case read_cookie now st (js ''stat_openid'') of
        None \<Rightarrow> st
      | Some openid \<Rightarrow> if openid = [] then st else st\<lparr>scripts := scripts st @ [url @ openid]\<rparr>)"

text \<open>\<open>_createChannelInfo\<close>: the channel, or \<open>None\<close> for \<open>false\<close>, and the cookie cleared.\<close>

definition createChannelInfo :: "int \<Rightarrow> jstr \<Rightarrow> int \<Rightarrow> stat \<Rightarrow> jstr option \<times> stat" where
  "createChannelInfo now from_channel channel_expires st =
     (let channel = read_cookie now st (js ''stat_channel'');
          st = st\<lparr>cookies := setCookie now (js ''stat_channel'') [] 1 (cookies st)\<rparr>;
          from_channel = (if channel_expires \<noteq> 0 \<and> channel_expires < seconds now then [] else from_channel)
      in (if from_channel \<noteq> [] then Some from_channel
          else if truthy_text channel then channel else None, st))"

definition id_chars :: jstr where
  "id_chars = (js ''abcdefghijklmnopqrstuvwxyzABCDEFGHIJKLMNOPQRSTUVWXYZ0123456789'')"

text \<open>
  \<open>Math.ceil(Math.random() * (len - 1))\<close> for the random number \<open>m / 2 ^ 53\<close>.
\<close>

definition random_index :: "nat \<Rightarrow> nat" where
  "random_index m = (m * (length id_chars - 1) + (2 ^ 53 - 1)) div 2 ^ 53"

definition random_text :: "nat list \<Rightarrow> jstr" where
  "random_text ms = map (\<lambda>m. id_chars ! random_index m) ms"

definition createActionSeqId :: "int \<Rightarrow> nat list \<Rightarrow> stat \<Rightarrow> jstr option \<times> stat" where
  "createActionSeqId now rnd st =
     (let channel = read_cookie now st (js ''stat_channel'');
          old = read_cookie now st (js ''stat_action_seq_id'');
          st = st\<lparr>channel_info := channel\<rparr>
      in if \<not> truthy_text channel \<and> truthy_text old then (read_cookie now st (js ''stat_action_seq_id''), st)
         else
           (let (info, st) = createChannelInfo now (memc st) (memcExpires st) st in
            case info of
              None \<Rightarrow> (read_cookie now st (js ''stat_action_seq_id''), st)
            | Some i \<Rightarrow>
                (let weimob = or_undefined (read_cookie now st (js ''weimobID''));
                     seq = random_text rnd @ (js '':'') @ i @ (js '':'') @ weimob
                 in (Some seq,
                     st\<lparr>cookies := setCookie now (js ''stat_action_seq_id'') seq (3650 * 24 * 3600) (cookies st)\<rparr>))))"

record event_args =
  stat_action :: jstr
  stat_optValue :: jstr
  statisticServerPath :: jstr
  memcServerPath :: jstr
  statistic_off :: bool

definition first_id :: "int \<Rightarrow> stat \<Rightarrow> jstr list \<Rightarrow> jstr option \<Rightarrow> jstr option" where
  "first_id now st names v =
     fold (\<lambda>n v. if v = Some [] \<or> v = None then read_cookie now st n else v) names v"

text \<open>\<open>_triggerEvent\<close>: the statistics request; \<open>None\<close> when the page address cannot be encoded.\<close>

definition triggerEvent :: "int \<Rightarrow> nat list \<Rightarrow> jstr \<Rightarrow> event_args \<Rightarrow> stat \<Rightarrow> stat option" where
  "triggerEvent now rnd href args st =
     (let c = (\<lambda>k. or_undefined (read_cookie now st k));
          openid = c (js ''stat_openid''); pid = c (js ''stat_pid''); bid = c (js ''stat_bid'');
          webtype = c (js ''stat_webtype''); module = c (js ''stat_module'');
          (seq, st) = createActionSeqId now rnd st;
          wid = first_id now st [(js ''weimobID''), (js ''NweimobID'')] (read_cookie now st ((js ''Weimob_SessionId_'') @ pid))
      in case encodeURIComponent href of
           None \<Rightarrow> None
         | Some h \<Rightarrow>
             Some (st\<lparr>scripts := scripts st @ [statisticServerPath args @ (js ''?'') @ join_with (js ''&'')
               [(js ''StatType=qudao''), (js ''url='') @ h, (js ''stat_bid='') @ bid, (js ''stat_pid='') @ pid,
                (js ''stat_action_seq_id='') @ or_undefined seq, (js ''stat_webtype='') @ webtype,
                (js ''stat_module='') @ module, (js ''stat_time='') @ int_str (seconds now),
                (js ''stat_action='') @ stat_action args,
                (js ''stat_optValue='') @ stat_optValue args @ (js '':'') @ openid @ (js '':'') @ or_undefined (channel_info st),
                (js ''stat_weimobID='') @ or_undefined wid]]\<rparr>))"

text \<open>
  \<open>push\<close>: look for the cookie every half second and go on when it exists or at the seventh look;
  \<open>exists t\<close> is the answer at look \<open>t\<close>. The loop itself has no bound, so it is partial.
\<close>

partial_function (option) timedCount :: "(nat \<Rightarrow> bool) \<Rightarrow> nat \<Rightarrow> nat option" where
  "timedCount ex tryNum =
     (if ex tryNum \<or> tryNum = 6 then Some tryNum else timedCount ex (tryNum + 1))"

definition push_requests :: "int \<Rightarrow> event_args \<Rightarrow> stat \<Rightarrow> stat" where
  "push_requests now args st =
     getJSON now (memcServerPath args @ (js ''&key=channel_''))
       (getJSON now (memcServerPath args @ (js ''&key=channel_expires_'')) st)"

text \<open>
  The whole of \<open>push\<close>, started at \<open>t0\<close>: nothing when switched off, else the two requests at the
  look that goes on and the event two seconds later.
\<close>

definition push ::
  "int \<Rightarrow> (nat \<Rightarrow> bool) \<Rightarrow> nat list \<Rightarrow> jstr \<Rightarrow> event_args \<Rightarrow> (stat \<Rightarrow> stat) \<Rightarrow> stat \<Rightarrow> stat option" where
  "push t0 ex rnd href args answers st =
     (if statistic_off args then Some st
      else
        (case timedCount ex 0 of
           None \<Rightarrow> None
         | Some n \<Rightarrow>
             (let t = t0 + 500 * int n
              in triggerEvent (t + 2000) rnd href args (answers (push_requests t args st)))))"

definition memcTime :: "int \<Rightarrow> stat \<Rightarrow> stat" where
  "memcTime data st = st\<lparr>memcExpires := data\<rparr>"

definition returnBackMemc :: "jstr \<Rightarrow> stat \<Rightarrow> stat" where
  "returnBackMemc data st = st\<lparr>memc := data\<rparr>"

section \<open>Shared links\<close>

text \<open>What the browser makes of an address.\<close>

record anchor =
  protocol :: jstr
  hostname :: jstr
  pathname :: jstr
  search :: jstr

text \<open>The pattern \<open>([^&=]+)=?([^&]*)\<close>, matched again and again from where the last match ended.\<close>

definition after_key :: "jstr \<Rightarrow> jstr" where
  "after_key t =
     (let r = dropWhile (\<lambda>u. u \<noteq> 38 \<and> u \<noteq> 61) t in if r \<noteq> [] \<and> hd r = 61 then tl r else r)"

lemma after_key_length: "u \<noteq> 38 \<Longrightarrow> u \<noteq> 61 \<Longrightarrow> length (after_key (u # t)) \<le> length t"
  using length_dropWhile_le [of "\<lambda>u. u \<noteq> 38 \<and> u \<noteq> 61" t]
  by (auto simp: after_key_def Let_def)

function query_scan :: "jstr \<Rightarrow> (jstr \<times> jstr) list" where
  "query_scan s =
     (case dropWhile (\<lambda>u. u = 38 \<or> u = 61) s of
        [] \<Rightarrow> []
      | u # t \<Rightarrow>
          (takeWhile (\<lambda>u. u \<noteq> 38 \<and> u \<noteq> 61) (u # t), takeWhile (\<lambda>u. u \<noteq> 38) (after_key (u # t)))
          # query_scan (dropWhile (\<lambda>u. u \<noteq> 38) (after_key (u # t))))"
  by pat_completeness auto
termination
proof (relation "measure length", simp)
  fix s t :: jstr and u
  assume t: "dropWhile (\<lambda>u. u = 38 \<or> u = 61) s = u # t"
  have "hd (dropWhile (\<lambda>u. u = 38 \<or> u = 61) s) \<noteq> 38 \<and> hd (dropWhile (\<lambda>u. u = 38 \<or> u = 61) s) \<noteq> 61"
    using hd_dropWhile [of "\<lambda>u. u = 38 \<or> u = 61" s] t by auto
  then have "length (after_key (u # t)) \<le> length t" using after_key_length t by simp
  moreover have "length (u # t) \<le> length s" using length_dropWhile_le [of "\<lambda>u. u = 38 \<or> u = 61" s] t by simp
  moreover have "length (dropWhile (\<lambda>u. u \<noteq> 38) (after_key (u # t))) \<le> length (after_key (u # t))"
    by (rule length_dropWhile_le)
  ultimately show "(dropWhile (\<lambda>u. u \<noteq> 38) (after_key (u # t)), s) \<in> measure length" by simp
qed

declare query_scan.simps [simp del]

definition uri_decode :: "jstr \<Rightarrow> jstr option" where
  "uri_decode s = decodeURIComponent (map (\<lambda>u. if u = 43 then 32 else u) s)"

fun params_loop :: "(jstr \<times> jstr) list \<Rightarrow> jstr jobj \<Rightarrow> jstr jobj option" where
  "params_loop [] ob = Some ob"
| "params_loop ((k, v) # ms) ob =
     (case (uri_decode k, uri_decode v) of
        (Some k', Some v') \<Rightarrow>
          params_loop ms (if k' = (js ''__proto__'') then ob else obj_put k' v' ob)
      | _ \<Rightarrow> None)"

text \<open>A \<open>for in\<close> loop visits names that are array indices first, in numeric order.\<close>

definition is_index :: "jstr \<Rightarrow> bool" where
  "is_index k \<longleftrightarrow> k \<noteq> [] \<and> list_all is_digit k \<and> (k = (js ''0'') \<or> hd k \<noteq> 48) \<and> digits_val k < 4294967295"

definition for_in :: "'v jobj \<Rightarrow> (jstr \<times> 'v) list" where
  "for_in ob =
     sort_key (\<lambda>e. digits_val (fst e)) (filter (\<lambda>e. is_index (fst e)) ob) @
     filter (\<lambda>e. \<not> is_index (fst e)) ob"

fun query_parts :: "(jstr \<times> jstr) list \<Rightarrow> jstr list option" where
  "query_parts [] = Some []"
| "query_parts ((k, v) # ps) =
     (if k = (js ''channel'') then query_parts ps
      else (case encodeURIComponent v of
              None \<Rightarrow> None
            | Some e \<Rightarrow> map_option ((#) (k @ (js ''='') @ e)) (query_parts ps)))"

text \<open>The new query for the old one; \<open>None\<close> stands for the \<open>URIError\<close> of a broken escape.\<close>

definition new_query :: "jstr \<Rightarrow> jstr \<Rightarrow> jstr option" where
  "new_query query v =
     (case params_loop (query_scan query) [] of
        None \<Rightarrow> None
      | Some ob \<Rightarrow>
          (case query_parts (for_in ob) of
             None \<Rightarrow> None
           | Some arr \<Rightarrow> Some (if arr \<noteq> [] then join_with (js ''&'') arr @ (js ''&'') @ v else v)))"

definition handleUrl :: "(jstr \<Rightarrow> anchor) \<Rightarrow> jstr \<Rightarrow> jstr \<Rightarrow> jstr option" where
  "handleUrl parse url v =
     (let a = parse url;
          path = (if pathname a \<noteq> [] \<and> hd (pathname a) \<noteq> 47 then 47 # pathname a else pathname a)
      in map_option (\<lambda>q. replace1 (protocol a) (js '':'') [] @ (js ''://'') @ hostname a @ path @ (js ''?'') @ q)
           (new_query (drop 1 (search a)) v))"

definition channel_value :: "jstr \<Rightarrow> jstr \<Rightarrow> jstr" where
  "channel_value share_id target = (js ''channel=share'') @ (js ''%5E%23%5E'') @ share_id @ (js ''_'') @ target"

definition channelHandle :: "(jstr \<Rightarrow> anchor) \<Rightarrow> jstr \<Rightarrow> jstr \<Rightarrow> jstr \<Rightarrow> jstr option" where
  "channelHandle parse doc url target =
     handleUrl parse url (channel_value (or_undefined (getCookie doc (js ''stat_weimobid''))) target)"

record share_data =
  timeLineLink :: jstr
  sendFriendLink :: jstr

text \<open>\<open>loadChangeUrlChannel\<close>: an error in the second link comes after the first was stored.\<close>

definition loadChangeUrlChannel :: "(jstr \<Rightarrow> anchor) \<Rightarrow> jstr \<Rightarrow> share_data \<Rightarrow> share_data \<times> bool" where
  "loadChangeUrlChannel parse doc sd =
     (case channelHandle parse doc (timeLineLink sd) (js ''fc'') of
        None \<Rightarrow> (sd, True)
      | Some u \<Rightarrow>
          (let sd = sd\<lparr>timeLineLink := u\<rparr> in
           case channelHandle parse doc (sendFriendLink sd) (js ''f'') of
             None \<Rightarrow> (sd, True)
           | Some w \<Rightarrow> (sd\<lparr>sendFriendLink := w\<rparr>, False)))"

section \<open>Reading cookies\<close>

definition cookie_name :: "jstr \<Rightarrow> bool" where
  "cookie_name n \<longleftrightarrow> n \<noteq> [] \<and> 59 \<notin> set n \<and> 61 \<notin> set n"

lemma split_value: "split_on [61] v \<noteq> [] \<and> hd (split_on [61] v) = takeWhile (\<lambda>u. u \<noteq> 61) (v :: jstr)"
proof (cases "61 \<in> set v")
  case True
  then obtain a b where v: "v = a @ 61 # b" "61 \<notin> set a" by (meson split_list_first)
  from v have t: "takeWhile (\<lambda>u. u \<noteq> 61) a = a" by (auto simp: takeWhile_eq_all_conv)
  show ?thesis using v by (simp add: split_unit takeWhile_tail t)
next
  case False
  then have t: "takeWhile (\<lambda>u. u \<noteq> 61) v = v" by (auto simp: takeWhile_eq_all_conv)
  show ?thesis using False by (simp add: split_unit t)
qed

lemma cookie_loop_jar:
  assumes "\<forall>(n, v)\<in>set cs. cookie_name n"
  shows "cookie_loop (map (\<lambda>(n, v). n @ (js ''='') @ v) cs) key =
    (case map_of cs key of Some v \<Rightarrow> Some (takeWhile (\<lambda>u. u \<noteq> 61) v) | None \<Rightarrow> Some [])"
  using assms
proof (induction cs)
  case (Cons c cs)
  obtain n v where c: "c = (n, v)" by (cases c)
  have n: "61 \<notin> set n" using Cons.prems c by (simp add: cookie_name_def)
  have s: "split_on [61] (n @ 61 # v) = n # split_on [61] v" by (rule split_unit(1) [OF n])
  obtain y ys where y: "split_on [61] v = y # ys" "y = takeWhile (\<lambda>u. u \<noteq> 61) v"
    using split_value [of v] by (cases "split_on [61] v") auto
  show ?case using Cons.IH Cons.prems s y by (simp add: c js_def)
qed simp

lemma getCookie_jar:
  assumes "\<forall>(n, v)\<in>set cs. cookie_name n \<and> 59 \<notin> set v" "key \<noteq> []"
  shows "getCookie (cookie_text cs) key =
    (case map_of cs key of Some v \<Rightarrow> Some (takeWhile (\<lambda>u. u \<noteq> 61) v) | None \<Rightarrow> Some [])"
proof (cases cs)
  case Nil
  have "split_on (js ''; '') [] = [[]]" using split_first(2) [of "(js ''; '')" "[]"] by (simp add: js_def)
  moreover have "split_on [61] ([] :: jstr) = [[]]" by (simp add: split_unit)
  ultimately show ?thesis using Nil assms(2) by (simp add: getCookie_def cookie_text_def js_def)
next
  case (Cons c ds)
  have "\<forall>x\<in>set (map (\<lambda>(n, v). n @ (js ''='') @ v) cs). hd (js ''; '') \<notin> set x"
    using assms(1) by (auto simp: cookie_name_def js_def)
  then have "split_on (js ''; '') (cookie_text cs) = map (\<lambda>(n, v). n @ (js ''='') @ v) cs"
    unfolding cookie_text_def using Cons by (intro split_join_sep) (simp_all add: js_def)
  moreover have "\<forall>(n, v)\<in>set cs. cookie_name n" using assms(1) by auto
  ultimately show ?thesis using cookie_loop_jar [of cs key] by (simp add: getCookie_def)
qed

text \<open>
  A cookie is found by its name in the text of all cookies, whatever the other cookies are,
  and an absent one reads as the empty text; but of a value that contains an equals sign only the
  part before it is returned.
\<close>

theorem cookie_read:
  assumes "\<forall>(n, v)\<in>set cs. cookie_name n \<and> 59 \<notin> set v" "key \<noteq> []"
  shows "getCookie (cookie_text cs) key =
    (case map_of cs key of Some v \<Rightarrow> Some (takeWhile (\<lambda>u. u \<noteq> 61) v) | None \<Rightarrow> Some [])"
  using assms by (rule getCookie_jar)

theorem cookie_read_witness:
  "getCookie (cookie_text [((js ''a''), (js ''1'')), ((js ''tok''), (js ''QQ==''))]) (js ''tok'') = Some (js ''QQ'')"
proof -
  have "\<forall>(n, v)\<in>set [((js ''a''), (js ''1'')), ((js ''tok''), (js ''QQ==''))]. cookie_name n \<and> 59 \<notin> set v" "(js ''tok'') \<noteq> []"
    by (simp_all add: cookie_name_def js_def)
  from cookie_read [OF this] show ?thesis by (simp add: js_def)
qed

section \<open>The action id of a visit\<close>

lemma random_index_bounds:
  "m < 2 ^ 53 \<Longrightarrow> random_index m \<le> 61 \<and> (random_index m = 0 \<longleftrightarrow> m = 0)"
proof -
  assume m: "m < 2 ^ 53"
  have l: "length id_chars - 1 = 61" by (simp add: id_chars_def js_def)
  have "m * 61 + (2 ^ 53 - 1) < 2 ^ 53 * 62" using m by simp
  then have "random_index m < 62" unfolding random_index_def l by (simp add: less_mult_imp_div_less)
  moreover have "m * 61 + (2 ^ 53 - 1) < 2 ^ 53 \<longleftrightarrow> m = 0" by auto
  then have "random_index m = 0 \<longleftrightarrow> m = 0" unfolding random_index_def l by (simp add: div_eq_0_iff)
  ultimately show ?thesis by simp
qed

text \<open>
  The random part of an action id is a text over the 62 characters, of the length asked for,
  and its first character is never used (except for a random number that is exactly 0).
\<close>

theorem random_text_alphabet:
  assumes "\<forall>m\<in>set ms. m < 2 ^ 53"
  shows "length (random_text ms) = length ms \<and> set (random_text ms) \<subseteq> set id_chars \<and>
    (\<forall>i<length ms. random_text ms ! i = 97 \<longleftrightarrow> ms ! i = 0)"
proof -
  have l: "length id_chars = 62" and d: "distinct id_chars" and h: "id_chars ! 0 = 97"
    by (simp_all add: id_chars_def js_def)
  have b: "random_index m < length id_chars" "random_index m = 0 \<longleftrightarrow> m = 0" if "m \<in> set ms" for m
    using random_index_bounds [of m] assms that l by auto
  have "random_text ms ! i = 97 \<longleftrightarrow> ms ! i = 0" if "i < length ms" for i
  proof -
    have m: "ms ! i \<in> set ms" using that by simp
    have "id_chars ! random_index (ms ! i) = id_chars ! 0 \<longleftrightarrow> random_index (ms ! i) = 0"
      using nth_eq_iff_index_eq [OF d b(1) [OF m], of 0] l by simp
    then show ?thesis using that b(2) [OF m] h by (simp add: random_text_def)
  qed
  then show ?thesis using b by (auto simp: random_text_def)
qed

theorem random_text_alphabet_witness: "random_text [0, 1] = (js ''ab'')"
proof -
  have "\<forall>m\<in>set [0, 1]. m < (2 :: nat) ^ 53" by simp
  from random_text_alphabet [OF this] have "random_text [0, 1] ! 0 = 97" by simp
  moreover have "random_text [0, 1] = [id_chars ! 0, id_chars ! 1]"
    by (simp add: random_text_def random_index_def id_chars_def js_def)
  ultimately show ?thesis by (simp add: id_chars_def js_def)
qed

lemma map_of_visible:
  "distinct (map fst j) \<Longrightarrow>
   map_of (visible t j) k = (case map_of j k of None \<Rightarrow> None | Some (v, e) \<Rightarrow> if t < e then Some v else None)"
proof (induction j)
  case (Cons c j)
  obtain n v e where c: "c = (n, v, e)" by (cases c) auto
  have "n \<noteq> k \<or> map_of j k = None" using Cons.prems c by (auto simp: map_of_eq_None_iff)
  with Cons c show ?case by (auto simp: visible_def split: option.splits)
qed (simp add: visible_def)

lemma setCookie_get: "map_of (setCookie now k v x j) n = (if n = k then Some (v, now + x) else map_of j n)"
  by (simp add: setCookie_def update_conv)

lemma setCookie_distinct: "distinct (map fst j) \<Longrightarrow> distinct (map fst (setCookie now k v x j))"
  by (simp add: setCookie_def distinct_update)

text \<open>
  With no new channel an existing action id is kept unchanged and no cookie is touched; a new
  id replaces the old one and is stored with a life of 315360000 milliseconds, which is 3.65 days
  where the factors (days times hours times seconds) say ten years.
\<close>

theorem action_id_lifetime:
  assumes "createActionSeqId now rnd st = (r, st')" "distinct (map fst (cookies st))"
  shows "(\<not> truthy_text (read_cookie now st (js ''stat_channel'')) \<and>
      truthy_text (read_cookie now st (js ''stat_action_seq_id'')) \<longrightarrow>
        cookies st' = cookies st \<and> r = read_cookie now st (js ''stat_action_seq_id'')) \<and>
    (truthy_text (read_cookie now st (js ''stat_channel'')) \<longrightarrow>
      (\<exists>seq. r = Some seq \<and>
        (\<forall>t. map_of (visible t (cookies st')) (js ''stat_action_seq_id'') =
          (if t < now + 315360000 then Some seq else None))))"
proof -
  have "\<exists>seq. r = Some seq \<and> (\<forall>t. map_of (visible t (cookies st')) (js ''stat_action_seq_id'') =
      (if t < now + 315360000 then Some seq else None))"
    if ch: "truthy_text (read_cookie now st (js ''stat_channel''))"
  proof -
    have rc: "read_cookie now (s\<lparr>channel_info := c\<rparr>) k = read_cookie now s k" for s c k
      by (simp add: read_cookie_def doc_cookie_def)
    have "fst (createChannelInfo now (memc st) (memcExpires st)
        (st\<lparr>channel_info := read_cookie now st (js ''stat_channel'')\<rparr>)) \<noteq> None"
      using ch by (auto simp: createChannelInfo_def Let_def rc truthy_text_def split: option.splits)
    moreover have "distinct (map fst (cookies (snd (createChannelInfo now (memc st) (memcExpires st)
        (st\<lparr>channel_info := read_cookie now st (js ''stat_channel'')\<rparr>)))))"
      using assms(2) by (simp add: createChannelInfo_def Let_def setCookie_distinct)
    ultimately obtain i s1 where i: "createChannelInfo now (memc st) (memcExpires st)
        (st\<lparr>channel_info := read_cookie now st (js ''stat_channel'')\<rparr>) = (Some i, s1)"
      and d: "distinct (map fst (cookies s1))"
      by (metis eq_snd_iff fst_conv not_Some_eq snd_conv)
    obtain seq where r: "r = Some seq"
        "cookies st' = setCookie now (js ''stat_action_seq_id'') seq (3650 * 24 * 3600) (cookies s1)"
      using assms(1) ch i by (auto simp: createActionSeqId_def Let_def)
    have "map_of (visible t (cookies st')) (js ''stat_action_seq_id'') =
        (if t < now + 315360000 then Some seq else None)" for t
      using map_of_visible [OF setCookie_distinct [OF d]] by (simp add: r setCookie_get)
    with r show ?thesis by blast
  qed
  moreover have "cookies st' = cookies st \<and> r = read_cookie now st (js ''stat_action_seq_id'')"
    if "\<not> truthy_text (read_cookie now st (js ''stat_channel''))" "truthy_text (read_cookie now st (js ''stat_action_seq_id''))"
    using assms(1) that by (auto simp: createActionSeqId_def Let_def read_cookie_def doc_cookie_def)
  ultimately show ?thesis by blast
qed

definition stat1 :: stat where
  "stat1 = \<lparr>cookies = [((js ''stat_channel''), (js ''qd''), 100000)], memc = [], memcExpires = 0, channel_info = None, scripts = []\<rparr>"

theorem action_id_lifetime_witness:
  "map_of (visible 315361000 (cookies (snd (createActionSeqId 1000 [1, 2] stat1)))) (js ''stat_action_seq_id'') = None"
proof -
  have "visible 1000 (cookies stat1) = [((js ''stat_channel''), (js ''qd''))]" by (simp add: stat1_def visible_def)
  moreover have "getCookie (cookie_text [((js ''stat_channel''), (js ''qd''))]) (js ''stat_channel'') = Some (js ''qd'')"
  proof -
    have "\<forall>(n, v)\<in>set [((js ''stat_channel''), (js ''qd''))]. cookie_name n \<and> 59 \<notin> set v" "(js ''stat_channel'') \<noteq> []"
      by (simp_all add: cookie_name_def js_def)
    from getCookie_jar [OF this] show ?thesis by (simp add: js_def)
  qed
  ultimately have c: "truthy_text (read_cookie 1000 stat1 (js ''stat_channel''))"
    by (simp add: read_cookie_def doc_cookie_def truthy_text_def js_def)
  obtain r st' where s: "createActionSeqId 1000 [1, 2] stat1 = (r, st')" by force
  have "distinct (map fst (cookies stat1))" by (simp add: stat1_def)
  from action_id_lifetime [OF s this] c s show ?thesis by auto
qed

text \<open>
  Waiting for the cookie ends: whatever the looks find, the loop returns at the first one that
  sees the cookie, at the latest at the seventh.
\<close>

theorem push_waits_at_most_seven:
  "\<exists>n. timedCount ex 0 = Some n \<and> n \<le> 6 \<and> (ex n \<or> n = 6) \<and> (\<forall>k<n. \<not> ex k)"
proof -
  have "\<exists>n. timedCount ex t = Some n \<and> n \<le> 6 \<and> t \<le> n \<and> (ex n \<or> n = 6) \<and> (\<forall>k. t \<le> k \<and> k < n \<longrightarrow> \<not> ex k)"
    if "t \<le> 6" for t
    using that
  proof (induction "6 - t" arbitrary: t)
    case 0
    then have "t = 6" by simp
    then show ?case by (subst timedCount.simps) auto
  next
    case (Suc d)
    show ?case
    proof (cases "ex t \<or> t = 6")
      case True
      then show ?thesis using Suc.prems by (subst timedCount.simps) auto
    next
      case False
      then have "t + 1 \<le> 6" "d = 6 - (t + 1)" using Suc by auto
      then obtain n where n: "timedCount ex (t + 1) = Some n" "n \<le> 6" "t + 1 \<le> n" "ex n \<or> n = 6"
          "\<forall>k. t + 1 \<le> k \<and> k < n \<longrightarrow> \<not> ex k"
        using Suc.hyps(1) by blast
      have "\<forall>k. t \<le> k \<and> k < n \<longrightarrow> \<not> ex k"
      proof (intro allI impI)
        fix k assume "t \<le> k \<and> k < n"
        then show "\<not> ex k" using n(5) False by (cases "k = t") simp_all
      qed
      with n False show ?thesis by (subst timedCount.simps) auto
    qed
  qed
  from this [of 0] show ?thesis by auto
qed

theorem push_waits_at_most_seven_witness: "timedCount (\<lambda>t. t = 2) 0 = Some 2"
proof -
  obtain n where n: "timedCount (\<lambda>t. t = 2) 0 = Some n" "n = 2 \<or> n = 6" "\<forall>k<n. k \<noteq> 2"
    using push_waits_at_most_seven [of "\<lambda>t. t = 2"] by blast
  have "n = 2" using n(2) n(3) [THEN spec, of 2] by auto
  with n(1) show ?thesis by simp
qed

section \<open>Shared links keep one channel\<close>

definition query_name :: "jstr \<Rightarrow> bool" where
  "query_name k \<longleftrightarrow> k \<noteq> [] \<and> (\<forall>u\<in>set k. uri_plain u) \<and> \<not> is_index k \<and> k \<noteq> (js ''__proto__'')"

definition piece :: "jstr \<times> jstr \<Rightarrow> jstr" where
  "piece e = fst e @ 61 # snd e"

lemma uri_plain_not: "uri_plain u \<Longrightarrow> u \<noteq> 37 \<and> u \<noteq> 38 \<and> u \<noteq> 43 \<and> u \<noteq> 61"
  by (auto simp: uri_plain_def is_digit_def)

lemma uri_out_not: "uri_out u \<Longrightarrow> u \<noteq> 38 \<and> u \<noteq> 43"
  by (auto simp: uri_out_def dest: uri_plain_not)

lemma after_key_eq:
  "\<forall>u\<in>set k. u \<noteq> 38 \<and> u \<noteq> 61 \<Longrightarrow> after_key (k @ 61 # r) = r"
  by (induction k) (simp_all add: after_key_def)

lemma query_scan_piece:
  assumes "k \<noteq> []" "\<forall>u\<in>set k. u \<noteq> 38 \<and> u \<noteq> 61" "\<forall>u\<in>set v. u \<noteq> 38" "r = [] \<or> hd r = 38"
  shows "query_scan (k @ 61 # v @ r) = (k, v) # query_scan r"
proof -
  obtain u k' where k: "k = u # k'" using assms(1) by (cases k) auto
  have d: "dropWhile (\<lambda>u. u = 38 \<or> u = 61) (k @ 61 # v @ r) = k @ 61 # v @ r"
    using assms(2) by (simp add: k)
  have t: "takeWhile (\<lambda>u. u \<noteq> 38 \<and> u \<noteq> 61) (k @ 61 # v @ r) = k"
    using assms(2) by (simp add: takeWhile_append2)
  have a: "after_key (k @ 61 # v @ r) = v @ r" by (rule after_key_eq [OF assms(2)])
  have v: "takeWhile (\<lambda>u. u \<noteq> 38) (v @ r) = v" "dropWhile (\<lambda>u. u \<noteq> 38) (v @ r) = r"
    using assms(3,4) by (cases r; simp add: takeWhile_append2 dropWhile_append2)+
  show ?thesis
    using d t a v by (subst query_scan.simps) (simp add: k)
qed

lemma query_scan_amp: "query_scan (38 # s) = query_scan s"
  by (subst (1 2) query_scan.simps) simp

definition raw_ok :: "jstr \<times> jstr \<Rightarrow> bool" where
  "raw_ok e \<longleftrightarrow> fst e \<noteq> [] \<and> (\<forall>u\<in>set (fst e). u \<noteq> 38 \<and> u \<noteq> 61) \<and> (\<forall>u\<in>set (snd e). u \<noteq> 38)"

lemma query_scan_join: "\<forall>e\<in>set es. raw_ok e \<Longrightarrow> query_scan (join_with [38] (map piece es)) = es"
proof (induction es)
  case Nil
  then show ?case by (simp add: query_scan.simps)
next
  case (Cons e es)
  have e: "fst e \<noteq> []" "\<forall>u\<in>set (fst e). u \<noteq> 38 \<and> u \<noteq> 61" "\<forall>u\<in>set (snd e). u \<noteq> 38"
    using Cons.prems by (simp_all add: raw_ok_def)
  show ?case
  proof (cases es)
    case Nil
    then show ?thesis using query_scan_piece [OF e, of "[]"] by (simp add: piece_def query_scan.simps [of "[]"])
  next
    case (Cons f fs)
    then have j: "join_with [38] (map piece (e # es)) = fst e @ 61 # snd e @ 38 # join_with [38] (map piece es)"
      by (simp add: piece_def)
    have "query_scan (join_with [38] (map piece es)) = es" using Cons.IH Cons.prems by simp
    then show ?thesis
      unfolding j using query_scan_piece [OF e, of "38 # join_with [38] (map piece es)"]
      by (simp add: query_scan_amp)
  qed
qed

lemma uri_decode_name: "\<forall>u\<in>set k. uri_plain u \<Longrightarrow> uri_decode k = Some k"
proof -
  assume p: "\<forall>u\<in>set k. uri_plain u"
  then have "map (\<lambda>u. if u = 43 then 32 else u) k = k"
    by (intro map_idI) (auto dest: uri_plain_not)
  moreover have "decodeURIComponent k = Some k"
    using p by (induction k) (auto simp: decodeURIComponent.simps [of "[]"] decode_plain dest: uri_plain_not)
  ultimately show ?thesis by (simp add: uri_decode_def)
qed

lemma uri_decode_value:
  assumes "wf_jstr v" "encodeURIComponent v = Some e"
  shows "uri_decode e = Some v"
proof -
  have "map (\<lambda>u. if u = 43 then 32 else u) e = e"
    using encode_uri_out [OF assms] by (intro map_idI) (auto dest: uri_out_not)
  then show ?thesis using decode_encode_uri [OF assms] by (simp add: uri_decode_def)
qed

text \<open>A parameter: name, value, and the value as it stands in the query.\<close>

definition param_ok :: "jstr \<times> jstr \<times> jstr \<Rightarrow> bool" where
  "param_ok = (\<lambda>(k, v, e). query_name k \<and> wf_jstr v \<and> encodeURIComponent v = Some e)"

definition query_of :: "(jstr \<times> jstr \<times> jstr) list \<Rightarrow> jstr" where
  "query_of ps = join_with (js ''&'') (map (\<lambda>(k, v, e). piece (k, e)) ps)"

lemma obj_put_new: "k \<notin> fst ` set ob \<Longrightarrow> obj_put k v ob = ob @ [(k, v)]"
  unfolding obj_put_def by (induction ob) auto

lemma params_loop_ok:
  assumes "\<forall>(k, v, e)\<in>set ps. uri_decode k = Some k \<and> uri_decode e = Some v \<and> k \<noteq> (js ''__proto__'')"
    and "distinct (map fst ob @ map fst ps)"
  shows "params_loop (map (\<lambda>(k, v, e). (k, e)) ps) ob = Some (ob @ map (\<lambda>(k, v, e). (k, v)) ps)"
  using assms
proof (induction ps arbitrary: ob)
  case (Cons p ps)
  obtain k v e where p: "p = (k, v, e)" by (cases p) auto
  have n: "k \<notin> fst ` set ob" using Cons.prems(2) by (auto simp: p)
  show ?case using Cons.IH [of "ob @ [(k, v)]"] Cons.prems obj_put_new [OF n, of v] by (simp add: p)
qed simp

lemma for_in_names: "\<forall>e\<in>set ob. \<not> is_index (fst e) \<Longrightarrow> for_in ob = ob"
  by (auto simp: for_in_def filter_empty_conv intro!: filter_True)

lemma query_parts_ok:
  assumes "\<forall>(k, v, e)\<in>set ps. k \<noteq> (js ''channel'') \<longrightarrow> encodeURIComponent v = Some e"
  shows "query_parts (map (\<lambda>(k, v, e). (k, v)) ps) =
    Some (map (\<lambda>(k, v, e). piece (k, e)) (filter (\<lambda>p. fst p \<noteq> (js ''channel'')) ps))"
  using assms
proof (induction ps)
  case (Cons p ps)
  obtain k v e where p: "p = (k, v, e)" by (cases p) auto
  have eq: "k @ (js ''='') @ e = piece (k, e)" by (simp add: piece_def js_def)
  show ?case using Cons by (simp add: p eq)
qed simp

text \<open>One step for any list of parameters that decode, of which all but the channel re-encode.\<close>

lemma new_query_general:
  assumes "\<forall>(k, v, e)\<in>set ps. query_name k \<and> (\<forall>u\<in>set e. u \<noteq> 38) \<and> uri_decode e = Some v \<and>
      (k \<noteq> (js ''channel'') \<longrightarrow> encodeURIComponent v = Some e)"
    and "distinct (map fst ps)"
  shows "new_query (query_of ps) w =
    Some (if filter (\<lambda>p. fst p \<noteq> (js ''channel'')) ps = [] then w
          else query_of (filter (\<lambda>p. fst p \<noteq> (js ''channel'')) ps) @ (js ''&'') @ w)"
proof -
  have amp: "(js ''&'') = [38]" by (simp add: js_def)
  have q: "query_of ps = join_with [38] (map piece (map (\<lambda>(k, v, e). (k, e)) ps))" for ps :: "(jstr \<times> jstr \<times> jstr) list"
    by (simp add: query_of_def amp split_def comp_def)
  have "raw_ok (k, e)" if "(k, v, e) \<in> set ps" for k v e
  proof -
    have "query_name k" "\<forall>u\<in>set e. u \<noteq> 38" using assms(1) that by auto
    then show ?thesis by (auto simp: raw_ok_def query_name_def dest: uri_plain_not)
  qed
  then have "\<forall>e\<in>set (map (\<lambda>(k, v, e). (k, e)) ps). raw_ok e" by auto
  then have scan: "query_scan (query_of ps) = map (\<lambda>(k, v, e). (k, e)) ps"
    unfolding q by (rule query_scan_join)
  have "\<forall>(k, v, e)\<in>set ps. uri_decode k = Some k \<and> uri_decode e = Some v \<and> k \<noteq> (js ''__proto__'')"
    using assms(1) by (auto simp: query_name_def uri_decode_name)
  then have loop: "params_loop (query_scan (query_of ps)) [] = Some (map (\<lambda>(k, v, e). (k, v)) ps)"
    unfolding scan using params_loop_ok [of ps "[]"] assms(2) by simp
  have "for_in (map (\<lambda>(k, v, e). (k, v)) ps) = map (\<lambda>(k, v, e). (k, v)) ps"
    using assms(1) by (intro for_in_names) (auto simp: query_name_def)
  moreover have "query_parts (map (\<lambda>(k, v, e). (k, v)) ps) =
      Some (map (\<lambda>(k, v, e). piece (k, e)) (filter (\<lambda>p. fst p \<noteq> (js ''channel'')) ps))"
    using assms(1) by (intro query_parts_ok) auto
  ultimately show ?thesis
    using loop by (simp add: new_query_def query_of_def)
qed

text \<open>
  C14: rewriting a shared address keeps every parameter other than the channel, in order and with
  its value, and appends the new channel; doing it again, as when a shared page is shared on,
  replaces the channel instead of adding a second one. (Names are plain and no array indices;
  the visitor's id must not contain an ampersand nor a broken escape, for it is not encoded.)
\<close>

theorem share_link_one_channel:
  assumes "list_all param_ok ps" "distinct (map fst ps)" "(js ''channel'') \<notin> set (map fst ps)" "ps \<noteq> []"
    and "38 \<notin> set r" "uri_decode r \<noteq> None"
  shows "new_query (query_of ps) (piece ((js ''channel''), r)) = Some (query_of ps @ (js ''&'') @ piece ((js ''channel''), r)) \<and>
    new_query (query_of ps @ (js ''&'') @ piece ((js ''channel''), r)) w = new_query (query_of ps) w"
proof -
  obtain d where d: "uri_decode r = Some d" using assms(6) by auto
  have f: "filter (\<lambda>p. fst p \<noteq> (js ''channel'')) ps = ps"
    using assms(3) by (auto intro!: filter_True simp: image_iff)
  have ok: "\<forall>(k, v, e)\<in>set ps. query_name k \<and> (\<forall>u\<in>set e. u \<noteq> 38) \<and> uri_decode e = Some v \<and>
      (k \<noteq> (js ''channel'') \<longrightarrow> encodeURIComponent v = Some e)"
    using assms(1) encode_uri_out uri_out_not uri_decode_value
    by (fastforce simp: param_ok_def list_all_iff)
  have one: "new_query (query_of ps) w = Some (query_of ps @ (js ''&'') @ w)" for w
    using new_query_general [OF ok assms(2), of w] f assms(4) by simp
  have c: "query_name (js ''channel'')"
    by (auto simp: query_name_def js_def uri_plain_def is_index_def is_digit_def)
  have jn: "xs \<noteq> [] \<Longrightarrow> join_with sep (xs @ [y]) = join_with sep xs @ sep @ y" for sep y and xs :: "jstr list"
    by (induction sep xs rule: join_with.induct) simp_all
  have two: "query_of ps @ (js ''&'') @ piece ((js ''channel''), r) = query_of (ps @ [((js ''channel''), d, r)])"
    using assms(4) by (simp add: query_of_def jn)
  have "new_query (query_of (ps @ [((js ''channel''), d, r)])) w = Some (query_of ps @ (js ''&'') @ w)"
    using new_query_general [of "ps @ [((js ''channel''), d, r)]" w] ok c d assms(2,3,4,5) f by auto
  with one two show ?thesis by simp
qed

theorem share_link_one_channel_witness:
  "new_query ((js ''actId=7'') @ (js ''&'') @ (js ''channel=abc_f'')) (js ''channel=xyz_fc'') = Some ((js ''actId=7'') @ (js ''&'') @ (js ''channel=xyz_fc''))"
proof -
  let ?ps = "[((js ''actId''), (js ''7''), (js ''7''))]"
  have h: "list_all param_ok ?ps" "distinct (map fst ?ps)" "(js ''channel'') \<notin> set (map fst ?ps)" "?ps \<noteq> []"
    by (simp_all add: param_ok_def query_name_def js_def uri_plain_def is_index_def is_digit_def wf_jstr_def)
  have "uri_decode (js ''abc_f'') = Some (js ''abc_f'')"
    by (rule uri_decode_name) (simp add: js_def uri_plain_def is_digit_def)
  then have r: "38 \<notin> set (js ''abc_f'')" "uri_decode (js ''abc_f'') \<noteq> None" by (simp_all add: js_def)
  have "uri_decode (js ''xyz_fc'') = Some (js ''xyz_fc'')"
    by (rule uri_decode_name) (simp add: js_def uri_plain_def is_digit_def)
  then have r': "38 \<notin> set (js ''xyz_fc'')" "uri_decode (js ''xyz_fc'') \<noteq> None" by (simp_all add: js_def)
  show ?thesis
    using share_link_one_channel [OF h r, of "piece ((js ''channel''), (js ''xyz_fc''))"]
      share_link_one_channel [OF h r', of "[]"]
    by (simp add: query_of_def piece_def js_def)
qed

end
