(* ===== verification/WinDialog.thy ===== *)
theory WinDialog
  imports Js_Dom Forms
begin

text \<open>
  The message boxes that replace \<open>alert\<close> and \<open>confirm\<close> on the golden-egg page
  (\<open>template/hd0921/js/winDialog.js\<close>): a base widget, the kinds derived from it, their stacking
  order, their markup and their life from opening to destruction.
\<close>

section \<open>Templates\<close>

text \<open>
  \<open>sTpl\<close>: place holders may be empty; a name that \<open>data\<close> does not have is replaced by itself,
  without the braces. \<open>inherited\<close> is the text of the methods every object has.
\<close>

definition sTpl :: "(jstr \<Rightarrow> jstr) \<Rightarrow> jstr \<Rightarrow> jstr jobj \<Rightarrow> jstr" where
  "sTpl inherited tpl data =
     brace_replace 0
       (\<lambda>n. case obj_get data n of
              Some v \<Rightarrow> v
            | None \<Rightarrow> if n \<in> set proto_names then inherited n else n) tpl"

section \<open>Widgets\<close>

datatype wkind = WDialog | WLoading | WAlert | WConfirm | WTip

definition kind_name :: "wkind \<Rightarrow> jstr" where
  "kind_name k =
     (case k of WDialog \<Rightarrow> (js ''dialog'') | WLoading \<Rightarrow> (js ''loading'') | WAlert \<Rightarrow> (js ''alert'')
      | WConfirm \<Rightarrow> (js ''confirm'') | WTip \<Rightarrow> (js ''tip''))"

definition TPL_MASK :: jstr where
  "TPL_MASK = (js ''<div class=\"widget_mask\" style=\"z-index:{zIndex};\"></div>'')"

definition wrap_head :: jstr where
  "wrap_head = (js ''<div class=\"widget_wrap\" style=\"z-index:{zIndex2};'')"

text \<open>The line continuations of the source keep the tabs; \<open>tb n\<close> is \<open>n\<close> of them.\<close>

definition tb :: "nat \<Rightarrow> jstr" where
  "tb n = replicate n 9"

definition TPL :: "wkind \<Rightarrow> jstr" where
  "TPL k =
     (case k of
        WDialog \<Rightarrow> wrap_head @ (js ''\">{dialog by Anjey_wu wkf39988@gmail.com}</div>'')
      | WLoading \<Rightarrow> wrap_head @ (js ''\"><div><span></span></div></div>'')
      | WAlert \<Rightarrow> wrap_head @ (js ''\">'') @ tb 7 @ (js ''<div class=\"widget_header\"></div>'') @ tb 7 @
          (js ''<div class=\"widget_body\">{str}</div>'') @ tb 7 @ (js ''<div class=\"widget_footer\">'') @ tb 8 @ (js ''<ul>'') @
          tb 9 @ (js ''<li><button type=\"button\">'' @ [30830, 23450] @ js ''</button></li>'') @ tb 8 @ (js ''</ul>'') @ tb 7 @ (js ''</div>'') @ tb 6 @ (js ''</div>'')
      | WConfirm \<Rightarrow> wrap_head @ (js ''\" >'') @ tb 4 @ (js ''<div class=\"widget_header\"></div>'') @ tb 4 @
          (js ''<div class=\"widget_body\">{str}</div>'') @ tb 4 @ (js ''<div class=\"widget_footer\">'') @ tb 5 @ (js ''<ul>'') @
          tb 6 @ (js ''<li><button type=\"button\">'' @ [21462, 28040] @ js ''</button></li>'') @ tb 6 @ (js ''<li><button type=\"button\">'' @ [30830, 23450] @ js ''</button></li>'') @
          tb 5 @ (js ''</ul>'') @ tb 4 @ (js ''</div>'') @ tb 3 @ (js ''</div>'')
      | WTip \<Rightarrow> wrap_head @ (js ''\"><div class=\"widget_body\">{str}</div></div>''))"

text \<open>
  What the caller passed: whether the arguments bring a \<open>clickFn\<close> or a \<open>callBack\<close> of their own.
  Other overrides (of the z-index or the id) are not modelled.
\<close>

record wargs =
  own_click :: bool
  own_callback :: bool

record widget =
  w_kind :: wkind
  w_z :: nat
  w_id :: jstr
  w_classes :: string
  w_body :: jstr
  w_on :: bool
  w_args :: wargs

text \<open>
  The page: the counter of z-indexes, the widgets in the document in the order of their opening
  (exactly those in \<open>common.dialog\<close>), the timers of tips, and whether an exception was thrown.
\<close>

record win =
  zIndex :: nat
  widgets :: "widget list"
  tips :: "jstr timers"
  thrown :: bool

definition getZindex :: "win \<Rightarrow> nat \<times> win" where
  "getZindex w = (zIndex w + 100, w\<lparr>zIndex := zIndex w + 100\<rparr>)"

text \<open>Loading the script builds one base widget for each of the four prototypes.\<close>

definition win0 :: win where
  "win0 = \<lparr>zIndex = 1400, widgets = [], tips = no_timers, thrown = False\<rparr>"

definition undefined_text :: "jstr option \<Rightarrow> jstr" where
  "undefined_text s = (case s of None \<Rightarrow> (js ''undefined'') | Some t \<Rightarrow> t)"

text \<open>
  Construction and \<open>config\<close>: every kind but the base one runs the base constructor first, which
  takes a z-index of its own.
\<close>

definition construct :: "(jstr \<Rightarrow> jstr) \<Rightarrow> wkind \<Rightarrow> jstr option \<Rightarrow> wargs \<Rightarrow> win \<Rightarrow> widget \<times> win" where
  "construct inherited k str args w =
     (let (z, w) = getZindex w;
          (z, w) = (if k = WDialog then (z, w) else getZindex w);
          data = [((js ''str''), undefined_text str), ((js ''zIndex''), nat_str z), ((js ''zIndex2''), nat_str (z + 50))]
      in (\<lparr>w_kind = k, w_z = z, w_id = (js ''widget_'') @ kind_name k @ (js ''_'') @ nat_str z,
            w_classes = (if k = WAlert then ''alert'' else ''''),
            w_body = sTpl inherited (TPL_MASK @ TPL k) data, w_on = False, w_args = args\<rparr>, w))"

definition in_page :: "jstr \<Rightarrow> win \<Rightarrow> bool" where
  "in_page i w \<longleftrightarrow> (\<exists>x\<in>set (widgets w). w_id x = i)"

definition set_on :: "bool \<Rightarrow> jstr \<Rightarrow> win \<Rightarrow> win" where
  "set_on b i w = w\<lparr>widgets := map (\<lambda>x. if w_id x = i then x\<lparr>w_on := b\<rparr> else x) (widgets w)\<rparr>"

definition w_open :: "widget \<Rightarrow> win \<Rightarrow> win" where
  "w_open x w =
     set_on True (w_id x)
       (if in_page (w_id x) w then w else w\<lparr>widgets := widgets w @ [x]\<rparr>)"

definition w_close :: "jstr \<Rightarrow> win \<Rightarrow> win" where
  "w_close i w = set_on False i w"

text \<open>Removing a widget that is no longer in the document throws: it has no parent.\<close>

definition destroy :: "jstr \<Rightarrow> win \<Rightarrow> win" where
  "destroy i w =
     (if in_page i w then w\<lparr>widgets := filter (\<lambda>x. w_id x \<noteq> i) (widgets w)\<rparr>
      else w\<lparr>thrown := True\<rparr>)"

definition default_callBack :: "bool \<Rightarrow> jstr \<Rightarrow> win \<Rightarrow> win" where
  "default_callBack button i w = (if button then destroy i w else w)"

text \<open>
  A click inside widget \<open>i\<close>: \<open>button\<close> tells whether it hit a button, \<open>effect\<close> what a function
  passed by the caller does (its result decides whether the default follows a \<open>callBack\<close>).
\<close>

definition handleEvent :: "bool \<Rightarrow> (win \<Rightarrow> bool \<times> win) \<Rightarrow> jstr \<Rightarrow> win \<Rightarrow> win" where
  "handleEvent button effect i w =
     (case find (\<lambda>x. w_id x = i) (widgets w) of
        None \<Rightarrow> w
      | Some x \<Rightarrow>
          if own_click (w_args x) then snd (effect w)
          else if own_callback (w_args x) then
            (case effect w of (r, w) \<Rightarrow> if r then default_callBack button i w else w)
          else default_callBack button i w)"

definition win_open :: "(jstr \<Rightarrow> jstr) \<Rightarrow> wkind \<Rightarrow> jstr option \<Rightarrow> wargs \<Rightarrow> win \<Rightarrow> win" where
  "win_open inherited k str args w = (case construct inherited k str args w of (x, w) \<Rightarrow> w_open x w)"

definition win_alert :: "(jstr \<Rightarrow> jstr) \<Rightarrow> jstr \<Rightarrow> wargs \<Rightarrow> win \<Rightarrow> win" where
  "win_alert inherited str = win_open inherited WAlert (Some str)"

definition win_confirm :: "(jstr \<Rightarrow> jstr) \<Rightarrow> jstr \<Rightarrow> wargs \<Rightarrow> win \<Rightarrow> win" where
  "win_confirm inherited str = win_open inherited WConfirm (Some str)"

definition win_loading :: "(jstr \<Rightarrow> jstr) \<Rightarrow> wargs \<Rightarrow> win \<Rightarrow> win" where
  "win_loading inherited = win_open inherited WLoading None"

definition win_tip :: "(jstr \<Rightarrow> jstr) \<Rightarrow> int \<Rightarrow> jstr \<Rightarrow> wargs \<Rightarrow> win \<Rightarrow> win" where
  "win_tip inherited now str args w =
     (case construct inherited WTip (Some str) args w of
        (x, w) \<Rightarrow>
          (let w = w_open x w in w\<lparr>tips := snd (set_timeout now 1500 (w_id x) (tips w))\<rparr>))"

definition tip_fire :: "nat \<Rightarrow> win \<Rightarrow> win" where
  "tip_fire i w =
     (case fire i (tips w) of
        None \<Rightarrow> w
      | Some (wid, ts) \<Rightarrow> destroy wid (w\<lparr>tips := ts\<rparr>))"

text \<open>The functions a caller may pass here destroy their widget or leave it, and return a truth value.\<close>

datatype win_event =
    EAlert jstr wargs
  | EConfirm jstr wargs
  | ELoading wargs
  | ETip int jstr wargs
  | EClick bool bool bool nat
  | EClose nat
  | ETimer nat

definition nth_id :: "nat \<Rightarrow> win \<Rightarrow> jstr" where
  "nth_id n w = (if n < length (widgets w) then w_id (widgets w ! n) else [])"

fun win_step :: "(jstr \<Rightarrow> jstr) \<Rightarrow> win_event \<Rightarrow> win \<Rightarrow> win" where
  "win_step inh (EAlert s a) w = win_alert inh s a w"
| "win_step inh (EConfirm s a) w = win_confirm inh s a w"
| "win_step inh (ELoading a) w = win_loading inh a w"
| "win_step inh (ETip now s a) w = win_tip inh now s a w"
| "win_step inh (EClick button kill ret n) w =
     handleEvent button (\<lambda>w. (ret, if kill then destroy (nth_id n w) w else w)) (nth_id n w) w"
| "win_step inh (EClose n) w = w_close (nth_id n w) w"
| "win_step inh (ETimer i) w = tip_fire i w"

definition win_run :: "(jstr \<Rightarrow> jstr) \<Rightarrow> win_event list \<Rightarrow> win" where
  "win_run inh evs = fold (win_step inh) evs win0"

section \<open>Stacking\<close>

text \<open>
  Widgets lie in the order of their opening: the wrapper of one (its z-index plus 50) is below
  the mask of the next.
\<close>

definition stacked :: "win \<Rightarrow> bool" where
  "stacked w \<longleftrightarrow>
     sorted_wrt (\<lambda>x y. w_z x + 100 \<le> w_z y) (widgets w) \<and> (\<forall>x\<in>set (widgets w). w_z x \<le> zIndex w)"

lemma construct_z:
  "construct inh k s a w = (x, w') \<Longrightarrow> zIndex w + 100 \<le> w_z x \<and> w_z x = zIndex w' \<and> widgets w' = widgets w"
  by (auto simp: construct_def getZindex_def Let_def split: if_splits)

lemma stacked_cong: "map w_z xs = map w_z (widgets w) \<Longrightarrow> stacked w \<Longrightarrow> stacked (w\<lparr>widgets := xs\<rparr>)"
proof -
  assume m: "map w_z xs = map w_z (widgets w)" and s: "stacked w"
  have "sorted_wrt (\<lambda>a b. a + 100 \<le> b) (map w_z xs)"
    using s unfolding m by (simp add: stacked_def sorted_wrt_map)
  moreover have "\<forall>z\<in>set (map w_z xs). z \<le> zIndex w" using s unfolding m by (simp add: stacked_def)
  ultimately show ?thesis by (simp add: stacked_def sorted_wrt_map)
qed

lemma stacked_set_on: "stacked w \<Longrightarrow> stacked (set_on b i w)"
  unfolding set_on_def by (rule stacked_cong) (simp_all add: comp_def if_distrib cong: if_cong)

lemma stacked_fields [simp]:
  "stacked (w\<lparr>tips := t\<rparr>) = stacked w" "stacked (w\<lparr>thrown := b\<rparr>) = stacked w"
  by (simp_all add: stacked_def)

lemma stacked_destroy: "stacked w \<Longrightarrow> stacked (destroy i w)"
  by (simp add: destroy_def) (simp add: stacked_def sorted_wrt_filter)

lemma stacked_open:
  assumes "stacked w" "construct inh k s a w = (x, w')"
  shows "stacked (w_open x w')"
proof -
  have z: "zIndex w + 100 \<le> w_z x" "w_z x = zIndex w'" "widgets w' = widgets w"
    using construct_z [OF assms(2)] by auto
  have "stacked w'" using assms(1) z by (auto simp: stacked_def)
  moreover have "stacked (w'\<lparr>widgets := widgets w' @ [x]\<rparr>)"
    using assms(1) z by (fastforce simp: stacked_def sorted_wrt_append)
  ultimately show ?thesis by (simp add: w_open_def stacked_set_on)
qed

lemma stacked_step: "stacked w \<Longrightarrow> stacked (win_step inh e w)"
proof (cases e)
  case (EClick button kill ret n)
  then show "stacked w \<Longrightarrow> ?thesis"
    by (auto simp: handleEvent_def default_callBack_def stacked_destroy split: option.split)
next
  case (ETimer i)
  then show "stacked w \<Longrightarrow> ?thesis" by (auto simp: tip_fire_def stacked_destroy split: option.split)
qed (auto simp: win_alert_def win_confirm_def win_loading_def win_tip_def win_open_def w_close_def Let_def
    intro: stacked_open stacked_set_on split: prod.split)

text \<open>
  C22: whatever boxes are opened, clicked, closed or timed out in whatever order, the boxes on the
  page are stacked in the order of their opening, each with its mask above the whole of the
  previous one.
\<close>

theorem boxes_stacked:
  "sorted_wrt (\<lambda>x y. w_z x + 50 < w_z y) (widgets (win_run inh evs))"
proof -
  have "stacked (fold (win_step inh) evs w)" if "stacked w" for w
    using that by (induction evs arbitrary: w) (simp_all add: stacked_step)
  from this [of win0] have "stacked (win_run inh evs)" by (simp add: win_run_def win0_def stacked_def)
  then show ?thesis unfolding stacked_def by (elim conjE) (erule sorted_wrt_mono_rel [rotated], simp)
qed

section \<open>Messages\<close>

lemma brace_replace_name:
  assumes "125 \<notin> set g" "\<forall>u\<in>set g. \<not> line_terminator u"
  shows "brace_replace 0 f (123 # g @ 125 # s) = f g @ brace_replace 0 f s"
proof -
  have "\<forall>u\<in>set (drop 0 g). u \<noteq> 125" using assms(1) by auto
  then have "brace_body 0 (g @ 125 # s) = Some (g, s)"
    by (intro brace_body_first) (use assms(2) in simp_all)
  then show ?thesis by simp
qed

text \<open>
  The message of a box is put into its markup as it is: braces in the message are not taken
  for place holders, since the markup is scanned once. (Markup in the message is not escaped.)
\<close>

theorem alert_message_verbatim:
  "w_body (fst (construct inh WAlert (Some msg) args w)) =
     (js ''<div class=\"widget_mask\" style=\"z-index:'') @ nat_str (zIndex w + 200) @ (js '';\"></div>'') @
     (js ''<div class=\"widget_wrap\" style=\"z-index:'') @ nat_str (zIndex w + 250) @ (js '';\">'') @ tb 7 @
     (js ''<div class=\"widget_header\"></div>'') @ tb 7 @ (js ''<div class=\"widget_body\">'') @ msg @ (js ''</div>'') @ tb 7 @
     (js ''<div class=\"widget_footer\">'') @ tb 8 @ (js ''<ul>'') @ tb 9 @ (js ''<li><button type=\"button\">'' @ [30830, 23450] @ js ''</button></li>'') @
     tb 8 @ (js ''</ul>'') @ tb 7 @ (js ''</div>'') @ tb 6 @ (js ''</div>'')"
proof -
  let ?z = "nat_str (zIndex w + 200)" and ?z2 = "nat_str (zIndex w + 250)"
  let ?f = "\<lambda>n. case obj_get [((js ''str''), msg), ((js ''zIndex''), ?z), ((js ''zIndex2''), ?z2)] n of
      Some v \<Rightarrow> v | None \<Rightarrow> if n \<in> set proto_names then inh n else n"
  have f: "?f (js ''str'') = msg" "?f (js ''zIndex'') = ?z" "?f (js ''zIndex2'') = ?z2"
    by (simp_all add: obj_get_def js_def)
  have names: "125 \<notin> set n \<and> (\<forall>u\<in>set n. \<not> line_terminator u)" if "n \<in> {(js ''str''), (js ''zIndex''), (js ''zIndex2'')}" for n
    using that by (auto simp: js_def line_terminator_def)
  have r: "brace_replace 0 ?f (p @ 123 # n @ 125 # s) = p @ ?f n @ brace_replace 0 ?f s"
    if "123 \<notin> set p" "n \<in> {(js ''str''), (js ''zIndex''), (js ''zIndex2'')}" for p n s
    using brace_replace_plain [OF that(1), of 0 ?f "123 # n @ 125 # s"] brace_replace_name [of n ?f s] names [OF that(2)]
    by simp
  have e: "brace_replace 0 ?f p = p" if "123 \<notin> set p" for p
    using brace_replace_plain [OF that, of 0 ?f "[]"] by simp
  let ?p1 = "(js ''<div class=\"widget_mask\" style=\"z-index:'')"
  let ?p2 = "(js '';\"></div>'') @ (js ''<div class=\"widget_wrap\" style=\"z-index:'')"
  let ?p3 = "(js '';\">'') @ tb 7 @ (js ''<div class=\"widget_header\"></div>'') @ tb 7 @ (js ''<div class=\"widget_body\">'')"
  let ?p4 = "(js ''</div>'') @ tb 7 @ (js ''<div class=\"widget_footer\">'') @ tb 8 @ (js ''<ul>'') @ tb 9 @
     (js ''<li><button type=\"button\">'' @ [30830, 23450] @ js ''</button></li>'') @ tb 8 @ (js ''</ul>'') @ tb 7 @ (js ''</div>'') @ tb 6 @ (js ''</div>'')"
  have t: "TPL_MASK @ TPL WAlert =
      ?p1 @ 123 # (js ''zIndex'') @ 125 # ?p2 @ 123 # (js ''zIndex2'') @ 125 # ?p3 @ 123 # (js ''str'') @ 125 # ?p4"
    by (simp add: TPL_MASK_def TPL_def wrap_head_def js_def)
  have p: "123 \<notin> set ?p1" "123 \<notin> set ?p2" "123 \<notin> set ?p3" "123 \<notin> set ?p4"
    by (simp_all add: js_def tb_def)
  have "w_body (fst (construct inh WAlert (Some msg) args w)) = brace_replace 0 ?f (TPL_MASK @ TPL WAlert)"
    by (simp add: construct_def getZindex_def sTpl_def undefined_text_def Let_def add.commute)
  also have "\<dots> = ?p1 @ ?z @ ?p2 @ ?z2 @ ?p3 @ msg @ ?p4"
    unfolding t by (simp only: r [OF p(1)] r [OF p(2)] r [OF p(3)] e [OF p(4)] insertI1 insertI2 f)
  finally show ?thesis by (simp only: append_assoc)
qed

end
