(* ===== verification/ChatFloat.thy ===== *)
theory ChatFloat
  imports Js_Uri Js_Dom
begin

text \<open>
  The customer-service bubble of the golden-egg page (\<open>template/hd0921/js/ChatFloat.js\<close>): its
  cookies (\<open>escape\<close> and \<open>unescape\<close> of the language included), the decision whether it may be
  shown, its placing, and the requests it sends. What \<open>eval\<close> makes of the text of a cookie is an argument
  (\<open>eval_right\<close>, \<open>eval_user\<close>): an exception, no object, or an object. So is what the pattern of \<open>getCookie\<close>
  matches when the name has characters that mean something in a pattern (\<open>rx\<close>).
\<close>

section \<open>Escaped cookies\<close>

definition esc_plain :: "nat \<Rightarrow> bool" where
  "esc_plain u \<longleftrightarrow>
     is_digit u \<or> 65 \<le> u \<and> u \<le> 90 \<or> 97 \<le> u \<and> u \<le> 122 \<or> u \<in> {64, 42, 95, 43, 45, 46, 47}"

definition escape_u :: "nat \<Rightarrow> jstr" where
  "escape_u u =
     (if esc_plain u then [u]
      else if u < 256 then pct u
      else [37, 117, hex_digit (u div 4096), hex_digit (u div 256 mod 16), hex_digit (u div 16 mod 16),
            hex_digit (u mod 16)])"

definition js_escape :: "jstr \<Rightarrow> jstr" where
  "js_escape s = concat (map escape_u s)"

text \<open>A percent sign that starts no escape stands for itself.\<close>

definition hex_run :: "jstr \<Rightarrow> nat option" where
  "hex_run ds =
     fold (\<lambda>u acc. case (acc, hex_value u) of (Some a, Some x) \<Rightarrow> Some (16 * a + x) | _ \<Rightarrow> None) ds (Some 0)"

fun js_unescape :: "jstr \<Rightarrow> jstr" where
  "js_unescape (p # u # a # b # c # d # r) =
     (if p = 37 \<and> u = 117 \<and> hex_run [a, b, c, d] \<noteq> None then the (hex_run [a, b, c, d]) # js_unescape r
      else if p = 37 \<and> hex_run [u, a] \<noteq> None then the (hex_run [u, a]) # js_unescape (b # c # d # r)
      else p # js_unescape (u # a # b # c # d # r))"
| "js_unescape (p # u # a # r) =
     (if p = 37 \<and> hex_run [u, a] \<noteq> None then the (hex_run [u, a]) # js_unescape r
      else p # js_unescape (u # a # r))"
| "js_unescape (p # r) = p # js_unescape r"
| "js_unescape [] = []"

text \<open>
  The name is put into the pattern \<open>(^| )name=([^;]*)(;|$)\<close> as it is. A name without characters that mean
  something there is looked for as it stands: the first place at the start of the text, or after a blank,
  where the name and an equals sign stand; the last group then always matches.
\<close>

definition plain_name :: "jstr \<Rightarrow> bool" where
  "plain_name name \<longleftrightarrow> set name \<inter> {36, 40, 41, 42, 43, 46, 63, 91, 92, 93, 94, 123, 124, 125} = {}"

definition cookie_here :: "jstr \<Rightarrow> jstr \<Rightarrow> jstr option" where
  "cookie_here name s =
     (if prefix (name @ (js ''='')) s then Some (takeWhile (\<lambda>u. u \<noteq> 59) (drop (length name + 1) s)) else None)"

fun cookie_after_blank :: "jstr \<Rightarrow> jstr \<Rightarrow> jstr option" where
  "cookie_after_blank name [] = None"
| "cookie_after_blank name (u # s) =
     (if u = 32 then (case cookie_here name s of Some v \<Rightarrow> Some v | None \<Rightarrow> cookie_after_blank name s)
      else cookie_after_blank name s)"

definition cookie_find :: "jstr \<Rightarrow> jstr \<Rightarrow> jstr option" where
  "cookie_find name doc = (case cookie_here name doc of Some v \<Rightarrow> Some v | None \<Rightarrow> cookie_after_blank name doc)"

text \<open>
  \<open>getCookie\<close>: no value is the exception of a pattern that can not be compiled; otherwise \<open>null\<close>, or the
  text. For names that are not plain \<open>rx\<close> is the exception, the missing match or the text of \<open>arr[2]\<close>.
\<close>

definition chat_getCookie :: "(jstr \<Rightarrow> jstr \<Rightarrow> jstr option option) \<Rightarrow> jstr \<Rightarrow> jstr \<Rightarrow> jstr option option" where
  "chat_getCookie rx doc name =
     map_option (map_option js_unescape) (if plain_name name then Some (cookie_find name doc) else rx name doc)"

text \<open>\<open>setCookie\<close>: what the text of all cookies shows for it afterwards, and its expiry.\<close>

definition chat_setCookie :: "int \<Rightarrow> jstr \<Rightarrow> jstr \<Rightarrow> int \<Rightarrow> jstr \<times> int" where
  "chat_setCookie now name v ms = (name @ (js ''='') @ js_escape v, now + ms)"

section \<open>The bubble\<close>

record chat_options =
  o_AId :: jstr
  o_openid :: jstr
  o_left :: "int option"
  o_right :: "int option"
  o_top :: "int option"
  o_bottom :: "int option"
  o_height :: int
  o_width :: int
  o_draggable :: "bool option"
  o_IsTest :: bool

record bubble =
  b_href :: jstr
  b_left :: "int option"
  b_right :: "int option"
  b_top :: "int option"
  b_bottom :: "int option"
  b_height :: int
  b_width :: int
  b_mark :: bool
  b_draggable :: bool

datatype chat_action =
    Bubble bubble
  | LoadSocket jstr
  | AskRight jstr
  | LogSource jstr
  | StoreRight jstr jstr
  | StoreUser jstr jstr

text \<open>Hosts: \<open>SocketIp\<close> and \<open>ajaxAddress\<close>, switched for test accounts.\<close>

definition SocketIp :: "bool \<Rightarrow> jstr" where
  "SocketIp test = (if test then (js ''121.43.196.115'') else (js ''120.55.104.98''))"

definition ajaxAddress :: "bool \<Rightarrow> jstr" where
  "ajaxAddress test = (if test then (js ''http://112.124.16.233/'') else (js ''http://kf.weimob.com/''))"

definition default_int :: "int option \<Rightarrow> int \<Rightarrow> int" where
  "default_int v d = (case v of None \<Rightarrow> d | Some n \<Rightarrow> n)"

definition at_least_0 :: "int \<Rightarrow> int option" where
  "at_least_0 n = (if n \<ge> 0 then Some n else None)"

text \<open>\<open>initialize\<close>: the element, and the script of the socket when the account has one.\<close>

definition initialize :: "chat_options \<Rightarrow> jstr \<Rightarrow> int \<Rightarrow> int \<Rightarrow> chat_action list" where
  "initialize op weimobid msgcount socket =
     (let left = default_int (o_left op) (-1); top = default_int (o_top op) (-1);
          width = (if o_width op \<noteq> 0 then o_width op else 65)
      in Bubble
           \<lparr>b_href = ajaxAddress (o_IsTest op) @ (js ''MobileTalking.aspx?aid='') @ o_AId op @ (js ''&openid='') @ o_openid op @
              (js ''&weimobid='') @ weimobid,
            b_left = at_least_0 left,
            b_right = (if left \<ge> 0 then None else at_least_0 (default_int (o_right op) 0)),
            b_top = at_least_0 top,
            b_bottom = (if top \<ge> 0 then None else at_least_0 (default_int (o_bottom op) 0)),
            b_height = (if o_height op \<noteq> 0 then o_height op else 70), b_width = width,
            b_mark = (msgcount > 0),
            b_draggable = (case o_draggable op of None \<Rightarrow> True | Some b \<Rightarrow> b)\<rparr>
         # (if socket = 1
            then [LoadSocket ((js ''http://'') @ SocketIp (o_IsTest op) @ (js '':8889/socket.io/socket.io.js''))] else []))"

text \<open>\<open>touches\<close>: the element follows the finger (\<open>a - -b\<close> adds the scroll offset).\<close>

definition touch_move :: "int \<Rightarrow> int \<Rightarrow> int \<Rightarrow> int \<Rightarrow> int \<times> int" where
  "touch_move pageX pageY scrollLeft scrollTop = (pageX - (- scrollLeft) - 30, pageY - scrollTop - 30)"

section \<open>May it be shown\<close>

record right_store =
  s_show :: bool
  s_aid :: jstr
  s_weimobid :: jstr
  s_socket :: int

record user_store =
  u_aid :: jstr
  u_weimobid :: jstr
  u_nickname :: jstr
  u_markname :: jstr
  u_headurl :: jstr

definition location_source :: "chat_options \<Rightarrow> jstr \<Rightarrow> jstr \<Rightarrow> jstr \<Rightarrow> jstr \<Rightarrow> jstr \<Rightarrow> chat_action" where
  "location_source op aid weimobid nickname markname headurl =
     LogSource (ajaxAddress (o_IsTest op) @ (js ''Ajax/CustomerChatAjax.aspx?action=LocationSource&'') @
       (js ''AId='') @ aid @ (js ''&openid='') @ o_openid op @ (js ''&weimobid='') @ weimobid @ (js ''&nickname='') @ nickname @
       (js ''&markname='') @ markname @ (js ''&headurl='') @ headurl)"

definition AjaxRight :: "chat_options \<Rightarrow> user_store option \<Rightarrow> chat_action list" where
  "AjaxRight op user =
     [AskRight (ajaxAddress (o_IsTest op) @ (js ''Ajax/CustomerChatAjax.aspx?action=userright&AId='') @ o_AId op @
        (js ''&openid='') @ o_openid op @ (js ''&weimobid='') @
        (case user of None \<Rightarrow> [] | Some u \<Rightarrow> u_weimobid u))]"

text \<open>
  \<open>eval('(' + text + ')')\<close> on the text of a cookie: without a cookie it reads the text \<open>(null)\<close>, and the
  text \<open>()\<close> of an empty one raises an exception.
\<close>

definition eval_cookie :: "(jstr \<Rightarrow> 'a option option) \<Rightarrow> jstr option \<Rightarrow> 'a option option" where
  "eval_cookie ev c = (case c of None \<Rightarrow> Some None | Some t \<Rightarrow> if t = [] then None else ev t)"

text \<open>
  The constructor, on the address of the page and the text of its cookies. No value is an exception, which
  ends it before it has done anything.
\<close>

definition chatFloat ::
  "(jstr \<Rightarrow> jstr \<Rightarrow> jstr option option) \<Rightarrow> (jstr \<Rightarrow> right_store option option) \<Rightarrow>
   (jstr \<Rightarrow> user_store option option) \<Rightarrow> jstr \<Rightarrow> jstr \<Rightarrow> chat_options \<Rightarrow> chat_action list option" where
  "chatFloat rx eval_right eval_user href doc op =
     (if o_AId op = [] then Some []
      else if indexOf href (js ''APP=true'') > 0 then Some []
      else
        (case chat_getCookie rx doc ((js ''_3GUserInfo_'') @ o_AId op) of
           None \<Rightarrow> None
         | Some cooktext \<Rightarrow>
             (case eval_cookie eval_user cooktext of
                None \<Rightarrow> None
              | Some user \<Rightarrow>
                  (case chat_getCookie rx doc ((js ''_useright_'') @ o_AId op) of
                     None \<Rightarrow> None
                   | Some None \<Rightarrow> Some (AjaxRight op user)
                   | Some (Some t) \<Rightarrow>
                       if t = [] then Some (AjaxRight op user)
                       else
                         (case eval_right t of
                            None \<Rightarrow> None
                          | Some None \<Rightarrow> Some (AjaxRight op user)
                          | Some (Some r) \<Rightarrow>
                              if s_aid r = o_AId op then
                                Some (if s_show r \<and> s_weimobid r \<noteq> [] then
                                   initialize op (s_weimobid r) 0 (s_socket r) @
                                   (case user of None \<Rightarrow> []
                                    | Some u \<Rightarrow> [location_source op (u_aid u) (u_weimobid u) (u_nickname u) (u_markname u) (u_headurl u)])
                                 else [])
                              else Some (AjaxRight op user))))))"

record right_answer =
  n_succ :: bool
  n_weimobid :: jstr
  n_msgcount :: int
  n_socket :: int
  n_headurl :: jstr
  n_markname :: jstr
  n_nickname :: jstr

definition bool_text :: "bool \<Rightarrow> jstr" where
  "bool_text b = (if b then (js ''true'') else (js ''false''))"

definition right_json :: "chat_options \<Rightarrow> right_answer \<Rightarrow> jstr" where
  "right_json op a =
     (js ''{\"show\":'') @ bool_text (n_succ a) @ (js '',\"aid\":'') @ o_AId op @ (js '',\"weimobid\":\"'') @ n_weimobid a @
     (js ''\",\"socket\":'') @ int_str (n_socket a) @ (js '',\"openid\":\"'') @ o_openid op @ (js ''\"}'')"

definition user_json :: "chat_options \<Rightarrow> right_answer \<Rightarrow> jstr" where
  "user_json op a =
     (js ''{\"aid\":'') @ o_AId op @ (js '',\"weimobid\":\"'') @ n_weimobid a @ (js ''\",\"openid\":\"'') @ o_openid op @ (js ''\",\"headurl\":\"'') @
     n_headurl a @ (js ''\",\"markname\":\"'') @ n_markname a @ (js ''\",\"nickname\":\"'') @ n_nickname a @ (js ''\"}'')"

text \<open>The answer to \<open>AjaxRight\<close>; a body that is empty, or that \<open>eval\<close> can not read, does nothing.\<close>

definition right_arrived :: "chat_options \<Rightarrow> right_answer option \<Rightarrow> chat_action list" where
  "right_arrived op ans =
     (case ans of
        None \<Rightarrow> []
      | Some a \<Rightarrow>
          StoreRight ((js ''_useright_'') @ o_AId op) (right_json op a) #
          (if n_succ a \<and> n_weimobid a \<noteq> [] then
             initialize op (n_weimobid a) (n_msgcount a) (n_socket a) @
             [StoreUser ((js ''_3GUserInfo_'') @ o_AId op) (user_json op a),
              location_source op (o_AId op) (n_weimobid a) (n_nickname a) (n_markname a) (n_headurl a)]
           else []))"

section \<open>Messages\<close>

text \<open>
  \<open>PollingSuccess\<close> marks the bubble; \<open>SocketMessage\<close> calls it on the tools object. In \<open>GetPolling\<close>
  the callback runs without a receiver, so \<open>this.PollingSuccess\<close> is no function, and
  \<open>StartPolling\<close> names a global \<open>GetPolling\<close> that is declared nowhere.
\<close>

datatype chat_result = Done "chat_action list" bool | ChatError

definition parse_positive :: "jstr \<Rightarrow> bool" where
  "parse_positive s =
     (let t = dropWhile (\<lambda>u. u = 32 \<or> u = 9 \<or> u = 10 \<or> u = 13) s;
          t = (if t \<noteq> [] \<and> hd t = 43 then tl t else t)
      in digits_val (takeWhile is_digit t) > 0)"

definition PollingSuccess :: "jstr \<Rightarrow> bool \<Rightarrow> bool" where
  "PollingSuccess count mark = (parse_positive count \<or> mark)"

text \<open>A request object: status 200 runs the success callback, any other status the failure callback.\<close>

definition ajax_done :: "nat \<Rightarrow> jstr \<Rightarrow> (jstr \<Rightarrow> 'a) \<Rightarrow> (nat \<Rightarrow> 'a) \<Rightarrow> 'a" where
  "ajax_done status body ok fail = (if status = 200 then ok body else fail status)"

definition SocketMessage :: "nat \<Rightarrow> jstr \<Rightarrow> bool \<Rightarrow> chat_result" where
  "SocketMessage status body mark =
     ajax_done status body
       (\<lambda>t. Done [] (if t \<noteq> [] then PollingSuccess t mark else mark)) (\<lambda>s. Done [] mark)"

definition GetPolling :: "nat \<Rightarrow> jstr \<Rightarrow> bool \<Rightarrow> chat_result" where
  "GetPolling status body mark =
     ajax_done status body (\<lambda>t. if t \<noteq> [] then ChatError else Done [] mark) (\<lambda>s. Done [] mark)"

definition StartPolling :: chat_result where
  "StartPolling = ChatError"

text \<open>\<open>dataChange\<close> from the socket: one new message asks for the count.\<close>

definition dataChange :: "int option \<Rightarrow> bool" where
  "dataChange msgCount = (msgCount = Some 1)"

text \<open>
  \<open>socketconnect\<close>: a connection ends the polling and asks for the count of the user; \<open>onreadystatechange\<close>
  answers in the last state only.
\<close>

record chat_socket =
  cs_interval :: "nat option"
  cs_getType :: nat
  cs_query :: "(jstr \<times> jstr) list"

definition socket_connected :: "jstr \<Rightarrow> jstr \<Rightarrow> chat_socket \<Rightarrow> chat_socket" where
  "socket_connected AId weimobid s =
     s\<lparr>cs_interval := None, cs_getType := 1, cs_query := cs_query s @ [(AId, weimobid)]\<rparr>"

definition readystatechange :: "nat \<Rightarrow> nat \<Rightarrow> jstr \<Rightarrow> (jstr \<Rightarrow> 'a) \<Rightarrow> (nat \<Rightarrow> 'a) \<Rightarrow> 'a option" where
  "readystatechange readyState status body ok fail = (if readyState = 4 then Some (ajax_done status body ok fail) else None)"

section \<open>Cookies survive\<close>

lemma hex_run_pair: "x < 16 \<Longrightarrow> y < 16 \<Longrightarrow> hex_run [hex_digit x, hex_digit y] = Some (16 * x + y)"
  by (simp add: hex_run_def hex_value_digit)

lemma hex_run_quad:
  "x < 16 \<Longrightarrow> y < 16 \<Longrightarrow> z < 16 \<Longrightarrow> t < 16 \<Longrightarrow>
   hex_run [hex_digit x, hex_digit y, hex_digit z, hex_digit t] = Some (((x * 16 + y) * 16 + z) * 16 + t)"
  by (simp add: hex_run_def hex_value_digit)

lemma unescape_plain: "u \<noteq> 37 \<Longrightarrow> js_unescape (u # s) = u # js_unescape s"
  by (cases "u # s" rule: js_unescape.cases) auto

lemma unescape_pct:
  assumes "u < 256"
  shows "js_unescape (pct u @ s) = u # js_unescape s"
proof -
  have d: "u div 16 < 16" using assms by simp
  have r: "hex_run [hex_digit (u div 16), hex_digit (u mod 16)] = Some u"
    using hex_run_pair [OF d, of "u mod 16"] by simp
  have n: "hex_digit (u div 16) \<noteq> 117" using d by (auto simp: hex_digit_def)
  show ?thesis
  proof (cases s)
    case Nil
    then show ?thesis using r by (simp add: pct_def)
  next
    case (Cons b s1)
    show ?thesis
    proof (cases s1)
      case Nil
      then show ?thesis using r Cons by (simp add: pct_def)
    next
      case c2: (Cons c s2)
      then show ?thesis using r n Cons by (cases s2) (simp_all add: pct_def)
    qed
  qed
qed

lemma unescape_wide:
  assumes "u < 65536"
  shows "js_unescape ([37, 117, hex_digit (u div 4096), hex_digit (u div 256 mod 16), hex_digit (u div 16 mod 16),
    hex_digit (u mod 16)] @ s) = u # js_unescape s"
proof -
  have d: "u div 4096 < 16" using assms by simp
  have a: "u div 256 = u div 16 div 16" "u div 4096 = u div 16 div 16 div 16"
    by (simp_all add: div_mult2_eq [symmetric])
  have "((u div 4096 * 16 + u div 256 mod 16) * 16 + u div 16 mod 16) * 16 + u mod 16 = u"
    unfolding a by simp
  then have "hex_run [hex_digit (u div 4096), hex_digit (u div 256 mod 16), hex_digit (u div 16 mod 16),
      hex_digit (u mod 16)] = Some u"
    using hex_run_quad [OF d, of "u div 256 mod 16" "u div 16 mod 16" "u mod 16"] by simp
  then show ?thesis by simp
qed

lemma unescape_escape_u: "u < 65536 \<Longrightarrow> js_unescape (escape_u u @ s) = u # js_unescape s"
  using unescape_wide [of u s] unescape_pct [of u s]
  by (auto simp: escape_u_def esc_plain_def is_digit_def intro!: unescape_plain)

lemma unescape_escape: "wf_jstr v \<Longrightarrow> js_unescape (js_escape v) = v"
  by (induction v) (simp_all add: js_escape_def wf_jstr_def unescape_escape_u)

lemma escape_no_semicolon: "wf_jstr v \<Longrightarrow> 59 \<notin> set (js_escape v) \<and> 32 \<notin> set (js_escape v)"
proof (induction v)
  case (Cons u v)
  have "59 \<notin> set (escape_u u) \<and> 32 \<notin> set (escape_u u)"
    by (auto simp: escape_u_def esc_plain_def pct_def hex_digit_def is_digit_def)
  with Cons show ?case by (simp add: js_escape_def wf_jstr_def)
qed (simp add: js_escape_def)

text \<open>
  The text of all cookies: pieces separated by a semicolon and a blank. A piece is another cookie for the
  search when it neither starts with the name and an equals sign nor holds them after a blank.
\<close>

definition jar_text :: "jstr list \<Rightarrow> jstr" where
  "jar_text ps = join_with (js ''; '') ps"

definition other_cookie :: "jstr \<Rightarrow> jstr \<Rightarrow> bool" where
  "other_cookie name p \<longleftrightarrow> 59 \<notin> set p \<and> \<not> prefix (name @ (js ''='')) p \<and> \<not> sublist (js '' '' @ name @ (js ''='')) p"

text \<open>Names a browser takes as they are: no blank, no control character, no semicolon, no equals sign.\<close>

definition cookie_name :: "jstr \<Rightarrow> bool" where
  "cookie_name name \<longleftrightarrow> name \<noteq> [] \<and> (\<forall>u\<in>set name. 32 < u \<and> u \<noteq> 59 \<and> u \<noteq> 61 \<and> u \<noteq> 127)"

lemma js_units: "js ''='' = [61]" "js '' '' = [32]" "js ''; '' = [59, 32]"
  by (simp_all add: js_def)

lemma jar_text_Cons: "jar_text (p # ps) = p @ (if ps = [] then [] else 59 # 32 # jar_text ps)"
  by (cases ps) (simp_all add: jar_text_def js_units)

lemma prefix_stops:
  assumes "59 \<notin> set n" "r = [] \<or> hd r = 59" "prefix n (p @ r)"
  shows "prefix n p"
proof -
  consider "prefix n p" | z where "n = p @ z" "prefix z r" using assms(3) by (auto simp: prefix_append)
  then show ?thesis
  proof cases
    case 2
    have "z = []"
    proof (cases z)
      case (Cons u z')
      then have "hd r = u" "r \<noteq> []" using 2(2) by (auto simp: prefix_def)
      then show ?thesis using assms(1,2) 2(1) Cons by simp
    qed simp
    then show ?thesis using 2 by simp
  qed
qed

lemma here_stops:
  assumes "59 \<notin> set name" "r = [] \<or> hd r = 59" "\<not> prefix (name @ [61]) p"
  shows "cookie_here name (p @ r) = None"
proof -
  have "59 \<notin> set (name @ [61])" using assms(1) by simp
  then have "\<not> prefix (name @ [61]) (p @ r)" using prefix_stops [OF _ assms(2)] assms(3) by blast
  then show ?thesis by (simp add: cookie_here_def js_units)
qed

lemma blank_stops:
  "59 \<notin> set name \<Longrightarrow> r = [] \<or> hd r = 59 \<Longrightarrow> \<not> sublist (32 # name @ [61]) p \<Longrightarrow>
    cookie_after_blank name (p @ r) = cookie_after_blank name r"
proof (induction p)
  case (Cons u p)
  have "\<not> sublist (32 # name @ [61]) p" "u = 32 \<longrightarrow> \<not> prefix (name @ [61]) p"
    using Cons.prems(3) by (auto simp: sublist_Cons_right)
  then show ?case using Cons here_stops [OF Cons.prems(1,2)] by simp
qed simp

lemma find_skips:
  assumes "59 \<notin> set name" "other_cookie name p"
  shows "cookie_find name p = None" "cookie_find name (p @ 59 # 32 # s) = cookie_find name s"
proof -
  have o: "\<not> prefix (name @ [61]) p" "\<not> sublist (32 # name @ [61]) p" using assms(2) by (simp_all add: other_cookie_def js_units)
  show "cookie_find name p = None"
    using here_stops [OF assms(1) _ o(1), of "[]"] blank_stops [OF assms(1) _ o(2), of "[]"] by (simp add: cookie_find_def)
  show "cookie_find name (p @ 59 # 32 # s) = cookie_find name s"
    using here_stops [OF assms(1) _ o(1), of "59 # 32 # s"] blank_stops [OF assms(1) _ o(2), of "59 # 32 # s"]
    by (simp add: cookie_find_def)
qed

lemma find_own:
  assumes "59 \<notin> set v" "r = [] \<or> hd r = 59"
  shows "cookie_find name (name @ 61 # v @ r) = Some v"
proof -
  have "takeWhile (\<lambda>u. u \<noteq> 59) (v @ r) = v" using assms by (induction v) (cases r; simp)+
  then show ?thesis by (simp add: cookie_find_def cookie_here_def js_units)
qed

lemma find_in_jar:
  assumes "59 \<notin> set name" "\<forall>p\<in>set ps. other_cookie name p" "59 \<notin> set v"
  shows "cookie_find name (jar_text (ps @ (name @ 61 # v) # qs)) = Some v"
  using assms(2)
proof (induction ps)
  case Nil
  then show ?case using find_own [OF assms(3), of "if qs = [] then [] else 59 # 32 # jar_text qs" name] by (simp add: jar_text_Cons)
qed (simp add: jar_text_Cons find_skips(2) [OF assms(1)])

lemma find_nowhere: "59 \<notin> set name \<Longrightarrow> \<forall>p\<in>set ps. other_cookie name p \<Longrightarrow> cookie_find name (jar_text ps) = None"
proof (induction ps)
  case Nil
  then show ?case by (simp add: jar_text_def cookie_find_def cookie_here_def js_units)
qed (auto simp: jar_text_Cons find_skips)

lemma cookie_in_jar:
  assumes "plain_name name" "cookie_name name" "\<forall>p\<in>set ps. other_cookie name p" "wf_jstr v"
  shows "chat_getCookie rx (jar_text (ps @ fst (chat_setCookie now name v ms) # qs)) name = Some (Some v)"
proof -
  have n: "59 \<notin> set name" using assms(2) by (auto simp: cookie_name_def)
  have "fst (chat_setCookie now name v ms) = name @ 61 # js_escape v" by (simp add: chat_setCookie_def js_units)
  then show ?thesis
    using find_in_jar [OF n assms(3), of "js_escape v" qs] escape_no_semicolon [OF assms(4)] unescape_escape [OF assms(4)] assms(1)
    by (simp add: chat_getCookie_def)
qed

text \<open>
  C20: a value written by \<open>setCookie\<close>, whatever units it holds, is read back by \<open>getCookie\<close>, and a name that
  was never written reads as \<open>null\<close>: for a name without characters that mean something in a pattern, and
  among all other cookies before it that do not hold the name and an equals sign after a blank; what comes
  after it does not matter.
\<close>

theorem chat_cookie_round_trip:
  assumes "plain_name name" "cookie_name name" "\<forall>p\<in>set ps. other_cookie name p" "wf_jstr v"
  shows "chat_getCookie rx (jar_text (ps @ fst (chat_setCookie now name v ms) # qs)) name = Some (Some v) \<and>
    chat_getCookie rx (jar_text ps) name = Some None"
proof -
  have "59 \<notin> set name" using assms(2) by (auto simp: cookie_name_def)
  then show ?thesis
    using cookie_in_jar [OF assms] find_nowhere [OF _ assms(3)] assms(1) by (simp add: chat_getCookie_def)
qed

theorem chat_cookie_round_trip_witness:
  "chat_getCookie (\<lambda>_ _. None) (jar_text [(js ''a=1 2''), fst (chat_setCookie 0 (js ''_useright_7'') (js ''{\"x\":\"'' @ [233] @ js '';'' @ [20320] @ js ''\"}'') 60)]) (js ''_useright_7'')
    = Some (Some (js ''{\"x\":\"'' @ [233] @ js '';'' @ [20320] @ js ''\"}''))"
proof -
  have h: "plain_name (js ''_useright_7'')" "cookie_name (js ''_useright_7'')"
    "\<forall>p\<in>set [(js ''a=1 2'')]. other_cookie (js ''_useright_7'') p" "wf_jstr (js ''{\"x\":\"'' @ [233] @ js '';'' @ [20320] @ js ''\"}'')"
    by (simp_all add: plain_name_def cookie_name_def other_cookie_def js_def wf_jstr_def sublist_Cons_right)
  show ?thesis using chat_cookie_round_trip [OF h, of "\<lambda>_ _. None" 0 60 "[]"] by simp
qed

text \<open>A value that holds the name after a blank hides the cookie that comes later.\<close>

lemma cookie_hidden:
  "chat_getCookie rx (jar_text [js ''x=1 a=2'', js ''a=3'']) (js ''a'') = Some (Some (js ''2''))"
  by (simp add: chat_getCookie_def plain_name_def jar_text_def cookie_find_def cookie_here_def js_def)

lemma find_blankless: "32 \<notin> set p \<Longrightarrow> \<not> prefix (name @ [61]) p \<Longrightarrow> cookie_find name p = None"
proof -
  have "32 \<notin> set p \<Longrightarrow> cookie_after_blank name p = None" by (induction p) auto
  then show "32 \<notin> set p \<Longrightarrow> \<not> prefix (name @ [61]) p \<Longrightarrow> cookie_find name p = None"
    by (simp add: cookie_find_def cookie_here_def js_units)
qed

section \<open>Who sees the bubble\<close>

definition shows_bubble :: "chat_action list \<Rightarrow> bool" where
  "shows_bubble as \<longleftrightarrow> (\<exists>b. Bubble b \<in> set as)"

lemma initialize_bubble: "shows_bubble (initialize op w m s)"
  by (auto simp: initialize_def Let_def shows_bubble_def)

lemma no_bubble [simp]:
  "\<not> shows_bubble []" "\<not> shows_bubble (AjaxRight op u)"
  "shows_bubble (as @ bs) = (shows_bubble as \<or> shows_bubble bs)"
  "\<not> shows_bubble [location_source op a b c d e]"
  by (auto simp: shows_bubble_def AjaxRight_def location_source_def)

definition horizontal :: "chat_action list \<Rightarrow> int option \<times> int option" where
  "horizontal as = (case as of Bubble b # _ \<Rightarrow> (b_left b, b_right b) | _ \<Rightarrow> (None, None))"

lemma initialize_horizontal:
  "horizontal (initialize op w m s) =
    (if default_int (o_left op) (-1) \<ge> 0 then (Some (default_int (o_left op) (-1)), None)
     else (None, at_least_0 (default_int (o_right op) 0)))"
  by (simp add: horizontal_def initialize_def Let_def at_least_0_def)

text \<open>
  C21: the bubble appears only for an account whose right is known: at page load exactly when no exception
  ends the constructor before (the text of the user's cookie can be read) and the stored right is for this
  account, allows it and names a user, and otherwise only with the server's consent; it is placed by its
  left offset when that is given and not negative, else by its right offset, 0 when none is given, and by
  neither when that one is negative.
\<close>

theorem bubble_needs_right:
  "((\<exists>as. chatFloat rx er eu href doc op = Some as \<and> shows_bubble as) \<longleftrightarrow>
      o_AId op \<noteq> [] \<and> indexOf href (js ''APP=true'') \<le> 0 \<and>
      (\<exists>c u. chat_getCookie rx doc ((js ''_3GUserInfo_'') @ o_AId op) = Some c \<and> eval_cookie eu c = Some u) \<and>
      (\<exists>t r. chat_getCookie rx doc ((js ''_useright_'') @ o_AId op) = Some (Some t) \<and> t \<noteq> [] \<and> er t = Some (Some r) \<and>
         s_aid r = o_AId op \<and> s_show r \<and> s_weimobid r \<noteq> [])) \<and>
   (shows_bubble (right_arrived op ans) \<longleftrightarrow> (\<exists>a. ans = Some a \<and> n_succ a \<and> n_weimobid a \<noteq> [])) \<and>
   horizontal (initialize op w m sk) =
     (if default_int (o_left op) (-1) \<ge> 0 then (Some (default_int (o_left op) (-1)), None)
      else (None, at_least_0 (default_int (o_right op) 0)))"
proof -
  have s: "shows_bubble (StoreRight a b # as) = shows_bubble as" for a b as by (auto simp: shows_bubble_def)
  have u: "\<not> shows_bubble (StoreUser a b # [location_source op c d e f g])" for a b c d e f g
    by (auto simp: shows_bubble_def location_source_def)
  show ?thesis
    by (auto simp: chatFloat_def right_arrived_def Let_def initialize_bubble initialize_horizontal s u split: option.splits)
qed

section \<open>The answer and the next page\<close>

text \<open>
  What the server answered is kept: once its answer has been stored, the next page shows the
  bubble for the same user, or none, and does not ask again, unless the cookie of the user can not be
  read. The text stored is read by \<open>eval\<close>, which is an argument and gives back the four values written.
\<close>

theorem right_remembered:
  assumes "right_arrived op (Some a) = StoreRight name t # acts"
    "er t = Some (Some \<lparr>s_show = n_succ a, s_aid = o_AId op, s_weimobid = n_weimobid a, s_socket = n_socket a\<rparr>)"
    "wf_jstr t" "plain_name name" "cookie_name name" "\<forall>p\<in>set ps. other_cookie name p"
    "o_AId op \<noteq> []" "indexOf href (js ''APP=true'') \<le> 0"
    "doc = jar_text (ps @ fst (chat_setCookie now name t ms) # qs)"
    "chat_getCookie rx doc ((js ''_3GUserInfo_'') @ o_AId op) = Some c" "eval_cookie eu c = Some u"
  shows "\<exists>as. chatFloat rx er eu href doc op = Some as \<and> (\<forall>url. AskRight url \<notin> set as) \<and>
    (if n_succ a \<and> n_weimobid a \<noteq> [] then prefix (initialize op (n_weimobid a) 0 (n_socket a)) as else as = [])"
proof -
  have n: "name = (js ''_useright_'') @ o_AId op" "t = right_json op a"
    using assms(1) by (simp_all add: right_arrived_def)
  have c: "chat_getCookie rx doc ((js ''_useright_'') @ o_AId op) = Some (Some t)"
    using cookie_in_jar [OF assms(4,5,6,3), of rx now ms qs] assms(9) n(1) by simp
  have "t \<noteq> []" by (simp add: n(2) right_json_def js_def)
  then show ?thesis using assms(2,7,8,10,11) c
    by (auto simp: chatFloat_def Let_def location_source_def initialize_def split: option.splits)
qed

text \<open>
  A cookie of the user that can not be read, such as one with a quotation mark in a name, ends the
  constructor: nothing is shown, and the server is not asked either.
\<close>

lemma unreadable_user_stops:
  assumes "o_AId op \<noteq> []" "indexOf href (js ''APP=true'') \<le> 0"
    "chat_getCookie rx doc ((js ''_3GUserInfo_'') @ o_AId op) = Some (Some t)" "t = [] \<or> eu t = None"
  shows "chatFloat rx er eu href doc op = None"
  using assms by (auto simp: chatFloat_def eval_cookie_def)

definition plain_options :: "jstr \<Rightarrow> chat_options" where
  "plain_options aid = \<lparr>o_AId = aid, o_openid = [], o_left = None, o_right = None, o_top = None, o_bottom = None, o_height = 0,
     o_width = 0, o_draggable = None, o_IsTest = False\<rparr>"

definition plain_right :: right_answer where
  "plain_right = \<lparr>n_succ = True, n_weimobid = (js ''w''), n_msgcount = 0, n_socket = 1, n_headurl = [], n_markname = [], n_nickname = []\<rparr>"

theorem right_remembered_witness:
  "\<exists>doc er as. chatFloat (\<lambda>_ _. None) er (\<lambda>_. None) (js ''http://a/'') doc (plain_options (js ''7'')) = Some as \<and>
     prefix (initialize (plain_options (js ''7'')) (js ''w'') 0 1) as"
proof -
  let ?op = "plain_options (js ''7'')" and ?t = "right_json (plain_options (js ''7'')) plain_right"
  let ?rx = "\<lambda>_ _. None" and ?eu = "\<lambda>_. None"
  let ?n = "(js ''_useright_'') @ js ''7''"
  let ?er = "\<lambda>t. Some (Some \<lparr>s_show = n_succ plain_right, s_aid = o_AId ?op, s_weimobid = n_weimobid plain_right, s_socket = n_socket plain_right\<rparr>)"
  let ?doc = "jar_text ([] @ fst (chat_setCookie 0 ?n ?t 1800000) # [])"
  have o: "o_AId ?op = js ''7''" by (simp add: plain_options_def)
  obtain acts where r: "right_arrived ?op (Some plain_right) = StoreRight ?n ?t # acts"
    by (simp add: right_arrived_def o)
  have w: "wf_jstr ?t" "indexOf (js ''http://a/'') (js ''APP=true'') \<le> 0"
    by (simp add: right_json_def wf_jstr_def js_def plain_right_def plain_options_def bool_text_def int_str_def nat_str.simps, code_simp)
  have n: "plain_name ?n" "cookie_name ?n" "o_AId ?op \<noteq> []"
    unfolding o by (simp_all add: plain_name_def cookie_name_def js_def)
  have p: "plain_name ((js ''_3GUserInfo_'') @ js ''7'')" by (simp add: plain_name_def js_def)
  have "\<not> prefix ((js ''_3GUserInfo_'') @ js ''7='') (?n @ 61 # z)" for z by (simp add: js_def)
  moreover have "32 \<notin> set (fst (chat_setCookie 0 ?n ?t 1800000))"
    using escape_no_semicolon [OF w(1)] by (simp add: chat_setCookie_def js_def)
  ultimately have u: "chat_getCookie ?rx ?doc ((js ''_3GUserInfo_'') @ o_AId ?op) = Some None"
    using p find_blankless [of "fst (chat_setCookie 0 ?n ?t 1800000)" "(js ''_3GUserInfo_'') @ js ''7''"]
    by (simp add: chat_getCookie_def o jar_text_def) (simp add: chat_setCookie_def js_def)
  have v: "n_succ plain_right" "n_weimobid plain_right = js ''w''" "js ''w'' \<noteq> []" "n_socket plain_right = 1"
    by (simp_all add: plain_right_def js_def)
  have e: "eval_cookie ?eu None = Some None" by (simp add: eval_cookie_def)
  obtain as where "chatFloat ?rx ?er ?eu (js ''http://a/'') ?doc ?op = Some as"
    "prefix (initialize ?op (n_weimobid plain_right) 0 (n_socket plain_right)) as"
    using right_remembered [OF r refl w(1) n(1,2) _ n(3) w(2) refl u e] v(1-3) by auto
  then show ?thesis unfolding v(2,4) by blast
qed

text \<open>
  The names of the user are put into the stored text without escaping, so that different names
  give the same text: no way of reading it gives them back, and \<open>eval\<close> reads as program what
  follows a quotation mark in a name.
\<close>

theorem names_not_recoverable:
  "\<not> (\<exists>f. \<forall>a. f (user_json op a) = (n_markname a, n_nickname a))"
proof
  assume "\<exists>f. \<forall>a. f (user_json op a) = (n_markname a, n_nickname a)"
  then obtain f where f: "\<And>a. f (user_json op a) = (n_markname a, n_nickname a)" by blast
  let ?a = "\<lambda>m n. \<lparr>n_succ = True, n_weimobid = [], n_msgcount = 0, n_socket = 0, n_headurl = [], n_markname = m, n_nickname = n\<rparr>"
  have "user_json op (?a [] (js ''\",\"nickname\":\"'')) = user_json op (?a (js ''\",\"nickname\":\"'') [])"
    by (simp add: user_json_def)
  then show False using f [of "?a [] (js ''\",\"nickname\":\"'')"] f [of "?a (js ''\",\"nickname\":\"'') []"] by (simp add: js_def)
qed

end
