(* ===== verification/Weixin.thy ===== *)
theory Weixin
  imports Js_Uri Js_Dom
begin

text \<open>
  The WeChat administration pages: composing and sending a message to a group of followers
  (\<open>content/message/js/groupMessageSend.js\<close>), the picture and file fields of a news item
  (\<open>content/weixin/js/newsItem-add.js\<close>), and the cache console of the ELK module
  (\<open>META-INF/js/cache.js\<close>). The upload widget and the tree widget are libraries: their callbacks
  are operations with the values they deliver as arguments.
\<close>

section \<open>Composing a group message\<close>

record article =
  title :: jstr
  description :: jstr
  imagePath :: jstr

text \<open>
  The page: the kind of message, the selections, the text area when there is one, the material
  chosen (\<open>#Template\<close>), what is marked in the list, the box and the spinner of the layer library.
\<close>

record gm =
  checkedPic :: jstr
  isToAll :: jstr
  tagId :: jstr
  param :: "jstr option"
  Template :: jstr
  c_bj :: jstr
  c_two :: bool
  c_three :: bool
  selectAccount :: bool
  remainFont :: int
  ts_shown :: bool
  modalLabel :: jstr
  chosen :: "jstr option"
  sure_id :: jstr
  asked :: "(jstr \<times> jstr \<times> jstr option \<times> jstr \<times> jstr) option"
  loading :: bool
  box :: "jstr option"
  alerts :: "jstr list"
  news_urls :: "jstr list"
  sent_msgs :: "(jstr \<times> jstr \<times> jstr option \<times> jstr \<times> jstr) list"
  inflight :: nat
  reloaded :: bool
  pmain :: jstr

definition isToAll_change :: "jstr \<Rightarrow> gm \<Rightarrow> gm" where
  "isToAll_change v st =
     (let st = st\<lparr>isToAll := v\<rparr> in
      if v = (js ''false'') then st\<lparr>c_two := True, selectAccount := False, c_three := False\<rparr>
      else if v = (js ''tag'') then st\<lparr>c_three := True, selectAccount := False, c_two := False\<rparr>
      else st\<lparr>c_two := False, selectAccount := True, c_three := False\<rparr>)"

definition text_area :: jstr where
  "text_area =
     (js ''<textarea class='' @ [39] @ js ''wz'' @ [39] @ js '' placeholder='' @ [39, 35831, 36755, 20837, 20869, 23481, 39] @ js '' name='' @ [39] @ js ''param'' @ [39] @ js '' id='' @ [39] @ js ''param'' @ [39] @ js '' onkeyup='' @ [39] @ js ''checkWords(this)'' @ [39] @ js ''></textarea>'')"

definition preview_area :: jstr where
  "preview_area = (js ''<div class=\"media_preview_area pp\" style=\"width:320px;\"></div>'')"

text \<open>
  A click on the icon of a kind. Text and articles replace the editing area, the other kinds leave
  it as it is; the list of material is asked for in every case, for text without a type.
\<close>

definition icon_click :: "jstr \<Rightarrow> jstr \<Rightarrow> gm \<Rightarrow> gm" where
  "icon_click basePath i st =
     (let url = basePath @ (js ''/message/back/weixinGroupMessageSendLog/getAllUploadNewsTemplate.do?'');
          st = st\<lparr>checkedPic := i\<rparr>;
          (st, message, url) =
            (if i = (js ''text'') then
               (st\<lparr>c_bj := text_area, param := Some [], ts_shown := True, remainFont := 600\<rparr>, [], url)
             else if i = (js ''image'') then (st, [36873, 25321, 22270, 29255], url @ (js ''type=image''))
             else if i = (js ''video'') then (st, [36873, 25321, 35270, 39057], url @ (js ''type=video''))
             else if i = (js ''voice'') then (st, [36873, 25321, 35821, 38899], url @ (js ''type=voice''))
             else if i = (js ''mpnews'') then
               (st\<lparr>c_bj := preview_area, param := None, ts_shown := False\<rparr>, [36873, 25321, 32032, 26448], url @ (js ''type=mpnews''))
             else (st, [], url))
      in st\<lparr>modalLabel := message, news_urls := news_urls st @ [url]\<rparr>)"

definition first_article :: "article \<Rightarrow> jstr" where
  "first_article a =
     (js ''<div id='' @ [39] @ js ''appmsgItem1'' @ [39] @ js '' class='' @ [39] @ js ''js_appmsg_item has_thumb'' @ [39] @ js '' data-id='' @ [39] @ js ''1'' @ [39] @ js '' data-fileid='' @ [39] @ js ''200159570'' @ [39] @ js ''>'') @
     (js ''<div class='' @ [39] @ js ''appmsg_info'' @ [39] @ js ''> <h3>'') @ title a @ (js ''</h3><em class='' @ [39] @ js ''appmsg_date'' @ [39] @ js ''></em></div>'') @
     (js ''<div class='' @ [39] @ js ''cover_appmsg_item'' @ [39] @ js ''><h4 class='' @ [39] @ js ''appmsg_title'' @ [39] @ js ''> <a target='' @ [39] @ js ''_blank'' @ [39] @ js '' onclick='' @ [39] @ js ''return false;'' @ [39] @ js '' href='' @ [39] @ js ''javascript:void(0);'' @ [39] @ js ''>'')
     @ description a @ (js ''</a> </h4>'') @
     (js ''<div class='' @ [39] @ js ''appmsg_thumb_wrp'' @ [39] @ js ''><img class='' @ [39] @ js ''js_appmsg_thumb appmsg_thumb'' @ [39] @ js '' src='' @ [39]) @ imagePath a @ ([39] @ js ''></div></div></div>'')"

definition other_article :: "article \<Rightarrow> jstr" where
  "other_article a =
     (js ''<div id='' @ [39] @ js ''appmsgItem2'' @ [39] @ js '' class='' @ [39] @ js ''appmsg_item js_appmsg_item has_thumb'' @ [39] @ js '' data-id='' @ [39] @ js ''2'' @ [39] @ js '' data-fileid='' @ [39] @ js ''200159577'' @ [39] @ js ''> <img class='' @ [39] @ js ''js_appmsg_thumb appmsg_thumb'' @ [39] @ js '' src='' @ [39])
     @ imagePath a @ ([39] @ js ''>'') @ (js ''<h4 class='' @ [39] @ js ''appmsg_title'' @ [39] @ js ''> <a target='' @ [39] @ js ''_blank'' @ [39] @ js '' href='' @ [39] @ js ''javascript:void(0);'' @ [39] @ js ''>'') @ title a @ (js ''</a></h4></div>'')"

definition articles_html :: "article list \<Rightarrow> jstr" where
  "articles_html as = (case as of [] \<Rightarrow> [] | a # bs \<Rightarrow> first_article a @ concat (map other_article bs))"

definition material_html :: "nat \<Rightarrow> jstr \<times> article list \<Rightarrow> jstr" where
  "material_html i e =
     (case e of (key, as) \<Rightarrow>
        (if i mod 2 = 0 then (js ''<div class='' @ [39] @ js ''pright'' @ [39] @ js '' onclick=checkedNews('' @ [39]) else (js ''<div class='' @ [39] @ js ''pleft'' @ [39] @ js '' onclick=checkedNews('' @ [39])) @
        key @ ([39] @ js '')><input type='' @ [39] @ js ''hidden'' @ [39] @ js '' name='' @ [39] @ js ''media_id'' @ [39] @ js '' id='' @ [39] @ js ''media_id'' @ [39] @ js '' value='' @ [39]) @ key @ ([39] @ js ''>'') @
        (js ''<div class='' @ [39] @ js ''media_preview_area pp'' @ [39] @ js '' style='' @ [39] @ js ''width:320px;'' @ [39] @ js ''><div class='' @ [39] @ js ''appmsg multi editing'' @ [39] @ js ''><div id='' @ [39] @ js ''js_appmsg_preview'' @ [39] @ js '' class='' @ [39] @ js ''appmsg_content'' @ [39] @ js ''>'')
        @ (js ''<div id='' @ [39] @ js ''cover'') @ key @ ([39] @ js '' class='' @ [39] @ js ''cover'' @ [39] @ js ''><i id='' @ [39] @ js ''chose'') @ key @
        ([39] @ js '' style='' @ [39] @ js ''display:none;position:absolute;top:45%;left:45%;font-size:30px;'' @ [39] @ js ''>'' @ [8730] @ js ''</i></div>'') @
        articles_html as @ (js ''</div></div></div></div>''))"

text \<open>The answer to \<open>getAllUploadNewsTemplate\<close>: the materials, numbered from 1.\<close>

definition news_arrived :: "(jstr \<times> article list) list \<Rightarrow> gm \<Rightarrow> gm" where
  "news_arrived obj st =
     st\<lparr>pmain := concat (map (\<lambda>(i, e). material_html i e) (enumerate 1 obj)), chosen := None\<rparr>"

definition checkedNews :: "jstr \<Rightarrow> gm \<Rightarrow> gm" where
  "checkedNews key st = st\<lparr>Template := key, chosen := Some key\<rparr>"

definition close_click :: "gm \<Rightarrow> gm" where
  "close_click st = st\<lparr>Template := []\<rparr>"

text \<open>
  \<open>sure\<close> and its answer. \<open>templateId\<close> is a global variable, so an answer uses the last choice. The
  chosen articles replace the editing area (and a text area in it); the click on \<open>#close\<close> empties
  \<open>#Template\<close>, which is then set again.
\<close>

definition sure :: "gm \<Rightarrow> gm" where
  "sure st = st\<lparr>sure_id := Template st\<rparr>"

definition sure_answer :: "article list \<Rightarrow> gm \<Rightarrow> gm" where
  "sure_answer as st =
     (let html = (js ''<div class=\"media_preview_area pp\" style=\"width:320px;\">'') @
            (js ''<div class=\"appmsg multi editing\"><div id=\"js_appmsg_preview\" class=\"appmsg_content\">'') @
            articles_html as @ (js ''</div></div></div>'');
          st = close_click (st\<lparr>c_bj := html, param := None\<rparr>)
      in st\<lparr>Template := sure_id st\<rparr>)"

definition blank_sel :: "jstr \<Rightarrow> bool" where
  "blank_sel v \<longleftrightarrow> v = [] \<or> v = (js ''null'')"

definition msg_type :: "gm \<Rightarrow> jstr" where
  "msg_type st = (if blank_sel (checkedPic st) then (js ''text'') else checkedPic st)"

text \<open>The checks of the send button, in their order: the message shown, or \<open>None\<close> when it goes on.\<close>

definition send_check :: "gm \<Rightarrow> jstr option" where
  "send_check st =
     (if (case param st of None \<Rightarrow> False | Some p \<Rightarrow> length p > 600) then Some [24744, 24050, 36229, 36807, 23383, 25968, 38480, 21046, 65281]
      else if blank_sel (isToAll st) then Some [35831, 36873, 25321, 20998, 32452]
      else if isToAll st = (js ''tag'') \<and> blank_sel (tagId st) then Some [35831, 36873, 25321, 26631, 31614]
      else if (case param st of None \<Rightarrow> False | Some p \<Rightarrow> blank_sel p) then Some [35831, 36755, 20837, 20869, 23481]
      else if msg_type st \<noteq> (js ''text'') \<and> blank_sel (Template st) then Some [35831, 36873, 25321, 27169, 26495]
      else None)"

text \<open>
  The send button and the confirmation. The values are read when the button is pressed and sent
  when the box is answered. It is closed before the request goes out, under a spinner.
\<close>

definition send_click :: "gm \<Rightarrow> gm" where
  "send_click st =
     (case send_check st of
        Some m \<Rightarrow> st\<lparr>alerts := alerts st @ [m]\<rparr>
      | None \<Rightarrow> st\<lparr>asked := Some (msg_type st, isToAll st, param st, Template st, tagId st)\<rparr>)"

definition confirm_ok :: "gm \<Rightarrow> gm" where
  "confirm_ok st =
     (case asked st of
        Some m \<Rightarrow> st\<lparr>asked := None, loading := True, inflight := inflight st + 1, sent_msgs := sent_msgs st @ [m]\<rparr>
      | None \<Rightarrow> st)"

definition confirm_cancel :: "gm \<Rightarrow> gm" where
  "confirm_cancel st = st\<lparr>asked := None\<rparr>"

text \<open>The answer closes all layers and shows a message whose button reloads; an error does nothing.\<close>

definition sent_answer :: "jstr option \<Rightarrow> gm \<Rightarrow> gm" where
  "sent_answer msg st =
     (if inflight st = 0 then st
      else
        (let st = st\<lparr>inflight := inflight st - 1\<rparr> in
         case msg of
           None \<Rightarrow> st
         | Some m \<Rightarrow> st\<lparr>loading := False, asked := None, box := Some m\<rparr>))"

definition box_ok :: "gm \<Rightarrow> gm" where
  "box_ok st = (case box st of None \<Rightarrow> st | Some m \<Rightarrow> st\<lparr>reloaded := True\<rparr>)"

definition checkWords :: "jstr \<Rightarrow> gm \<Rightarrow> gm" where
  "checkWords t st =
     (if param st = None then st
      else
        (let st = st\<lparr>param := Some t, remainFont := 600 - int (length t)\<rparr>
         in if length t > 600 then st\<lparr>alerts := alerts st @ [[24744, 24050, 36229, 36807, 23383, 25968, 38480, 21046, 65281]]\<rparr> else st))"

datatype gm_event =
    GmTo jstr
  | GmTag jstr
  | GmIcon jstr
  | GmNews "(jstr \<times> article list) list"
  | GmPick jstr
  | GmClose
  | GmSure
  | GmArticles "article list"
  | GmType jstr
  | GmSend
  | GmOk
  | GmCancel
  | GmAnswer "jstr option"
  | GmBox

text \<open>While a box or the spinner covers the page only the box can be used.\<close>

definition covered :: "gm \<Rightarrow> bool" where
  "covered st \<longleftrightarrow> asked st \<noteq> None \<or> loading st \<or> box st \<noteq> None"

fun gm_step :: "jstr \<Rightarrow> gm_event \<Rightarrow> gm \<Rightarrow> gm" where
  "gm_step bp (GmTo v) st = (if covered st then st else isToAll_change v st)"
| "gm_step bp (GmTag v) st = (if covered st then st else st\<lparr>tagId := v\<rparr>)"
| "gm_step bp (GmIcon i) st = (if covered st then st else icon_click bp i st)"
| "gm_step bp (GmNews obj) st = news_arrived obj st"
| "gm_step bp (GmPick k) st = (if covered st then st else checkedNews k st)"
| "gm_step bp GmClose st = (if covered st then st else close_click st)"
| "gm_step bp GmSure st = (if covered st then st else sure st)"
| "gm_step bp (GmArticles as) st = sure_answer as st"
| "gm_step bp (GmType t) st = (if covered st then st else checkWords t st)"
| "gm_step bp GmSend st = (if covered st then st else send_click st)"
| "gm_step bp GmOk st = confirm_ok st"
| "gm_step bp GmCancel st = confirm_cancel st"
| "gm_step bp (GmAnswer m) st = sent_answer m st"
| "gm_step bp GmBox st = box_ok st"

text \<open>The page as \<open>groupMessageSend.vm\<close> shows it: all followers are selected, and no tag.\<close>

definition gm0 :: gm where
  "gm0 = \<lparr>checkedPic = (js ''text''), isToAll = (js ''true''), tagId = (js ''null''), param = Some [], Template = [], c_bj = text_area,
     c_two = False, c_three = False, selectAccount = True, remainFont = 600, ts_shown = True, modalLabel = [],
     chosen = None, sure_id = [], asked = None, loading = False, box = None, alerts = [], news_urls = [], sent_msgs = [],
     inflight = 0, reloaded = False, pmain = []\<rparr>"

definition gm_run :: "jstr \<Rightarrow> gm_event list \<Rightarrow> gm" where
  "gm_run bp evs = fold (gm_step bp) evs gm0"

section \<open>Every message sent is complete\<close>

text \<open>What was sent: kind, audience, text, material and tag.\<close>

definition complete :: "jstr \<times> jstr \<times> jstr option \<times> jstr \<times> jstr \<Rightarrow> bool" where
  "complete m \<longleftrightarrow>
     (case m of (k, to, p, tpl, tag) \<Rightarrow>
        \<not> blank_sel to \<and> (to = (js ''tag'') \<longrightarrow> \<not> blank_sel tag) \<and> (k \<noteq> (js ''text'') \<longrightarrow> \<not> blank_sel tpl) \<and>
        (case p of None \<Rightarrow> True | Some t \<Rightarrow> \<not> blank_sel t \<and> length t \<le> 600))"

definition text_of :: "jstr \<times> jstr \<times> jstr option \<times> jstr \<times> jstr \<Rightarrow> jstr option" where
  "text_of m = (case m of (k, to, p, tpl, tag) \<Rightarrow> p)"

text \<open>What takes the text area away: the articles of the chosen material, and a click on the icon for articles.\<close>

definition takes_text :: "gm_event \<Rightarrow> bool" where
  "takes_text e \<longleftrightarrow> e = GmIcon (js ''mpnews'') \<or> (\<exists>as. e = GmArticles as)"

lemma send_check_complete:
  "send_check st = None \<Longrightarrow> complete (msg_type st, isToAll st, param st, Template st, tagId st)"
  by (auto simp: send_check_def complete_def split: if_splits option.splits)

definition gm_inv :: "gm \<Rightarrow> bool" where
  "gm_inv st \<longleftrightarrow>
     (\<forall>m\<in>set (sent_msgs st). complete m) \<and> (\<forall>m. asked st = Some m \<longrightarrow> complete m \<and> inflight st = 0) \<and>
     (inflight st > 0 \<longrightarrow> loading st) \<and> inflight st \<le> 1"

lemma gm_inv_page:
  "gm_inv st \<Longrightarrow> asked st' = asked st \<Longrightarrow> sent_msgs st' = sent_msgs st \<Longrightarrow> inflight st' = inflight st \<Longrightarrow>
   loading st' = loading st \<Longrightarrow> gm_inv st'"
  by (simp add: gm_inv_def)

lemma gm_inv_step: "gm_inv st \<Longrightarrow> gm_inv (gm_step bp e st)"
proof -
  assume inv: "gm_inv st"
  show ?thesis
  proof (cases e)
    case GmSend
    then show ?thesis
      using inv send_check_complete [of st]
      by (cases "send_check st") (auto simp: gm_inv_def send_click_def covered_def)
  next
    case GmOk
    then show ?thesis using inv by (auto simp: gm_inv_def confirm_ok_def split: option.split)
  next
    case (GmAnswer m)
    then show ?thesis using inv by (auto simp: gm_inv_def sent_answer_def Let_def split: option.split)
  next
    case GmCancel
    with inv show ?thesis by (simp add: gm_inv_def confirm_cancel_def)
  qed (use inv in \<open>auto intro!: gm_inv_page [OF inv] simp: isToAll_change_def icon_click_def news_arrived_def
      checkedNews_def close_click_def sure_def sure_answer_def checkWords_def box_ok_def Let_def split: option.split\<close>)
qed

text \<open>The text area is there until material takes its place, and what is sent has the text that was in it.\<close>

definition with_text :: "gm \<Rightarrow> bool" where
  "with_text st \<longleftrightarrow> param st \<noteq> None \<and> (\<forall>m. asked st = Some m \<longrightarrow> text_of m \<noteq> None) \<and>
     (\<forall>m\<in>set (sent_msgs st). text_of m \<noteq> None)"

lemma with_text_step: "with_text st \<Longrightarrow> \<not> takes_text e \<Longrightarrow> with_text (gm_step bp e st)"
  by (cases e) (auto simp: with_text_def takes_text_def text_of_def isToAll_change_def icon_click_def news_arrived_def
      checkedNews_def close_click_def sure_def checkWords_def send_click_def confirm_ok_def confirm_cancel_def
      sent_answer_def box_ok_def Let_def split: option.splits if_splits)

text \<open>
  C15: whatever is clicked and typed in whatever order, every message sent names an audience (and a tag when
  it goes to a tag) and has material unless it is text; the text in it is neither empty nor longer than 600
  units, and it lacks one only if material has taken the place of the text area before, which then can
  happen to a message of text as well; and at most one request is in the air at a time.
\<close>

theorem group_message_complete:
  "(\<forall>m\<in>set (sent_msgs (gm_run bp evs)).
      complete m \<and> (text_of m = None \<longrightarrow> (\<exists>e\<in>set evs. takes_text e))) \<and>
    inflight (gm_run bp evs) \<le> 1"
proof -
  have "gm_inv (fold (gm_step bp) evs st)" if "gm_inv st" for st
    using that by (induction evs arbitrary: st) (simp_all add: gm_inv_step)
  from this [of gm0] have c: "gm_inv (gm_run bp evs)" by (simp add: gm_run_def gm_inv_def gm0_def)
  have "with_text (fold (gm_step bp) es st)" if "with_text st" "\<forall>e\<in>set es. \<not> takes_text e" for es st
    using that by (induction es arbitrary: st) (simp_all add: with_text_step)
  from this [of gm0 evs] have t: "(\<forall>e\<in>set evs. \<not> takes_text e) \<longrightarrow> with_text (gm_run bp evs)"
    by (simp add: gm_run_def with_text_def gm0_def)
  show ?thesis using c t unfolding gm_inv_def with_text_def by blast
qed

theorem group_message_complete_witness:
  "sent_msgs (gm_run [] [GmTo (js ''true''), GmType (js ''hi''), GmSend, GmOk]) =
     [((js ''text''), (js ''true''), Some (js ''hi''), [], (js ''null''))] \<and>
   complete ((js ''text''), (js ''true''), Some (js ''hi''), [], (js ''null''))"
proof -
  have s: "sent_msgs (gm_run [] [GmTo (js ''true''), GmType (js ''hi''), GmSend, GmOk]) =
      [((js ''text''), (js ''true''), Some (js ''hi''), [], (js ''null''))]"
    by (simp add: gm_run_def gm0_def covered_def isToAll_change_def checkWords_def send_click_def send_check_def
        blank_sel_def msg_type_def confirm_ok_def js_def)
  then show ?thesis
    using group_message_complete [of "[]" "[GmTo (js ''true''), GmType (js ''hi''), GmSend, GmOk]"] by simp
qed

text \<open>
  Choosing material while the kind is still text takes the text area away, and the check for
  an empty text with it: such a message is sent as text without any text.
\<close>

theorem group_message_without_text:
  assumes "\<not> covered st" "\<not> blank_sel (isToAll st)" "isToAll st \<noteq> (js ''tag'')" "checkedPic st = (js ''text'')"
  shows "sent_msgs (fold (gm_step bp) [GmSure, GmArticles as, GmSend, GmOk] st) =
    sent_msgs st @ [((js ''text''), isToAll st, None, Template st, tagId st)]"
  using assms
  by (simp add: covered_def sure_def sure_answer_def close_click_def send_click_def send_check_def msg_type_def
      confirm_ok_def blank_sel_def js_def)

theorem group_message_without_text_witness:
  "sent_msgs (fold (gm_step []) [GmSure, GmArticles [], GmSend, GmOk] gm0) =
    [((js ''text''), (js ''true''), None, [], (js ''null''))]"
  using group_message_without_text [of gm0 "[]" "[]"]
  by (simp add: gm0_def covered_def blank_sel_def js_def)

section \<open>News items\<close>

text \<open>The pattern \<open>(\.|\/)(gif|jpe?g|png)$\<close>, without regard to case.\<close>

definition lower :: "nat \<Rightarrow> nat" where
  "lower u = (if 65 \<le> u \<and> u \<le> 90 then u + 32 else u)"

definition acceptFileTypes :: "jstr \<Rightarrow> bool" where
  "acceptFileTypes name \<longleftrightarrow>
     (\<exists>ext\<in>set [(js ''gif''), (js ''jpg''), (js ''jpeg''), (js ''png'')]. \<exists>d\<in>set [46, 47]. suffix (d # ext) (map lower name))"

definition maxFileSize :: nat where
  "maxFileSize = 2000000"

text \<open>
  The upload field: the nodes shown (one per file, with the button on the first), the progress,
  the path stored in the form, and the error texts.
\<close>

record upload =
  up_nodes :: nat
  up_button :: "(jstr \<times> bool) option"
  up_width :: jstr
  up_progress_shown :: bool
  up_name :: jstr
  up_path :: jstr
  up_errors :: "(nat \<times> jstr) list"

text \<open>
  The button beside the first file: disabled until the files are checked; a click sends them and makes
  the next click one that aborts; it goes away with the end of the request.
\<close>

record upload_button =
  ub_shown :: bool
  ub_disabled :: bool
  ub_text :: jstr
  ub_abort :: bool
  ub_submits :: nat
  ub_aborts :: nat

definition uploadButton :: upload_button where
  "uploadButton = \<lparr>ub_shown = True, ub_disabled = True, ub_text = ([19978, 20256, 20013] @ js ''...''), ub_abort = False, ub_submits = 0, ub_aborts = 0\<rparr>"

definition uploadButton_click :: "upload_button \<Rightarrow> upload_button" where
  "uploadButton_click b =
     (if \<not> ub_shown b \<or> ub_disabled b then b
      else if ub_abort b then b\<lparr>ub_shown := False, ub_aborts := ub_aborts b + 1\<rparr>
      else b\<lparr>ub_abort := True, ub_text := ([27491, 22312, 19978, 20256] @ js ''...''), ub_submits := ub_submits b + 1\<rparr>)"

definition uploadButton_always :: "upload_button \<Rightarrow> upload_button" where
  "uploadButton_always b = (if ub_submits b > 0 then b\<lparr>ub_shown := False\<rparr> else b)"

definition uploadButton_ready :: "bool \<Rightarrow> upload_button \<Rightarrow> upload_button" where
  "uploadButton_ready err b = b\<lparr>ub_text := [19978, 20256], ub_disabled := err\<rparr>"

definition upload_once :: "upload_button \<Rightarrow> bool" where
  "upload_once b \<longleftrightarrow> ub_submits b = (if ub_abort b then 1 else 0) \<and> ub_aborts b \<le> ub_submits b \<and>
     (ub_aborts b > 0 \<longrightarrow> \<not> ub_shown b)"

lemma upload_once_steps:
  "upload_once uploadButton" "upload_once b \<Longrightarrow> upload_once (uploadButton_click b)"
  "upload_once b \<Longrightarrow> upload_once (uploadButton_always b)" "upload_once b \<Longrightarrow> upload_once (uploadButton_ready err b)"
  by (auto simp: upload_once_def uploadButton_def uploadButton_click_def uploadButton_always_def uploadButton_ready_def)

definition upload_add :: "nat \<Rightarrow> upload \<Rightarrow> upload" where
  "upload_add n up =
     up\<lparr>up_nodes := n, up_button := (if n > 0 then Some (([19978, 20256, 20013] @ js ''...''), True) else None), up_errors := []\<rparr>"

definition upload_process :: "nat \<Rightarrow> nat \<Rightarrow> jstr option \<Rightarrow> bool \<Rightarrow> upload \<Rightarrow> upload" where
  "upload_process index n file_error files_error up =
     (let up = (case file_error of None \<Rightarrow> up | Some e \<Rightarrow> up\<lparr>up_errors := up_errors up @ [(index, e)]\<rparr>)
      in if index + 1 = n \<and> up_button up \<noteq> None then up\<lparr>up_button := Some ([19978, 20256], files_error)\<rparr> else up)"

text \<open>The progress in percent is computed in floating point: \<open>percent\<close> stands for that expression.\<close>

definition upload_progress :: "(nat \<Rightarrow> nat \<Rightarrow> nat) \<Rightarrow> nat \<Rightarrow> nat \<Rightarrow> upload \<Rightarrow> upload" where
  "upload_progress percent loaded tot up = up\<lparr>up_width := nat_str (percent loaded tot) @ (js ''%'')\<rparr>"

definition upload_done :: "jstr \<Rightarrow> bool \<Rightarrow> jstr \<Rightarrow> jstr \<Rightarrow> upload \<Rightarrow> upload" where
  "upload_done name ok url msg up =
     (let up = up\<lparr>up_name := name, up_progress_shown := False\<rparr>
      in if ok then up\<lparr>up_path := url\<rparr> else up\<lparr>up_errors := up_errors up @ [(0, msg)]\<rparr>)"

definition upload_fail :: "nat \<Rightarrow> upload \<Rightarrow> upload" where
  "upload_fail n up =
     up\<lparr>up_errors := up_errors up @ map (\<lambda>i. (i, (js ''File upload failed.''))) [0..<n]\<rparr>"

text \<open>
  \<open>showPic\<close>: for old browsers the picture is shown by its path. The version is the second piece of
  the version text, without blanks; \<open>&&\<close> binds tighter than \<open>||\<close>, so the name of the browser is
  asked for version 6 only. Without a second piece the access throws and nothing is shown.
\<close>

definition showPic :: "jstr \<Rightarrow> jstr \<Rightarrow> bool" where
  "showPic appName appVersion =
     (let version = split_on (js '';'') appVersion in
      if length version < 2 then False
      else
        (let v = filter (\<lambda>u. u \<noteq> 32) (version ! 1)
         in appName = (js ''Microsoft Internet Explorer'') \<and> v = (js ''MSIE6.0'') \<or> v = (js ''MSIE7.0'') \<or> v = (js ''MSIE8.0'') \<or> v = (js ''MSIE9.0'')))"

text \<open>\<open>browseImages\<close>, \<open>browseFiles\<close>: what a chosen file does to the page, and \<open>decode\<close>.\<close>

definition last_segment :: "jstr \<Rightarrow> jstr" where
  "last_segment s = rev (takeWhile (\<lambda>u. u \<noteq> 47) (rev s))"

definition file_name :: "jstr \<Rightarrow> jstr option" where
  "file_name v = decodeURIComponent (last_segment v)"

definition image_selected :: "string \<Rightarrow> string \<Rightarrow> jstr \<Rightarrow> ui list" where
  "image_selected inputId img url = [SetAttr (''#'' @ img) ''src'' url, SetAttr (''#'' @ inputId) ''value'' url]"

definition file_selected :: "string \<Rightarrow> string \<Rightarrow> jstr \<Rightarrow> ui list" where
  "file_selected inputId f url =
     [SetAttr (''#'' @ f) ''href'' url, SetAttr (''#'' @ inputId) ''value'' url] @
     (case file_name url of None \<Rightarrow> [] | Some n \<Rightarrow> [SetText (''#'' @ f) n])"

text \<open>
  The name shown for a chosen file is the name it was stored under, whatever characters it has
  and whatever directory it is in.
\<close>

theorem file_name_shown:
  assumes "wf_jstr name" "encodeURIComponent name = Some e"
  shows "file_name (dir @ (js ''/'') @ e) = Some name"
proof -
  have "47 \<notin> set e" using encode_uri_out [OF assms] by (auto simp: uri_out_def uri_plain_def is_digit_def)
  then have "takeWhile (\<lambda>u. u \<noteq> 47) (rev e @ 47 # rev dir) = rev e"
    by (subst takeWhile_tail) (auto simp: takeWhile_eq_all_conv)
  then show ?thesis
    using decode_encode_uri [OF assms] by (simp add: file_name_def last_segment_def js_def)
qed

theorem file_name_shown_witness: "file_name ((js ''/up/2020'') @ (js ''/'') @ (js ''%E4%BD%A0.pdf'')) = Some ([20320] @ js ''.pdf'')"
proof -
  have "wf_jstr ([20320] @ js ''.pdf'')" by (simp add: wf_jstr_def js_def)
  moreover have "encodeURIComponent ([20320] @ js ''.pdf'') = Some (js ''%E4%BD%A0.pdf'')"
    by (simp add: js_def uri_plain_def is_digit_def low_surrogate_def high_surrogate_def utf8_point_def pct_def
        hex_digit_def)
  ultimately show ?thesis by (rule file_name_shown)
qed

section \<open>The cache console\<close>

datatype cache_request = Delete jstr | Put jstr jstr | Get jstr

record cache_page =
  k_key :: jstr
  k_expire :: jstr
  k_desc :: jstr
  k_preview :: jstr
  k_alert :: bool
  k_modal :: bool

definition cache_clear :: "cache_page \<Rightarrow> cache_page" where
  "cache_clear p = p\<lparr>k_key := [], k_expire := [], k_desc := [], k_preview := []\<rparr>"

text \<open>\<open>init\<close> clears the page and asks for the list; \<open>show\<close> shows the notice, taken away a second later.\<close>

definition cache_init :: "cache_page \<Rightarrow> cache_page \<times> cache_request list" where
  "cache_init p = (cache_clear p, [Get (js ''/cache/list'')])"

definition cache_show :: "cache_page \<Rightarrow> cache_page" where
  "cache_show p = p\<lparr>k_alert := True\<rparr>"

definition cache_hide :: "cache_page \<Rightarrow> cache_page" where
  "cache_hide p = p\<lparr>k_alert := False\<rparr>"

definition remove_all :: "cache_page \<Rightarrow> cache_request list" where
  "remove_all p = [Delete (js ''/cache/remove'')]"

definition remove_key :: "cache_page \<Rightarrow> cache_request list" where
  "remove_key p = [Delete ((js ''/cache/pre/'') @ k_key p)]"

definition removed :: "cache_page \<Rightarrow> cache_page \<times> cache_request list" where
  "removed p = cache_init (cache_show p)"

text \<open>The delay button: the check for an empty number warns but does not return.\<close>

definition delay :: "jstr \<Rightarrow> cache_page \<Rightarrow> cache_page \<times> ui list \<times> cache_request list" where
  "delay hour p =
     (let warn = (if hour = [] then [Alert (js ''Please input the number!'')] else [])
      in if k_expire p = [] then (p\<lparr>k_modal := False\<rparr>, warn, [])
         else (p, warn, [Put ((js ''/cache/'') @ k_key p) ((js ''hour='') @ hour)]))"

definition delayed :: "cache_page \<Rightarrow> cache_page \<times> cache_request list" where
  "delayed p = (case cache_init (cache_show p) of (p, rs) \<Rightarrow> (p\<lparr>k_modal := False\<rparr>, rs))"

text \<open>
  A node of the tree: groups have an empty key and are shown by their text. Keys and texts hold no
  markup, so what is shown is read back as it is.
\<close>

record cache_node =
  n_key :: jstr
  n_text :: jstr
  n_expire :: jstr
  n_desc :: jstr

definition node_selected :: "cache_node \<Rightarrow> cache_page \<Rightarrow> cache_page \<times> cache_request list" where
  "node_selected n p =
     (let p = cache_clear p in
      if n_key n = [] then (p\<lparr>k_key := n_text n\<rparr>, [])
      else (p\<lparr>k_key := n_key n, k_expire := n_expire n, k_desc := n_desc n\<rparr>, [Get ((js ''/cache/'') @ n_key n)]))"

text \<open>The value of a key as \<open>eval\<close> read it: no JSON, an array, an object (perhaps with a length), other.\<close>

datatype cache_value = Broken | ArrayV nat | ObjectV bool | Scalar

datatype preview = Raw jstr | TooHuge | Tree

definition preview_of :: "jstr \<Rightarrow> cache_value \<Rightarrow> preview" where
  "preview_of data v =
     (case v of
        Broken \<Rightarrow> Raw data
      | ArrayV n \<Rightarrow> if n > 300 then TooHuge else Tree
      | ObjectV has_length \<Rightarrow> if \<not> has_length then Tree else Raw data
      | Scalar \<Rightarrow> Raw data)"

definition check_nodes_disabled :: "nat \<Rightarrow> bool" where
  "check_nodes_disabled found = (\<not> found \<ge> 1)"

text \<open>
  The delay button changes the expiry of exactly the key on display, which is the last node
  selected when that is a key; for a group it only closes the dialog; an empty number of hours is
  warned about and sent all the same.
\<close>

theorem cache_delay_selected:
  "delay hour (fst (node_selected n p)) =
     (if n_key n = [] \<or> n_expire n = []
      then ((fst (node_selected n p))\<lparr>k_modal := False\<rparr>,
            if hour = [] then [Alert (js ''Please input the number!'')] else [], [])
      else (fst (node_selected n p), if hour = [] then [Alert (js ''Please input the number!'')] else [],
            [Put ((js ''/cache/'') @ n_key n) ((js ''hour='') @ hour)]))"
  by (simp add: delay_def node_selected_def cache_clear_def Let_def)

end
