(* ===== verification/Popui.thy ===== *)
theory Popui
  imports Js_Dom
begin

text \<open>
  The widget library of the administration pages (\<open>content/system/js/popui.js\<close>), its parts that keep
  time: \<open>$.debounce\<close>, \<open>$.throttle\<close>, the dialog with its countdown, and the lazy loading of images;
  with them the helpers \<open>$.uiParse\<close>, \<open>center\<close> and \<open>setCursorPosition\<close>.
\<close>

section \<open>Debounce\<close>

text \<open>
  The closure of \<open>$.debounce\<close>: its timer, of which there is one at a time (kept as its due time),
  the time stamp and the arguments of the last call, and what the function was applied to.
\<close>

record 'a deb =
  db_timeout :: "int option"
  db_stamp :: int
  db_args :: "'a option"
  db_log :: "(int \<times> 'a option) list"

definition deb0 :: "'a deb" where
  "deb0 = \<lparr>db_timeout = None, db_stamp = 0, db_args = None, db_log = []\<rparr>"

definition deb_call :: "int \<Rightarrow> bool \<Rightarrow> int \<Rightarrow> 'a \<Rightarrow> 'a deb \<Rightarrow> 'a deb" where
  "deb_call wait immediate now a s =
     (let callNow = (immediate \<and> db_timeout s = None);
          s = s\<lparr>db_args := Some a, db_stamp := now\<rparr>;
          s = (if db_timeout s = None then s\<lparr>db_timeout := Some (now + wait)\<rparr> else s)
      in if callNow then s\<lparr>db_log := db_log s @ [(now, db_args s)], db_args := None\<rparr> else s)"

text \<open>\<open>later\<close>, when its timer is due.\<close>

definition deb_later :: "int \<Rightarrow> bool \<Rightarrow> int \<Rightarrow> 'a deb \<Rightarrow> 'a deb" where
  "deb_later wait immediate now s =
     (case db_timeout s of
        None \<Rightarrow> s
      | Some dt \<Rightarrow>
          if now < dt then s
          else
            (let last = now - db_stamp s in
             if last < wait \<and> last > 0 then s\<lparr>db_timeout := Some (now + (wait - last))\<rparr>
             else
               (let s = s\<lparr>db_timeout := None\<rparr> in
                if \<not> immediate then s\<lparr>db_log := db_log s @ [(now, db_args s)], db_args := None\<rparr> else s)))"

datatype 'a timed = Call 'a | Later

fun deb_step :: "int \<Rightarrow> bool \<Rightarrow> int \<times> 'a timed \<Rightarrow> 'a deb \<Rightarrow> 'a deb" where
  "deb_step wait imm (now, Call a) s = deb_call wait imm now a s"
| "deb_step wait imm (now, Later) s = deb_later wait imm now s"

definition deb_run :: "int \<Rightarrow> bool \<Rightarrow> (int \<times> 'a timed) list \<Rightarrow> 'a deb" where
  "deb_run wait imm evs = fold (deb_step wait imm) evs deb0"

text \<open>The last call of a run.\<close>

fun last_call :: "(int \<times> 'a timed) list \<Rightarrow> (int \<times> 'a) option \<Rightarrow> (int \<times> 'a) option" where
  "last_call [] c = c"
| "last_call ((now, Call a) # evs) c = last_call evs (Some (now, a))"
| "last_call ((now, Later) # evs) c = last_call evs c"

lemma last_call_append:
  "last_call (evs @ [(now, Call a)]) c = Some (now, a)" "last_call (evs @ [(now, Later)]) c = last_call evs c"
  by (induction evs c rule: last_call.induct) simp_all

lemma last_call_time:
  "last_call evs c = Some (t, a) \<Longrightarrow> (\<exists>x. (t, x) \<in> set evs) \<or> c = Some (t, a)"
  by (induction evs c rule: last_call.induct) auto

definition deb_inv :: "int \<Rightarrow> (int \<times> 'a) option \<Rightarrow> 'a deb \<Rightarrow> bool" where
  "deb_inv wait c s \<longleftrightarrow>
     (case c of
        None \<Rightarrow> db_timeout s = None \<and> db_args s = None
      | Some (t, a) \<Rightarrow>
          db_stamp s = t \<and>
          ((\<exists>dt. db_timeout s = Some dt \<and> dt \<le> t + wait \<and> db_args s = Some a) \<or>
           db_timeout s = None \<and> db_args s = None))"

lemma deb_run_inv:
  assumes "sorted (map fst evs)" "0 \<le> wait"
  shows "deb_inv wait (last_call evs None) (deb_run wait False evs)"
  using assms(1)
proof (induction evs rule: rev_induct)
  case Nil
  then show ?case by (simp add: deb_inv_def deb_run_def deb0_def)
next
  case (snoc e evs)
  obtain now k where e: "e = (now, k)" by (cases e)
  define s where "s = deb_run wait False evs"
  have IH: "deb_inv wait (last_call evs None) s" using snoc by (simp add: sorted_append s_def)
  have r: "deb_run wait False (evs @ [x]) = deb_step wait False x s" for x by (simp add: deb_run_def s_def)
  have le: "t \<le> now" if "last_call evs None = Some (t, a)" for t a
    using last_call_time [OF that] snoc.prems by (force simp: e sorted_append)
  show ?case
  proof (cases k)
    case (Call a)
    have "\<exists>dt. db_timeout (deb_call wait False now a s) = Some dt \<and> dt \<le> now + wait"
    proof (cases "last_call evs None")
      case None
      then show ?thesis using IH by (simp add: deb_inv_def deb_call_def)
    next
      case (Some ta)
      obtain t b where ta: "ta = (t, b)" by (cases ta)
      have "t \<le> now" using le Some ta by simp
      then show ?thesis using IH Some ta by (auto simp: deb_inv_def deb_call_def)
    qed
    moreover have "db_stamp (deb_call wait False now a s) = now" "db_args (deb_call wait False now a s) = Some a"
      by (simp_all add: deb_call_def Let_def)
    ultimately show ?thesis unfolding r e Call
      by (simp add: last_call_append deb_inv_def)
  next
    case Later
    show ?thesis unfolding r e Later deb_step.simps last_call_append
      using IH by (auto simp: deb_inv_def deb_later_def Let_def split: option.splits if_splits)
  qed
qed

text \<open>
  In a run with a clock that does not go back, the function is applied only to the arguments
  of the last call, and only when no call came for the whole waiting time (or when the timer falls
  in the very millisecond of a call, which the test \<open>last > 0\<close> lets through); a call that has not
  been answered always has a timer, due no later than the waiting time after it.
\<close>

theorem debounce_waits:
  assumes "sorted (map fst evs)" "0 \<le> wait" "last_call evs None = Some (t, a)" "t \<le> now"
  defines "s \<equiv> deb_run wait False evs"
  shows "(db_log (deb_later wait False now s) = db_log s \<or>
      db_log (deb_later wait False now s) = db_log s @ [(now, Some a)] \<and> (t + wait \<le> now \<or> now = t)) \<and>
    (db_args s = None \<or> db_args s = Some a \<and> (\<exists>dt. db_timeout s = Some dt \<and> dt \<le> t + wait)) \<and>
    (db_args s \<noteq> None \<and> t + wait \<le> now \<longrightarrow>
      db_log (deb_later wait False now s) = db_log s @ [(now, Some a)])"
  using deb_run_inv [OF assms(1,2)] assms(2,3,4)
  by (auto simp: deb_inv_def s_def [symmetric] deb_later_def Let_def split: if_splits)

theorem debounce_waits_witness:
  "db_log (deb_later 100 False 160 (deb_run 100 False [(0, Call ''a''), (60, Call ''b''), (100, Later)]))
    = [(160, Some ''b'')]"
proof -
  let ?e = "[(0, Call ''a''), (60, Call ''b''), (100, Later)] :: (int \<times> string timed) list"
  have h: "sorted (map fst ?e)" "(0::int) \<le> 100" "last_call ?e None = Some (60, ''b'')" "(60::int) \<le> 160"
    by simp_all
  have "db_args (deb_run 100 False ?e) \<noteq> None" "db_log (deb_run 100 False ?e) = []"
    by (simp_all add: deb_run_def deb0_def deb_call_def deb_later_def)
  then show ?thesis using debounce_waits [OF h] by simp
qed

section \<open>Throttle\<close>

record 'a thr =
  th_timeout :: "int option"
  th_previous :: int
  th_args :: "'a option"
  th_log :: "(int \<times> 'a option) list"

definition thr0 :: "'a thr" where
  "thr0 = \<lparr>th_timeout = None, th_previous = 0, th_args = None, th_log = []\<rparr>"

definition thr_apply :: "int \<Rightarrow> 'a thr \<Rightarrow> 'a thr" where
  "thr_apply now s = s\<lparr>th_log := th_log s @ [(now, th_args s)], th_args := None\<rparr>"

text \<open>\<open>leading\<close> and \<open>trailing\<close> are the options, true unless given as false.\<close>

definition thr_call :: "int \<Rightarrow> bool \<Rightarrow> bool \<Rightarrow> int \<Rightarrow> 'a \<Rightarrow> 'a thr \<Rightarrow> 'a thr" where
  "thr_call wait leading trailing now a s =
     (let s = (if th_previous s = 0 \<and> \<not> leading then s\<lparr>th_previous := now\<rparr> else s);
          remaining = wait - (now - th_previous s);
          s = s\<lparr>th_args := Some a\<rparr>
      in if remaining \<le> 0 \<or> remaining > wait then
           thr_apply now (s\<lparr>th_timeout := None, th_previous := now\<rparr>)
         else if th_timeout s = None \<and> trailing then s\<lparr>th_timeout := Some (now + remaining)\<rparr>
         else s)"

definition thr_later :: "int \<Rightarrow> bool \<Rightarrow> int \<Rightarrow> 'a thr \<Rightarrow> 'a thr" where
  "thr_later wait leading now s =
     (case th_timeout s of
        None \<Rightarrow> s
      | Some dt \<Rightarrow>
          if now < dt then s
          else thr_apply now (s\<lparr>th_previous := (if leading then now else 0), th_timeout := None\<rparr>))"

fun thr_step :: "int \<Rightarrow> bool \<Rightarrow> bool \<Rightarrow> int \<times> 'a timed \<Rightarrow> 'a thr \<Rightarrow> 'a thr" where
  "thr_step wait ld tr (now, Call a) s = thr_call wait ld tr now a s"
| "thr_step wait ld tr (now, Later) s = thr_later wait ld now s"

definition thr_run :: "int \<Rightarrow> bool \<Rightarrow> bool \<Rightarrow> (int \<times> 'a timed) list \<Rightarrow> 'a thr" where
  "thr_run wait ld tr evs = fold (thr_step wait ld tr) evs thr0"

text \<open>
  At time \<open>now\<close>: the log is spaced; the last entry is past, lies before the start of the running
  period, and any timer is due a whole period after it.
\<close>

definition thr_inv :: "int \<Rightarrow> bool \<Rightarrow> int \<Rightarrow> 'a thr \<Rightarrow> bool" where
  "thr_inv wait ld now s \<longleftrightarrow>
     sorted_wrt (\<lambda>x y. x + wait \<le> y) (map fst (th_log s)) \<and>
     th_previous s \<le> now \<and> 0 \<le> th_previous s \<and>
     (\<forall>x\<in>set (map fst (th_log s)). x \<le> now \<and> (th_previous s \<noteq> 0 \<or> ld \<longrightarrow> x \<le> th_previous s)) \<and>
     (\<forall>dt. th_timeout s = Some dt \<longrightarrow> (\<forall>x\<in>set (map fst (th_log s)). x + wait \<le> dt))"

lemma thr_apply_inv:
  assumes "sorted_wrt (\<lambda>x y. x + wait \<le> y) (map fst (th_log s))"
    and "\<forall>x\<in>set (map fst (th_log s)). x + wait \<le> now" "th_timeout s = None" "0 \<le> wait"
    and "th_previous s = now \<or> \<not> ld \<and> th_previous s = 0" "0 \<le> now"
  shows "thr_inv wait ld now (thr_apply now s)"
  using assms by (fastforce simp: thr_inv_def thr_apply_def sorted_wrt_append)

lemma thr_inv_mono: "thr_inv wait ld t s \<Longrightarrow> t \<le> now \<Longrightarrow> thr_inv wait ld now s"
  by (auto simp: thr_inv_def)

lemma thr_call_inv:
  assumes "thr_inv wait ld now s" "0 \<le> wait" "0 < now"
  shows "thr_inv wait ld now (thr_call wait ld tr now a s)"
proof -
  define s1 where "s1 = (if th_previous s = 0 \<and> \<not> ld then s\<lparr>th_previous := now\<rparr> else s)\<lparr>th_args := Some a\<rparr>"
  have log: "th_log s1 = th_log s" "th_timeout s1 = th_timeout s" by (simp_all add: s1_def)
  have p: "th_previous s1 = (if th_previous s = 0 \<and> \<not> ld then now else th_previous s)" by (simp add: s1_def)
  have before: "\<forall>x\<in>set (map fst (th_log s)). x \<le> th_previous s1"
    using assms(1) p by (auto simp: thr_inv_def)
  have range: "0 \<le> th_previous s1" "th_previous s1 \<le> now" using assms p by (auto simp: thr_inv_def)
  let ?rem = "wait - (now - th_previous s1)"
  have c: "thr_call wait ld tr now a s =
      (if ?rem \<le> 0 \<or> ?rem > wait then thr_apply now (s1\<lparr>th_timeout := None, th_previous := now\<rparr>)
       else if th_timeout s1 = None \<and> tr then s1\<lparr>th_timeout := Some (now + ?rem)\<rparr> else s1)"
    by (simp add: thr_call_def s1_def Let_def)
  show ?thesis
  proof (cases "?rem \<le> 0 \<or> ?rem > wait")
    case True
    then have r: "th_previous s1 + wait \<le> now" using range by auto
    have "thr_inv wait ld now (thr_apply now (s1\<lparr>th_timeout := None, th_previous := now\<rparr>))"
    proof (rule thr_apply_inv)
      show "sorted_wrt (\<lambda>x y. x + wait \<le> y) (map fst (th_log (s1\<lparr>th_timeout := None, th_previous := now\<rparr>)))"
        using assms(1) log by (simp add: thr_inv_def)
      show "\<forall>x\<in>set (map fst (th_log (s1\<lparr>th_timeout := None, th_previous := now\<rparr>))). x + wait \<le> now"
        using before r log by fastforce
    qed (use assms in simp_all)
    then show ?thesis using True c by simp
  next
    case False
    have i1: "thr_inv wait ld now s1"
      using assms(1) before log range by (simp add: thr_inv_def)
    have "thr_inv wait ld now (s1\<lparr>th_timeout := Some (now + ?rem)\<rparr>)"
      using i1 before log by (auto simp: thr_inv_def)
    then show ?thesis using False c i1 by simp
  qed
qed

lemma thr_later_inv:
  assumes "thr_inv wait ld now s" "0 \<le> wait" "0 < now"
  shows "thr_inv wait ld now (thr_later wait ld now s)"
proof (cases "th_timeout s")
  case (Some dt)
  show ?thesis
  proof (cases "now < dt")
    case False
    have "thr_inv wait ld now (thr_apply now (s\<lparr>th_previous := (if ld then now else 0), th_timeout := None\<rparr>))"
    proof (rule thr_apply_inv)
      show "\<forall>x\<in>set (map fst (th_log (s\<lparr>th_previous := (if ld then now else 0), th_timeout := None\<rparr>))). x + wait \<le> now"
        using assms(1) Some False by (fastforce simp: thr_inv_def)
    qed (use assms in \<open>simp_all add: thr_inv_def\<close>)
    then show ?thesis using Some False by (simp add: thr_later_def)
  qed (use assms Some in \<open>simp add: thr_later_def\<close>)
qed (use assms in \<open>simp add: thr_later_def\<close>)

text \<open>
  C13: with any combination of the options, two applications of a throttled function are never less
  than the waiting time apart, however the calls and the timer fall (on a clock that starts above
  0 and does not go back).
\<close>

theorem throttle_spacing:
  assumes "sorted (map fst evs)" "\<forall>e\<in>set evs. 0 < fst e" "0 \<le> wait"
  shows "sorted_wrt (\<lambda>x y. x + wait \<le> y) (map fst (th_log (thr_run wait ld tr evs)))"
proof -
  have "thr_inv wait ld (if evs = [] then 0 else fst (last evs)) (thr_run wait ld tr evs)"
    using assms(1,2)
  proof (induction evs rule: rev_induct)
    case Nil
    then show ?case by (simp add: thr_inv_def thr_run_def thr0_def)
  next
    case (snoc e evs)
    obtain now k where e: "e = (now, k)" by (cases e)
    have pos: "0 < now" using snoc.prems e by simp
    have le: "(if evs = [] then 0 else fst (last evs)) \<le> now"
      using snoc.prems pos by (auto simp: e sorted_append)
    have IH: "thr_inv wait ld now (thr_run wait ld tr evs)"
      using thr_inv_mono [OF _ le] snoc by (simp add: sorted_append)
    have "thr_inv wait ld now (thr_step wait ld tr e (thr_run wait ld tr evs))"
      using thr_call_inv [OF IH assms(3) pos] thr_later_inv [OF IH assms(3) pos] by (cases k) (simp_all add: e)
    then show ?case by (simp add: thr_run_def e)
  qed
  then show ?thesis by (simp add: thr_inv_def)
qed

theorem throttle_spacing_witness:
  "map fst (th_log (thr_run 100 True True [(1000, Call ''a''), (1050, Call ''b''), (1100, Later)])) = [1000, 1100] \<and>
   sorted_wrt (\<lambda>x y. x + 100 \<le> y)
     (map fst (th_log (thr_run 100 True True [(1000, Call ''a''), (1050, Call ''b''), (1100, Later)])))"
proof -
  let ?e = "[(1000, Call ''a''), (1050, Call ''b''), (1100, Later)] :: (int \<times> string timed) list"
  have h: "sorted (map fst ?e)" "\<forall>e\<in>set ?e. 0 < fst e" "(0::int) \<le> 100" by simp_all
  have "map fst (th_log (thr_run 100 True True ?e)) = [1000, 1100]"
    by (simp add: thr_run_def thr0_def thr_call_def thr_later_def thr_apply_def Let_def)
  with throttle_spacing [OF h] show ?thesis by blast
qed

section \<open>Options in attributes\<close>

datatype uarg = UText jstr | UBool bool | UUndef

definition ui_item :: "jstr \<Rightarrow> uarg" where
  "ui_item t =
     (if t = (js ''&'') then UUndef
      else if t = (js ''true'') then UBool True
      else if t = (js ''false'') then UBool False else UText t)"

definition uiParse :: "jstr \<Rightarrow> uarg list" where
  "uiParse action = map ui_item (tl (split_on (js ''|'') action))"

fun ui_show :: "uarg \<Rightarrow> jstr" where
  "ui_show (UText t) = t"
| "ui_show (UBool b) = (if b then (js ''true'') else (js ''false''))"
| "ui_show UUndef = (js ''&'')"

lemma uiParse_show:
  assumes "124 \<notin> set name" "\<forall>a\<in>set as. 124 \<notin> set (ui_show a) \<and> ui_item (ui_show a) = a"
  shows "uiParse (join_with (js ''|'') (name # map ui_show as)) = as"
proof -
  have "split_on [124] (join_with [124] (name # map ui_show as)) = name # map ui_show as"
    by (rule split_join) (use assms in auto)
  then show ?thesis using assms(2) by (simp add: uiParse_def js_def map_idI)
qed

section \<open>Placing\<close>

text \<open>\<open>center\<close>: the middle of the view; Internet Explorer 6 scrolls along.\<close>

definition center_pos :: "'a :: linordered_field \<Rightarrow> 'a \<Rightarrow> 'a \<Rightarrow> 'a \<Rightarrow> 'a option \<Rightarrow> 'a \<times> 'a" where
  "center_pos vw vh w h ie6_scroll =
     (let x = vw / 2 - w / 2; y = vh / 2 - h / 2
      in (x, case ie6_scroll of None \<Rightarrow> y | Some t \<Rightarrow> y + t))"

text \<open>\<open>setCursorPosition\<close>: the selection set, 10 ms later, in a field long enough.\<close>

definition setCursorPosition :: "bool \<Rightarrow> jstr \<Rightarrow> nat \<Rightarrow> (nat \<times> nat) option" where
  "setCursorPosition is_field v index =
     (if \<not> is_field then None else if length v < index then None else Some (index, index))"

section \<open>Dialog\<close>

datatype content = CText | CHtml | CAjax | CIframe

record pdialog =
  pd_open :: bool
  pd_loading :: bool
  pd_count :: int
  pd_shown :: "int option"
  pd_timers :: "unit timers"
  pd_timer :: "nat option"
  pd_resize :: bool
  pd_fast :: bool
  pd_callbacks :: nat
  pd_closes :: nat

text \<open>
  \<open>init\<close> at time \<open>now\<close>. An unknown type is treated as text. For ajax content the callback gets a
  function that takes the loading mark away; the other kinds take it away themselves.
\<close>

definition dialog_open ::
  "content \<Rightarrow> bool \<Rightarrow> int option \<Rightarrow> bool \<Rightarrow> int \<Rightarrow> unit timers \<Rightarrow> pdialog" where
  "dialog_open kind has_callback countdown fastClose now ts =
     (let (tm, ts) =
        (case countdown of
           None \<Rightarrow> (None, ts)
         | Some n \<Rightarrow> if n = 0 then (None, ts)
             else (case set_interval now 3000 () ts of (i, ts) \<Rightarrow> (Some i, ts)))
      in \<lparr>pd_open = True, pd_loading = (kind = CAjax), pd_count = (case countdown of None \<Rightarrow> 0 | Some n \<Rightarrow> n),
          pd_shown = (case countdown of None \<Rightarrow> None | Some n \<Rightarrow> if n = 0 then None else Some n),
          pd_timers = ts, pd_timer = tm, pd_resize = True, pd_fast = fastClose,
          pd_callbacks = (if has_callback then 1 else 0), pd_closes = 0\<rparr>)"

definition pd_close :: "pdialog \<Rightarrow> pdialog" where
  "pd_close d =
     d\<lparr>pd_timers := (case pd_timer d of None \<Rightarrow> pd_timers d | Some i \<Rightarrow> clear_timer i (pd_timers d)),
       pd_open := False, pd_resize := False, pd_closes := pd_closes d + 1\<rparr>"

text \<open>The close button, which works once; the click beside the box; a tick of the countdown.\<close>

definition pd_button :: "pdialog \<Rightarrow> pdialog" where
  "pd_button d = (if pd_open d then pd_close d else d)"

definition pd_body_click :: "bool \<Rightarrow> pdialog \<Rightarrow> pdialog" where
  "pd_body_click on_mask d =
     (if pd_fast d \<and> on_mask then pd_close (d\<lparr>pd_fast := False\<rparr>) else d)"

definition pd_tick :: "int \<Rightarrow> nat \<Rightarrow> pdialog \<Rightarrow> pdialog" where
  "pd_tick countdown i d =
     (case fire i (pd_timers d) of
        None \<Rightarrow> d
      | Some (u, ts) \<Rightarrow>
          if pd_timer d \<noteq> Some i then d\<lparr>pd_timers := ts\<rparr>
          else
            (let d = d\<lparr>pd_timers := ts, pd_count := pd_count d - 1, pd_shown := Some (pd_count d - 1)\<rparr>
             in if pd_count d = 0 then pd_close (d\<lparr>pd_count := countdown\<rparr>) else d))"

text \<open>The countdown left alone: \<open>k\<close> ticks of its timer.\<close>

definition pd_ticks :: "int \<Rightarrow> nat \<Rightarrow> nat \<Rightarrow> pdialog \<Rightarrow> pdialog" where
  "pd_ticks n i k d = (pd_tick n i ^^ k) d"

lemma pd_tick_pending:
  assumes "pending (pd_timers d) = [(i, Entry t (Some 3000) ())]" "pd_timer d = Some i"
  shows "pd_tick n i d =
    (let d' = d\<lparr>pd_timers := (pd_timers d)\<lparr>pending := [(i, Entry (t + 3000) (Some 3000) ())]\<rparr>,
               pd_count := pd_count d - 1, pd_shown := Some (pd_count d - 1)\<rparr>
     in if pd_count d - 1 = 0 then pd_close (d'\<lparr>pd_count := n\<rparr>) else d')"
  using assms by (simp add: pd_tick_def fire_def find_timer_def Let_def)

lemma pd_ticks_running:
  assumes "int k < n" "0 < now_n" "n = int now_n"
  shows "\<exists>ts. pd_ticks n 1 k (dialog_open kind cb (Some n) fast now no_timers) =
     (dialog_open kind cb (Some n) fast now no_timers)
       \<lparr>pd_timers := ts, pd_count := n - int k, pd_shown := Some (n - int k)\<rparr> \<and>
     pending ts = [(1, Entry (now + 3000 * int (Suc k)) (Some 3000) ())]"
  using assms
proof (induction k)
  case 0
  then show ?case
    by (intro exI [of _ "pd_timers (dialog_open kind cb (Some n) fast now no_timers)"])
      (simp add: pd_ticks_def dialog_open_def set_interval_def no_timers_def)
next
  case (Suc k)
  let ?d = "dialog_open kind cb (Some n) fast now no_timers"
  obtain ts where ts: "pd_ticks n 1 k ?d = ?d\<lparr>pd_timers := ts, pd_count := n - int k, pd_shown := Some (n - int k)\<rparr>"
    "pending ts = [(1, Entry (now + 3000 * int (Suc k)) (Some 3000) ())]"
    using Suc by force
  have tm: "pd_timer ?d = Some 1" using Suc.prems by (simp add: dialog_open_def set_interval_def no_timers_def)
  let ?s = "?d\<lparr>pd_timers := ts, pd_count := n - int k, pd_shown := Some (n - int k)\<rparr>"
  have "pd_ticks n 1 (Suc k) ?d = pd_tick n 1 ?s" using ts(1) by (simp add: pd_ticks_def)
  also have "\<dots> = ?d\<lparr>pd_timers := ts\<lparr>pending := [(1, Entry (now + 3000 * int (Suc (Suc k))) (Some 3000) ())]\<rparr>,
      pd_count := n - int (Suc k), pd_shown := Some (n - int (Suc k))\<rparr>"
    using pd_tick_pending [of ?s 1 "now + 3000 * int (Suc k)" n] ts(2) tm Suc.prems(1)
    by (simp add: Let_def algebra_simps)
  finally show ?case by (intro exI) (rule conjI, assumption, simp)
qed

text \<open>
  The countdown of a dialog shows every number once and closes the dialog at the end, taking
  its timer with it; but a step lasts 3000 milliseconds where the text beside the number says
  seconds, so a dialog announced to close after \<open>n\<close> seconds stays for \<open>3 n\<close>.
\<close>

theorem dialog_countdown:
  assumes "0 < n" and d_def: "d = dialog_open kind cb (Some n) fast now no_timers"
  shows "(int k < n \<longrightarrow> pd_open (pd_ticks n 1 k d) \<and> pd_shown (pd_ticks n 1 k d) = Some (n - int k) \<and>
      (\<exists>e. pending (pd_timers (pd_ticks n 1 k d)) = [(1, e)] \<and> due e = now + 3000 * int (Suc k))) \<and>
    \<not> pd_open (pd_ticks n 1 (nat n) d) \<and> pending (pd_timers (pd_ticks n 1 (nat n) d)) = []"
proof -
  have nn: "0 < nat n" "n = int (nat n)" using assms by simp_all
  have run: "\<exists>ts. pd_ticks n 1 k d = d\<lparr>pd_timers := ts, pd_count := n - int k, pd_shown := Some (n - int k)\<rparr> \<and>
      pending ts = [(1, Entry (now + 3000 * int (Suc k)) (Some 3000) ())]" if "int k < n" for k
    unfolding d_def using pd_ticks_running [OF that nn] by blast
  have tm: "pd_timer d = Some 1" "pd_open d"
    using assms by (simp_all add: d_def dialog_open_def set_interval_def no_timers_def)
  obtain m where m: "nat n = Suc m" using nn(1) by (cases "nat n") auto
  then have "int m < n" "n - int m - 1 = 0" using nn by auto
  from run [OF this(1)] obtain ts
    where ts: "pd_ticks n 1 m d = d\<lparr>pd_timers := ts, pd_count := n - int m, pd_shown := Some (n - int m)\<rparr>"
      "pending ts = [(1, Entry (now + 3000 * int (Suc m)) (Some 3000) ())]" by blast
  have "pd_ticks n 1 (nat n) d = pd_tick n 1 (pd_ticks n 1 m d)" by (simp add: m pd_ticks_def)
  also have "\<not> pd_open \<dots> \<and> pending (pd_timers \<dots>) = []"
    unfolding ts(1)
    using pd_tick_pending [of "d\<lparr>pd_timers := ts, pd_count := n - int m, pd_shown := Some (n - int m)\<rparr>" 1 _ n] ts(2) tm
      \<open>n - int m - 1 = 0\<close>
    by (simp add: Let_def pd_close_def clear_timer_def)
  finally show ?thesis using run [of k] tm(2) by auto
qed

theorem dialog_countdown_witness:
  "\<not> pd_open (pd_ticks 2 1 2 (dialog_open CText False (Some 2) False 0 no_timers))"
  using dialog_countdown [OF _ refl, of 2 0 CText False False 0] by simp

section \<open>Lazy loading\<close>

record 'a rect =
  r_left :: 'a
  r_top :: 'a
  r_width :: 'a
  r_height :: 'a

definition intersect :: "'a :: linordered_field \<Rightarrow> 'a rect \<Rightarrow> 'a rect \<Rightarrow> bool" where
  "intersect t rect1 rect2 =
     (let lc1 = r_left rect1 + r_width rect1 / 2; lc2 = r_left rect2 + r_width rect2 / 2;
          tc1 = r_top rect1 + r_height rect1 / 2; tc2 = r_top rect2 + r_height rect2 / 2;
          w1 = (r_width rect1 + r_width rect2) / 2; h1 = (r_height rect1 + r_height rect2) / 2
      in abs (lc1 - lc2) < w1 + t \<and> abs (tc1 - tc2) < h1 + t)"

definition spans_meet :: "'a :: linordered_field \<Rightarrow> 'a \<Rightarrow> 'a \<Rightarrow> 'a \<Rightarrow> bool" where
  "spans_meet a w b v \<longleftrightarrow> a < b + v \<and> b < a + w"

lemma half_spans:
  fixes a b :: "'a :: linordered_field"
  shows "abs (a + w / 2 - (b + v / 2)) < (w + v) / 2 + t \<longleftrightarrow> spans_meet (a - t) (w + 2 * t) b v"
proof -
  have "abs (a + w / 2 - (b + v / 2)) < (w + v) / 2 + t \<longleftrightarrow> abs (2 * a + w - (2 * b + v)) < w + v + 2 * t"
  proof -
    have "2 * a + w - (2 * b + v) = 2 * (a + w / 2 - (b + v / 2))" by (simp add: algebra_simps)
    then have "abs (2 * a + w - (2 * b + v)) = 2 * abs (a + w / 2 - (b + v / 2))"
      by (simp only: abs_mult abs_numeral)
    moreover have "y < (w + v) / 2 + t \<longleftrightarrow> 2 * y < w + v + 2 * t" for y
      by (simp add: field_simps)
    ultimately show ?thesis by metis
  qed
  also have "\<dots> \<longleftrightarrow> spans_meet (a - t) (w + 2 * t) b v"
    unfolding spans_meet_def abs_less_iff by (auto simp: algebra_simps)
  finally show ?thesis .
qed

text \<open>
  The test on the distance of the middles is the overlap of the two boxes after the first has
  been widened by the threshold on all sides.
\<close>

theorem intersect_overlap:
  "intersect t r1 r2 \<longleftrightarrow>
     spans_meet (r_left r1 - t) (r_width r1 + 2 * t) (r_left r2) (r_width r2) \<and>
     spans_meet (r_top r1 - t) (r_height r1 + 2 * t) (r_top r2) (r_height r2)"
  by (simp add: intersect_def Let_def half_spans)

text \<open>
  An element that waits: its source attribute, what was loaded, the number of callbacks, and the
  timer that follows scrolling. \<open>init\<close> looks once; scrolling puts a look off by 20 ms.
\<close>

record lazy =
  z_source :: "jstr option"
  z_loaded :: "jstr list"
  z_callbacks :: nat
  z_timers :: "unit timers"
  z_timer :: nat

datatype lazy_kind = LazyImage | LazyTextarea | LazyModule | LazyOther

definition lazy_init :: "lazy_kind \<Rightarrow> bool \<Rightarrow> bool \<Rightarrow> lazy \<Rightarrow> lazy" where
  "lazy_init kind has_callback flag z =
     (case z_source z of
        None \<Rightarrow> z
      | Some src \<Rightarrow>
          if src = [] \<or> \<not> flag \<or> kind = LazyOther then z
          else z\<lparr>z_source := None, z_loaded := z_loaded z @ [src],
                 z_callbacks := z_callbacks z + (if has_callback then 1 else 0)\<rparr>)"

definition rander :: "int \<Rightarrow> lazy \<Rightarrow> lazy" where
  "rander now z =
     (case set_timeout now 20 () (clear_timer (z_timer z) (z_timers z)) of
        (i, ts) \<Rightarrow> z\<lparr>z_timer := i, z_timers := ts\<rparr>)"

datatype lazy_event = Scroll int | LazyTimer nat bool

definition lazy_step :: "lazy_kind \<Rightarrow> bool \<Rightarrow> lazy_event \<Rightarrow> lazy \<Rightarrow> lazy" where
  "lazy_step kind cb e z =
     (case e of
        Scroll now \<Rightarrow> rander now z
      | LazyTimer i flag \<Rightarrow>
          (case fire i (z_timers z) of
             None \<Rightarrow> z
           | Some (u, ts) \<Rightarrow> lazy_init kind cb flag (z\<lparr>z_timers := ts\<rparr>)))"

definition lazy_new :: "jstr option \<Rightarrow> lazy" where
  "lazy_new src = \<lparr>z_source = src, z_loaded = [], z_callbacks = 0, z_timers = no_timers, z_timer = 0\<rparr>"

definition lazy_run :: "lazy_kind \<Rightarrow> bool \<Rightarrow> bool \<Rightarrow> jstr option \<Rightarrow> lazy_event list \<Rightarrow> lazy" where
  "lazy_run kind cb flag src evs = fold (lazy_step kind cb) evs (lazy_init kind cb flag (lazy_new src))"

definition lazy_inv :: "jstr option \<Rightarrow> lazy \<Rightarrow> bool" where
  "lazy_inv src z \<longleftrightarrow>
     one_shot (z_timers z) \<and> tmo.only (z_timer z) (z_timers z) \<and>
     (z_loaded z = [] \<and> z_source z = src \<and> z_callbacks z = 0 \<or>
      z_loaded z = [the src] \<and> z_source z = None \<and> src \<noteq> None \<and> z_callbacks z \<le> 1)"

lemma lazy_inv_init: "lazy_inv src z \<Longrightarrow> lazy_inv src (lazy_init kind cb flag z)"
  by (auto simp: lazy_inv_def lazy_init_def split: option.split)

lemma lazy_inv_rander: "lazy_inv src z \<Longrightarrow> lazy_inv src (rander now z)"
proof -
  assume inv: "lazy_inv src z"
  obtain i ts where s: "set_timeout now 20 () (clear_timer (z_timer z) (z_timers z)) = (i, ts)" by force
  have t: "timers_inv (z_timers z)" "tmo.only (z_timer z) (z_timers z)"
    using inv by (simp_all add: lazy_inv_def one_shot_def)
  have "tmo.only i ts" using tmo.only_set_after_clear [OF t s] by blast
  moreover have "one_shot (clear_timer (z_timer z) (z_timers z))"
    using inv timers_inv_clear [OF t(1)] unfolding lazy_inv_def one_shot_def by (auto simp: clear_timer_def)
  then have "one_shot ts" using one_shot_set_timeout [of _ now 20 "()"] s by (metis snd_conv)
  ultimately show ?thesis using inv s by (simp add: rander_def lazy_inv_def)
qed

lemma lazy_inv_step: "lazy_inv src z \<Longrightarrow> lazy_inv src (lazy_step kind cb e z)"
proof (cases e)
  case (LazyTimer i flag)
  assume inv: "lazy_inv src z"
  show ?thesis
  proof (cases "fire i (z_timers z)")
    case (Some a)
    obtain u ts where a: "a = (u, ts)" by (cases a)
    have o: "one_shot ts" using one_shot_fire [of "z_timers z" i u ts] inv Some a by (simp add: lazy_inv_def)
    obtain en where en: "find_timer (z_timers z) i = Some en" using Some by (auto simp: fire_def split: option.splits)
    then have "(i, en) \<in> set (pending (z_timers z))" by (simp add: find_timer_def map_of_SomeD)
    then have "period en = None" using inv by (auto simp: lazy_inv_def one_shot_def)
    then have "ts = clear_timer i (z_timers z)" using Some a en by (simp add: fire_def)
    then have "tmo.only (z_timer z) ts"
      using inv by (auto simp: lazy_inv_def tmo.only_def find_clear_timer)
    then have "lazy_inv src (z\<lparr>z_timers := ts\<rparr>)" using inv o by (simp add: lazy_inv_def)
    then show ?thesis using Some a LazyTimer by (simp add: lazy_step_def lazy_inv_init)
  qed (use LazyTimer inv in \<open>simp add: lazy_step_def\<close>)
qed (simp add: lazy_step_def lazy_inv_rander)

text \<open>
  However the page is scrolled, an element is loaded at most once, from its own source, its
  callback runs at most once, and at most one look is pending at any time.
\<close>

theorem lazy_loads_once:
  "z_loaded (lazy_run kind cb flag src evs) \<in> {[], [the src]} \<and>
   z_callbacks (lazy_run kind cb flag src evs) \<le> 1 \<and>
   (z_loaded (lazy_run kind cb flag src evs) = [] \<longrightarrow> z_source (lazy_run kind cb flag src evs) = src) \<and>
   length (pending (z_timers (lazy_run kind cb flag src evs))) \<le> 1"
proof -
  have new: "lazy_inv src (lazy_new src)"
    by (simp add: lazy_inv_def lazy_new_def tmo.only_def)
  have "lazy_inv src (fold (lazy_step kind cb) evs z)" if "lazy_inv src z" for z
    using that by (induction evs arbitrary: z) (simp_all add: lazy_inv_step)
  from this [OF lazy_inv_init [OF new]] have inv: "lazy_inv src (lazy_run kind cb flag src evs)"
    by (simp add: lazy_run_def)
  let ?t = "z_timers (lazy_run kind cb flag src evs)" and ?i = "z_timer (lazy_run kind cb flag src evs)"
  have d: "distinct (map fst (pending ?t))" using inv by (simp add: lazy_inv_def one_shot_def timers_inv_def)
  have "set (map fst (pending ?t)) \<subseteq> {?i}"
    using inv by (force simp: lazy_inv_def tmo.only_def find_timer_def map_of_eq_None_iff)
  then have "card (set (map fst (pending ?t))) \<le> 1" by (metis card.empty card_insert_le_m1 card_mono finite.emptyI finite.insertI is_singletonI is_singleton_altdef)
  then have "length (pending ?t) \<le> 1" using distinct_card [OF d] by simp
  then show ?thesis using inv by (auto simp: lazy_inv_def)
qed

theorem lazy_loads_once_witness:
  "z_source (lazy_run LazyImage True False (Some (js ''a.png'')) [Scroll 0, Scroll 10]) = Some (js ''a.png'')"
proof -
  have "z_loaded (lazy_run LazyImage True False (Some (js ''a.png'')) [Scroll 0, Scroll 10]) = []"
    by (simp add: lazy_run_def lazy_init_def lazy_new_def lazy_step_def rander_def set_timeout_def)
  then show ?thesis using lazy_loads_once [of LazyImage True False "Some (js ''a.png'')" "[Scroll 0, Scroll 10]"] by simp
qed

end
