(* ===== verification/Contabs.thy ===== *)
theory Contabs
  imports Js_Dom
begin

text \<open>
  The tab bar of the administration frame (\<open>plugin/hplus/js/contabs.js\<close>): every menu item opens a tab
  with an iframe of its own; tabs are activated, closed and scrolled. The widths of elements are
  those of the browser, and are arguments. An animation counts as finished when the next event comes.
  The code compares and selects by the address of a tab as text, so addresses hold no quotes.
\<close>

section \<open>Tabs and frames\<close>

text \<open>
  A tab with its three widths (\<open>outerWidth(true)\<close>, \<open>outerWidth()\<close>, \<open>width()\<close>); the first tab of the page
  has no icon to close it.
\<close>

record tab =
  t_id :: jstr
  t_text :: jstr
  t_icon :: bool
  t_active :: bool
  t_full :: int
  t_outer :: int
  t_width :: int

record frame =
  f_id :: jstr
  f_name :: jstr
  f_src :: jstr
  f_shown :: bool
  f_loads :: nat

record bar =
  tabs :: "tab list"
  frames :: "frame list"
  margin :: int

text \<open>
  The layout: the width of the bar and of its parts beside the tabs, the widths of the strip as
  functions of the tabs in it, and the widths of a tab with a given text.
\<close>

record layout =
  l_bar :: int
  l_others :: "int list"
  l_outer :: "tab list \<Rightarrow> int"
  l_width :: "tab list \<Rightarrow> int"
  l_text :: "jstr \<Rightarrow> int \<times> int \<times> int"

definition calSumWidth :: "int list \<Rightarrow> int" where
  "calSumWidth ws = fold (\<lambda>w width. width + w) ws 0"

definition visibleWidth :: "layout \<Rightarrow> int" where
  "visibleWidth lay = l_bar lay - calSumWidth (l_others lay)"

text \<open>
  An element is the position of a tab, or \<open>None\<close> for an empty jQuery set, whose width is \<open>null\<close> and
  counts as 0.
\<close>

definition next_el :: "bar \<Rightarrow> nat option \<Rightarrow> nat option" where
  "next_el s e = (case e of None \<Rightarrow> None | Some k \<Rightarrow> if k + 1 < length (tabs s) then Some (k + 1) else None)"

definition prev_el :: "nat option \<Rightarrow> nat option" where
  "prev_el e = (case e of None \<Rightarrow> None | Some k \<Rightarrow> if k = 0 then None else Some (k - 1))"

definition el_width :: "(tab \<Rightarrow> int) \<Rightarrow> bar \<Rightarrow> nat option \<Rightarrow> int" where
  "el_width w s e = (case e of None \<Rightarrow> 0 | Some k \<Rightarrow> if k < length (tabs s) then w (tabs s ! k) else 0)"

definition width_before :: "bar \<Rightarrow> nat option \<Rightarrow> int" where
  "width_before s e = (case e of None \<Rightarrow> 0 | Some k \<Rightarrow> calSumWidth (map t_full (take k (tabs s))))"

definition width_after :: "bar \<Rightarrow> nat option \<Rightarrow> int" where
  "width_after s e = (case e of None \<Rightarrow> 0 | Some k \<Rightarrow> calSumWidth (map t_full (drop (k + 1) (tabs s))))"

definition first_el :: "bar \<Rightarrow> nat option" where
  "first_el s = (if tabs s = [] then None else Some 0)"

definition active_el :: "bar \<Rightarrow> nat option" where
  "active_el s = (case filter (\<lambda>k. t_active (tabs s ! k)) [0..<length (tabs s)] of [] \<Rightarrow> None | k # ks \<Rightarrow> Some k)"

section \<open>Scrolling\<close>

text \<open>The loop of \<open>scrollToTab\<close>; where it goes on for ever the value is \<open>None\<close>.\<close>

partial_function (option) to_tab_loop :: "bar \<Rightarrow> int \<Rightarrow> int \<Rightarrow> nat option \<Rightarrow> int option" where
  "to_tab_loop s lim scroll e =
     (if scroll - el_width t_outer s e > lim
      then to_tab_loop s lim (scroll - el_width t_outer s (prev_el e)) (prev_el e)
      else Some scroll)"

definition scrollToTab :: "layout \<Rightarrow> nat option \<Rightarrow> bar \<Rightarrow> bar option" where
  "scrollToTab lay e s =
     (let marginLeftVal = width_before s e; marginRightVal = width_after s e; visible = visibleWidth lay;
          full = el_width t_full s
      in map_option (\<lambda>scroll. s\<lparr>margin := 0 - scroll\<rparr>)
        (if l_outer lay (tabs s) < visible then Some 0
         else if marginRightVal \<le> visible - full e - full (next_el s e) then
           (if visible - full (next_el s e) > marginRightVal
            then to_tab_loop s (l_outer lay (tabs s) - visible) marginLeftVal e
            else Some 0)
         else if marginLeftVal > visible - full e - full (prev_el e)
         then Some (marginLeftVal - full (prev_el e))
         else Some 0))"

text \<open>The tab at the left edge: the first loop of \<open>scrollTabLeft\<close> and \<open>scrollTabRight\<close>.\<close>

partial_function (option) edge_loop :: "bar \<Rightarrow> int \<Rightarrow> int \<Rightarrow> nat option \<Rightarrow> nat option option" where
  "edge_loop s m offset e =
     (if offset + el_width t_full s e \<le> m
      then edge_loop s m (offset + el_width t_full s e) (next_el s e)
      else Some e)"

text \<open>The second loops stop at the end of the strip, since they test for an empty set.\<close>

function back_loop :: "bar \<Rightarrow> int \<Rightarrow> int \<Rightarrow> nat option \<Rightarrow> nat option" where
  "back_loop s visible offset e =
     (if offset + el_width t_full s e < visible \<and> e \<noteq> None
      then back_loop s visible (offset + el_width t_full s e) (prev_el e)
      else e)"
  by pat_completeness auto
termination
  by (relation "measure (\<lambda>(s, v, off, e). case e of None \<Rightarrow> 0 | Some k \<Rightarrow> k + 1)")
    (auto simp: prev_el_def split: option.split)

function forth_loop :: "bar \<Rightarrow> int \<Rightarrow> int \<Rightarrow> nat option \<Rightarrow> nat option" where
  "forth_loop s visible offset e =
     (if offset + el_width t_full s e < visible \<and> e \<noteq> None
      then forth_loop s visible (offset + el_width t_full s e) (next_el s e)
      else e)"
  by pat_completeness auto
termination
  by (relation "measure (\<lambda>(s, v, off, e). case e of None \<Rightarrow> 0 | Some k \<Rightarrow> Suc (length (tabs s) - k))")
    (auto simp: next_el_def split: option.split)

declare back_loop.simps [simp del] forth_loop.simps [simp del]

definition scrollTabLeft :: "layout \<Rightarrow> bar \<Rightarrow> bar option" where
  "scrollTabLeft lay s =
     (if l_width lay (tabs s) < visibleWidth lay then Some s
      else map_option
        (\<lambda>e. s\<lparr>margin := 0 -
           (if width_before s e > visibleWidth lay then width_before s (back_loop s (visibleWidth lay) 0 e) else 0)\<rparr>)
        (edge_loop s \<bar>margin s\<bar> 0 (first_el s)))"

definition scrollTabRight :: "layout \<Rightarrow> bar \<Rightarrow> bar option" where
  "scrollTabRight lay s =
     (if l_width lay (tabs s) < visibleWidth lay then Some s
      else map_option
        (\<lambda>e. let scroll = width_before s (forth_loop s (visibleWidth lay) 0 e)
             in if scroll > 0 then s\<lparr>margin := 0 - scroll\<rparr> else s)
        (edge_loop s \<bar>margin s\<bar> 0 (first_el s)))"

section \<open>Operations\<close>

text \<open>\<open>show\<close> on the first frame with an address, \<open>hide\<close> on its siblings.\<close>

definition show_frame :: "jstr \<Rightarrow> frame list \<Rightarrow> frame list" where
  "show_frame i fs =
     (case dropWhile (\<lambda>f. f_id f \<noteq> i) fs of
        [] \<Rightarrow> fs
      | f # gs \<Rightarrow> map (f_shown_update (\<lambda>_. False)) (takeWhile (\<lambda>f. f_id f \<noteq> i) fs) @ f\<lparr>f_shown := True\<rparr> #
          map (f_shown_update (\<lambda>_. False)) gs)"

definition remove_frame :: "jstr \<Rightarrow> frame list \<Rightarrow> frame list" where
  "remove_frame i fs = takeWhile (\<lambda>f. f_id f \<noteq> i) fs @ tl (dropWhile (\<lambda>f. f_id f \<noteq> i) fs)"

definition activate_only :: "nat \<Rightarrow> tab list \<Rightarrow> tab list" where
  "activate_only k ts = map (\<lambda>(j, t). t\<lparr>t_active := (j = k)\<rparr>) (enumerate 0 ts)"

definition remove_nth :: "nat \<Rightarrow> 'a list \<Rightarrow> 'a list" where
  "remove_nth k xs = take k xs @ drop (k + 1) xs"

definition white :: "nat \<Rightarrow> bool" where
  "white u \<longleftrightarrow> (9 \<le> u \<and> u \<le> 13) \<or> (8192 \<le> u \<and> u \<le> 8202) \<or>
     u \<in> set [32, 160, 5760, 8232, 8233, 8239, 8287, 12288, 65279]"

definition jq_trim :: "jstr \<Rightarrow> jstr" where
  "jq_trim s = rev (dropWhile white (rev (dropWhile white s)))"

definition new_tab :: "layout \<Rightarrow> jstr \<Rightarrow> jstr \<Rightarrow> tab" where
  "new_tab lay url name =
     (case l_text lay name of (a, b, c) \<Rightarrow>
        \<lparr>t_id = url, t_text = name, t_icon = True, t_active = True, t_full = a, t_outer = b, t_width = c\<rparr>)"

definition new_frame :: "jstr \<Rightarrow> jstr \<Rightarrow> frame" where
  "new_frame url index = \<lparr>f_id = url, f_name = js ''iframe'' @ index, f_src = url, f_shown = True, f_loads = 0\<rparr>"

text \<open>\<open>append\<close> to the parents of the frames found: without a frame there is nothing to append to.\<close>

definition add_frame :: "frame \<Rightarrow> frame list \<Rightarrow> frame list" where
  "add_frame f fs = (if fs = [] then [] else map (f_shown_update (\<lambda>_. False)) fs @ [f])"

definition find_tab :: "jstr \<Rightarrow> tab list \<Rightarrow> nat option" where
  "find_tab url ts = (case filter (\<lambda>k. t_id (ts ! k) = url) [0..<length ts] of [] \<Rightarrow> None | k # ks \<Rightarrow> Some k)"

definition reload :: "jstr \<Rightarrow> bar \<Rightarrow> bar" where
  "reload url s =
     s\<lparr>frames := map (\<lambda>f. if f_id f = url then f\<lparr>f_src := url, f_loads := f_loads f + 1\<rparr> else f) (frames s)\<rparr>"

definition menuItem :: "layout \<Rightarrow> jstr option \<Rightarrow> jstr \<Rightarrow> jstr \<Rightarrow> bar \<Rightarrow> bar option" where
  "menuItem lay href index text s =
     (case href of
        None \<Rightarrow> Some s
      | Some url \<Rightarrow>
          if jq_trim url = [] then Some s
          else map_option (reload url)
            (case find_tab url (tabs s) of
               Some k \<Rightarrow>
                 if t_active (tabs s ! k) then Some s
                 else map_option (\<lambda>s. s\<lparr>frames := show_frame url (frames s)\<rparr>)
                   (scrollToTab lay (Some k) (s\<lparr>tabs := activate_only k (tabs s)\<rparr>))
             | None \<Rightarrow>
                 (let s = s\<lparr>tabs := map (t_active_update (\<lambda>_. False)) (tabs s) @ [new_tab lay url (jq_trim text)],
                            frames := add_frame (new_frame url index) (frames s)\<rparr>
                  in scrollToTab lay (active_el s) s)))"

text \<open>
  \<open>closeTab\<close>. The removed tab has no neighbours any more, so at most one of the two parts for an
  active tab does its work; a tab that is active and alone stays.
\<close>

definition hand_over :: "nat \<Rightarrow> nat \<Rightarrow> bar \<Rightarrow> bar" where
  "hand_over k j s =
     s\<lparr>tabs := remove_nth k ((tabs s)[j := (tabs s ! j)\<lparr>t_active := True\<rparr>]),
       frames := remove_frame (t_id (tabs s ! k)) (show_frame (t_id (tabs s ! j)) (frames s))\<rparr>"

definition closeTab :: "layout \<Rightarrow> nat \<Rightarrow> bar \<Rightarrow> bar option" where
  "closeTab lay k s =
     (let t = tabs s ! k in
      if t_active t then
        (if k + 1 < length (tabs s) then
           Some ((hand_over k (k + 1) s)\<lparr>margin := (if margin s < 0 then margin s + t_width t else margin s)\<rparr>)
         else if k > 0 then Some (hand_over k (k - 1) s)
         else Some s)
      else
        (let s = s\<lparr>tabs := remove_nth k (tabs s), frames := remove_frame (t_id t) (frames s)\<rparr>
         in scrollToTab lay (active_el s) s))"

definition closeOtherTabs :: "bar \<Rightarrow> bar" where
  "closeOtherTabs s =
     (let gone = filter (\<lambda>t. \<not> t_active t) (tl (tabs s))
      in s\<lparr>tabs := take 1 (tabs s) @ filter t_active (tl (tabs s)),
           frames := filter (\<lambda>f. f_id f \<notin> set (map t_id gone)) (frames s), margin := 0\<rparr>)"

definition closeAll :: "bar \<Rightarrow> bar" where
  "closeAll s =
     (let gone = tl (tabs s); fs = filter (\<lambda>f. f_id f \<notin> set (map t_id gone)) (frames s)
      in s\<lparr>tabs := map (t_active_update (\<lambda>_. True)) (take 1 (tabs s)),
           frames := map (\<lambda>f. if f_id f \<in> set (map t_id (take 1 (tabs s))) then f\<lparr>f_shown := True\<rparr> else f) fs,
           margin := 0\<rparr>)"

definition showActiveTab :: "layout \<Rightarrow> bar \<Rightarrow> bar option" where
  "showActiveTab lay s = scrollToTab lay (active_el s) s"

definition activeTab :: "layout \<Rightarrow> nat \<Rightarrow> bar \<Rightarrow> bar option" where
  "activeTab lay k s =
     (if t_active (tabs s ! k) then Some s
      else scrollToTab lay (Some k)
        (s\<lparr>frames := show_frame (t_id (tabs s ! k)) (frames s), tabs := activate_only k (tabs s)\<rparr>))"

text \<open>\<open>refreshTab\<close> reads the address of the frame and does nothing with it.\<close>

definition refreshTab :: "nat \<Rightarrow> bar \<Rightarrow> bar" where
  "refreshTab k s = s"

text \<open>Events on tabs that do not exist, or on icons that are not there, do not happen.\<close>

datatype bar_event =
    MenuItem "jstr option" jstr jstr
  | CloseIcon nat
  | TabClick nat
  | TabDouble nat
  | CloseOthers
  | CloseEvery
  | ShowActive
  | RollLeft
  | RollRight

fun bar_step :: "layout \<Rightarrow> bar_event \<Rightarrow> bar \<Rightarrow> bar option" where
  "bar_step lay (MenuItem href index text) s = menuItem lay href index text s"
| "bar_step lay (CloseIcon k) s =
     (if k < length (tabs s) \<and> t_icon (tabs s ! k) then closeTab lay k s else Some s)"
| "bar_step lay (TabClick k) s = (if k < length (tabs s) then activeTab lay k s else Some s)"
| "bar_step lay (TabDouble k) s = Some (if k < length (tabs s) then refreshTab k s else s)"
| "bar_step lay CloseOthers s = Some (closeOtherTabs s)"
| "bar_step lay CloseEvery s = Some (closeAll s)"
| "bar_step lay ShowActive s = showActiveTab lay s"
| "bar_step lay RollLeft s = scrollTabLeft lay s"
| "bar_step lay RollRight s = scrollTabRight lay s"

fun bar_run :: "layout \<Rightarrow> bar_event list \<Rightarrow> bar \<Rightarrow> bar option" where
  "bar_run lay [] s = Some s"
| "bar_run lay (e # es) s = Option.bind (bar_step lay e s) (bar_run lay es)"

text \<open>The page as it is loaded: the home tab and its frame.\<close>

definition bar0 :: "jstr \<Rightarrow> int \<times> int \<times> int \<Rightarrow> bar" where
  "bar0 home w =
     (case w of (a, b, c) \<Rightarrow>
        \<lparr>tabs = [\<lparr>t_id = home, t_text = [39318, 39029], t_icon = False, t_active = True, t_full = a, t_outer = b, t_width = c\<rparr>],
         frames = [\<lparr>f_id = home, f_name = js ''iframe0'', f_src = home, f_shown = True, f_loads = 0\<rparr>],
         margin = 0\<rparr>)"


section \<open>The bar implements a list of addresses with a focus\<close>

text \<open>The abstract bar: the addresses in the order of their opening, and the position of the one in front.\<close>

type_synonym focus = "jstr list \<times> nat"

definition spec_open :: "jstr \<Rightarrow> focus \<Rightarrow> focus" where
  "spec_open url f =
     (case f of (us, k) \<Rightarrow>
        if url \<in> set us then (us, length (takeWhile (\<lambda>u. u \<noteq> url) us)) else (us @ [url], length us))"

definition spec_close :: "nat \<Rightarrow> focus \<Rightarrow> focus" where
  "spec_close c f =
     (case f of (us, k) \<Rightarrow>
        if c = 0 \<or> length us \<le> c then f
        else (remove_nth c us, if c < k \<or> c = k \<and> c + 1 = length us then k - 1 else k))"

fun spec_step :: "bar_event \<Rightarrow> focus \<Rightarrow> focus" where
  "spec_step (MenuItem href index text) f =
     (case href of None \<Rightarrow> f | Some url \<Rightarrow> if jq_trim url = [] then f else spec_open url f)"
| "spec_step (CloseIcon c) f = spec_close c f"
| "spec_step (TabClick c) f = (if c < length (fst f) then (fst f, c) else f)"
| "spec_step (TabDouble c) f = f"
| "spec_step CloseOthers f = (if snd f = 0 then (take 1 (fst f), 0) else ([fst f ! 0, fst f ! snd f], 1))"
| "spec_step CloseEvery f = (take 1 (fst f), 0)"
| "spec_step ShowActive f = f"
| "spec_step RollLeft f = f"
| "spec_step RollRight f = f"

definition view :: "tab list \<Rightarrow> (jstr \<times> bool) list" where
  "view ts = map (\<lambda>t. (t_id t, t_active t)) ts"

definition fview :: "frame list \<Rightarrow> (jstr \<times> bool) list" where
  "fview fs = map (\<lambda>f. (f_id f, f_shown f)) fs"

definition lit :: "focus \<Rightarrow> (jstr \<times> bool) list" where
  "lit f = map (\<lambda>j. (fst f ! j, j = snd f)) [0..<length (fst f)]"

text \<open>
  A bar shows an abstract one: its tabs and its frames carry these addresses, the one in front is
  the only active tab and the only visible frame, and all but the first can be closed.
\<close>

definition shows_focus :: "bar \<Rightarrow> focus \<Rightarrow> bool" where
  "shows_focus s f \<longleftrightarrow>
     snd f < length (fst f) \<and> distinct (fst f) \<and> view (tabs s) = lit f \<and> fview (frames s) = lit f \<and>
     map t_icon (tabs s) = map (\<lambda>j. 0 < j) [0..<length (fst f)]"

lemma length_lit [simp]: "length (lit f) = length (fst f)"
  by (simp add: lit_def)

lemma nth_lit [simp]: "j < length (fst f) \<Longrightarrow> lit f ! j = (fst f ! j, j = snd f)"
  by (simp add: lit_def)

lemma map_fst_lit [simp]: "map fst (lit f) = fst f"
  by (simp add: lit_def comp_def map_nth)

lemma length_remove_nth [simp]: "k < length xs \<Longrightarrow> length (remove_nth k xs) = length xs - 1"
  by (simp add: remove_nth_def)

lemma nth_remove_nth:
  "k < length xs \<Longrightarrow> j < length xs - 1 \<Longrightarrow> remove_nth k xs ! j = (if j < k then xs ! j else xs ! (j + 1))"
  by (auto simp: remove_nth_def nth_append)

lemma map_remove_nth: "map g (remove_nth k xs) = remove_nth k (map g xs)"
  by (simp add: remove_nth_def take_map drop_map)

lemma distinct_remove_nth: "distinct xs \<Longrightarrow> distinct (remove_nth k xs)"
  by (simp add: remove_nth_def set_take_disj_set_drop_if_distinct)

lemma filter_eq_upt: "filter (\<lambda>j. j = k) [a..<b] = (if a \<le> k \<and> k < b then [k] else [])"
  by (induction b) auto

lemma takeWhile_key:
  assumes "distinct (map g xs)" "c < length xs"
  shows "takeWhile (\<lambda>x. g x \<noteq> g (xs ! c)) xs = take c xs"
  using assms by (intro takeWhile_eq_take_P_nth) (auto simp: distinct_conv_nth)

lemma dropWhile_key:
  assumes "distinct (map g xs)" "c < length xs"
  shows "dropWhile (\<lambda>x. g x \<noteq> g (xs ! c)) xs = xs ! c # drop (c + 1) xs"
  using assms by (simp add: dropWhile_eq_drop takeWhile_key Cons_nth_drop_Suc)

lemma remove_frame_nth:
  "distinct (map f_id fs) \<Longrightarrow> c < length fs \<Longrightarrow> remove_frame (f_id (fs ! c)) fs = remove_nth c fs"
  by (simp add: remove_frame_def takeWhile_key dropWhile_key remove_nth_def)

lemma fview_show_frame:
  assumes "fview fs = lit (us, k)" "distinct us" "c < length us"
  shows "fview (show_frame (us ! c) fs) = lit (us, c)"
proof -
  have ids: "map f_id fs = us" using arg_cong [OF assms(1), of "map fst"] by (simp add: fview_def comp_def)
  then have l: "length fs = length us" "us ! c = f_id (fs ! c)" using assms(3) by auto
  have "show_frame (us ! c) fs = map (f_shown_update (\<lambda>_. False)) (take c fs) @ (fs ! c)\<lparr>f_shown := True\<rparr> #
      map (f_shown_update (\<lambda>_. False)) (drop (c + 1) fs)"
    using assms(2,3) ids l by (simp add: show_frame_def takeWhile_key dropWhile_key)
  then have e: "fview (show_frame (us ! c) fs) =
      map (\<lambda>f. (f_id f, False)) (take c fs) @ (f_id (fs ! c), True) # map (\<lambda>f. (f_id f, False)) (drop (c + 1) fs)"
    by (simp add: fview_def comp_def)
  have n: "f_id (fs ! j) = us ! j" if "j < length us" for j using that l(1) ids by (metis nth_map)
  show ?thesis
  proof (rule nth_equalityI)
    fix j assume "j < length (fview (show_frame (us ! c) fs))"
    then have j: "j < length us" using e l(1) assms(3) by simp
    consider "j < c" | "j = c" | "c < j" by linarith
    then show "fview (show_frame (us ! c) fs) ! j = lit (us, c) ! j"
      by cases (use j l(1) assms(3) n in \<open>simp_all add: e nth_append nth_Cons'\<close>)
  qed (use e l(1) assms(3) in simp)
qed

lemma view_activate: "view (activate_only c ts) = lit (map t_id ts, c)"
  by (auto simp: view_def activate_only_def nth_enumerate_eq intro!: nth_equalityI)

lemma icon_activate [simp]: "map t_icon (activate_only c ts) = map t_icon ts"
  by (auto simp: activate_only_def nth_enumerate_eq intro!: nth_equalityI)

lemma map_id_view: "map t_id ts = map fst (view ts)" "map f_id fs = map fst (fview fs)"
  by (simp_all add: view_def fview_def)

lemma shows_ids: "shows_focus s f \<Longrightarrow> map t_id (tabs s) = fst f" "shows_focus s f \<Longrightarrow> map f_id (frames s) = fst f"
  by (simp_all add: shows_focus_def map_id_view)

lemma shows_length:
  assumes "shows_focus s f"
  shows "length (tabs s) = length (fst f)" "length (frames s) = length (fst f)"
  using arg_cong [OF shows_ids(1) [OF assms], of length] arg_cong [OF shows_ids(2) [OF assms], of length] by simp_all

lemma shows_nth:
  assumes "shows_focus s f" "j < length (fst f)"
  shows "t_id (tabs s ! j) = fst f ! j" "t_active (tabs s ! j) \<longleftrightarrow> j = snd f" "t_icon (tabs s ! j) \<longleftrightarrow> 0 < j"
proof -
  have l: "j < length (tabs s)" using assms by (simp add: shows_length)
  have "view (tabs s) ! j = lit f ! j" "map t_icon (tabs s) ! j = map (\<lambda>j. 0 < j) [0..<length (fst f)] ! j"
    using assms(1) by (simp_all add: shows_focus_def)
  then show "t_id (tabs s ! j) = fst f ! j" "t_active (tabs s ! j) \<longleftrightarrow> j = snd f" "t_icon (tabs s ! j) \<longleftrightarrow> 0 < j"
    using l assms(2) by (simp_all add: view_def)
qed

lemma active_el_shows: "shows_focus s f \<Longrightarrow> active_el s = Some (snd f)"
proof -
  assume a: "shows_focus s f"
  have "filter (\<lambda>k. t_active (tabs s ! k)) [0..<length (tabs s)] = filter (\<lambda>j. j = snd f) [0..<length (tabs s)]"
    using shows_nth(2) [OF a] shows_length(1) [OF a] by (intro filter_cong) auto
  then show ?thesis using a by (simp add: active_el_def filter_eq_upt shows_length) (simp add: shows_focus_def)
qed

lemma shows_margin [simp]: "shows_focus (s\<lparr>margin := m\<rparr>) f = shows_focus s f"
  by (simp add: shows_focus_def)

lemma scroll_shows: "scrollToTab lay e s = Some s' \<Longrightarrow> shows_focus s' f = shows_focus s f"
  by (auto simp: scrollToTab_def Let_def)

lemma reload_shows [simp]: "shows_focus (reload url s) f = shows_focus s f"
proof -
  have "fview (frames (reload url s)) = fview (frames s)" by (auto simp: reload_def fview_def)
  then show ?thesis by (simp add: shows_focus_def) (simp add: reload_def)
qed


lemma scroll_margin: "scrollToTab lay e s = Some s' \<Longrightarrow> \<exists>m. s' = s\<lparr>margin := m\<rparr>"
  by (auto simp: scrollToTab_def Let_def)

lemma find_tab_Some:
  assumes "shows_focus s f" "find_tab url (tabs s) = Some c"
  shows "c < length (fst f)" "fst f ! c = url" "length (takeWhile (\<lambda>u. u \<noteq> url) (fst f)) = c"
proof -
  obtain ks where "filter (\<lambda>k. t_id (tabs s ! k) = url) [0..<length (tabs s)] = c # ks"
    using assms(2) by (auto simp: find_tab_def split: list.splits)
  then have "c \<in> set (filter (\<lambda>k. t_id (tabs s ! k) = url) [0..<length (tabs s)])" by simp
  then have c: "c < length (tabs s)" "t_id (tabs s ! c) = url" by auto
  then show u: "c < length (fst f)" "fst f ! c = url"
    using shows_length [OF assms(1)] shows_nth(1) [OF assms(1)] by auto
  have "takeWhile (\<lambda>u. u \<noteq> fst f ! c) (fst f) = take c (fst f)"
    using assms(1) u(1) takeWhile_key [of "\<lambda>u. u" "fst f" c] by (simp add: shows_focus_def)
  then show "length (takeWhile (\<lambda>u. u \<noteq> url) (fst f)) = c" using u by simp
qed

lemma find_tab_None: "shows_focus s f \<Longrightarrow> find_tab url (tabs s) = None \<Longrightarrow> url \<notin> set (fst f)"
  using shows_ids(1) [of s f]
  by (auto simp: find_tab_def filter_empty_conv in_set_conv_nth shows_length shows_nth split: list.splits)

lemma shows_front:
  assumes "shows_focus s (us, k)" "c < length us"
  shows "shows_focus (s\<lparr>frames := show_frame (us ! c) (frames s), tabs := activate_only c (tabs s)\<rparr>) (us, c)"
  using assms fview_show_frame [of "frames s" us k c] shows_ids(1) [OF assms(1)]
  by (simp add: shows_focus_def view_activate)

lemma icon_off [simp]: "map (t_icon \<circ> t_active_update g) ts = map t_icon ts"
  by simp

lemma shows_new:
  assumes "shows_focus s (us, k)" "url \<notin> set us"
  shows "shows_focus (s\<lparr>tabs := map (t_active_update (\<lambda>_. False)) (tabs s) @ [new_tab lay url name],
    frames := add_frame (new_frame url index) (frames s)\<rparr>) (us @ [url], length us)"
proof -
  have l: "length (tabs s) = length us" "length (frames s) = length us" "us \<noteq> []"
    using shows_length [OF assms(1)] assms(1) by (auto simp: shows_focus_def)
  have new: "t_id (new_tab lay url name) = url" "t_active (new_tab lay url name)" "t_icon (new_tab lay url name)"
    by (simp_all add: new_tab_def split: prod.split)
  have ids: "map t_id (tabs s) = us" "map f_id (frames s) = us" using shows_ids [OF assms(1)] by simp_all
  have off: "map (\<lambda>u. (u, False)) us @ [(url, True)] = lit (us @ [url], length us)"
    by (rule nth_equalityI) (auto simp: nth_append)
  have "view (map (t_active_update (\<lambda>_. False)) (tabs s) @ [new_tab lay url name]) = map (\<lambda>u. (u, False)) us @ [(url, True)]"
    unfolding ids(1) [symmetric] by (simp add: view_def comp_def new)
  moreover have "fview (add_frame (new_frame url index) (frames s)) = map (\<lambda>u. (u, False)) us @ [(url, True)]"
    unfolding ids(2) [symmetric] using l by (auto simp: fview_def add_frame_def new_frame_def comp_def)
  ultimately show ?thesis
    using assms new off l(3) icon_off [of "\<lambda>_. False" "tabs s"] by (auto simp: shows_focus_def simp del: map_eq_conv)
qed

lemma menuItem_shows:
  assumes "shows_focus s f" "menuItem lay href index text s = Some s'"
  shows "shows_focus s' (spec_step (MenuItem href index text) f)"
proof (cases "\<exists>url. href = Some url \<and> jq_trim url \<noteq> []")
  case False
  then show ?thesis using assms by (auto simp: menuItem_def split: option.splits if_splits)
next
  case True
  then obtain url where url: "href = Some url" "jq_trim url \<noteq> []" by blast
  obtain us k where f: "f = (us, k)" by (cases f)
  show ?thesis
  proof (cases "find_tab url (tabs s)")
    case None
    then show ?thesis
      using assms url f find_tab_None [OF assms(1) None] shows_new [of s us k url index lay "jq_trim text"]
      by (auto simp: menuItem_def spec_open_def Let_def scroll_shows)
  next
    case (Some c)
    note c = find_tab_Some [OF assms(1) Some]
    have m: "url \<in> set us" "spec_open url f = (us, c)" using c f by (auto simp: spec_open_def)
    show ?thesis
    proof (cases "t_active (tabs s ! c)")
      case True
      then have "c = k" using shows_nth(2) [OF assms(1) c(1)] f by simp
      then show ?thesis using assms url f Some True m(2) by (auto simp: menuItem_def)
    next
      case False
      then obtain s'' where s'': "scrollToTab lay (Some c) (s\<lparr>tabs := activate_only c (tabs s)\<rparr>) = Some s''"
        "s' = reload url (s''\<lparr>frames := show_frame url (frames s'')\<rparr>)"
        using assms(2) url Some by (auto simp: menuItem_def)
      then obtain mg where "s'' = s\<lparr>tabs := activate_only c (tabs s), margin := mg\<rparr>"
        using scroll_margin by fastforce
      then have "s''\<lparr>frames := show_frame url (frames s'')\<rparr> =
          (s\<lparr>frames := show_frame url (frames s), tabs := activate_only c (tabs s)\<rparr>)\<lparr>margin := mg\<rparr>" by simp
      moreover have "shows_focus (s\<lparr>frames := show_frame (us ! c) (frames s), tabs := activate_only c (tabs s)\<rparr>) (us, c)"
        using shows_front assms(1) c(1) f by simp
      ultimately show ?thesis using s''(2) url m c(2) f by (simp only:) (simp add: url)
    qed
  qed
qed

lemma lit_remove:
  assumes "c < length us" "c \<noteq> k"
  shows "remove_nth c (lit (us, k)) = lit (remove_nth c us, if c < k then k - 1 else k)"
  using assms by (intro nth_equalityI) (auto simp: nth_remove_nth)

lemma icons_remove:
  "0 < c \<Longrightarrow> c < n \<Longrightarrow> remove_nth c (map (\<lambda>j. (0::nat) < j) [0..<n]) = map (\<lambda>j. 0 < j) [0..<n - 1]"
  by (intro nth_equalityI) (auto simp: nth_remove_nth)

lemma shows_removed:
  assumes "view ts = lit (us, k)" "fview fs = lit (us, k)" "distinct us" "k < length us" "0 < c" "c < length us"
    "c \<noteq> k" "map t_icon ts = map (\<lambda>j. 0 < j) [0..<length us]"
  shows "shows_focus (s\<lparr>tabs := remove_nth c ts, frames := remove_frame (us ! c) fs\<rparr>)
    (remove_nth c us, if c < k then k - 1 else k)"
proof -
  have ids: "map f_id fs = us" by (simp add: map_id_view assms(2))
  then have l: "length fs = length us" "us ! c = f_id (fs ! c)" using assms(6) by auto
  have "remove_frame (us ! c) fs = remove_nth c fs" using remove_frame_nth [of fs c] assms(3,6) ids l by simp
  then have "fview (remove_frame (us ! c) fs) = remove_nth c (lit (us, k))"
    by (simp add: fview_def map_remove_nth) (simp add: fview_def [symmetric] assms(2))
  moreover have "view (remove_nth c ts) = remove_nth c (lit (us, k))"
    by (simp add: view_def map_remove_nth) (simp add: view_def [symmetric] assms(1))
  ultimately show ?thesis
    using assms lit_remove [OF assms(6,7)] icons_remove [OF assms(5,6)]
    by (auto simp: shows_focus_def distinct_remove_nth map_remove_nth)
qed


lemma frames_removed:
  assumes "fview fs = lit (us, k)" "distinct us" "c < length us" "c \<noteq> k"
  shows "fview (remove_frame (us ! c) fs) = lit (remove_nth c us, if c < k then k - 1 else k)"
proof -
  have ids: "map f_id fs = us" by (simp add: map_id_view assms(1))
  then have l: "length fs = length us" "us ! c = f_id (fs ! c)" using assms(3) by auto
  have "remove_frame (us ! c) fs = remove_nth c fs" using remove_frame_nth [of fs c] assms(2,3) ids l by simp
  then show ?thesis
    using lit_remove [OF assms(3,4)] by (simp add: fview_def map_remove_nth) (simp add: fview_def [symmetric] assms(1))
qed

lemma shows_hand_over:
  assumes "shows_focus s (us, k)" "0 < k" "j < length us" "j = k + 1 \<or> j = k - 1"
  shows "shows_focus (hand_over k j s) (remove_nth k us, if k < j then k else k - 1)"
proof -
  have k: "k < length us" "distinct us" and v: "view (tabs s) = lit (us, k)" "fview (frames s) = lit (us, k)"
    and i: "map t_icon (tabs s) = map (\<lambda>j. 0 < j) [0..<length us]"
    using assms(1) by (simp_all add: shows_focus_def)
  have l: "length (tabs s) = length us" using shows_length(1) [OF assms(1)] by simp
  have jk: "j \<noteq> k" "k \<noteq> j" "(if k < j then j - 1 else j) = (if k < j then k else k - 1)" using assms(2,4) by auto
  have ids: "t_id (tabs s ! k) = us ! k" "t_id (tabs s ! j) = us ! j"
    using shows_nth(1) [OF assms(1)] k assms(3) by simp_all
  have "fview (show_frame (us ! j) (frames s)) = lit (us, j)" by (rule fview_show_frame [OF v(2) k(2) assms(3)])
  then have "fview (frames (hand_over k j s)) = lit (remove_nth k us, if k < j then k else k - 1)"
    using frames_removed [of _ us j k] k jk by (simp add: hand_over_def ids)
  moreover have "view (tabs (hand_over k j s)) = remove_nth k ((view (tabs s)) [j := (us ! j, True)])"
    by (simp add: hand_over_def view_def map_remove_nth map_update ids)
  moreover have "remove_nth k ((lit (us, k)) [j := (us ! j, True)]) = lit (remove_nth k us, if k < j then k else k - 1)"
    using k(1) assms(2-4) by (intro nth_equalityI) (auto simp: nth_remove_nth nth_list_update)
  moreover have "map t_icon (tabs (hand_over k j s)) = remove_nth k ((map t_icon (tabs s)) [j := t_icon (tabs s ! j)])"
    by (simp add: hand_over_def map_remove_nth map_update)
  moreover have "(map t_icon (tabs s)) [j := t_icon (tabs s ! j)] = map t_icon (tabs s)"
    using assms(3) l by (simp add: list_update_same_conv)
  moreover have "(if k < j then k else k - 1) < length us - 1" using assms(2-4) k(1) by auto
  ultimately show ?thesis
    using k v(1) i icons_remove [OF assms(2) k(1)] by (auto simp: shows_focus_def distinct_remove_nth)
qed

lemma closeTab_shows:
  assumes "shows_focus s f" "c < length (tabs s)" "t_icon (tabs s ! c)" "closeTab lay c s = Some s'"
  shows "shows_focus s' (spec_close c f)"
proof -
  obtain us k where f: "f = (us, k)" by (cases f)
  have k: "k < length us" "distinct us" and v: "view (tabs s) = lit (us, k)" "fview (frames s) = lit (us, k)"
    and i: "map t_icon (tabs s) = map (\<lambda>j. 0 < j) [0..<length us]"
    using assms(1) f by (simp_all add: shows_focus_def)
  have c: "c < length us" "0 < c" "t_id (tabs s ! c) = us ! c" "t_active (tabs s ! c) \<longleftrightarrow> c = k"
    using assms(1-3) shows_length(1) [OF assms(1)] shows_nth [OF assms(1)] f by simp_all
  have l: "length (tabs s) = length us" using shows_length(1) [OF assms(1)] f by simp
  show ?thesis
  proof (cases "c = k")
    case False
    then have "shows_focus (s\<lparr>tabs := remove_nth c (tabs s), frames := remove_frame (us ! c) (frames s)\<rparr>)
        (remove_nth c us, if c < k then k - 1 else k)"
      using shows_removed [OF v k(2,1) c(2,1) False i] by simp
    then show ?thesis
      using assms(4) False c f by (auto simp: closeTab_def Let_def spec_close_def scroll_shows)
  next
    case True
    then show ?thesis
      using assms(1,4) c f l shows_hand_over [of s us k "k + 1"] shows_hand_over [of s us k "k - 1"]
      by (auto simp: closeTab_def Let_def spec_close_def split: if_splits)
  qed
qed

lemma view_filter: "view (filter (\<lambda>t. Q (t_id t)) ts) = filter (\<lambda>p. Q (fst p)) (view ts)"
  by (simp add: view_def filter_map comp_def)

lemma fview_filter: "fview (filter (\<lambda>f. Q (f_id f)) fs) = filter (\<lambda>p. Q (fst p)) (fview fs)"
  by (simp add: fview_def filter_map comp_def)

lemma closeOther_shows:
  assumes "shows_focus s f"
  shows "shows_focus (closeOtherTabs s) (spec_step CloseOthers f)"
proof -
  obtain us k where f: "f = (us, k)" by (cases f)
  have k: "k < length us" "distinct us" and v: "view (tabs s) = lit (us, k)" "fview (frames s) = lit (us, k)"
    using assms(1) f by (simp_all add: shows_focus_def)
  have l: "length (tabs s) = length us" using shows_length(1) [OF assms(1)] f by simp
  have n: "\<And>j. j < length us \<Longrightarrow> t_id (tabs s ! j) = us ! j" "\<And>j. j < length us \<Longrightarrow> t_active (tabs s ! j) = (j = k)"
    "\<And>j. j < length us \<Longrightarrow> t_icon (tabs s ! j) = (0 < j)"
    using shows_nth [OF assms(1)] f by simp_all
  obtain t ts where t: "tabs s = t # ts" using l k(1) by (cases "tabs s") auto
  have tk: "tl (tabs s) = map (\<lambda>j. tabs s ! j) [1..<length us]"
    using l by (intro nth_equalityI) (auto simp: nth_tl)
  have act: "filter t_active (tl (tabs s)) = (if k = 0 then [] else [tabs s ! k])"
  proof -
    have "filter (t_active \<circ> (!) (tabs s)) [1..<length us] = filter (\<lambda>j. j = k) [1..<length us]"
      using n(2) by (intro filter_cong) auto
    then show ?thesis using k(1) unfolding tk filter_map by (simp add: filter_eq_upt)
  qed
  define kept where "kept = take 1 (tabs s) @ filter t_active (tl (tabs s))"
  have kv: "kept = (if k = 0 then [tabs s ! 0] else [tabs s ! 0, tabs s ! k])"
    using act t by (simp add: kept_def)
  have d: "distinct (map t_id (tabs s))" using shows_ids(1) [OF assms] k f by simp
  let ?gone = "map t_id (filter (\<lambda>t. \<not> t_active t) (tl (tabs s)))"
  have "filter (\<lambda>t. t_id t \<notin> set ?gone) ts = filter t_active ts"
    using d t by (intro filter_cong refl) (auto simp: distinct_map inj_on_def)
  moreover have "t_id t \<notin> set ?gone" using d t by auto
  ultimately have "filter (\<lambda>t. t_id t \<notin> set ?gone) (tabs s) = kept" by (simp add: kept_def t)
  then have "fview (frames (closeOtherTabs s)) = view kept"
    using v fview_filter [of "\<lambda>i. i \<notin> set ?gone" "frames s"] view_filter [of "\<lambda>i. i \<notin> set ?gone" "tabs s"]
    by (simp add: closeOtherTabs_def Let_def)
  moreover have "tabs (closeOtherTabs s) = kept" by (simp add: closeOtherTabs_def Let_def kept_def)
  moreover have "view kept = lit (spec_step CloseOthers f)"
    using k(1) n by (cases us) (auto simp: kv view_def lit_def f upt_rec)
  ultimately show ?thesis
    using k n by (cases us) (auto simp: shows_focus_def kv f upt_rec nth_eq_iff_index_eq)
qed

lemma closeAll_shows:
  assumes "shows_focus s f"
  shows "shows_focus (closeAll s) (spec_step CloseEvery f)"
proof -
  obtain us k where f: "f = (us, k)" by (cases f)
  have k: "k < length us" "distinct us" and v: "view (tabs s) = lit (us, k)" "fview (frames s) = lit (us, k)"
    using assms(1) f by (simp_all add: shows_focus_def)
  have l: "length (tabs s) = length us" using shows_length(1) [OF assms(1)] f by simp
  obtain t ts where t: "tabs s = t # ts" using l k(1) by (cases "tabs s") auto
  have d: "distinct (map t_id (tabs s))" using shows_ids(1) [OF assms] k f by simp
  have "0 < length us" using k(1) by linarith
  then have u: "t_id t = us ! 0" "\<not> t_icon t" using shows_nth(1,3) [OF assms, of 0] t f by simp_all
  have "filter (\<lambda>t. t_id t \<notin> set (map t_id ts)) (tabs s) = [t]" using d t by (auto simp: filter_empty_conv)
  then have "fview (filter (\<lambda>f. f_id f \<notin> set (map t_id ts)) (frames s)) = [(us ! 0, t_active t)]"
    using v fview_filter [of "\<lambda>i. i \<notin> set (map t_id ts)" "frames s"] view_filter [of "\<lambda>i. i \<notin> set (map t_id ts)" "tabs s"]
    by (simp add: view_def u)
  then obtain fr where "filter (\<lambda>f. f_id f \<notin> set (map t_id ts)) (frames s) = [fr]" "f_id fr = us ! 0"
    by (auto simp: fview_def)
  then show ?thesis
    using k u t f by (cases us) (auto simp: shows_focus_def closeAll_def Let_def lit_def view_def fview_def)
qed


lemma activeTab_shows:
  assumes "shows_focus s f" "c < length (fst f)" "activeTab lay c s = Some s'"
  shows "shows_focus s' (fst f, c)"
proof -
  have c: "t_id (tabs s ! c) = fst f ! c" "t_active (tabs s ! c) \<longleftrightarrow> c = snd f" using shows_nth [OF assms(1,2)] by simp_all
  show ?thesis
    using assms c shows_front [of s "fst f" "snd f" c]
    by (cases "c = snd f") (auto simp: activeTab_def scroll_shows)
qed

lemma bar_step_shows:
  assumes "shows_focus s f" "bar_step lay e s = Some s'"
  shows "shows_focus s' (spec_step e f)"
proof (cases e)
  case (MenuItem href index nm)
  then show ?thesis using menuItem_shows [OF assms(1), of lay href index nm s'] assms by simp
next
  case (CloseIcon c)
  have "\<not> t_icon (tabs s ! c) \<Longrightarrow> c < length (fst f) \<Longrightarrow> c = 0" using shows_nth(3) [OF assms(1)] by auto
  then show ?thesis
    using CloseIcon assms closeTab_shows [OF assms(1)] shows_length [OF assms(1)]
    by (auto simp: spec_close_def split: if_splits prod.split)
next
  case (TabClick c)
  then show ?thesis
    using assms activeTab_shows [OF assms(1)] shows_length [OF assms(1)] by (auto split: if_splits)
next
  case (TabDouble c)
  then show ?thesis using assms by (auto simp: refreshTab_def split: if_splits)
next
  case CloseOthers
  then show ?thesis using assms closeOther_shows [OF assms(1)] by (simp del: spec_step.simps)
next
  case CloseEvery
  then show ?thesis using assms closeAll_shows [OF assms(1)] by (simp del: spec_step.simps)
next
  case ShowActive
  then show ?thesis using assms by (simp add: showActiveTab_def scroll_shows)
next
  case RollLeft
  then show ?thesis using assms by (auto simp: scrollTabLeft_def split: if_splits)
next
  case RollRight
  then show ?thesis using assms by (auto simp: scrollTabRight_def Let_def split: if_splits)
qed

lemma bar_run_shows:
  "shows_focus s f \<Longrightarrow> bar_run lay es s = Some s' \<Longrightarrow> shows_focus s' (fold spec_step es f)"
proof (induction es arbitrary: s f)
  case (Cons e es)
  then obtain s1 where "bar_step lay e s = Some s1" "bar_run lay es s1 = Some s'"
    by (auto simp: bind_eq_Some_conv)
  with Cons bar_step_shows show ?case by fastforce
qed simp

lemma bar0_shows: "shows_focus (bar0 home w) ([home], 0)"
  by (cases w) (simp add: shows_focus_def bar0_def view_def fview_def lit_def)

text \<open>
  C23: the bar with its tabs, frames and classes implements the abstract list of addresses with one
  in front: whatever is opened, closed, clicked and scrolled, it shows exactly the abstract list
  after the same events.
\<close>

theorem bar_refines_focus:
  assumes "bar_run lay es (bar0 home w) = Some s"
  shows "shows_focus s (fold spec_step es ([home], 0))"
  by (rule bar_run_shows [OF bar0_shows assms])

definition narrow :: layout where
  "narrow = \<lparr>l_bar = 100, l_others = [20, 20], l_outer = (\<lambda>ts. sum_list (map t_full ts)),
     l_width = (\<lambda>ts. sum_list (map t_full ts)), l_text = (\<lambda>t. if t = js ''wide'' then (60, 60, 50) else (30, 30, 20))\<rparr>"

theorem bar_refines_focus_witness:
  "\<exists>s. bar_run narrow [CloseEvery, TabClick 0, CloseOthers] (bar0 (js ''/home'') (30, 30, 20)) = Some s \<and>
     shows_focus s ([js ''/home''], 0)"
proof -
  let ?es = "[CloseEvery, TabClick 0, CloseOthers]"
  have "\<exists>s. bar_run narrow ?es (bar0 (js ''/home'') (30, 30, 20)) = Some s"
    by (simp add: bar0_def closeAll_def closeOtherTabs_def activeTab_def)
  then obtain s where s: "bar_run narrow ?es (bar0 (js ''/home'') (30, 30, 20)) = Some s" by blast
  from bar_refines_focus [OF s] s show ?thesis by simp
qed

lemma takeWhile_before: "x \<in> set xs \<Longrightarrow> length (takeWhile (\<lambda>u. u \<noteq> x) xs) < length xs"
  by (induction xs) auto

lemma spec_home: "0 < length us \<Longrightarrow> us ! 0 = home \<Longrightarrow> k < length us \<Longrightarrow>
   (case spec_step e (us, k) of (vs, j) \<Rightarrow> j < length vs \<and> vs ! 0 = home)"
  by (cases e; cases us)
    (auto simp: spec_open_def spec_close_def remove_nth_def nth_append nth_Cons' split: option.splits
      intro: takeWhile_before)


lemma spec_home_run: "us ! 0 = home \<Longrightarrow> k < length us \<Longrightarrow>
   (case fold spec_step es (us, k) of (vs, j) \<Rightarrow> j < length vs \<and> vs ! 0 = home)"
proof (induction es arbitrary: us k)
  case (Cons e es)
  obtain vs j where v: "spec_step e (us, k) = (vs, j)" by force
  moreover have "0 < length us" using Cons.prems(2) by linarith
  ultimately have "j < length vs" "vs ! 0 = home" using spec_home [of us home k e] Cons.prems by auto
  then show ?case using Cons.IH v by simp
qed simp

text \<open>
  C24: in every reachable bar the addresses of the tabs differ, the frames are those of the tabs in
  the same order, exactly one tab is active and exactly its frame is visible, and the home tab is
  the first one.
\<close>

theorem bar_one_in_front:
  assumes "bar_run lay es (bar0 home w) = Some s"
  shows "distinct (map t_id (tabs s)) \<and> map f_id (frames s) = map t_id (tabs s) \<and>
    t_id (tabs s ! 0) = home \<and>
    (\<exists>k<length (tabs s). \<forall>j<length (tabs s). (t_active (tabs s ! j) \<longleftrightarrow> j = k) \<and> (f_shown (frames s ! j) \<longleftrightarrow> j = k))"
proof -
  let ?f = "fold spec_step es ([home], 0)"
  have sh: "shows_focus s ?f" by (rule bar_run_shows [OF bar0_shows assms])
  have home: "snd ?f < length (fst ?f)" "fst ?f ! 0 = home"
    using spec_home_run [of "[home]" home 0 es] by (auto split: prod.splits)
  have fr: "f_shown (frames s ! j) \<longleftrightarrow> j = snd ?f" if "j < length (fst ?f)" for j
  proof -
    have "fview (frames s) ! j = lit ?f ! j" using sh by (simp add: shows_focus_def)
    then show ?thesis using that shows_length(2) [OF sh] by (simp add: fview_def)
  qed
  have "0 < length (fst ?f)" using home(1) by linarith
  then have "t_id (tabs s ! 0) = home" using shows_nth(1) [OF sh] home(2) by simp
  moreover have "\<forall>j<length (tabs s). (t_active (tabs s ! j) \<longleftrightarrow> j = snd ?f) \<and> (f_shown (frames s ! j) \<longleftrightarrow> j = snd ?f)"
    using shows_nth(2) [OF sh] shows_length(1) [OF sh] fr by simp
  moreover have "distinct (fst ?f)" using sh by (simp add: shows_focus_def)
  ultimately show ?thesis using home(1) shows_ids [OF sh] shows_length(1) [OF sh] by auto
qed

theorem bar_one_in_front_witness:
  "\<exists>s. bar_run narrow [CloseEvery, TabClick 0] (bar0 (js ''/home'') (30, 30, 20)) = Some s \<and>
     distinct (map t_id (tabs s)) \<and> t_id (tabs s ! 0) = js ''/home''"
proof -
  have "\<exists>s. bar_run narrow [CloseEvery, TabClick 0] (bar0 (js ''/home'') (30, 30, 20)) = Some s"
    by (simp add: bar0_def closeAll_def activeTab_def)
  then obtain s where s: "bar_run narrow [CloseEvery, TabClick 0] (bar0 (js ''/home'') (30, 30, 20)) = Some s" by blast
  from bar_one_in_front [OF s] s show ?thesis by blast
qed

section \<open>Rolling the bar\<close>

definition psum :: "bar \<Rightarrow> nat \<Rightarrow> int" where
  "psum s k = sum_list (map t_full (take k (tabs s)))"

lemma calSumWidth_sum: "calSumWidth ws = sum_list ws"
proof -
  have "fold (\<lambda>w width. width + w) ws a = a + sum_list ws" for a by (induction ws arbitrary: a) simp_all
  then show ?thesis by (simp add: calSumWidth_def)
qed

lemma before_psum: "width_before s (Some k) = psum s k" "width_before s None = 0"
  by (simp_all add: width_before_def psum_def calSumWidth_sum)

lemma psum_Suc: "k < length (tabs s) \<Longrightarrow> psum s (Suc k) = psum s k + t_full (tabs s ! k)"
  by (simp add: psum_def take_Suc_conv_app_nth)

lemma psum_0 [simp]: "psum s 0 = 0"
  by (simp add: psum_def)

lemma psum_all: "length (tabs s) \<le> k \<Longrightarrow> psum s k = psum s (length (tabs s))"
  by (simp add: psum_def)

definition wide_tabs :: "bar \<Rightarrow> bool" where
  "wide_tabs s \<longleftrightarrow> (\<forall>t\<in>set (tabs s). 0 \<le> t_full t)"

lemma wide_nth: "wide_tabs s \<Longrightarrow> k < length (tabs s) \<Longrightarrow> 0 \<le> t_full (tabs s ! k)"
  by (simp add: wide_tabs_def)

lemma psum_mono: "wide_tabs s \<Longrightarrow> j \<le> k \<Longrightarrow> psum s j \<le> psum s k"
proof (induction k)
  case (Suc k)
  show ?case
  proof (cases "j = Suc k \<or> length (tabs s) \<le> k")
    case True
    then show ?thesis using Suc psum_all [of s k] psum_all [of s "Suc k"] by (cases "j = Suc k") auto
  next
    case False
    then show ?thesis using Suc wide_nth [of s k] by (simp add: psum_Suc)
  qed
qed simp

text \<open>The first loop finds the tab at the left edge when the strip reaches beyond it, and else runs for ever.\<close>

lemma edge_loop_finds:
  assumes "m < psum s (length (tabs s))" "psum s k \<le> m" "k < length (tabs s)"
  shows "\<exists>j<length (tabs s). edge_loop s m (psum s k) (Some k) = Some (Some j) \<and> psum s j \<le> m \<and> m < psum s (Suc j)"
  using assms(2,3)
proof (induction "length (tabs s) - k" arbitrary: k)
  case (Suc d)
  show ?case
  proof (cases "psum s (Suc k) \<le> m")
    case True
    then have "Suc k < length (tabs s)" using assms(1) Suc.prems(2) by (metis Suc_lessI not_less)
    moreover have "edge_loop s m (psum s k) (Some k) = edge_loop s m (psum s (Suc k)) (Some (Suc k))"
      using True Suc.prems calculation
      by (subst edge_loop.simps) (simp add: el_width_def psum_Suc next_el_def)
    ultimately show ?thesis using Suc.hyps(1) [of "Suc k"] Suc.hyps(2) True by simp
  next
    case False
    then have "edge_loop s m (psum s k) (Some k) = Some (Some k)"
      using Suc.prems by (subst edge_loop.simps) (simp add: el_width_def psum_Suc)
    then show ?thesis using False Suc.prems by auto
  qed
qed simp

text \<open>What is left to pass: the widths up to the position never exceed the offset searched for.\<close>

definition passed :: "bar \<Rightarrow> int \<Rightarrow> int \<Rightarrow> nat option \<Rightarrow> bool" where
  "passed s m off e \<longleftrightarrow> (case e of None \<Rightarrow> off \<le> m | Some k \<Rightarrow> k < length (tabs s) \<and> off \<le> psum s k)"

lemma passed_step:
  assumes "wide_tabs s" "psum s (length (tabs s)) \<le> m" "passed s m off e"
  shows "off + el_width t_full s e \<le> m \<and> passed s m (off + el_width t_full s e) (next_el s e)"
proof (cases e)
  case (Some k)
  then have k: "k < length (tabs s)" "off \<le> psum s k" using assms(3) by (simp_all add: passed_def)
  then have "off + t_full (tabs s ! k) \<le> psum s (Suc k)" by (simp add: psum_Suc)
  moreover have "psum s (Suc k) \<le> m"
    using psum_mono [OF assms(1), of "Suc k" "length (tabs s)"] k(1) assms(2) by linarith
  ultimately show ?thesis using Some k by (auto simp: passed_def next_el_def el_width_def)
qed (use assms(3) in \<open>simp add: passed_def el_width_def next_el_def\<close>)

lemma edge_loop_never:
  "edge_loop s m off e = Some r \<Longrightarrow> wide_tabs s \<longrightarrow> psum s (length (tabs s)) \<le> m \<longrightarrow> \<not> passed s m off e"
proof (erule edge_loop.raw_induct [rotated])
  fix loop s m off e r
  assume IH: "\<And>m offset e b y. loop m offset e b = Some y \<Longrightarrow>
      wide_tabs m \<longrightarrow> psum m (length (tabs m)) \<le> offset \<longrightarrow> \<not> passed m offset e b"
    and eq: "(if off + el_width t_full s e \<le> m then loop s m (off + el_width t_full s e) (next_el s e) else Some e) = Some r"
  show "wide_tabs s \<longrightarrow> psum s (length (tabs s)) \<le> m \<longrightarrow> \<not> passed s m off e"
  proof (intro impI notI)
    assume a: "wide_tabs s" "psum s (length (tabs s)) \<le> m" "passed s m off e"
    note st = passed_step [OF a]
    then have "loop s m (off + el_width t_full s e) (next_el s e) = Some r" using eq by simp
    from IH [OF this] st a show False by blast
  qed
qed

lemma edge_loop_hangs:
  assumes "wide_tabs s" "psum s (length (tabs s)) \<le> m"
  shows "edge_loop s m 0 (first_el s) = None"
proof -
  have "passed s m 0 (first_el s)" using assms(2) by (auto simp: passed_def first_el_def psum_def)
  then show ?thesis using edge_loop_never [of s m 0 "first_el s"] assms by (cases "edge_loop s m 0 (first_el s)") auto
qed

lemma edge_loop_None_iff:
  assumes "wide_tabs s" "0 \<le> m"
  shows "edge_loop s m 0 (first_el s) = None \<longleftrightarrow> psum s (length (tabs s)) \<le> m"
proof (cases "psum s (length (tabs s)) \<le> m")
  case False
  then have "tabs s \<noteq> []" using assms(2) by (auto simp: psum_def)
  then show ?thesis using edge_loop_finds [of m s 0] False assms(2) by (auto simp: first_el_def)
qed (simp add: edge_loop_hangs [OF assms(1)])

lemma arrows_None_iff:
  assumes "wide_tabs s"
  shows "scrollTabLeft lay s = None \<longleftrightarrow>
      visibleWidth lay \<le> l_width lay (tabs s) \<and> sum_list (map t_full (tabs s)) \<le> \<bar>margin s\<bar>"
    "scrollTabRight lay s = None \<longleftrightarrow> scrollTabLeft lay s = None"
proof -
  have "psum s (length (tabs s)) = sum_list (map t_full (tabs s))" by (simp add: psum_def)
  then show "scrollTabLeft lay s = None \<longleftrightarrow>
      visibleWidth lay \<le> l_width lay (tabs s) \<and> sum_list (map t_full (tabs s)) \<le> \<bar>margin s\<bar>"
    using edge_loop_None_iff [of s "\<bar>margin s\<bar>"] assms by (auto simp: scrollTabLeft_def)
  show "scrollTabRight lay s = None \<longleftrightarrow> scrollTabLeft lay s = None"
    by (auto simp: scrollTabLeft_def scrollTabRight_def)
qed

text \<open>
  C25: an arrow beside the bar answers exactly when the bar is not scrolled past the end of its tabs:
  if the strip does not fit and its tabs together are no wider than its offset, the search for the
  tab at the left edge runs off the end and never stops.
\<close>

theorem arrows_answer_iff:
  assumes "\<forall>t\<in>set (tabs s). 0 \<le> t_full t"
  shows "(scrollTabLeft lay s = None \<longleftrightarrow>
      visibleWidth lay \<le> l_width lay (tabs s) \<and> sum_list (map t_full (tabs s)) \<le> \<bar>margin s\<bar>) \<and>
    (scrollTabRight lay s = None \<longleftrightarrow> scrollTabLeft lay s = None)"
  using arrows_None_iff [of s lay] assms by (simp add: wide_tabs_def)

theorem arrows_answer_iff_witness:
  "scrollTabLeft narrow ((bar0 (js ''/home'') (70, 70, 60))\<lparr>margin := -70\<rparr>) = None"
  using arrows_answer_iff [of "(bar0 (js ''/home'') (70, 70, 60))\<lparr>margin := -70\<rparr>" narrow]
  by (simp add: bar0_def narrow_def visibleWidth_def calSumWidth_def)

lemma to_tab_stop: "\<not> scroll - el_width t_outer s e > lim \<Longrightarrow> to_tab_loop s lim scroll e = Some scroll"
  by (subst to_tab_loop.simps) simp

lemmas bar_eval = bar0_def narrow_def visibleWidth_def calSumWidth_def menuItem_def jq_trim_def white_def js_def
  find_tab_def new_tab_def add_frame_def new_frame_def scrollToTab_def active_el_def width_after_def width_before_def
  el_width_def next_el_def prev_el_def to_tab_stop reload_def

definition frame_of :: "string \<Rightarrow> nat \<Rightarrow> bool \<Rightarrow> nat \<Rightarrow> frame" where
  "frame_of a n shown loads =
     \<lparr>f_id = js a, f_name = js ''iframe'' @ [n], f_src = js a, f_shown = shown, f_loads = loads\<rparr>"

definition tab_of :: "string \<Rightarrow> jstr \<Rightarrow> bool \<Rightarrow> bool \<Rightarrow> int \<Rightarrow> tab" where
  "tab_of a name icon act w =
     \<lparr>t_id = js a, t_text = name, t_icon = icon, t_active = act, t_full = w, t_outer = w, t_width = w - 10\<rparr>"

lemma open_first:
  "bar_step narrow (MenuItem (Some (js ''/a'')) [49] (js ''a'')) (bar0 (js ''/home'') (30, 30, 20)) =
    Some \<lparr>tabs = [tab_of ''/home'' [39318, 39029] False False 30, tab_of ''/a'' (js ''a'') True True 30],
      frames = [frame_of ''/home'' 48 False 0, frame_of ''/a'' 49 True 1], margin = -30\<rparr>"
  by (simp add: bar_eval frame_of_def tab_of_def)

lemma open_second:
  "bar_step narrow (MenuItem (Some (js ''/b'')) [50] (js ''wide''))
     \<lparr>tabs = [tab_of ''/home'' [39318, 39029] False False 30, tab_of ''/a'' (js ''a'') True True 30],
      frames = [frame_of ''/home'' 48 False 0, frame_of ''/a'' 49 True 1], margin = -30\<rparr> =
    Some \<lparr>tabs = [tab_of ''/home'' [39318, 39029] False False 30, tab_of ''/a'' (js ''a'') True False 30,
        tab_of ''/b'' (js ''wide'') True True 60],
      frames = [frame_of ''/home'' 48 False 0, frame_of ''/a'' 49 False 1, frame_of ''/b'' 50 True 1], margin = -60\<rparr>"
  by (simp add: bar_eval frame_of_def tab_of_def)


lemma close_second:
  "bar_step narrow (CloseIcon 2)
     \<lparr>tabs = [tab_of ''/home'' [39318, 39029] False False 30, tab_of ''/a'' (js ''a'') True False 30,
        tab_of ''/b'' (js ''wide'') True True 60],
      frames = [frame_of ''/home'' 48 False 0, frame_of ''/a'' 49 False 1, frame_of ''/b'' 50 True 1], margin = -60\<rparr> =
    Some \<lparr>tabs = [tab_of ''/home'' [39318, 39029] False False 30, tab_of ''/a'' (js ''a'') True True 30],
      frames = [frame_of ''/home'' 48 False 0, frame_of ''/a'' 49 True 1], margin = -60\<rparr>"
  by (simp add: bar_eval frame_of_def tab_of_def closeTab_def hand_over_def remove_nth_def show_frame_def remove_frame_def)

text \<open>
  C26: such a bar is reached by ordinary use. In a window where two small tabs and a wide one do not
  fit, opening the wide one scrolls the bar to it, closing it does not scroll back (it was the last
  one), and a click on the left arrow then never ends.
\<close>

theorem left_arrow_hangs:
  "bar_run narrow [MenuItem (Some (js ''/a'')) [49] (js ''a''), MenuItem (Some (js ''/b'')) [50] (js ''wide''), CloseIcon 2]
     (bar0 (js ''/home'') (30, 30, 20)) =
    Some \<lparr>tabs = [tab_of ''/home'' [39318, 39029] False False 30, tab_of ''/a'' (js ''a'') True True 30],
      frames = [frame_of ''/home'' 48 False 0, frame_of ''/a'' 49 True 1], margin = -60\<rparr> \<and>
   bar_run narrow [MenuItem (Some (js ''/a'')) [49] (js ''a''), MenuItem (Some (js ''/b'')) [50] (js ''wide''), CloseIcon 2, RollLeft]
     (bar0 (js ''/home'') (30, 30, 20)) = None"
proof -
  have "scrollTabLeft narrow \<lparr>tabs = [tab_of ''/home'' [39318, 39029] False False 30, tab_of ''/a'' (js ''a'') True True 30],
      frames = [frame_of ''/home'' 48 False 0, frame_of ''/a'' 49 True 1], margin = -60\<rparr> = None"
    by (subst arrows_None_iff) (simp_all add: wide_tabs_def tab_of_def narrow_def visibleWidth_def calSumWidth_def)
  then show ?thesis
    by (simp only: bar_run.simps open_first open_second close_second Option.bind.simps bar_step.simps(8) simp_thms)
qed

text \<open>The second loops: how far they go.\<close>

lemma forth_loop_spec:
  assumes "k < length (tabs s)"
  shows "case forth_loop s v off (Some k) of
      None \<Rightarrow> off + psum s (length (tabs s)) - psum s k < v
    | Some j \<Rightarrow> k \<le> j \<and> j < length (tabs s) \<and> (j = k \<or> off + psum s j - psum s k < v) \<and>
        v \<le> off + psum s (Suc j) - psum s k"
  using assms
proof (induction "length (tabs s) - k" arbitrary: k off)
  case (Suc d)
  have st: "forth_loop s v off (Some k) =
      (if off + t_full (tabs s ! k) < v then forth_loop s v (off + t_full (tabs s ! k)) (next_el s (Some k)) else Some k)"
    using Suc.prems by (subst forth_loop.simps) (simp add: el_width_def)
  show ?case
  proof (cases "off + t_full (tabs s ! k) < v")
    case False
    then show ?thesis using Suc.prems by (simp add: st psum_Suc)
  next
    case True
    show ?thesis
    proof (cases "Suc k < length (tabs s)")
      case False
      then have "length (tabs s) = Suc k" using Suc.prems by simp
      then show ?thesis
        using True by (simp add: st next_el_def) (simp add: forth_loop.simps [of s v _ None] psum_Suc)
    next
      case more: True
      have "d = length (tabs s) - Suc k" using Suc.hyps(2) by simp
      from Suc.hyps(1) [OF this more, of "off + t_full (tabs s ! k)"]
      show ?thesis using True more Suc.prems
        by (auto simp: st next_el_def psum_Suc add.assoc split: option.splits)
    qed
  qed
qed simp

text \<open>
  The right arrow never skips a tab. From the tab \<open>j\<close> at the left edge it goes to a tab \<open>k\<close> such
  that the tabs from \<open>j\<close> up to \<open>k\<close> are narrower than the visible part while \<open>k\<close> would not have fitted
  with them; when all that follows fits the bar stays where it is.
\<close>

theorem right_arrow_no_gap:
  assumes "\<bar>margin s\<bar> < psum s (length (tabs s))" "visibleWidth lay \<le> l_width lay (tabs s)"
  shows "\<exists>j<length (tabs s). psum s j \<le> \<bar>margin s\<bar> \<and> \<bar>margin s\<bar> < psum s (Suc j) \<and>
    (scrollTabRight lay s = Some s \<and> psum s (length (tabs s)) - psum s j < visibleWidth lay \<or>
     (\<exists>k\<ge>j. k < length (tabs s) \<and> (k = j \<or> psum s k - psum s j < visibleWidth lay) \<and>
        visibleWidth lay \<le> psum s (Suc k) - psum s j \<and>
        scrollTabRight lay s = Some (if psum s k > 0 then s\<lparr>margin := - psum s k\<rparr> else s)))"
proof -
  have "tabs s \<noteq> []" using assms(1) by (auto simp: psum_def)
  then obtain j where j: "j < length (tabs s)" "edge_loop s \<bar>margin s\<bar> 0 (first_el s) = Some (Some j)"
      "psum s j \<le> \<bar>margin s\<bar>" "\<bar>margin s\<bar> < psum s (Suc j)"
    using edge_loop_finds [OF assms(1), of 0] by (auto simp: first_el_def)
  have r: "scrollTabRight lay s =
      Some (let scroll = width_before s (forth_loop s (visibleWidth lay) 0 (Some j)) in
        if scroll > 0 then s\<lparr>margin := 0 - scroll\<rparr> else s)"
    using j(2) assms(2) by (simp add: scrollTabRight_def)
  note f = forth_loop_spec [OF j(1), where v = "visibleWidth lay" and off = 0]
  show ?thesis
  proof (intro exI [of _ j] conjI j)
    show "scrollTabRight lay s = Some s \<and> psum s (length (tabs s)) - psum s j < visibleWidth lay \<or>
     (\<exists>k\<ge>j. k < length (tabs s) \<and> (k = j \<or> psum s k - psum s j < visibleWidth lay) \<and>
        visibleWidth lay \<le> psum s (Suc k) - psum s j \<and>
        scrollTabRight lay s = Some (if psum s k > 0 then s\<lparr>margin := - psum s k\<rparr> else s))"
    proof (cases "forth_loop s (visibleWidth lay) 0 (Some j)")
      case None
      then show ?thesis using r f by (simp add: before_psum)
    next
      case (Some k)
      then show ?thesis using r f by (intro disjI2 exI [of _ k]) (auto simp: before_psum Let_def)
    qed
  qed
qed

theorem right_arrow_no_gap_witness:
  "\<exists>s. tabs s = [tab_of ''/home'' [] False True 50, tab_of ''/a'' [] True False 50] \<and> margin s = 0 \<and>
     scrollTabRight narrow s = Some (s\<lparr>margin := - 50\<rparr>)"
proof -
  let ?s = "\<lparr>tabs = [tab_of ''/home'' [] False True 50, tab_of ''/a'' [] True False 50], frames = [], margin = 0\<rparr>"
  have p: "psum ?s 0 = 0" "psum ?s (Suc 0) = 50" "psum ?s (Suc (Suc 0)) = 100"
    by (simp_all add: psum_def tab_of_def)
  have v: "visibleWidth narrow = 60" "l_width narrow (tabs ?s) = 100"
    by (simp_all add: narrow_def visibleWidth_def calSumWidth_def tab_of_def)
  have n: "length (tabs ?s) = Suc (Suc 0)" by simp
  have "\<bar>margin ?s\<bar> < psum ?s (length (tabs ?s))" "visibleWidth narrow \<le> l_width narrow (tabs ?s)"
    unfolding n p v by simp_all
  from right_arrow_no_gap [OF this] have "scrollTabRight narrow ?s = Some (?s\<lparr>margin := - 50\<rparr>)"
    unfolding n v by (auto simp: less_Suc_eq p)
  then show ?thesis by (intro exI [of _ ?s]) simp
qed

end
