(* ===== verification/Pop_Tabs.thy ===== *)
theory Pop_Tabs
  imports Popui
begin

text \<open>
  The tab widget of \<open>popui.js\<close> (\<open>$.fn.tab\<close>), with the indexes it works on: numbers from the
  navigation, but texts where an index comes from the \<open>data-ui\<close> attribute.
\<close>

section \<open>Indexes\<close>

datatype idx = INum int | ITxt jstr

text \<open>
  \<open>Number\<close> of an index: a text of digits, with or without a minus sign; the empty text is 0. Other
  texts are taken as not a number (fractions and the notations with exponents do not occur).
\<close>

definition to_num :: "idx \<Rightarrow> int option" where
  "to_num i =
     (case i of
        INum n \<Rightarrow> Some n
      | ITxt s \<Rightarrow>
          if list_all is_digit s then Some (int (digits_val s))
          else (case s of
                  c # t \<Rightarrow> if c = 45 \<and> t \<noteq> [] \<and> list_all is_digit t then Some (- int (digits_val t)) else None
                | [] \<Rightarrow> None))"

text \<open>\<open>==\<close>: texts are compared as texts, else as numbers.\<close>

definition loose_eq :: "idx \<Rightarrow> idx \<Rightarrow> bool" where
  "loose_eq a b =
     (case (a, b) of
        (ITxt s, ITxt t) \<Rightarrow> s = t
      | _ \<Rightarrow> (case (to_num a, to_num b) of (Some m, Some n) \<Rightarrow> m = n | _ \<Rightarrow> False))"

text \<open>\<open>i + 1\<close>: a text is prolonged.\<close>

definition plus_one :: "idx \<Rightarrow> idx" where
  "plus_one i = (case i of INum n \<Rightarrow> INum (n + 1) | ITxt s \<Rightarrow> ITxt (s @ js ''1''))"

text \<open>\<open>eq(i)\<close> on a set of \<open>n\<close> elements: the position found.\<close>

definition eq_pos :: "nat \<Rightarrow> idx \<Rightarrow> nat option" where
  "eq_pos n i =
     (case to_num i of
        None \<Rightarrow> None
      | Some k \<Rightarrow>
          if 0 \<le> k \<and> k < int n then Some (nat k)
          else if k < 0 \<and> - k \<le> int n then Some (nat (int n + k))
          else None)"

section \<open>Automatic play\<close>

text \<open>\<open>play\<close> and \<open>stop\<close>, the same in the tab and the slide: the variable \<open>timer\<close> and the timers of the page.\<close>

type_synonym ticker = "nat option \<times> unit timers"

definition tick_play :: "int \<Rightarrow> int \<Rightarrow> ticker \<Rightarrow> ticker" where
  "tick_play stay now t = (case set_interval now stay () (snd t) of (i, ts) \<Rightarrow> (Some i, ts))"

definition tick_stop :: "ticker \<Rightarrow> ticker" where
  "tick_stop t = (case fst t of None \<Rightarrow> t | Some i \<Rightarrow> (Some i, clear_timer i (snd t)))"

definition ticker0 :: ticker where
  "ticker0 = (None, no_timers)"

definition tick_inv :: "ticker \<Rightarrow> bool" where
  "tick_inv t \<longleftrightarrow> timers_inv (snd t) \<and>
     (case fst t of None \<Rightarrow> \<forall>j. find_timer (snd t) j = None | Some i \<Rightarrow> ivl.only i (snd t))"

definition at_rest :: "ticker \<Rightarrow> bool" where
  "at_rest t \<longleftrightarrow> (\<forall>j. find_timer (snd t) j = None)"

lemma tick_inv_stop: "tick_inv t \<Longrightarrow> tick_inv (tick_stop t) \<and> at_rest (tick_stop t)"
  by (auto simp: tick_inv_def tick_stop_def at_rest_def timers_inv_clear ivl.only_def find_clear_timer split: option.splits)

lemma tick_inv_play: "tick_inv t \<Longrightarrow> at_rest t \<Longrightarrow> tick_inv (tick_play stay now t)"
  by (auto simp: tick_inv_def tick_play_def at_rest_def ivl.only_def find_set_interval
      intro: timers_inv_set_interval split: prod.splits if_splits)

lemma tick_inv0 [simp]: "tick_inv ticker0" "at_rest ticker0"
  by (simp_all add: tick_inv_def ticker0_def at_rest_def)

section \<open>Tabs\<close>

text \<open>
  The settings, a navigation item with the address of a frame it may bring, and a content, shown
  or not, with its mark of being loaded. Fading ends in the same visibility as showing and hiding.
\<close>

record tab_settings =
  ts_auto :: bool
  ts_stay :: int
  ts_defIndex :: idx
  ts_arrow :: "int option"

record nav_item =
  ni_iframe :: "jstr option"
  ni_cur :: bool

record content_item =
  ci_shown :: bool
  ci_loaded :: bool
  ci_src :: "jstr option"

record tabw =
  tw_current :: idx
  tw_prev :: "nat option"
  tw_nav :: "nav_item list"
  tw_con :: "content_item list"
  tw_arrow :: "int option"
  tw_switched :: "idx list"
  tw_ticker :: ticker

definition upd :: "nat option \<Rightarrow> ('a \<Rightarrow> 'a) \<Rightarrow> 'a list \<Rightarrow> 'a list" where
  "upd p f xs = (case p of None \<Rightarrow> xs | Some k \<Rightarrow> if k < length xs then xs[k := f (xs ! k)] else xs)"

definition load_frame :: "nat option \<Rightarrow> tabw \<Rightarrow> tabw" where
  "load_frame p s =
     (case p of
        None \<Rightarrow> s
      | Some k \<Rightarrow>
          (case ni_iframe (tw_nav s ! k) of
             None \<Rightarrow> s
           | Some src \<Rightarrow>
               if src = [] \<or> ci_loaded (tw_con s ! k) then s
               else s\<lparr>tw_con := upd p (\<lambda>c. c\<lparr>ci_src := Some src, ci_loaded := True\<rparr>) (tw_con s)\<rparr>))"

definition setTab :: "tab_settings \<Rightarrow> idx \<Rightarrow> tabw \<Rightarrow> tabw" where
  "setTab st i s =
     (if loose_eq (tw_current s) i then s
      else
        (let p = eq_pos (length (tw_nav s)) i; s = load_frame p s
         in s\<lparr>tw_con := upd p (ci_shown_update (\<lambda>_. True)) (upd (tw_prev s) (ci_shown_update (\<lambda>_. False)) (tw_con s)),
              tw_nav := upd p (ni_cur_update (\<lambda>_. True)) (upd (tw_prev s) (ni_cur_update (\<lambda>_. False)) (tw_nav s)),
              tw_arrow := (case (ts_arrow st, to_num i) of (Some w, Some n) \<Rightarrow> Some (w * n) | _ \<Rightarrow> tw_arrow s),
              tw_current := i, tw_prev := p, tw_switched := tw_switched s @ [i]\<rparr>))"

text \<open>What the timer does.\<close>

definition auto_next :: "tab_settings \<Rightarrow> tabw \<Rightarrow> tabw" where
  "auto_next st s =
     (let i = plus_one (tw_current s)
      in setTab st (if i = INum (int (length (tw_nav s))) then INum 0 else i) s)"

text \<open>
  The start on a page with this navigation and these contents; \<open>None\<close> is the error thrown when they
  are not equally many. \<open>setTab\<close> is called with the index that is current already.
\<close>

definition tab_start :: "tab_settings \<Rightarrow> int \<Rightarrow> nav_item list \<Rightarrow> content_item list \<Rightarrow> tabw option" where
  "tab_start st now navs cons =
     (if length navs \<noteq> length cons then None
      else
        (let s = \<lparr>tw_current = ts_defIndex st, tw_prev = eq_pos (length navs) (ts_defIndex st), tw_nav = navs,
                  tw_con = upd (eq_pos (length cons) (INum 0)) (ci_shown_update (\<lambda>_. True)) cons,
                  tw_arrow = None, tw_switched = [], tw_ticker = ticker0\<rparr>;
             s = setTab st (ts_defIndex st) s
         in Some (if ts_auto st then s\<lparr>tw_ticker := tick_play (ts_stay st) now (tw_ticker s)\<rparr> else s)))"

datatype tab_event = NavEvent nat | TabEnter | TabLeave int | TabTick nat

definition tab_step :: "tab_settings \<Rightarrow> tab_event \<Rightarrow> tabw \<Rightarrow> tabw" where
  "tab_step st e s =
     (case e of
        NavEvent k \<Rightarrow>
          if k < length (tw_nav s) then setTab st (INum (int k)) (s\<lparr>tw_ticker := tick_stop (tw_ticker s)\<rparr>) else s
      | TabEnter \<Rightarrow> if ts_auto st then s\<lparr>tw_ticker := tick_stop (tw_ticker s)\<rparr> else s
      | TabLeave now \<Rightarrow>
          if ts_auto st then s\<lparr>tw_ticker := tick_play (ts_stay st) now (tw_ticker s)\<rparr> else s
      | TabTick i \<Rightarrow>
          (case fire i (snd (tw_ticker s)) of
             None \<Rightarrow> s
           | Some (u, ts) \<Rightarrow> auto_next st (s\<lparr>tw_ticker := (fst (tw_ticker s), ts)\<rparr>)))"

definition tab_run :: "tab_settings \<Rightarrow> tab_event list \<Rightarrow> tabw \<Rightarrow> tabw" where
  "tab_run st es s = fold (tab_step st) es s"

text \<open>
  \<open>$('[data-ui^="u-tab"]')\<close>: the settings as the attribute gives them. A field that is left out keeps
  its default; a field that is there, even empty, is used as the text it is.
\<close>

definition attr_index :: "uarg list \<Rightarrow> idx" where
  "attr_index arr =
     (if 6 < length arr then
        (case arr ! 6 of UText t \<Rightarrow> ITxt t | UBool b \<Rightarrow> INum (if b then 1 else 0) | UUndef \<Rightarrow> INum 0)
      else INum 0)"

definition attr_stay :: "uarg list \<Rightarrow> int" where
  "attr_stay arr =
     (if 3 < length arr then
        (case arr ! 3 of
           UText t \<Rightarrow> if t \<noteq> [] \<and> list_all is_digit t then int (digits_val t) else 0
         | UBool b \<Rightarrow> if b then 1 else 0
         | UUndef \<Rightarrow> 3000)
      else 3000)"

definition attr_auto :: "uarg list \<Rightarrow> bool" where
  "attr_auto arr =
     (if 2 < length arr then (case arr ! 2 of UText t \<Rightarrow> t \<noteq> [] | UBool b \<Rightarrow> b | UUndef \<Rightarrow> False) else False)"

definition attr_settings :: "jstr \<Rightarrow> int option \<Rightarrow> tab_settings" where
  "attr_settings attr arrow =
     \<lparr>ts_auto = attr_auto (uiParse attr), ts_stay = attr_stay (uiParse attr),
      ts_defIndex = attr_index (uiParse attr), ts_arrow = arrow\<rparr>"


section \<open>One tab in front\<close>

lemma loose_eq_self [simp]: "loose_eq i i \<longleftrightarrow> True"
  by (simp add: loose_eq_def to_num_def split: idx.split)

lemma tab_start_eq:
  "length navs = length cons \<Longrightarrow> tab_start st now navs cons =
    Some \<lparr>tw_current = ts_defIndex st, tw_prev = eq_pos (length navs) (ts_defIndex st), tw_nav = navs,
      tw_con = upd (eq_pos (length cons) (INum 0)) (ci_shown_update (\<lambda>_. True)) cons, tw_arrow = None,
      tw_switched = [], tw_ticker = (if ts_auto st then tick_play (ts_stay st) now ticker0 else ticker0)\<rparr>"
  by (simp add: tab_start_def setTab_def)

lemma eq_pos_zero [simp]: "0 < n \<Longrightarrow> eq_pos n (INum 0) = Some 0"
  by (simp add: eq_pos_def to_num_def)

lemma length_upd [simp]: "length (upd p f xs) = length xs"
  by (simp add: upd_def split: option.split)

lemma nth_upd: "k < length xs \<Longrightarrow> upd p f xs ! k = (if p = Some k then f (xs ! k) else xs ! k)"
  by (auto simp: upd_def nth_list_update split: option.split)

lemma load_frame_keeps [simp]:
  "tw_nav (load_frame p s) = tw_nav s" "tw_current (load_frame p s) = tw_current s" "tw_prev (load_frame p s) = tw_prev s"
  "tw_ticker (load_frame p s) = tw_ticker s" "length (tw_con (load_frame p s)) = length (tw_con s)"
  by (simp_all add: load_frame_def split: option.split)

lemma map_upd: "(\<And>x. g (f x) = g x) \<Longrightarrow> map g (upd p f xs) = map g xs"
  by (simp add: upd_def map_update list_update_same_conv split: option.split)

lemma load_frame_shown: "map ci_shown (tw_con (load_frame p s)) = map ci_shown (tw_con s)"
  by (simp add: load_frame_def map_upd split: option.split)

lemma load_frame_shown_nth: "k < length (tw_con s) \<Longrightarrow> ci_shown (tw_con (load_frame p s) ! k) = ci_shown (tw_con s ! k)"
  using arg_cong [OF load_frame_shown [of p s], of "\<lambda>xs. xs ! k"] by simp

lemma setTab_lengths [simp]:
  "length (tw_nav (setTab st i s)) = length (tw_nav s)" "length (tw_con (setTab st i s)) = length (tw_con s)"
  by (simp_all add: setTab_def Let_def)

lemma setTab_ticker: "setTab st i (s\<lparr>tw_ticker := t\<rparr>) = (setTab st i s)\<lparr>tw_ticker := t\<rparr>"
proof -
  have "load_frame p (s\<lparr>tw_ticker := t\<rparr>) = (load_frame p s)\<lparr>tw_ticker := t\<rparr>" for p
    by (simp add: load_frame_def split: option.split)
  then show ?thesis
    by (simp add: setTab_def Let_def) (intro impI tabw.equality; simp split: option.split)
qed

text \<open>What a switch to another index does to the marks.\<close>

lemma setTab_marks:
  assumes "\<not> loose_eq (tw_current s) i" "length (tw_con s) = length (tw_nav s)"
  defines "p \<equiv> eq_pos (length (tw_nav s)) i"
  shows "tw_current (setTab st i s) = i" "tw_prev (setTab st i s) = p"
    "k < length (tw_nav s) \<Longrightarrow> ci_shown (tw_con (setTab st i s) ! k) \<longleftrightarrow>
       p = Some k \<or> tw_prev s \<noteq> Some k \<and> ci_shown (tw_con s ! k)"
    "k < length (tw_nav s) \<Longrightarrow> ni_cur (tw_nav (setTab st i s) ! k) \<longleftrightarrow>
       p = Some k \<or> tw_prev s \<noteq> Some k \<and> ni_cur (tw_nav s ! k)"
  using assms(1,2) by (auto simp: setTab_def Let_def p_def nth_upd load_frame_shown_nth)

definition tab_inv :: "nat \<Rightarrow> tabw \<Rightarrow> bool" where
  "tab_inv n s \<longleftrightarrow>
     length (tw_nav s) = n \<and> length (tw_con s) = n \<and>
     (\<exists>c<n. tw_current s = INum (int c) \<and> tw_prev s = Some c \<and>
       (\<forall>k<n. (ni_cur (tw_nav s ! k) \<longleftrightarrow> k = c) \<and> (ci_shown (tw_con s ! k) \<longleftrightarrow> k = c)))"

lemma tab_inv_ticker [simp]: "tab_inv n (s\<lparr>tw_ticker := t\<rparr>) = tab_inv n s"
  by (simp add: tab_inv_def)

lemma eq_pos_nat: "j < n \<Longrightarrow> eq_pos n (INum (int j)) = Some j"
  by (simp add: eq_pos_def to_num_def)

lemma tab_inv_set:
  assumes "tab_inv n s" "j < n"
  shows "tab_inv n (setTab st (INum (int j)) s)"
proof (cases "loose_eq (tw_current s) (INum (int j))")
  case True
  then show ?thesis using assms(1) by (simp add: setTab_def)
next
  case False
  have l: "length (tw_nav s) = n" "length (tw_con s) = length (tw_nav s)" using assms(1) by (simp_all add: tab_inv_def)
  note m = setTab_marks [OF False l(2), where st = st]
  show ?thesis
    using assms l(1) m(1,2) m(3,4) by (auto simp: tab_inv_def eq_pos_nat)
qed

lemma tab_inv_next:
  assumes "tab_inv n s"
  shows "tab_inv n (auto_next st s)"
proof -
  obtain c where c: "c < n" "tw_current s = INum (int c)" "length (tw_nav s) = n"
    using assms by (auto simp: tab_inv_def)
  show ?thesis
  proof (cases "c + 1 = n")
    case True
    then have "auto_next st s = setTab st (INum (int 0)) s"
      using c by (auto simp: auto_next_def plus_one_def)
    then show ?thesis using tab_inv_set [OF assms, of 0 st] c(1) by simp
  next
    case False
    then have "auto_next st s = setTab st (INum (int (c + 1))) s"
      using c by (auto simp: auto_next_def plus_one_def add.commute)
    then show ?thesis using tab_inv_set [OF assms, of "c + 1" st] c(1) False by simp
  qed
qed

lemma tab_inv_step: "tab_inv n s \<Longrightarrow> tab_inv n (tab_step st e s)"
proof (cases e)
  case (NavEvent k)
  then show "tab_inv n s \<Longrightarrow> ?thesis"
    using tab_inv_set [of n "s\<lparr>tw_ticker := tick_stop (tw_ticker s)\<rparr>" k st] by (auto simp: tab_step_def tab_inv_def)
qed (auto simp: tab_step_def tab_inv_next split: option.splits)

lemma tab_inv_run: "tab_inv n s \<Longrightarrow> tab_inv n (tab_run st es s)"
  unfolding tab_run_def by (induction es arbitrary: s) (simp_all add: tab_inv_step)

lemma tab_start_inv:
  assumes "ts_defIndex st = INum 0" "navs \<noteq> []" "length navs = length cons"
    "\<forall>k<length navs. (ni_cur (navs ! k) \<longleftrightarrow> k = 0) \<and> (0 < k \<longrightarrow> \<not> ci_shown (cons ! k))"
  shows "\<exists>s. tab_start st now navs cons = Some s \<and> tab_inv (length navs) s"
proof -
  have "0 < length cons" using assms(2,3) by (cases cons) auto
  then show ?thesis using assms by (auto simp: tab_start_eq tab_inv_def nth_upd intro!: exI [of _ 0])
qed

text \<open>
  With the default index exactly one content is shown and exactly its navigation item is
  marked, for every sequence of clicks, timers and movements of the mouse.
\<close>

theorem tab_one_in_front:
  assumes "ts_defIndex st = INum 0" "navs \<noteq> []" "length navs = length cons"
    "\<forall>k<length navs. (ni_cur (navs ! k) \<longleftrightarrow> k = 0) \<and> (0 < k \<longrightarrow> \<not> ci_shown (cons ! k))"
  shows "\<exists>s. tab_start st now navs cons = Some s \<and>
    (\<exists>c<length navs. \<forall>k<length navs.
      (ni_cur (tw_nav (tab_run st es s) ! k) \<longleftrightarrow> k = c) \<and> (ci_shown (tw_con (tab_run st es s) ! k) \<longleftrightarrow> k = c))"
  using tab_start_inv [OF assms, of now] tab_inv_run [of "length navs" _ st es] by (fastforce simp: tab_inv_def)

definition item :: "bool \<Rightarrow> nav_item" where
  "item b = \<lparr>ni_iframe = None, ni_cur = b\<rparr>"

definition hidden :: content_item where
  "hidden = \<lparr>ci_shown = False, ci_loaded = False, ci_src = None\<rparr>"

theorem tab_one_in_front_witness:
  "\<exists>s. tab_start (attr_settings (js ''u-tab'') None) 0 [item True, item False] [hidden, hidden] = Some s \<and>
    (\<exists>c<2. \<forall>k<2. ci_shown (tw_con (tab_run (attr_settings (js ''u-tab'') None) [NavEvent 1] s) ! k) \<longleftrightarrow> k = c)"
proof -
  have "uiParse (js ''u-tab'') = []" using uiParse_show [of "js ''u-tab''" "[]"] by (simp add: js_def)
  then have "ts_defIndex (attr_settings (js ''u-tab'') None) = INum 0" by (simp add: attr_settings_def attr_index_def)
  from tab_one_in_front [OF this, of "[item True, item False]" "[hidden, hidden]" 0 "[NavEvent 1]"]
  show ?thesis by (auto simp: item_def hidden_def less_Suc_eq numeral_2_eq_2)
qed

text \<open>
  Any other default index does not work: at the start the first content is shown instead of the
  one asked for, and after a click on a third tab it is still there beside the one clicked.
\<close>

theorem tab_default_index_two_shown:
  assumes "ts_defIndex st = INum (int d)" "0 < d" "d < length navs" "length navs = length cons"
    "\<forall>c\<in>set cons. \<not> ci_shown c" "0 < k" "k < length navs" "k \<noteq> d"
  shows "\<exists>s. tab_start st now navs cons = Some s \<and> \<not> ci_shown (tw_con s ! d) \<and> ci_shown (tw_con s ! 0) \<and>
    ci_shown (tw_con (tab_step st (NavEvent k) s) ! 0) \<and> ci_shown (tw_con (tab_step st (NavEvent k) s) ! k)"
proof -
  have le: "loose_eq (ts_defIndex st) (ts_defIndex st)" "\<not> loose_eq (ts_defIndex st) (INum (int k))"
    using assms(1,8) by (simp_all add: loose_eq_def to_num_def)
  have ne: "cons \<noteq> []" using assms(3,4) by auto
  have z: "eq_pos (length cons) (INum 0) = Some 0" using assms(3,4) by (intro eq_pos_zero) linarith
  obtain s where s: "tab_start st now navs cons = Some s" "tw_current s = ts_defIndex st" "tw_prev s = Some d"
      "tw_nav s = navs" "tw_con s = upd (Some 0) (ci_shown_update (\<lambda>_. True)) cons"
    using assms(1-4) eq_pos_nat [of d "length cons"] by (simp add: tab_start_eq z)
  have l: "length (tw_con s) = length (tw_nav s)" using s(4,5) assms(4) by simp
  have st: "tab_step st (NavEvent k) s = (setTab st (INum (int k)) s)\<lparr>tw_ticker := tick_stop (tw_ticker s)\<rparr>"
    using s(4) assms(7) by (simp add: tab_step_def setTab_ticker)
  note m = setTab_marks [where s = s and i = "INum (int k)" and st = st, OF _ l]
  show ?thesis
    using s(1) st le(2) m(3) [of 0] m(3) [of k] assms s ne by (auto simp: nth_upd eq_pos_nat)
qed

theorem tab_default_index_two_shown_witness:
  "\<exists>s. tab_start \<lparr>ts_auto = False, ts_stay = 0, ts_defIndex = INum (int 1), ts_arrow = None\<rparr> 0
     [item True, item False, item False] [hidden, hidden, hidden] = Some s \<and> ci_shown (tw_con s ! 0)"
  using tab_default_index_two_shown [of "\<lparr>ts_auto = False, ts_stay = 0, ts_defIndex = INum (int 1), ts_arrow = None\<rparr>" 1
    "[item True, item False, item False]" "[hidden, hidden, hidden]" 2 0]
  by (auto simp: hidden_def)


section \<open>The index of the attribute\<close>

definition follows :: "tabw \<Rightarrow> bool" where
  "follows s \<longleftrightarrow> length (tw_con s) = length (tw_nav s) \<and> tw_prev s = eq_pos (length (tw_nav s)) (tw_current s) \<and>
     (\<forall>k<length (tw_nav s). ci_shown (tw_con s ! k) \<longleftrightarrow> tw_prev s = Some k)"

lemma follows_set:
  assumes "follows s" "\<not> loose_eq (tw_current s) i"
  shows "follows (setTab st i s)" "tw_current (setTab st i s) = i"
proof -
  have l: "length (tw_con s) = length (tw_nav s)" using assms(1) by (simp add: follows_def)
  note m = setTab_marks [OF assms(2) l, where st = st]
  show "follows (setTab st i s)" using assms(1) m(1-3) by (auto simp: follows_def)
  show "tw_current (setTab st i s) = i" by (rule m(1))
qed

lemma tab_tick:
  assumes "tw_ticker s = (Some 1, ts)" "pending ts = [(1, Entry t (Some p) ())]"
  shows "tab_step st (TabTick 1) s =
    (auto_next st s)\<lparr>tw_ticker := (Some 1, ts\<lparr>pending := [(1, Entry (t + p) (Some p) ())]\<rparr>)\<rparr>"
  using assms by (simp add: tab_step_def fire_def find_timer_def auto_next_def Let_def setTab_ticker)

lemma ones: "list_all is_digit (replicate m 49)" "2 \<le> m \<Longrightarrow> 11 \<le> digits_val (replicate m 49)"
proof -
  have snoc: "digits_val (replicate (Suc m) 49) = 10 * digits_val (replicate m 49) + 1" for m
  proof -
    have r: "replicate (Suc m) 49 = replicate m 49 @ [49::nat]" by (simp add: replicate_append_same)
    show ?thesis unfolding r digits_val_snoc by simp
  qed
  have e: "digits_val [] = 0" by (simp add: digits_val_def)
  show "2 \<le> m \<Longrightarrow> 11 \<le> digits_val (replicate m 49)"
  proof (induction m)
    case (Suc m)
    show ?case
    proof (cases "m < 2")
      case True
      then have "m = Suc 0" using Suc.prems by simp
      then show ?thesis unfolding snoc by (simp add: snoc [of 0, simplified] e)
    next
      case False
      then show ?thesis unfolding snoc using Suc.IH by simp
    qed
  qed simp
qed (simp add: list_all_iff is_digit_def)

lemma text_ticks:
  assumes "follows s" "tw_current s = ITxt []" "tw_ticker s = (Some 1, ts)" "pending ts = [(1, Entry t (Some p) ())]"
  shows "\<exists>ts t. follows (tab_run st (replicate m (TabTick 1)) s) \<and>
     tw_current (tab_run st (replicate m (TabTick 1)) s) = ITxt (replicate m 49) \<and>
     length (tw_nav (tab_run st (replicate m (TabTick 1)) s)) = length (tw_nav s) \<and>
     tw_ticker (tab_run st (replicate m (TabTick 1)) s) = (Some 1, ts) \<and> pending ts = [(1, Entry t (Some p) ())]"
proof (induction m)
  case 0
  then show ?case using assms by (simp add: tab_run_def)
next
  case (Suc m)
  let ?r = "tab_run st (replicate m (TabTick 1)) s"
  obtain ts t where r: "follows ?r" "tw_current ?r = ITxt (replicate m 49)" "length (tw_nav ?r) = length (tw_nav s)"
      "tw_ticker ?r = (Some 1, ts)" "pending ts = [(1, Entry t (Some p) ())]"
    using Suc by blast
  have run: "tab_run st (replicate (Suc m) (TabTick 1)) s = tab_step st (TabTick 1) ?r"
    by (simp add: tab_run_def replicate_append_same [symmetric] del: replicate.simps)
  let ?i = "ITxt (replicate (Suc m) 49)"
  have "plus_one (tw_current ?r) = ?i"
    unfolding r(2) plus_one_def by (simp add: js_def replicate_append_same)
  then have n: "auto_next st ?r = setTab st ?i ?r" by (simp add: auto_next_def)
  have le: "\<not> loose_eq (tw_current ?r) ?i" unfolding r(2) by (simp add: loose_eq_def)
  have l: "length (tw_nav (setTab st ?i ?r)) = length (tw_nav s)" unfolding setTab_lengths by (rule r(3))
  show ?case
    unfolding run tab_tick [OF r(4,5)] n
    using follows_set [OF r(1) le, of st] l by (simp add: follows_def)
qed

text \<open>
  The attribute in the form its comment gives ends in an empty field for the default index, and
  an empty text is not a missing one: with automatic play the index is prolonged instead of
  counted, and from the second step on no content is shown at all.
\<close>

theorem tab_attribute_goes_blank:
  assumes "st = attr_settings (js ''u-tab|click|curr|true|2000|.nav|.content|'') arrow"
    "length navs = length cons" "2 \<le> length cons" "length cons \<le> 11" "\<forall>c\<in>set cons. \<not> ci_shown c" "2 \<le> m"
  shows "\<exists>s. tab_start st now navs cons = Some s \<and>
    (\<forall>k<length cons. \<not> ci_shown (tw_con (tab_run st (replicate m (TabTick 1)) s) ! k))"
proof -
  let ?as = "[UText (js ''click''), UText (js ''curr''), UBool True, UText (js ''2000''), UText (js ''.nav''),
      UText (js ''.content''), UText []]"
  have "uiParse (join_with (js ''|'') (js ''u-tab'' # map ui_show ?as)) = ?as"
    by (rule uiParse_show) (simp_all add: js_def ui_item_def)
  then have "uiParse (js ''u-tab|click|curr|true|2000|.nav|.content|'') = ?as"
    by (simp add: js_def)
  then have st: "ts_defIndex st = ITxt []" "ts_auto st" "ts_stay st = 2000"
    by (simp_all add: assms(1) attr_settings_def attr_index_def attr_auto_def attr_stay_def js_def is_digit_def digits_val_def)
  have e: "eq_pos (length cons) (ITxt []) = Some 0" "0 < length cons"
    using assms(3) by (auto simp: eq_pos_def to_num_def digits_val_def)
  obtain s where s: "tab_start st now navs cons = Some s" "follows s" "tw_current s = ITxt []"
      "tw_ticker s = (Some 1, snd (tw_ticker s))" "pending (snd (tw_ticker s)) = [(1, Entry (now + 2000) (Some 2000) ())]"
      "length (tw_nav s) = length cons"
    using e assms(2,3,5) st
    by (simp add: tab_start_eq follows_def nth_upd tick_play_def set_interval_def ticker0_def no_timers_def)
  let ?r = "tab_run st (replicate m (TabTick 1)) s"
  have r: "follows ?r" "tw_current ?r = ITxt (replicate m 49)" "length (tw_nav ?r) = length cons"
    using text_ticks [OF s(2-5), of st m] s(6) by auto
  have "tw_prev ?r = None"
    using r ones [of m] assms(4,6) by (auto simp: follows_def eq_pos_def to_num_def)
  then show ?thesis using s(1) r by (auto simp: follows_def)
qed

theorem tab_attribute_goes_blank_witness:
  "\<exists>s. tab_start (attr_settings (js ''u-tab|click|curr|true|2000|.nav|.content|'') None) 0 [item True, item False]
     [hidden, hidden] = Some s \<and>
    \<not> ci_shown (tw_con (tab_run (attr_settings (js ''u-tab|click|curr|true|2000|.nav|.content|'') None) (replicate 2 (TabTick 1)) s) ! 0)"
  using tab_attribute_goes_blank [OF refl, of "[item True, item False]" "[hidden, hidden]" 2 None 0]
  by (auto simp: hidden_def)

end
