(* ===== verification/Pop_Slide.thy ===== *)
theory Pop_Slide
  imports Pop_Tabs
begin

text \<open>
  The carousel of \<open>popui.js\<close> (\<open>$.fn.slide\<close>): frames of some items each, buttons and navigation behind
  \<open>$.debounce\<close> (200 ms, at the leading edge), automatic play, and animations that run one after the
  other and update marks and buttons at their end.
\<close>

section \<open>Frames\<close>

text \<open>\<open>total\<close>: the number of frames, for a positive number of visible items.\<close>

definition slide_total :: "int \<Rightarrow> int \<Rightarrow> int" where
  "slide_total sz visible = ceil_quot (sz - visible) visible + 1"

record slide_settings =
  ss_visible :: int
  ss_horizontal :: bool
  ss_auto :: bool
  ss_stay :: int
  ss_hideControl :: bool
  ss_disabledCls :: bool
  ss_hasNav :: bool
  ss_navEvent :: bool
  ss_width :: int
  ss_height :: int

text \<open>
  The page: the navigation items the selector finds with the one marked, the classes of the two
  buttons and whether they are shown, the frames whose animations are still to run, the left or
  top of the wrapper, and the three debounced handlers.
\<close>

record slidew =
  sw_current :: idx
  sw_items :: nat
  sw_mark :: "nat option"
  sw_created :: nat
  sw_prev_dis :: bool
  sw_next_dis :: bool
  sw_buttons :: bool
  sw_queue :: "int list"
  sw_pos :: int
  sw_prev_deb :: "unit deb"
  sw_next_deb :: "unit deb"
  sw_nav_deb :: "idx deb"
  sw_switched :: "idx list"
  sw_slide_ticker :: ticker

definition cur :: "slidew \<Rightarrow> int" where
  "cur s = (case to_num (sw_current s) of None \<Rightarrow> 0 | Some n \<Rightarrow> n)"

definition going :: "slide_settings \<Rightarrow> int \<Rightarrow> slidew \<Rightarrow> slidew" where
  "going st i s =
     s\<lparr>sw_queue := sw_queue s @
         [- i * ss_visible st * (if ss_horizontal st then ss_width st else ss_height st)]\<rparr>"

text \<open>\<open>current++\<close> and \<open>current--\<close> turn a text into a number.\<close>

definition goRB :: "slide_settings \<Rightarrow> int \<Rightarrow> slidew \<Rightarrow> slidew" where
  "goRB st frames s =
     (let c = cur s + 1 in
      if ss_auto st then
        (let c = (if c = frames then 0 else c) in going st c (s\<lparr>sw_current := INum c\<rparr>))
      else if c = frames then s\<lparr>sw_current := INum (c - 1)\<rparr>
      else going st c (s\<lparr>sw_current := INum c\<rparr>))"

definition goLT :: "slide_settings \<Rightarrow> int \<Rightarrow> slidew \<Rightarrow> slidew" where
  "goLT st frames s =
     (let c = cur s - 1 in
      if ss_auto st then
        (let c = (if c = -1 then frames - 1 else c) in going st c (s\<lparr>sw_current := INum c\<rparr>))
      else if c = -1 then s\<lparr>sw_current := INum (c + 1)\<rparr>
      else going st c (s\<lparr>sw_current := INum c\<rparr>))"

definition setCurrNav :: "slidew \<Rightarrow> slidew" where
  "setCurrNav s = s\<lparr>sw_mark := eq_pos (sw_items s) (sw_current s)\<rparr>"

definition set_buttons :: "int \<Rightarrow> slidew \<Rightarrow> slidew" where
  "set_buttons frames s =
     (let c = cur s;
          s = (if c = 0 then s\<lparr>sw_prev_dis := True, sw_next_dis := False\<rparr> else s);
          s = (if c = frames - 1 then s\<lparr>sw_prev_dis := False, sw_next_dis := True\<rparr> else s)
      in if c \<noteq> 0 \<and> c \<noteq> frames - 1 then s\<lparr>sw_prev_dis := False, sw_next_dis := False\<rparr> else s)"

definition onEnd :: "slide_settings \<Rightarrow> int \<Rightarrow> slidew \<Rightarrow> slidew" where
  "onEnd st frames s =
     (let s = (if ss_hasNav st then setCurrNav s else s);
          s = (if ss_disabledCls st then set_buttons frames s else s)
      in s\<lparr>sw_switched := sw_switched s @ [sw_current s]\<rparr>)"

section \<open>Start and events\<close>

text \<open>
  \<open>addNav\<close>: items of the page are numbered; without any, items are created, which the selector of
  the navigation does not find (they carry no \<open>data-ui\<close>).
\<close>

definition addNav :: "int \<Rightarrow> slidew \<Rightarrow> slidew" where
  "addNav frames s = (if sw_items s > 0 then s else s\<lparr>sw_created := nat frames\<rparr>)"

definition slide_start :: "slide_settings \<Rightarrow> int \<Rightarrow> nat \<Rightarrow> int \<Rightarrow> slidew" where
  "slide_start st sz items now =
     (let frames = slide_total sz (ss_visible st);
          s = \<lparr>sw_current = INum 0, sw_items = items, sw_mark = None, sw_created = 0, sw_prev_dis = False,
               sw_next_dis = False, sw_buttons = True, sw_queue = [], sw_pos = 0, sw_prev_deb = deb0,
               sw_next_deb = deb0, sw_nav_deb = deb0, sw_switched = [], sw_slide_ticker = ticker0\<rparr>;
          s = (if frames > 1 then
                 (let s = (if ss_auto st then s\<lparr>sw_slide_ticker := tick_play (ss_stay st) now (sw_slide_ticker s)\<rparr> else s);
                      s = (if ss_hasNav st then addNav frames s else s)
                  in if ss_disabledCls st then s\<lparr>sw_prev_dis := True\<rparr> else s)
               else s\<lparr>sw_buttons := False\<rparr>)
      in if ss_hideControl st then s\<lparr>sw_buttons := False\<rparr> else s)"

text \<open>
  Events: the buttons, the navigation, the timers of the three debounced handlers, the mouse over and
  out of the parts that stop the play, the timer of the play, and the end of the animation that
  runs. The handlers are bound when there is more than one frame.
\<close>

datatype slide_event =
    SPrev int
  | SNext int
  | SNav nat int
  | SPrevLater int
  | SNextLater int
  | SNavLater int
  | SOver
  | SOut int
  | STick nat
  | SEnd

definition prevHandler :: "slide_settings \<Rightarrow> int \<Rightarrow> int \<Rightarrow> slidew \<Rightarrow> slidew" where
  "prevHandler st frames now s =
     (let callNow = (db_timeout (sw_prev_deb s) = None);
          s = s\<lparr>sw_prev_deb := deb_call 200 True now () (sw_prev_deb s)\<rparr>
      in if callNow then goLT st frames s else s)"

definition nextHandler :: "slide_settings \<Rightarrow> int \<Rightarrow> int \<Rightarrow> slidew \<Rightarrow> slidew" where
  "nextHandler st frames now s =
     (let callNow = (db_timeout (sw_next_deb s) = None);
          s = s\<lparr>sw_next_deb := deb_call 200 True now () (sw_next_deb s)\<rparr>
      in if callNow then goRB st frames s else s)"

text \<open>A click on item \<open>k\<close>: \<open>current\<close> becomes the text of its attribute before the handler is asked.\<close>

definition navClick :: "slide_settings \<Rightarrow> nat \<Rightarrow> int \<Rightarrow> slidew \<Rightarrow> slidew" where
  "navClick st k now s =
     (let callNow = (db_timeout (sw_nav_deb s) = None); i = ITxt (nat_str k);
          s = s\<lparr>sw_current := i, sw_nav_deb := deb_call 200 True now i (sw_nav_deb s)\<rparr>
      in if callNow then going st (int k) s else s)"

definition slide_step :: "slide_settings \<Rightarrow> int \<Rightarrow> slide_event \<Rightarrow> slidew \<Rightarrow> slidew" where
  "slide_step st frames e s =
     (if frames \<le> 1 then s
      else case e of
        SPrev now \<Rightarrow> if ss_hideControl st then s else prevHandler st frames now s
      | SNext now \<Rightarrow> if ss_hideControl st then s else nextHandler st frames now s
      | SNav k now \<Rightarrow> if ss_hasNav st \<and> ss_navEvent st \<and> k < sw_items s then navClick st k now s else s
      | SPrevLater now \<Rightarrow> s\<lparr>sw_prev_deb := deb_later 200 True now (sw_prev_deb s)\<rparr>
      | SNextLater now \<Rightarrow> s\<lparr>sw_next_deb := deb_later 200 True now (sw_next_deb s)\<rparr>
      | SNavLater now \<Rightarrow> s\<lparr>sw_nav_deb := deb_later 200 True now (sw_nav_deb s)\<rparr>
      | SOver \<Rightarrow> if ss_auto st then s\<lparr>sw_slide_ticker := tick_stop (sw_slide_ticker s)\<rparr> else s
      | SOut now \<Rightarrow> if ss_auto st then s\<lparr>sw_slide_ticker := tick_play (ss_stay st) now (sw_slide_ticker s)\<rparr> else s
      | STick i \<Rightarrow>
          (case fire i (snd (sw_slide_ticker s)) of
             None \<Rightarrow> s
           | Some (u, ts) \<Rightarrow> goRB st frames (s\<lparr>sw_slide_ticker := (fst (sw_slide_ticker s), ts)\<rparr>))
      | SEnd \<Rightarrow> (case sw_queue s of [] \<Rightarrow> s | p # ps \<Rightarrow> onEnd st frames (s\<lparr>sw_pos := p, sw_queue := ps\<rparr>)))"

definition slide_run :: "slide_settings \<Rightarrow> int \<Rightarrow> slide_event list \<Rightarrow> slidew \<Rightarrow> slidew" where
  "slide_run st frames es s = fold (slide_step st frames) es s"

section \<open>Every item has its frame\<close>

text \<open>
  The number of frames is right: every item lies in one of the frames, and every frame shows at
  least one item.
\<close>

theorem slide_frames_cover:
  assumes "0 < visible" "0 < sz"
  shows "(\<forall>i. 0 \<le> i \<and> i < sz \<longrightarrow> i div visible < slide_total sz visible) \<and>
    (\<forall>f. 0 \<le> f \<and> f < slide_total sz visible \<longrightarrow> f * visible < sz)"
proof -
  let ?t = "slide_total sz visible"
  have t: "?t = - ((- sz) div visible)"
  proof -
    have "(- (sz - visible)) div visible = (- sz) div visible + 1"
      using assms(1) div_add_self2 [of visible "- sz"] by simp
    then show ?thesis by (simp add: slide_total_def ceil_quot_def)
  qed
  have eq: "visible * ((- sz) div visible) + (- sz) mod visible = - sz" by (rule mult_div_mod_eq)
  have m: "0 \<le> (- sz) mod visible" "(- sz) mod visible < visible" using assms(1) by simp_all
  have e: "visible * ?t = - (visible * ((- sz) div visible))" "visible * (?t - 1) = visible * ?t - visible"
    unfolding t by (simp_all add: right_diff_distrib)
  have hi: "sz \<le> visible * ?t" using eq m(1) e(1) by linarith
  have lo: "visible * (?t - 1) < sz" using eq m(2) e by linarith
  have "i div visible < ?t" if "i < sz" for i
  proof -
    have "visible * (i div visible) \<le> i"
      using mult_div_mod_eq [of visible i] pos_mod_sign [OF assms(1), of i] by linarith
    then have "visible * (i div visible) < visible * ?t" using that hi by linarith
    then show ?thesis using assms(1) by (simp add: mult_less_cancel_left_pos)
  qed
  moreover have "f * visible < sz" if "f < ?t" for f
  proof -
    have "f * visible \<le> (?t - 1) * visible" using that assms(1) by (intro mult_right_mono) auto
    then show ?thesis using lo by (simp add: mult.commute)
  qed
  ultimately show ?thesis by blast
qed

theorem slide_frames_cover_witness: "(6::int) div 3 < slide_total 7 3 \<and> 2 * 3 < (7::int)"
proof -
  have t: "slide_total 7 3 = 3" by (simp add: slide_total_def ceil_quot_def)
  from slide_frames_cover [of 3 7] show ?thesis unfolding t by auto
qed


section \<open>Where the carousel stands\<close>

definition shift :: "slide_settings \<Rightarrow> int" where
  "shift st = ss_visible st * (if ss_horizontal st then ss_width st else ss_height st)"

text \<open>Positions of frames, and the frame the animations lead to.\<close>

definition frame_pos :: "slide_settings \<Rightarrow> int \<Rightarrow> int \<Rightarrow> bool" where
  "frame_pos st frames p \<longleftrightarrow> (\<exists>f. 0 \<le> f \<and> f < frames \<and> p = - f * shift st)"

definition in_range :: "slide_settings \<Rightarrow> int \<Rightarrow> slidew \<Rightarrow> bool" where
  "in_range st frames s \<longleftrightarrow>
     0 \<le> cur s \<and> cur s < frames \<and> int (sw_items s) \<le> frames \<and> (\<forall>p\<in>set (sw_pos s # sw_queue s). frame_pos st frames p)"

definition settled :: "slide_settings \<Rightarrow> int \<Rightarrow> slidew \<Rightarrow> bool" where
  "settled st frames s \<longleftrightarrow>
     sw_items s = 0 \<and> last (sw_pos s # sw_queue s) = - cur s * shift st \<and>
     (sw_queue s = [] \<and> ss_disabledCls st \<longrightarrow>
        (sw_prev_dis s \<longleftrightarrow> cur s = 0) \<and> (sw_next_dis s \<longleftrightarrow> cur s = frames - 1))"

lemma going_eq: "going st i s = s\<lparr>sw_queue := sw_queue s @ [- i * shift st]\<rparr>"
  by (simp add: going_def shift_def mult.assoc)

lemma cur_simps [simp]:
  "cur (s\<lparr>sw_current := INum c\<rparr>) = c" "cur (s\<lparr>sw_queue := q\<rparr>) = cur s" "cur (s\<lparr>sw_pos := p\<rparr>) = cur s"
  "cur (s\<lparr>sw_mark := m\<rparr>) = cur s" "cur (s\<lparr>sw_switched := x\<rparr>) = cur s" "cur (s\<lparr>sw_prev_dis := a\<rparr>) = cur s"
  "cur (s\<lparr>sw_next_dis := a\<rparr>) = cur s" "cur (s\<lparr>sw_prev_deb := d\<rparr>) = cur s" "cur (s\<lparr>sw_next_deb := d\<rparr>) = cur s"
  "cur (s\<lparr>sw_nav_deb := e\<rparr>) = cur s" "cur (s\<lparr>sw_slide_ticker := t\<rparr>) = cur s"
  by (simp_all add: cur_def to_num_def)

lemma cur_text: "cur (s\<lparr>sw_current := ITxt (nat_str k)\<rparr>) = int k"
  using nat_str_digits [of _ k] by (simp add: cur_def to_num_def list_all_iff)

text \<open>Changes that no position depends on.\<close>

lemma quiet [simp]:
  "in_range st n (s\<lparr>sw_slide_ticker := t\<rparr>) = in_range st n s" "settled st n (s\<lparr>sw_slide_ticker := t\<rparr>) = settled st n s"
  "in_range st n (s\<lparr>sw_prev_deb := d\<rparr>) = in_range st n s" "settled st n (s\<lparr>sw_prev_deb := d\<rparr>) = settled st n s"
  "in_range st n (s\<lparr>sw_next_deb := d\<rparr>) = in_range st n s" "settled st n (s\<lparr>sw_next_deb := d\<rparr>) = settled st n s"
  "in_range st n (s\<lparr>sw_nav_deb := e\<rparr>) = in_range st n s" "settled st n (s\<lparr>sw_nav_deb := e\<rparr>) = settled st n s"
  by (simp_all add: in_range_def settled_def)

lemma go_cases:
  assumes "0 \<le> cur s" "cur s < frames" "1 < frames"
  shows "(\<exists>c. 0 \<le> c \<and> c < frames \<and> goRB st frames s = going st c (s\<lparr>sw_current := INum c\<rparr>)) \<or>
      goRB st frames s = s\<lparr>sw_current := INum (cur s)\<rparr>"
    "(\<exists>c. 0 \<le> c \<and> c < frames \<and> goLT st frames s = going st c (s\<lparr>sw_current := INum c\<rparr>)) \<or>
      goLT st frames s = s\<lparr>sw_current := INum (cur s)\<rparr>"
proof -
  define c where "c = (if cur s + 1 = frames then 0 else cur s + 1)"
  define d where "d = (if cur s = 0 then frames - 1 else cur s - 1)"
  have "0 \<le> c \<and> c < frames" "0 \<le> d \<and> d < frames" using assms by (auto simp: c_def d_def)
  moreover have "goRB st frames s = going st c (s\<lparr>sw_current := INum c\<rparr>) \<or> goRB st frames s = s\<lparr>sw_current := INum (cur s)\<rparr>"
    by (auto simp: goRB_def Let_def c_def)
  moreover have "goLT st frames s = going st d (s\<lparr>sw_current := INum d\<rparr>) \<or> goLT st frames s = s\<lparr>sw_current := INum (cur s)\<rparr>"
    by (auto simp: goLT_def Let_def d_def)
  ultimately show "(\<exists>c. 0 \<le> c \<and> c < frames \<and> goRB st frames s = going st c (s\<lparr>sw_current := INum c\<rparr>)) \<or>
      goRB st frames s = s\<lparr>sw_current := INum (cur s)\<rparr>"
    "(\<exists>c. 0 \<le> c \<and> c < frames \<and> goLT st frames s = going st c (s\<lparr>sw_current := INum c\<rparr>)) \<or>
      goLT st frames s = s\<lparr>sw_current := INum (cur s)\<rparr>"
    by blast+
qed

lemma frame_posI: "0 \<le> f \<Longrightarrow> f < frames \<Longrightarrow> frame_pos st frames (- (f * shift st))"
  by (auto simp: frame_pos_def)

lemma going_in_range: "in_range st frames s \<Longrightarrow> 0 \<le> c \<Longrightarrow> c < frames \<Longrightarrow>
    in_range st frames (going st c (s\<lparr>sw_current := INum c\<rparr>))"
  by (auto simp: in_range_def going_eq frame_pos_def)

lemma going_settled: "settled st frames s \<Longrightarrow> settled st frames (going st c (s\<lparr>sw_current := INum c\<rparr>))"
  by (simp add: settled_def going_eq)

lemma renumber [simp]:
  "in_range st frames (s\<lparr>sw_current := INum (cur s)\<rparr>) = in_range st frames s"
  "settled st frames (s\<lparr>sw_current := INum (cur s)\<rparr>) = settled st frames s"
  by (simp_all add: in_range_def settled_def)

lemma go_in_range:
  "in_range st frames s \<Longrightarrow> 1 < frames \<Longrightarrow> in_range st frames (goRB st frames s) \<and> in_range st frames (goLT st frames s)"
  using go_cases [of s frames st] going_in_range [of st frames s] by (auto simp: in_range_def [of st frames s])

lemma go_settled:
  assumes "settled st frames s" "0 \<le> cur s" "cur s < frames" "1 < frames"
  shows "settled st frames (goRB st frames s) \<and> settled st frames (goLT st frames s)"
  using go_cases [OF assms(2-4), of st] going_settled [OF assms(1)] assms(1) by auto

lemma onEnd_fields:
  "sw_queue (onEnd st n s) = sw_queue s" "sw_pos (onEnd st n s) = sw_pos s" "sw_current (onEnd st n s) = sw_current s"
  "sw_items (onEnd st n s) = sw_items s" "cur (onEnd st n s) = cur s"
  by (simp_all add: onEnd_def Let_def setCurrNav_def set_buttons_def)

lemma onEnd_in_range:
  assumes "in_range st frames s" "sw_queue s = p # ps"
  shows "in_range st frames (onEnd st frames (s\<lparr>sw_pos := p, sw_queue := ps\<rparr>))"
  using assms by (simp add: in_range_def onEnd_fields)

lemma onEnd_settled:
  assumes "settled st frames s" "sw_queue s = p # ps" "1 < frames"
  shows "settled st frames (onEnd st frames (s\<lparr>sw_pos := p, sw_queue := ps\<rparr>))"
proof -
  let ?s = "s\<lparr>sw_pos := p, sw_queue := ps\<rparr>"
  have "ss_disabledCls st \<Longrightarrow>
      (sw_prev_dis (onEnd st frames ?s) \<longleftrightarrow> cur s = 0) \<and> (sw_next_dis (onEnd st frames ?s) \<longleftrightarrow> cur s = frames - 1)"
    using assms(3) by (auto simp: onEnd_def Let_def setCurrNav_def set_buttons_def)
  then show ?thesis using assms(1,2) by (cases ps) (simp_all add: settled_def onEnd_fields)
qed

lemma slide_step_in_range:
  assumes "in_range st frames s"
  shows "in_range st frames (slide_step st frames e s)"
proof (cases "frames \<le> 1")
  case True
  then show ?thesis using assms by (simp add: slide_step_def)
next
  case False
  then have t: "1 < frames" by simp
  show ?thesis
  proof (cases e)
    case (SNav k now)
    show ?thesis
      using SNav assms t
      by (auto simp: slide_step_def navClick_def Let_def in_range_def going_eq cur_text intro!: frame_posI)
  next
    case (STick i)
    then show ?thesis using go_in_range assms t by (auto simp: slide_step_def split: option.split)
  next
    case SEnd
    then show ?thesis using onEnd_in_range [OF assms] assms t by (auto simp: slide_step_def split: list.split)
  qed (use go_in_range assms t in \<open>auto simp: slide_step_def prevHandler_def nextHandler_def Let_def\<close>)
qed

lemma slide_step_settled:
  assumes "settled st frames s" "in_range st frames s"
  shows "settled st frames (slide_step st frames e s)"
proof (cases "frames \<le> 1")
  case True
  then show ?thesis using assms by (simp add: slide_step_def)
next
  case False
  then have t: "1 < frames" and c: "0 \<le> cur s" "cur s < frames" using assms(2) by (simp_all add: in_range_def)
  show ?thesis
  proof (cases e)
    case (STick i)
    then show ?thesis using go_settled t c assms(1) by (auto simp: slide_step_def split: option.split)
  next
    case SEnd
    then show ?thesis using onEnd_settled [OF assms(1) _ t] assms t by (auto simp: slide_step_def split: list.split)
  next
    case (SNav k now)
    moreover have "sw_items s = 0" using assms(1) by (simp add: settled_def)
    ultimately show ?thesis using assms(1) by (simp add: slide_step_def)
  qed (use go_settled t c assms(1) in \<open>auto simp: slide_step_def prevHandler_def nextHandler_def Let_def\<close>)
qed

lemma slide_start_inv:
  assumes "1 < slide_total sz (ss_visible st)" "int items \<le> slide_total sz (ss_visible st)"
  shows "in_range st (slide_total sz (ss_visible st)) (slide_start st sz items now)"
    "items = 0 \<Longrightarrow> settled st (slide_total sz (ss_visible st)) (slide_start st sz items now)"
proof -
  have f: "sw_current (slide_start st sz items now) = INum 0" "sw_queue (slide_start st sz items now) = []"
      "sw_pos (slide_start st sz items now) = 0" "sw_items (slide_start st sz items now) = items"
      "sw_next_dis (slide_start st sz items now) = False" "sw_prev_dis (slide_start st sz items now) = ss_disabledCls st"
    using assms(1) by (simp_all add: slide_start_def Let_def addNav_def)
  have "cur (slide_start st sz items now) = 0" by (simp add: cur_def f to_num_def)
  then show "in_range st (slide_total sz (ss_visible st)) (slide_start st sz items now)"
    "items = 0 \<Longrightarrow> settled st (slide_total sz (ss_visible st)) (slide_start st sz items now)"
    using assms f by (auto simp: in_range_def settled_def frame_pos_def)
qed

lemma slide_run_inv:
  "in_range st n s \<Longrightarrow> in_range st n (slide_run st n es s) \<and> (settled st n s \<longrightarrow> settled st n (slide_run st n es s))"
  unfolding slide_run_def
  by (induction es arbitrary: s) (auto simp: slide_step_in_range slide_step_settled)

text \<open>
  Whatever is clicked, however the timers fall and however far the animations are behind, the
  current frame is one of the frames, and every position the wrapper takes is that of a frame.
\<close>

theorem slide_stays_in_range:
  assumes "1 < slide_total sz (ss_visible st)" "int items \<le> slide_total sz (ss_visible st)"
    "r = slide_run st (slide_total sz (ss_visible st)) es (slide_start st sz items now)"
  shows "0 \<le> cur r \<and> cur r < slide_total sz (ss_visible st) \<and>
    (\<exists>f. 0 \<le> f \<and> f < slide_total sz (ss_visible st) \<and>
      sw_pos r = - f * (ss_visible st * (if ss_horizontal st then ss_width st else ss_height st)))"
  using slide_run_inv [OF slide_start_inv(1) [OF assms(1,2)], of es now]
  by (simp add: assms(3) in_range_def frame_pos_def shift_def)

definition strip :: slide_settings where
  "strip = \<lparr>ss_visible = 3, ss_horizontal = True, ss_auto = False, ss_stay = 5000, ss_hideControl = False,
     ss_disabledCls = True, ss_hasNav = True, ss_navEvent = True, ss_width = 50, ss_height = 20\<rparr>"

lemma strip_frames: "slide_total 7 (ss_visible strip) = 3"
  by (simp add: strip_def slide_total_def ceil_quot_def)

theorem slide_stays_in_range_witness:
  "0 \<le> cur (slide_run strip 3 [SNav 2 0, SNext 5, SEnd, SEnd] (slide_start strip 7 3 0)) \<and>
   cur (slide_run strip 3 [SNav 2 0, SNext 5, SEnd, SEnd] (slide_start strip 7 3 0)) < 3"
  using slide_stays_in_range [of 7 strip 3 "slide_run strip 3 [SNav 2 0, SNext 5, SEnd, SEnd] (slide_start strip 7 3 0)"
      "[SNav 2 0, SNext 5, SEnd, SEnd]" 0]
  unfolding strip_frames by simp

text \<open>
  On a carousel without navigation items, whenever no animation is left to run, the wrapper stands
  at the current frame, the button back is disabled exactly on the first frame and the button
  forward exactly on the last one.
\<close>

theorem slide_buttons_right:
  assumes "1 < slide_total sz (ss_visible st)" "ss_disabledCls st"
    "r = slide_run st (slide_total sz (ss_visible st)) es (slide_start st sz 0 now)" "sw_queue r = []"
  shows "sw_pos r = - cur r * (ss_visible st * (if ss_horizontal st then ss_width st else ss_height st)) \<and>
    (sw_prev_dis r \<longleftrightarrow> cur r = 0) \<and> (sw_next_dis r \<longleftrightarrow> cur r = slide_total sz (ss_visible st) - 1)"
proof -
  have z: "int 0 \<le> slide_total sz (ss_visible st)" using assms(1) by simp
  have "settled st (slide_total sz (ss_visible st)) r"
    unfolding assms(3) using slide_run_inv [OF slide_start_inv(1) [OF assms(1) z]] slide_start_inv(2) [OF assms(1) z] by blast
  then show ?thesis using assms(2,4) by (simp add: settled_def shift_def)
qed

theorem slide_buttons_right_witness:
  "\<exists>r. r = slide_run strip 3 [] (slide_start strip 7 0 0) \<and> sw_prev_dis r \<and> \<not> sw_next_dis r"
proof -
  let ?r = "slide_run strip 3 [] (slide_start strip 7 0 0)"
  have q: "sw_queue ?r = []" "cur ?r = 0"
    by (simp_all add: slide_run_def slide_start_def strip_frames Let_def addNav_def cur_def to_num_def)
  from slide_buttons_right [of 7 strip ?r "[]" 0] have "(sw_prev_dis ?r \<longleftrightarrow> cur ?r = 0) \<and> (sw_next_dis ?r \<longleftrightarrow> cur ?r = 3 - 1)"
    using q(1) unfolding strip_frames by (simp add: strip_def)
  then show ?thesis using q(2) by simp
qed

text \<open>
  A click on the navigation that the debouncing drops still changes the current frame: after two
  clicks within 200 ms the wrapper stands at the first choice while the second is marked as current,
  and the buttons go on from a frame that was never shown.
\<close>

theorem slide_dropped_click:
  assumes "1 < frames" "ss_hasNav st" "ss_navEvent st" "a < sw_items s" "b < sw_items s" "sw_queue s = []"
    "db_timeout (sw_nav_deb s) = None" "r = slide_run st frames [SNav a now, SNav b (now + 1), SEnd] s"
  shows "sw_pos r = - int a * (ss_visible st * (if ss_horizontal st then ss_width st else ss_height st)) \<and>
    sw_queue r = [] \<and> cur r = int b \<and> sw_mark r = Some b"
proof -
  have t: "\<not> frames \<le> 1" using assms(1) by simp
  have m: "eq_pos (sw_items s) (ITxt (nat_str b)) = Some b"
    using assms(5) nat_str_digits [of _ b] by (simp add: eq_pos_def to_num_def list_all_iff)
  let ?s2 = "slide_step st frames (SNav b (now + 1)) (slide_step st frames (SNav a now) s)"
  have s2: "sw_queue ?s2 = [- int a * shift st]" "sw_current ?s2 = ITxt (nat_str b)" "sw_items ?s2 = sw_items s"
    using assms(2-7) t by (simp_all add: slide_step_def navClick_def Let_def going_eq deb_call_def)
  have r: "r = onEnd st frames (?s2\<lparr>sw_pos := - int a * shift st, sw_queue := []\<rparr>)"
    using t s2(1) by (simp add: assms(8) slide_run_def slide_step_def [of st frames SEnd])
  have "sw_mark r = Some b"
    unfolding r using assms(2) s2 m by (simp add: onEnd_def Let_def setCurrNav_def set_buttons_def)
  moreover have "cur r = int b"
  proof -
    have "sw_current r = ITxt (nat_str b)" unfolding r by (simp add: onEnd_fields s2)
    then show ?thesis using nat_str_digits [of _ b] by (simp add: cur_def to_num_def list_all_iff)
  qed
  ultimately show ?thesis by (simp add: r onEnd_fields shift_def)
qed


theorem slide_dropped_click_witness:
  "\<exists>r. r = slide_run strip 3 [SNav 1 0, SNav 2 (0 + 1), SEnd] (slide_start strip 7 3 0) \<and>
     sw_pos r = - 150 \<and> cur r = 2 \<and> sw_mark r = Some 2"
proof -
  have h: "(1::int) < 3" "ss_hasNav strip" "ss_navEvent strip" "1 < sw_items (slide_start strip 7 3 0)"
      "2 < sw_items (slide_start strip 7 3 0)" "sw_queue (slide_start strip 7 3 0) = []"
      "db_timeout (sw_nav_deb (slide_start strip 7 3 0)) = None"
    by (simp_all add: slide_start_def strip_frames Let_def addNav_def deb0_def) (simp_all add: strip_def)
  from slide_dropped_click [OF h refl, of 0] show ?thesis by (simp add: strip_def)
qed

end
