(* ===== verification/Pop_Marquee.thy ===== *)
theory Pop_Marquee
  imports Js_Dom
begin

text \<open>
  The marquee of \<open>popui.js\<close> (\<open>$.fn.marquee\<close>): a list and its copy move side by side, a frame at a
  time, in steps that get smaller towards the end of the frame. Sizes and offsets are whole numbers
  of pixels. One element is modelled; elements of one call share their settings in the code.
\<close>

section \<open>State\<close>

datatype direction = Up | Down | Left | Right

datatype mq_callback = MainTick | SubTick

text \<open>
  The settings that do not change: the size of the list along its direction (\<open>height\<close> or \<open>width\<close>) and
  the size of a frame.
\<close>

record mq_settings =
  ms_dir :: direction
  ms_size :: int
  ms_frameSize :: int
  ms_view :: int
  ms_speed :: int
  ms_step :: int
  ms_auto :: bool
  ms_control :: bool
  ms_stay :: int
  ms_delay :: int

text \<open>
  The offsets of the list and of its copy, where the frame began (\<open>posObj\<close>), the flags \<open>tag\<close> and
  \<open>convert\<close>, the button pressed (front or not), the timers, the classes of the buttons and the number
  of handlers bound to each of the four buttons.
\<close>

record mq =
  mq_dir :: direction
  mq_ul :: int
  mq_cl :: int
  mq_object :: int
  mq_clone :: int
  mq_tag :: bool
  mq_convert :: bool
  mq_front :: bool
  mq_stay :: int
  mq_main :: "nat option"
  mq_sub :: "nat option"
  mq_timers :: "mq_callback timers"
  mq_prev_dis :: bool
  mq_next_dis :: bool
  mq_bound :: nat

definition mq_clear :: "nat option \<Rightarrow> mq \<Rightarrow> mq" where
  "mq_clear t s = (case t of None \<Rightarrow> s | Some i \<Rightarrow> s\<lparr>mq_timers := clear_timer i (mq_timers s)\<rparr>)"

definition initMainTimer :: "int \<Rightarrow> int option \<Rightarrow> mq \<Rightarrow> mq" where
  "initMainTimer now delay s =
     (let s = mq_clear (mq_main s) s;
          s = (case delay of None \<Rightarrow> s | Some d \<Rightarrow> if d = 0 then s else s\<lparr>mq_stay := d\<rparr>)
      in case set_interval now (mq_stay s) MainTick (mq_timers s) of
           (i, ts) \<Rightarrow> s\<lparr>mq_main := Some i, mq_timers := ts\<rparr>)"

definition initSubTimer :: "mq_settings \<Rightarrow> int \<Rightarrow> mq \<Rightarrow> mq" where
  "initSubTimer st now s =
     (let s = mq_clear (mq_sub s) s
      in case set_interval now (ms_delay st) SubTick (mq_timers s) of
           (i, ts) \<Rightarrow> s\<lparr>mq_sub := Some i, mq_timers := ts\<rparr>)"

definition initControl :: "mq \<Rightarrow> mq" where
  "initControl s = s\<lparr>mq_bound := mq_bound s + 1\<rparr>"

definition disControl :: "bool \<Rightarrow> mq \<Rightarrow> mq" where
  "disControl boo s = (if boo then s\<lparr>mq_bound := 0\<rparr> else initControl s)"

definition turn :: "bool \<Rightarrow> direction \<Rightarrow> direction" where
  "turn front d =
     (if front then (case d of Down \<Rightarrow> Up | Right \<Rightarrow> Left | _ \<Rightarrow> d)
      else (case d of Up \<Rightarrow> Down | Left \<Rightarrow> Right | _ \<Rightarrow> d))"

definition convert :: "mq_settings \<Rightarrow> int \<Rightarrow> mq \<Rightarrow> mq" where
  "convert st now s =
     (if mq_tag s \<and> mq_convert s then
        (let s = s\<lparr>mq_convert := False, mq_dir := turn (mq_front s) (mq_dir s)\<rparr>
         in if ms_auto st then initMainTimer now None s else initMainTimer now (Some (4 * ms_delay st)) s)
      else s)"

definition setPos :: "mq_settings \<Rightarrow> int \<Rightarrow> int \<Rightarrow> int \<Rightarrow> bool \<Rightarrow> mq \<Rightarrow> mq" where
  "setPos st now y1 y2 x s =
     (let s = (if x then (mq_clear (mq_sub s) s)\<lparr>mq_object := y1, mq_clone := y2, mq_tag := True\<rparr>
               else s\<lparr>mq_tag := False\<rparr>);
          s = (if mq_tag s then
                 if mq_convert s then convert st now s
                 else if \<not> ms_auto st then mq_clear (mq_main s) s else s
               else s)
      in s\<lparr>mq_ul := y1, mq_cl := y2\<rparr>)"

section \<open>A step\<close>

definition yAdd :: "mq \<Rightarrow> int" where
  "yAdd s = max \<bar>mq_ul s - mq_object s\<bar> \<bar>mq_cl s - mq_clone s\<bar>"

definition yCeil :: "mq_settings \<Rightarrow> mq \<Rightarrow> int" where
  "yCeil st s = ceil_quot (ms_frameSize st - yAdd s) (ms_speed st)"

text \<open>The two branches for moving towards smaller and towards larger offsets.\<close>

definition move_back :: "mq_settings \<Rightarrow> int \<Rightarrow> mq \<Rightarrow> mq" where
  "move_back st now s =
     (let k = yCeil st s; sz = ms_size st;
          (ul, s) = (if mq_ul s \<le> - sz then (mq_cl s + sz, s\<lparr>mq_object := mq_cl s + sz\<rparr>) else (mq_ul s, s));
          (cl, s) = (if mq_cl s \<le> - sz then (ul + sz, s\<lparr>mq_clone := ul + sz\<rparr>) else (mq_cl s, s))
      in setPos st now (ul - k) (cl - k) False s)"

definition move_on :: "mq_settings \<Rightarrow> int \<Rightarrow> mq \<Rightarrow> mq" where
  "move_on st now s =
     (let k = yCeil st s; sz = ms_size st;
          (ul, s) = (if mq_ul s \<ge> sz then (mq_cl s - sz, s\<lparr>mq_object := mq_cl s - sz\<rparr>) else (mq_ul s, s));
          (cl, s) = (if mq_cl s \<ge> sz then (ul - sz, s\<lparr>mq_clone := ul - sz\<rparr>) else (mq_cl s, s))
      in setPos st now (ul + k) (cl + k) False s)"

definition backwards :: "direction \<Rightarrow> bool" where
  "backwards d \<longleftrightarrow> d = Up \<or> d = Left"

definition rollAlong :: "mq_settings \<Rightarrow> int \<Rightarrow> mq \<Rightarrow> mq" where
  "rollAlong st now s =
     (let back = backwards (mq_dir s) in
      if yAdd s = ms_frameSize st then
        (let s = setPos st now (mq_ul s) (mq_cl s) True s;
             s = (if back then s\<lparr>mq_prev_dis := False\<rparr> else s\<lparr>mq_next_dis := False\<rparr>)
         in disControl False s)
      else if back then move_back st now s else move_on st now s)"

section \<open>Start and events\<close>

text \<open>A list smaller than the view, or than the step, is left alone.\<close>

definition mq_start :: "mq_settings \<Rightarrow> int \<Rightarrow> mq option" where
  "mq_start st now =
     (if ms_size st \<ge> ms_view st \<and> ms_size st \<ge> ms_step st then
        (let c = (if backwards (ms_dir st) then ms_size st else - ms_size st);
             s = \<lparr>mq_dir = ms_dir st, mq_ul = 0, mq_cl = c, mq_object = 0, mq_clone = c, mq_tag = False,
                  mq_convert = False, mq_front = False, mq_stay = ms_stay st, mq_main = None, mq_sub = None,
                  mq_timers = no_timers, mq_prev_dis = False, mq_next_dis = False, mq_bound = 0\<rparr>;
             s = (if ms_auto st then initMainTimer now None s else s)
         in Some (if ms_control st then initControl s else s))
      else None)"

text \<open>The body of the handlers of the two buttons; every handler bound runs.\<close>

definition press :: "mq_settings \<Rightarrow> bool \<Rightarrow> int \<Rightarrow> mq \<Rightarrow> mq" where
  "press st front now s =
     (let s = (if front then s\<lparr>mq_prev_dis := True\<rparr> else s\<lparr>mq_next_dis := True\<rparr>);
          s = mq_clear (mq_main (disControl True s)) (disControl True s);
          s = initSubTimer st now (s\<lparr>mq_convert := True, mq_front := front\<rparr>);
          s = (if \<not> ms_auto st then s\<lparr>mq_tag := True\<rparr> else s)
      in convert st now s)"

datatype mq_event =
    MPrev int
  | MNext int
  | MStop
  | MContinue int
  | MOver
  | MOut int
  | MTimer nat int

definition mq_step :: "mq_settings \<Rightarrow> mq_event \<Rightarrow> mq \<Rightarrow> mq" where
  "mq_step st e s =
     (case e of
        MPrev now \<Rightarrow> (press st True now ^^ mq_bound s) s
      | MNext now \<Rightarrow> (press st False now ^^ mq_bound s) s
      | MStop \<Rightarrow> if mq_bound s > 0 then mq_clear (mq_main s) s else s
      | MContinue now \<Rightarrow> (initMainTimer now None ^^ mq_bound s) s
      | MOver \<Rightarrow> if ms_auto st then mq_clear (mq_main s) s else s
      | MOut now \<Rightarrow> if ms_auto st then initMainTimer now None s else s
      | MTimer i now \<Rightarrow>
          (case fire i (mq_timers s) of
             None \<Rightarrow> s
           | Some (MainTick, ts) \<Rightarrow> initSubTimer st now (s\<lparr>mq_timers := ts\<rparr>)
           | Some (SubTick, ts) \<Rightarrow> rollAlong st now (s\<lparr>mq_timers := ts\<rparr>)))"

definition mq_run :: "mq_settings \<Rightarrow> mq_event list \<Rightarrow> mq \<Rightarrow> mq" where
  "mq_run st es s = fold (mq_step st) es s"

section \<open>The list and its copy stay side by side\<close>

definition beside :: "mq_settings \<Rightarrow> mq \<Rightarrow> bool" where
  "beside st s \<longleftrightarrow> \<bar>mq_ul s - mq_cl s\<bar> = ms_size st"

lemma clear_keeps [simp]:
  "mq_ul (mq_clear t s) = mq_ul s" "mq_cl (mq_clear t s) = mq_cl s" "mq_object (mq_clear t s) = mq_object s"
  "mq_clone (mq_clear t s) = mq_clone s" "mq_dir (mq_clear t s) = mq_dir s" "mq_bound (mq_clear t s) = mq_bound s"
  "mq_tag (mq_clear t s) = mq_tag s" "mq_convert (mq_clear t s) = mq_convert s" "mq_sub (mq_clear t s) = mq_sub s"
  by (simp_all add: mq_clear_def split: option.split)

lemma timers_keep [simp]:
  "mq_ul (initMainTimer now d s) = mq_ul s" "mq_cl (initMainTimer now d s) = mq_cl s"
  "mq_ul (initSubTimer st now s) = mq_ul s" "mq_cl (initSubTimer st now s) = mq_cl s"
  by (simp_all add: initMainTimer_def initSubTimer_def Let_def split: option.split prod.split)

lemma convert_keeps [simp]:
  "mq_ul (convert st now s) = mq_ul s" "mq_cl (convert st now s) = mq_cl s"
  by (simp_all add: convert_def Let_def)

lemma press_keeps [simp]: "mq_ul (press st f now s) = mq_ul s" "mq_cl (press st f now s) = mq_cl s"
  by (simp_all add: press_def Let_def disControl_def)

lemma setPos_moves [simp]: "mq_ul (setPos st now a b x s) = a" "mq_cl (setPos st now a b x s) = b"
  by (simp_all add: setPos_def Let_def)

lemma beside_roll: "0 \<le> ms_size st \<Longrightarrow> beside st s \<Longrightarrow> beside st (rollAlong st now s)"
  by (auto simp: beside_def rollAlong_def move_back_def move_on_def disControl_def initControl_def Let_def)

lemma power_keeps:
  assumes "\<And>s. mq_ul (g s) = mq_ul s \<and> mq_cl (g s) = mq_cl s"
  shows "beside st ((g ^^ n) s) = beside st s"
  using assms by (induction n) (simp_all add: beside_def)

lemma beside_keep [simp]:
  "beside st (mq_clear t s) = beside st s" "beside st (initMainTimer now d s) = beside st s"
  "beside st (initSubTimer st now s) = beside st s" "beside st (s\<lparr>mq_timers := ts\<rparr>) = beside st s"
  "beside st ((press st f now ^^ n) s) = beside st s" "beside st ((initMainTimer now d ^^ n) s) = beside st s"
  by (simp_all add: beside_def) (simp_all add: power_keeps [unfolded beside_def])

lemma beside_step: "0 \<le> ms_size st \<Longrightarrow> beside st s \<Longrightarrow> beside st (mq_step st e s)"
  by (cases e) (auto simp: mq_step_def beside_roll split: option.split mq_callback.split)

text \<open>
  C27: after any sequence of clicks, movements of the mouse and timers, in either direction, the list
  and its copy lie side by side, the one ending where the other begins.
\<close>

theorem marquee_side_by_side:
  assumes "0 \<le> ms_size st" "mq_start st now = Some s"
  shows "mq_ul (mq_run st es s) = mq_cl (mq_run st es s) + ms_size st \<or>
    mq_cl (mq_run st es s) = mq_ul (mq_run st es s) + ms_size st"
proof -
  have "beside st s" using assms by (auto simp: mq_start_def Let_def beside_def initControl_def split: if_splits)
  then have "beside st (mq_run st es s)" unfolding mq_run_def
    using assms(1) by (induction es arbitrary: s) (simp_all add: beside_step)
  then show ?thesis unfolding beside_def by arith
qed


theorem marquee_side_by_side_witness:
  "\<exists>s. mq_start \<lparr>ms_dir = Up, ms_size = 100, ms_frameSize = 30, ms_view = 60, ms_speed = 10, ms_step = 1, ms_auto = True,
      ms_control = False, ms_stay = 5000, ms_delay = 20\<rparr> 0 = Some s \<and> \<bar>mq_ul s - mq_cl s\<bar> = 100"
proof -
  let ?st = "\<lparr>ms_dir = Up, ms_size = 100, ms_frameSize = 30, ms_view = 60, ms_speed = 10, ms_step = 1, ms_auto = True,
      ms_control = False, ms_stay = 5000, ms_delay = 20\<rparr>"
  obtain s where s: "mq_start ?st 0 = Some s" by (simp add: mq_start_def Let_def)
  have "mq_run ?st [] s = s" by (simp add: mq_run_def)
  then show ?thesis using marquee_side_by_side [OF _ s, of "[]"] s by auto
qed

section \<open>A frame is a frame\<close>

text \<open>Both branches as one on positions, those of the second branch negated.\<close>

definition core :: "int \<Rightarrow> int \<Rightarrow> int \<times> int \<times> int \<times> int \<Rightarrow> int \<times> int \<times> int \<times> int" where
  "core sz k p =
     (case p of (u, c, ou, oc) \<Rightarrow>
        (let (u, ou) = (if u \<le> - sz then (c + sz, c + sz) else (u, ou));
             (c, oc) = (if c \<le> - sz then (u + sz, u + sz) else (c, oc))
         in (u - k, c - k, ou, oc)))"

definition normed :: "mq \<Rightarrow> int \<times> int \<times> int \<times> int" where
  "normed s = (if backwards (mq_dir s) then (mq_ul s, mq_cl s, mq_object s, mq_clone s)
     else (- mq_ul s, - mq_cl s, - mq_object s, - mq_clone s))"

lemma setPos_inner:
  "setPos st now a b False s = s\<lparr>mq_tag := False, mq_ul := a, mq_cl := b\<rparr>"
  by (simp add: setPos_def)

lemma roll_inner:
  assumes "yAdd s \<noteq> ms_frameSize st"
  shows "normed (rollAlong st now s) = core (ms_size st) (yCeil st s) (normed s)"
    "mq_dir (rollAlong st now s) = mq_dir s" "mq_convert (rollAlong st now s) = mq_convert s"
    "mq_bound (rollAlong st now s) = mq_bound s" "mq_sub (rollAlong st now s) = mq_sub s"
    "mq_timers (rollAlong st now s) = mq_timers s"
  using assms
  by (auto simp: rollAlong_def Let_def move_back_def move_on_def setPos_inner normed_def core_def)

lemma yAdd_normed: "normed s = (u, c, ou, oc) \<Longrightarrow> yAdd s = max \<bar>u - ou\<bar> \<bar>c - oc\<bar>"
  by (auto simp: normed_def yAdd_def abs_minus_commute split: if_splits)

text \<open>The positions after travelling \<open>d\<close> of a frame from \<open>a\<close> and \<open>b\<close>: no wrap, or one of the two.\<close>

definition travel :: "int \<Rightarrow> int \<Rightarrow> int \<Rightarrow> int \<Rightarrow> int \<Rightarrow> int \<Rightarrow> int \<times> int \<times> int \<times> int \<Rightarrow> bool" where
  "travel sz fr sp a b d p \<longleftrightarrow>
     (case p of (u, c, ou, oc) \<Rightarrow>
        (u = a - d \<and> c = b - d \<and> ou = a \<and> oc = b \<and>
           (d = 0 \<or> (\<exists>e. 0 \<le> e \<and> e < d \<and> d - e = ceil_quot (fr - e) sp \<and> - sz < min a b - e))) \<or>
        (b = a + sz \<and> u = a + 2 * sz - d \<and> c = b - d \<and> oc = b \<and>
           (\<exists>d0. 0 \<le> d0 \<and> d0 \<le> d \<and> ou = a + 2 * sz - d0 \<and> a \<le> d0 - sz)) \<or>
        (a = b + sz \<and> c = b + 2 * sz - d \<and> u = a - d \<and> ou = a \<and>
           (\<exists>d0. 0 \<le> d0 \<and> d0 \<le> d \<and> oc = b + 2 * sz - d0 \<and> b \<le> d0 - sz)))"

lemma travel_distance: "travel sz fr sp a b d (u, c, ou, oc) \<Longrightarrow> 0 \<le> d \<Longrightarrow> max \<bar>u - ou\<bar> \<bar>c - oc\<bar> = d"
  by (auto simp: travel_def)

lemma travel_step:
  assumes "0 \<le> d" "d < fr" "fr \<le> sz" "1 \<le> sp" "\<bar>a - b\<bar> = sz" "- sz \<le> min a b" "min a b \<le> 0"
    "travel sz fr sp a b d p" "k = ceil_quot (fr - d) sp"
  shows "travel sz fr sp a b (d + k) (core sz k p)"
proof -
  obtain u c ou oc where p: "p = (u, c, ou, oc)" by (cases p) auto
  have k: "1 \<le> k" "k \<le> fr - d" using ceil_quot_bounds [of "fr - d" sp] assms(2,4,9) by auto
  consider (none) "u = a - d" "c = b - d" "ou = a" "oc = b"
    | (ul) d0 where "b = a + sz" "u = a + 2 * sz - d" "c = b - d" "oc = b" "0 \<le> d0" "d0 \<le> d" "ou = a + 2 * sz - d0" "a \<le> d0 - sz"
    | (cl) d0 where "a = b + sz" "c = b + 2 * sz - d" "u = a - d" "ou = a" "0 \<le> d0" "d0 \<le> d" "oc = b + 2 * sz - d0" "b \<le> d0 - sz"
    using assms(8) unfolding travel_def p by auto
  then show ?thesis
  proof cases
    case none
    show ?thesis
    proof (cases "a < b")
      case True
      then have b: "b = a + sz" "min a b = a" using assms(5) by auto
      show ?thesis
      proof (cases "u \<le> - sz")
        case True
        have "core sz k p = (a + 2 * sz - (d + k), b - (d + k), a + 2 * sz - d, b)"
          using True none b assms(1-3,6) by (auto simp: core_def p)
        moreover have "\<exists>d0. 0 \<le> d0 \<and> d0 \<le> d + k \<and> a + 2 * sz - d = a + 2 * sz - d0 \<and> a \<le> d0 - sz"
          using True none(1) assms(1) k by (intro exI [of _ d]) auto
        ultimately show ?thesis using b by (simp add: travel_def)
      next
        case False
        have "core sz k p = (a - (d + k), b - (d + k), a, b)"
          using False none b assms(1-3,6) by (auto simp: core_def p)
        moreover have "\<exists>e. 0 \<le> e \<and> e < d + k \<and> d + k - e = ceil_quot (fr - e) sp \<and> - sz < min a b - e"
          using False none(1) b(2) assms(1,9) k by (intro exI [of _ d]) auto
        ultimately show ?thesis by (simp add: travel_def)
      qed
    next
      case False
      then have b: "a = b + sz" "min a b = b" using assms(1-3,5) by auto
      show ?thesis
      proof (cases "c \<le> - sz")
        case True
        have "core sz k p = (a - (d + k), b + 2 * sz - (d + k), a, b + 2 * sz - d)"
          using True none b assms(1-3,6) by (auto simp: core_def p)
        moreover have "\<exists>d0. 0 \<le> d0 \<and> d0 \<le> d + k \<and> b + 2 * sz - d = b + 2 * sz - d0 \<and> b \<le> d0 - sz"
          using True none(2) assms(1) k by (intro exI [of _ d]) auto
        ultimately show ?thesis using b by (simp add: travel_def)
      next
        case False
        have "core sz k p = (a - (d + k), b - (d + k), a, b)"
          using False none b assms(1-3,6) by (auto simp: core_def p)
        moreover have "\<exists>e. 0 \<le> e \<and> e < d + k \<and> d + k - e = ceil_quot (fr - e) sp \<and> - sz < min a b - e"
          using False none(2) b(2) assms(1,9) k by (intro exI [of _ d]) auto
        ultimately show ?thesis by (simp add: travel_def)
      qed
    qed
  next
    case (ul d0)
    have "core sz k p = (a + 2 * sz - (d + k), b - (d + k), ou, b)"
      using ul assms(1-3,6) by (auto simp: core_def p)
    then show ?thesis using ul k by (auto simp: travel_def intro!: exI [of _ d0])
  next
    case (cl d0)
    have "core sz k p = (a - (d + k), b + 2 * sz - (d + k), a, oc)"
      using cl assms(1-3,6) by (auto simp: core_def p)
    then show ?thesis using cl k by (auto simp: travel_def intro!: exI [of _ d0])
  qed
qed

text \<open>A state that has travelled \<open>d\<close> of the frame that began at \<open>s\<close>.\<close>

definition underway :: "mq_settings \<Rightarrow> mq \<Rightarrow> int \<Rightarrow> mq \<Rightarrow> bool" where
  "underway st s d r \<longleftrightarrow>
     (case normed s of (a, b, _) \<Rightarrow> travel (ms_size st) (ms_frameSize st) (ms_speed st) a b d (normed r)) \<and>
     mq_dir r = mq_dir s \<and> mq_convert r = mq_convert s \<and> mq_bound r = mq_bound s \<and> mq_sub r = mq_sub s"

definition frame_rest :: "mq_settings \<Rightarrow> mq \<Rightarrow> bool" where
  "frame_rest st s \<longleftrightarrow>
     mq_object s = mq_ul s \<and> mq_clone s = mq_cl s \<and> \<not> mq_convert s \<and> beside st s \<and>
     (case normed s of (a, b, _) \<Rightarrow> - ms_size st \<le> min a b \<and> min a b \<le> 0)"

definition frames_fit :: "mq_settings \<Rightarrow> bool" where
  "frames_fit st \<longleftrightarrow> 1 \<le> ms_speed st \<and> 0 < ms_frameSize st \<and> ms_frameSize st \<le> ms_size st"

lemma underway_distance: "underway st s d r \<Longrightarrow> 0 \<le> d \<Longrightarrow> yAdd r = d"
  by (cases "normed s"; cases "normed r") (auto simp: underway_def yAdd_normed dest: travel_distance)

lemma underway_roll:
  assumes "frames_fit st" "frame_rest st s" "underway st s d r" "0 \<le> d" "d < ms_frameSize st"
  shows "underway st s (d + ceil_quot (ms_frameSize st - d) (ms_speed st)) (rollAlong st now r)"
proof -
  obtain a b ou oc where n: "normed s = (a, b, ou, oc)" by (cases "normed s") auto
  have y: "yAdd r = d" using assms(3,4) by (rule underway_distance)
  have ne: "yAdd r \<noteq> ms_frameSize st" using y assms(5) by simp
  have "\<bar>a - b\<bar> = ms_size st" using assms(2) n by (auto simp: frame_rest_def beside_def normed_def split: if_splits)
  then have "travel (ms_size st) (ms_frameSize st) (ms_speed st) a b (d + yCeil st r)
      (core (ms_size st) (yCeil st r) (normed r))"
    using assms n y unfolding underway_def frame_rest_def frames_fit_def
    by (intro travel_step) (auto simp: yCeil_def)
  then show ?thesis using assms(3) n y roll_inner [OF ne] by (simp add: underway_def yCeil_def)
qed

lemma frame_ends:
  assumes "frames_fit st" "frame_rest st s" "underway st s d r" "0 \<le> d" "d \<le> ms_frameSize st"
  shows "\<exists>n \<le> nat (ms_frameSize st - d). underway st s (ms_frameSize st) ((rollAlong st now ^^ n) r)"
  using assms(3-)
proof (induction "nat (ms_frameSize st - d)" arbitrary: d r rule: less_induct)
  case less
  show ?case
  proof (cases "d = ms_frameSize st")
    case True
    then show ?thesis using less(2) by (intro exI [of _ 0]) simp
  next
    case False
    let ?k = "ceil_quot (ms_frameSize st - d) (ms_speed st)"
    have k: "1 \<le> ?k" "?k \<le> ms_frameSize st - d"
      using ceil_quot_bounds [of "ms_frameSize st - d" "ms_speed st"] False less(4) assms(1) by (auto simp: frames_fit_def)
    have u: "underway st s (d + ?k) (rollAlong st now r)"
      using underway_roll [OF assms(1,2) less(2,3)] False less(4) by simp
    obtain n where n: "n \<le> nat (ms_frameSize st - (d + ?k))"
        "underway st s (ms_frameSize st) ((rollAlong st now ^^ n) (rollAlong st now r))"
      using less(1) [OF _ u] k less(3) by auto
    show ?thesis
      by (rule exI [of _ "Suc n"]) (use n k in \<open>simp add: funpow_swap1\<close>)
  qed
qed

lemma travel_mod:
  "travel sz fr sp a b d (u, c, ou, oc) \<Longrightarrow> u mod (2 * sz) = (a - d) mod (2 * sz) \<and> c mod (2 * sz) = (b - d) mod (2 * sz)"
  using mod_add_self2 [of "a - d" "2 * sz"] mod_add_self2 [of "b - d" "2 * sz"]
  by (auto simp: travel_def add.commute add_diff_eq diff_add_eq)

lemma roll_ends:
  assumes "yAdd s = ms_frameSize st" "\<not> mq_convert s"
  shows "mq_object (rollAlong st now s) = mq_ul s" "mq_clone (rollAlong st now s) = mq_cl s"
    "mq_ul (rollAlong st now s) = mq_ul s" "mq_cl (rollAlong st now s) = mq_cl s"
    "mq_bound (rollAlong st now s) = mq_bound s + 1" "mq_dir (rollAlong st now s) = mq_dir s"
    "mq_convert (rollAlong st now s) = mq_convert s"
  using assms by (simp_all add: rollAlong_def setPos_def disControl_def initControl_def Let_def)

lemma travel_band:
  assumes "travel sz fr sp a b fr (u, c, ou, oc)" "2 \<le> sp" "0 < fr" "fr \<le> sz" "\<bar>a - b\<bar> = sz" "- sz \<le> min a b"
    "min a b \<le> 0"
  shows "- sz \<le> min u c \<and> min u c \<le> 0"
proof -
  have e: "e = fr - 1" if "fr - e = ceil_quot (fr - e) sp" "e < fr" for e
    using ceil_quot_bounds(3) [of "fr - e" sp] that assms(2) by simp
  show ?thesis using assms unfolding travel_def by (auto simp: min_def split: if_splits dest!: e)
qed

text \<open>
  C28: a frame ends. From rest, with the list in its band, the timer of the frames brings the list and
  its copy exactly one frame further along the direction, up to a jump of both their sizes, after at
  most as many ticks as the frame has pixels; the tick after that ends the frame, records the new
  positions, and binds the handlers of the buttons once more to those bound before. With a speed of at
  least 2 the marquee is then at rest in its band again, ready for the next frame.
\<close>

theorem marquee_frame:
  assumes "1 \<le> ms_speed st" "0 < ms_frameSize st" "ms_frameSize st \<le> ms_size st" "frame_rest st s"
    "f = (if backwards (mq_dir s) then - ms_frameSize st else ms_frameSize st)"
  shows "\<exists>n \<le> nat (ms_frameSize st). \<exists>t. t = (rollAlong st now ^^ Suc n) s \<and>
    mq_ul t mod (2 * ms_size st) = (mq_ul s + f) mod (2 * ms_size st) \<and>
    mq_cl t mod (2 * ms_size st) = (mq_cl s + f) mod (2 * ms_size st) \<and>
    mq_object t = mq_ul t \<and> mq_clone t = mq_cl t \<and> mq_bound t = mq_bound s + 1 \<and>
    (2 \<le> ms_speed st \<longrightarrow> frame_rest st t)"
proof -
  let ?F = "ms_frameSize st" and ?sz = "ms_size st"
  obtain a b ou oc where n: "normed s = (a, b, ou, oc)" by (cases "normed s") auto
  have c: "\<not> mq_convert s" using assms(4) by (simp add: frame_rest_def)
  have "underway st s 0 s"
    using assms(4) n by (auto simp: underway_def travel_def frame_rest_def normed_def split: if_splits)
  then obtain m where m: "m \<le> nat ?F" and u: "underway st s ?F ((rollAlong st now ^^ m) s)"
    using frame_ends [of st s 0 s now] assms(1-4) by (auto simp: frames_fit_def)
  define r where "r = (rollAlong st now ^^ m) s"
  obtain u c' ou' oc' where nr: "normed r = (u, c', ou', oc')" by (cases "normed r") auto
  have r: "yAdd r = ?F" "\<not> mq_convert r" "mq_bound r = mq_bound s" "mq_dir r = mq_dir s"
    using underway_distance [OF u] assms(2) u c by (auto simp: underway_def r_def)
  have "u mod (2 * ?sz) = (a - ?F) mod (2 * ?sz)" "c' mod (2 * ?sz) = (b - ?F) mod (2 * ?sz)"
    using u n nr travel_mod unfolding r_def [symmetric] underway_def by fastforce+
  then have "mq_ul r mod (2 * ?sz) = (mq_ul s + f) mod (2 * ?sz)" "mq_cl r mod (2 * ?sz) = (mq_cl s + f) mod (2 * ?sz)"
    using n nr r(4) assms(5) mod_minus_cong [of "- mq_ul r" "2 * ?sz" "- mq_ul s - ?F"]
      mod_minus_cong [of "- mq_cl r" "2 * ?sz" "- mq_cl s - ?F"]
    by (auto simp: normed_def add.commute split: if_splits)
  moreover have "frame_rest st (rollAlong st now r)" if "2 \<le> ms_speed st"
  proof -
    have "beside st r" unfolding r_def using assms(2-4) by (induction m) (auto simp: frame_rest_def beside_roll)
    moreover have "- ?sz \<le> min u c' \<and> min u c' \<le> 0"
      using u n nr that assms(2-4) unfolding r_def [symmetric] underway_def frame_rest_def
      by (intro travel_band [of ?sz ?F "ms_speed st" a b u c' ou' oc']) (auto simp: beside_def normed_def split: if_splits)
    ultimately show ?thesis using nr r assms(2,3) roll_ends [OF r(1,2), of now]
      by (auto simp: frame_rest_def normed_def beside_roll)
  qed
  ultimately show ?thesis using m roll_ends [OF r(1,2), of now] r(3)
    by (intro exI [of _ m]) (simp add: r_def)
qed

theorem marquee_frame_witness:
  "\<exists>n \<le> 30. mq_bound ((rollAlong \<lparr>ms_dir = Up, ms_size = 100, ms_frameSize = 30, ms_view = 60, ms_speed = 10,
      ms_step = 1, ms_auto = True, ms_control = True, ms_stay = 5000, ms_delay = 20\<rparr> 0 ^^ Suc n)
    \<lparr>mq_dir = Up, mq_ul = 0, mq_cl = 100, mq_object = 0, mq_clone = 100, mq_tag = False, mq_convert = False,
      mq_front = False, mq_stay = 5000, mq_main = None, mq_sub = None, mq_timers = no_timers, mq_prev_dis = False,
      mq_next_dis = False, mq_bound = 1\<rparr>) = 2"
proof -
  let ?st = "\<lparr>ms_dir = Up, ms_size = 100, ms_frameSize = 30, ms_view = 60, ms_speed = 10,
      ms_step = 1, ms_auto = True, ms_control = True, ms_stay = 5000, ms_delay = 20\<rparr>"
  let ?s = "\<lparr>mq_dir = Up, mq_ul = 0, mq_cl = 100, mq_object = 0, mq_clone = 100, mq_tag = False, mq_convert = False,
      mq_front = False, mq_stay = 5000, mq_main = None, mq_sub = None, mq_timers = no_timers, mq_prev_dis = False,
      mq_next_dis = False, mq_bound = 1\<rparr>"
  have r: "frame_rest ?st ?s" by (simp add: frame_rest_def beside_def normed_def backwards_def)
  obtain n where "n \<le> 30" "mq_bound ((rollAlong ?st 0 ^^ Suc n) ?s) = 2"
    using marquee_frame [OF _ _ _ r refl, of 0] by auto
  then show ?thesis by blast
qed

end
