(* ===== verification/Pop_Scroll.thy ===== *)
theory Pop_Scroll
  imports Pop_Tabs
begin

text \<open>
  The widgets of \<open>popui.js\<close> that follow the scroll position: the highlighting of a menu
  (\<open>$.fn.navLight\<close>), the element that sticks to the edge of the window (\<open>$.fn.suction\<close>), both through
  \<open>$.throttle\<close>, and the panel that leads back to the top. Positions are whole numbers of pixels. What
  the widgets rely on is stated once for delayed calls in general and holds for throttling and for
  debouncing.
\<close>

section \<open>Delayed calls\<close>

datatype 'p page_event = Scroll 'p | Tick

text \<open>
  A handler on a page, called with a delay: the state of the delay, the scroll position and the state
  of the widget. The handler reads the position when it runs.
\<close>

fun page_step ::
  "(int \<Rightarrow> 's \<Rightarrow> 's) \<Rightarrow> (int \<Rightarrow> 's \<Rightarrow> 's) \<Rightarrow> ('s \<Rightarrow> nat) \<Rightarrow> ('p \<Rightarrow> 'w \<Rightarrow> 'w) \<Rightarrow>
    int \<times> 'p page_event \<Rightarrow> 's \<times> 'p \<times> 'w \<Rightarrow> 's \<times> 'p \<times> 'w" where
  "page_step call later runs h (now, Scroll p) (s, q, w) =
     (let s' = call now s in (s', p, if runs s < runs s' then h p w else w))"
| "page_step call later runs h (now, Tick) (s, q, w) =
     (let s' = later now s in (s', q, if runs s < runs s' then h q w else w))"

fun last_scroll :: "(int \<times> 'p page_event) list \<Rightarrow> 'p \<Rightarrow> 'p" where
  "last_scroll [] q = q"
| "last_scroll ((now, Scroll p) # evs) q = last_scroll evs p"
| "last_scroll ((now, Tick) # evs) q = last_scroll evs q"

lemma last_scroll_append: "last_scroll (evs @ es) q = last_scroll es (last_scroll evs q)"
  by (induction evs q rule: last_scroll.induct) simp_all

text \<open>
  The laws: a call runs the function or leaves a timer, a timer that ends has run it, and a timer
  answers when the waiting time has passed since the last event. \<open>ok t\<close> is the invariant at a time
  not before \<open>t\<close>.
\<close>

locale delayed_call =
  fixes call :: "int \<Rightarrow> 's \<Rightarrow> 's"
    and later :: "int \<Rightarrow> 's \<Rightarrow> 's"
    and runs :: "'s \<Rightarrow> nat"
    and due_at :: "'s \<Rightarrow> int option"
    and ok :: "int \<Rightarrow> 's \<Rightarrow> bool"
    and wait :: int
  assumes ok_call: "ok t s \<Longrightarrow> t \<le> now \<Longrightarrow> ok now (call now s)"
    and ok_later: "ok t s \<Longrightarrow> t \<le> now \<Longrightarrow> ok now (later now s)"
    and call_runs_or_waits: "ok t s \<Longrightarrow> t \<le> now \<Longrightarrow> due_at (call now s) = None \<Longrightarrow> runs s < runs (call now s)"
    and later_runs: "ok t s \<Longrightarrow> t \<le> now \<Longrightarrow> due_at (later now s) = None \<Longrightarrow> due_at s = None \<or> runs s < runs (later now s)"
    and later_answers: "ok t s \<Longrightarrow> t + wait \<le> now \<Longrightarrow> due_at (later now s) = None"
begin

lemma ok_step: "ok t (fst x) \<Longrightarrow> t \<le> now \<Longrightarrow> ok now (fst (page_step call later runs h (now, e) x))"
  by (cases x; cases e) (auto simp: Let_def ok_call ok_later)

end

text \<open>With a handler that establishes a property of the position and the widget.\<close>

locale scroll_widget = delayed_call +
  fixes handler :: "'p \<Rightarrow> 'w \<Rightarrow> 'w"
    and good :: "'p \<Rightarrow> 'w \<Rightarrow> bool"
  assumes handler_good: "good p (handler p w)"
begin

definition seen :: "'a \<times> 'p \<times> 'w \<Rightarrow> bool" where
  "seen x \<longleftrightarrow> (case x of (s, q, w) \<Rightarrow> due_at s = None \<longrightarrow> good q w)"

abbreviation step where
  "step \<equiv> page_step call later runs handler"

lemma seen_scroll: "ok t (fst x) \<Longrightarrow> t \<le> now \<Longrightarrow> seen (step (now, Scroll p) x)"
  by (cases x) (auto simp: seen_def Let_def handler_good dest: call_runs_or_waits)

lemma seen_tick: "ok t (fst x) \<Longrightarrow> t \<le> now \<Longrightarrow> seen x \<Longrightarrow> seen (step (now, Tick) x)"
  by (cases x) (auto simp: seen_def Let_def handler_good dest: later_runs)

lemma position: "fst (snd (fold step evs x)) = last_scroll evs (fst (snd x))"
proof (induction evs arbitrary: x)
  case (Cons e evs)
  obtain now k where e: "e = (now, k)" by (cases e)
  show ?case by (cases x; cases k) (simp_all add: e Cons Let_def)
qed simp

lemma run_seen:
  assumes "ok t (fst x)" "sorted (map fst evs)" "\<forall>e\<in>set evs. t \<le> fst e"
  shows "ok (if evs = [] then t else fst (last evs)) (fst (fold step evs x)) \<and>
    (seen x \<or> (\<exists>now p. (now, Scroll p) \<in> set evs) \<longrightarrow> seen (fold step evs x))"
  using assms
proof (induction evs rule: rev_induct)
  case (snoc e evs)
  obtain now k where e: "e = (now, k)" by (cases e)
  have IH: "ok (if evs = [] then t else fst (last evs)) (fst (fold step evs x))"
    "seen x \<or> (\<exists>now p. (now, Scroll p) \<in> set evs) \<longrightarrow> seen (fold step evs x)"
    using snoc by (simp_all add: sorted_append)
  have le: "(if evs = [] then t else fst (last evs)) \<le> now"
    using snoc.prems(2,3) by (auto simp: e sorted_append)
  show ?case
    using ok_step [OF IH(1) le] seen_scroll [OF IH(1) le] seen_tick [OF IH(1) le] IH(2)
    by (cases k) (auto simp: e)
qed simp

lemma settles:
  assumes "ok t (fst x)" "sorted (map fst evs)" "\<forall>e\<in>set evs. t \<le> fst e"
    "(now, Scroll p) \<in> set evs" "fst (last evs) + wait \<le> T" "0 \<le> wait"
  shows "good (last_scroll evs q) (snd (snd (fold step (evs @ [(T, Tick)]) x)))"
proof -
  define y where "y = fold step evs x"
  have ne: "evs \<noteq> []" using assms(4) by auto
  have y: "ok (fst (last evs)) (fst y)" "seen y" using run_seen [OF assms(1-3)] assms(4) ne by (auto simp: y_def)
  have "seen (step (T, Tick) y)" using seen_tick [OF y(1) _ y(2)] assms(5,6) by simp
  moreover have "due_at (fst (step (T, Tick) y)) = None" using later_answers [OF y(1) assms(5)] by (cases y) (simp add: Let_def)
  moreover have "fst (snd (step (T, Tick) y)) = last_scroll evs q"
  proof -
    have "last_scroll evs q = last_scroll evs q'" for q q'
      using assms(4) by (induction evs q arbitrary: q' rule: last_scroll.induct) auto
    then show ?thesis using position [of evs x] by (cases y) (simp add: y_def Let_def)
  qed
  ultimately show ?thesis by (cases "step (T, Tick) y") (simp add: seen_def y_def)
qed

end

text \<open>Throttling and debouncing both keep the laws.\<close>

definition thr_ok :: "int \<Rightarrow> int \<Rightarrow> 'a thr \<Rightarrow> bool" where
  "thr_ok wait t s \<longleftrightarrow> (case th_timeout s of None \<Rightarrow> True | Some d \<Rightarrow> d \<le> t + wait)"

interpretation throttled: delayed_call "\<lambda>now. thr_call (int w) True True now ()" "thr_later (int w) True"
    "\<lambda>s. length (th_log s)" th_timeout "thr_ok (int w)" "int w" for w :: nat
  by unfold_locales
    (auto simp: thr_ok_def thr_call_def thr_later_def thr_apply_def Let_def split: option.splits if_splits)

definition deb_ok :: "int \<Rightarrow> int \<Rightarrow> 'a deb \<Rightarrow> bool" where
  "deb_ok wait t s \<longleftrightarrow> (case db_timeout s of None \<Rightarrow> True | Some d \<Rightarrow> db_stamp s \<le> t \<and> d \<le> db_stamp s + wait)"

interpretation debounced: delayed_call "\<lambda>now. deb_call (int w) False now ()" "deb_later (int w) False"
    "\<lambda>s. length (db_log s)" db_timeout "deb_ok (int w)" "int w" for w :: nat
  by unfold_locales
    (auto simp: deb_ok_def deb_call_def deb_later_def Let_def split: option.splits if_splits)

section \<open>The handler of a scroll event\<close>

text \<open>\<open>$.throttle(fn, 50)\<close>, on the page.\<close>

definition throttled_step :: "('p \<Rightarrow> 'w \<Rightarrow> 'w) \<Rightarrow> int \<times> 'p page_event \<Rightarrow> unit thr \<times> 'p \<times> 'w \<Rightarrow> unit thr \<times> 'p \<times> 'w" where
  "throttled_step h =
     page_step (\<lambda>now. thr_call 50 True True now ()) (thr_later 50 True) (\<lambda>s. length (th_log s)) h"

definition throttled_run :: "('p \<Rightarrow> 'w \<Rightarrow> 'w) \<Rightarrow> (int \<times> 'p page_event) list \<Rightarrow> 'p \<Rightarrow> 'w \<Rightarrow> 'w" where
  "throttled_run h evs p w = snd (snd (fold (throttled_step h) evs (thr0, p, w)))"

section \<open>The element that sticks\<close>

text \<open>The class, and the events triggered (fixed or not).\<close>

record suction =
  su_fixed :: bool
  su_log :: "bool list"

text \<open>\<open>pos\<close> is \<open>top\<close>, or anything else for the bottom. The places are those of the start.\<close>

definition suction_fn :: "bool \<Rightarrow> int \<Rightarrow> int \<Rightarrow> int \<Rightarrow> int \<Rightarrow> suction \<Rightarrow> suction" where
  "suction_fn atTop elTop elHeight winHeight docTop s =
     (if atTop then
        (if elTop < docTop then s\<lparr>su_fixed := True, su_log := su_log s @ [True]\<rparr>
         else s\<lparr>su_fixed := False, su_log := su_log s @ [False]\<rparr>)
      else if elTop < winHeight + docTop - elHeight then s\<lparr>su_fixed := False\<rparr>
      else s\<lparr>su_fixed := True\<rparr>)"

definition suction_attr :: "jstr \<Rightarrow> bool" where
  "suction_attr attr =
     (let arr = uiParse attr
      in if 1 < length arr then (arr ! 1 = UText (js ''top'') \<or> arr ! 1 = UUndef) else True)"

definition sticks :: "bool \<Rightarrow> int \<Rightarrow> int \<Rightarrow> int \<Rightarrow> int \<Rightarrow> bool" where
  "sticks atTop elTop elHeight winHeight p \<longleftrightarrow>
     (if atTop then elTop < p else winHeight + p \<le> elTop + elHeight)"

interpretation suction: scroll_widget "\<lambda>now. thr_call (int w) True True now ()" "thr_later (int w) True"
    "\<lambda>s. length (th_log s)" th_timeout "thr_ok (int w)" "int w" "suction_fn atTop elTop elHeight winHeight"
    "\<lambda>p s. su_fixed s = sticks atTop elTop elHeight winHeight p" for w :: nat and atTop elTop elHeight winHeight
  by unfold_locales (auto simp: suction_fn_def sticks_def)

section \<open>The highlighted menu\<close>

text \<open>\<open>top + diffBottom\<close>: a text is appended to the number.\<close>

definition add_idx :: "int \<Rightarrow> idx \<Rightarrow> idx" where
  "add_idx n i = (case i of INum d \<Rightarrow> INum (n + d) | ITxt s \<Rightarrow> ITxt (int_str n @ s))"

text \<open>One entry of \<open>contentPos\<close>; \<open>None\<close> is not a number.\<close>

definition content_pos :: "idx \<Rightarrow> idx \<Rightarrow> int \<Rightarrow> int option \<times> idx" where
  "content_pos diffTop diffBottom y = (map_option (\<lambda>d. y - d) (to_num diffTop), add_idx y diffBottom)"

definition in_reach :: "int \<Rightarrow> int option \<times> idx \<Rightarrow> bool" where
  "in_reach docTop pos \<longleftrightarrow>
     (case fst pos of None \<Rightarrow> False | Some a \<Rightarrow> a < docTop) \<and>
     (case to_num (snd pos) of None \<Rightarrow> False | Some b \<Rightarrow> b > docTop)"

text \<open>The classes of the items; an entry in reach takes the class from all and gives it to its own.\<close>

definition highLight :: "(int option \<times> idx) list \<Rightarrow> int \<Rightarrow> bool list \<Rightarrow> bool list" where
  "highLight ps docTop marks =
     fold (\<lambda>i m. if in_reach docTop (ps ! i) then map (\<lambda>j. j = i) [0..<length m] else m) [0..<length ps] marks"

text \<open>The start: \<open>None\<close> is the error thrown when there are not as many items as contents.\<close>

definition navLight :: "idx \<Rightarrow> idx \<Rightarrow> nat \<Rightarrow> int list \<Rightarrow> (int option \<times> idx) list option" where
  "navLight diffTop diffBottom navs tops =
     (if navs \<noteq> length tops then None else Some (map (content_pos diffTop diffBottom) tops))"

text \<open>A click on an item scrolls to its content, which is looked up again.\<close>

definition nav_target :: "int list \<Rightarrow> nat \<Rightarrow> int" where
  "nav_target tops k = tops ! k - 30"

text \<open>The settings from the attribute, missing ones from the defaults.\<close>

definition attr_diff :: "nat \<Rightarrow> int \<Rightarrow> uarg list \<Rightarrow> idx" where
  "attr_diff k dflt arr =
     (if k < length arr then
        (case arr ! k of UText t \<Rightarrow> ITxt t | UBool b \<Rightarrow> INum (if b then 1 else 0) | UUndef \<Rightarrow> INum dflt)
      else INum dflt)"

definition light_attr :: "jstr \<Rightarrow> idx \<times> idx" where
  "light_attr attr = (attr_diff 1 200 (uiParse attr), attr_diff 2 500 (uiParse attr))"

definition lit_items :: "(int option \<times> idx) list \<Rightarrow> int \<Rightarrow> nat list" where
  "lit_items ps p = filter (\<lambda>i. in_reach p (ps ! i)) [0..<length ps]"

definition shows_last :: "(int option \<times> idx) list \<Rightarrow> int \<Rightarrow> bool list \<Rightarrow> bool" where
  "shows_last ps p marks \<longleftrightarrow>
     (lit_items ps p \<noteq> [] \<longrightarrow> marks = map (\<lambda>j. j = last (lit_items ps p)) [0..<length marks])"

lemma fold_last:
  "fold (\<lambda>i m. if P i then map (\<lambda>j. j = i) [0..<length m] else m) is marks =
    (if filter P is = [] then marks else map (\<lambda>j. j = last (filter P is)) [0..<length marks])"
  by (induction "is" arbitrary: marks) auto

lemma highLight_last:
  "highLight ps p marks =
    (if lit_items ps p = [] then marks else map (\<lambda>j. j = last (lit_items ps p)) [0..<length marks])"
  unfolding highLight_def lit_items_def by (rule fold_last)

interpretation light: scroll_widget "\<lambda>now. thr_call (int w) True True now ()" "thr_later (int w) True"
    "\<lambda>s. length (th_log s)" th_timeout "thr_ok (int w)" "int w" "highLight ps" "shows_last ps" for w :: nat and ps
  by unfold_locales (simp add: shows_last_def highLight_last)

section \<open>Back to the top\<close>

text \<open>Of the two places a browser may keep the position in, the one that is not 0.\<close>

definition panel_shown :: "int \<Rightarrow> int \<Rightarrow> bool" where
  "panel_shown bodyTop docTop = ((if bodyTop \<noteq> 0 then bodyTop else docTop) \<noteq> 0)"

text \<open>\<open>setStyle\<close>: the distance from the right, doubled; nothing is set on a small screen.\<close>

definition panel_right2 :: "bool \<Rightarrow> bool \<Rightarrow> int \<Rightarrow> int \<Rightarrow> int option" where
  "panel_right2 compatible ie6 screenWidth clientWidth =
     (if screenWidth \<ge> 1210 then
        Some (if ie6 then - 52 else clientWidth - (if compatible then 1210 else 990) - 52)
      else None)"

section \<open>What is shown when the page comes to rest\<close>

lemma throttled_keeps:
  assumes "\<And>p w. P w \<Longrightarrow> P (h p w)" "P w"
  shows "P (throttled_run h evs p w)"
proof -
  have "P (snd (snd (fold (throttled_step h) evs x)))" if "P (snd (snd x))" for x
    using that
  proof (induction evs arbitrary: x)
    case (Cons e evs)
    obtain now k where e: "e = (now, k)" by (cases e)
    have "P (snd (snd (throttled_step h e x)))"
      using Cons.prems assms(1) by (cases x; cases k) (auto simp: e throttled_step_def Let_def)
    then show ?case using Cons.IH by simp
  qed simp
  then show ?thesis using assms(2) by (simp add: throttled_run_def)
qed

lemma from_hd: "sorted (map fst evs) \<Longrightarrow> \<forall>e\<in>set evs. fst (hd evs) \<le> fst e"
  by (cases evs) auto

lemma thr_ok0 [simp]: "thr_ok w t thr0"
  by (simp add: thr_ok_def thr0_def)

text \<open>
  C31: when the window has come to rest for 50 ms, the element sticks exactly when the last position
  asks for it, whatever scroll events were thrown together by the throttling before.
\<close>

theorem suction_settles:
  assumes "sorted (map fst evs)" "(now, Scroll p) \<in> set evs" "fst (last evs) + 50 \<le> T"
  shows "su_fixed (throttled_run (suction_fn atTop elTop elHeight winHeight) (evs @ [(T, Tick)]) q s) =
    sticks atTop elTop elHeight winHeight (last_scroll evs q)"
  unfolding throttled_run_def throttled_step_def
  using suction.settles [where w = 50 and x = "(thr0, q, s)"] from_hd [OF assms(1)] assms by simp

theorem suction_settles_witness:
  "su_fixed (throttled_run (suction_fn True 100 40 600) [(1000, Scroll 300), (1010, Scroll 20), (1060, Tick)] 0
    \<lparr>su_fixed = False, su_log = []\<rparr>) = False"
  using suction_settles [of "[(1000, Scroll 300), (1010, Scroll 20)]" 1000 300 1060 True 100 40 600 0
      "\<lparr>su_fixed = False, su_log = []\<rparr>"]
  by (simp add: sticks_def)

lemma length_highLight: "length (highLight ps p m) = length m"
  by (simp add: highLight_last)

lemma reach_of_click:
  assumes "sorted tops" "k < j" "j < length tops"
  shows "in_reach (nav_target tops k) (content_pos (INum 200) (INum 500) (tops ! j)) \<longleftrightarrow> tops ! j < tops ! k + 170"
  using assms sorted_nth_mono [of tops k j]
  by (auto simp: in_reach_def content_pos_def to_num_def add_idx_def nav_target_def)

lemma reach_self: "in_reach (nav_target tops k) (content_pos (INum 200) (INum 500) (tops ! k))"
  by (simp add: in_reach_def content_pos_def to_num_def add_idx_def nav_target_def)

lemma last_filter_upt:
  assumes "k < n" "P k"
  shows "last (filter P [0..<n]) = k \<longleftrightarrow> (\<forall>j. k < j \<and> j < n \<longrightarrow> \<not> P j)"
proof -
  have u: "[0..<n] = [0..<k] @ k # [Suc k..<n]"
    using assms(1) upt_add_eq_append [of 0 k "n - k"] by (simp add: upt_conv_Cons)
  show ?thesis
  proof (cases "filter P [Suc k..<n] = []")
    case True
    then show ?thesis using assms by (auto simp: u filter_empty_conv Suc_le_eq)
  next
    case False
    then have "last (filter P [Suc k..<n]) \<in> set (filter P [Suc k..<n])" by (rule last_in_set)
    then show ?thesis using False assms by (auto simp: u Suc_le_eq)
  qed
qed

text \<open>
  A click on an item of the menu highlights it in the end, with the distances of the defaults,
  exactly when no later section begins less than 170 pixels below its own: a click on a section
  shorter than that highlights another.
\<close>

theorem light_click:
  assumes "navLight (INum 200) (INum 500) (length marks) tops = Some ps" "sorted tops" "k < length tops"
    "sorted (map fst evs)" "(now, Scroll p) \<in> set evs" "fst (last evs) + 50 \<le> T"
    "last_scroll evs q = nav_target tops k"
  shows "throttled_run (highLight ps) (evs @ [(T, Tick)]) q marks = map (\<lambda>j. j = k) [0..<length marks] \<longleftrightarrow>
    (\<forall>j. k < j \<and> j < length tops \<longrightarrow> tops ! k + 170 \<le> tops ! j)"
proof -
  define r where "r = throttled_run (highLight ps) (evs @ [(T, Tick)]) q marks"
  have ps: "ps = map (content_pos (INum 200) (INum 500)) tops" "length marks = length tops"
    using assms(1) by (auto simp: navLight_def split: if_splits)
  let ?P = "\<lambda>i. in_reach (nav_target tops k) (ps ! i)"
  have len: "length r = length marks"
    unfolding r_def by (rule throttled_keeps [where P = "\<lambda>m. length m = length marks"]) (simp_all add: length_highLight)
  have "shows_last ps (nav_target tops k) r"
    unfolding r_def throttled_run_def throttled_step_def
    using light.settles [where w = 50 and x = "(thr0, q, marks)" and ps = ps and t = "fst (hd evs)" and evs = evs
        and now = now and p = p and T = T and q = q] from_hd [OF assms(4)] assms(4-7) by simp
  moreover have self: "?P k" using ps(1) assms(3) by (simp add: reach_self)
  moreover have lit: "lit_items ps (nav_target tops k) = filter ?P [0..<length tops]" by (simp add: lit_items_def ps(1))
  moreover have "filter ?P [0..<length tops] \<noteq> []" using self assms(3) by (auto simp: filter_empty_conv)
  ultimately have r: "r = map (\<lambda>j. j = last (filter ?P [0..<length tops])) [0..<length marks]"
    by (simp add: shows_last_def len)
  have "r = map (\<lambda>j. j = k) [0..<length marks] \<longleftrightarrow> last (filter ?P [0..<length tops]) = k"
    using assms(3) ps(2) unfolding r by auto
  also have "\<dots> \<longleftrightarrow> (\<forall>j. k < j \<and> j < length tops \<longrightarrow> \<not> ?P j)"
    using assms(3) self by (rule last_filter_upt)
  also have "\<dots> \<longleftrightarrow> (\<forall>j. k < j \<and> j < length tops \<longrightarrow> tops ! k + 170 \<le> tops ! j)"
    using reach_of_click [OF assms(2)] ps(1) by (auto simp: linorder_not_less)
  finally show ?thesis by (simp add: r_def)
qed

theorem light_click_witness:
  "throttled_run (highLight (map (content_pos (INum 200) (INum 500)) [300, 400, 1000]))
    [(1000, Scroll 270), (1060, Tick)] 0 [False, False, False] \<noteq> [True, False, False]"
proof -
  have l: "navLight (INum 200) (INum 500) (length [False, False, False]) [300, 400, 1000] =
      Some (map (content_pos (INum 200) (INum 500)) [300, 400, 1000])"
    by (simp add: navLight_def)
  have "\<exists>j. 0 < j \<and> j < length [300, 400, 1000 :: int] \<and> [300, 400, 1000 :: int] ! j < 300 + 170"
    by (rule exI [of _ 1]) simp
  then show ?thesis
    using light_click [OF l, of 0 "[(1000, Scroll 270)]" 1000 270 1060 0]
    by (auto simp: nav_target_def upt_rec linorder_not_less)
qed

lemma digits_val_append: "digits_val (a @ b) = digits_val a * 10 ^ length b + digits_val b"
proof (induction b rule: rev_induct)
  case (snoc u b)
  then show ?case using digits_val_snoc [of "a @ b" u] digits_val_snoc [of b u] by (simp add: algebra_simps)
qed (simp add: digits_val_def)

text \<open>
  With the distances given in the attribute the lower one is not added: a section at \<open>y\<close> is taken
  to reach down to \<open>1000 * y + 500\<close>, the number whose digits are those of \<open>y\<close> followed by 500.
\<close>

theorem light_attribute_appended:
  "in_reach p (content_pos (fst (light_attr (js ''u-navlight|curr|200|500''))) (snd (light_attr (js ''u-navlight|curr|200|500''))) (int y))
    \<longleftrightarrow> int y - 200 < p \<and> p < 1000 * int y + 500"
proof -
  have a: "light_attr (js ''u-navlight|curr|200|500'') = (ITxt (js ''200''), ITxt (js ''500''))"
    by code_simp
  have d: "digits_val (js ''200'') = 200" "digits_val (js ''500'') = 500"
    "list_all is_digit (js ''200'')" "list_all is_digit (js ''500'')" "length (js ''500'') = 3"
    by code_simp+
  have "list_all is_digit (nat_str y)" using nat_str_digits by (auto simp: list_all_iff)
  then show ?thesis
    using d by (auto simp: in_reach_def content_pos_def to_num_def add_idx_def a int_str_def digits_val_append)
qed

end
