(* ===== verification/Pop_Inputs.thy ===== *)
theory Pop_Inputs
  imports Pop_Tabs
begin

text \<open>
  The small widgets of \<open>popui.js\<close>: the hint over an empty input (\<open>$.fn.placeholder\<close>), the select box
  with its own display (\<open>$.fn.sel\<close>), classes under the mouse (\<open>u-hover\<close>), the picture carousel with
  backgrounds on top of the tabs (\<open>$.fn.focusPic\<close>), and the login box (\<open>$.login\<close>).
\<close>

section \<open>The hint over an input\<close>

datatype hint_kind = AsFocus | AsKeydown | NoEvents

record hint =
  hi_val :: jstr
  hi_shown :: bool
  hi_focus :: bool
  hi_clicks :: nat
  hi_pos :: "int \<times> int"

text \<open>The kind of event asked for: \<open>focus\<close>, \<open>keydown\<close>, or a text that is neither.\<close>

definition hint_kind_of :: "jstr \<Rightarrow> hint_kind" where
  "hint_kind_of evtType =
     (if evtType = (js ''focus'') then AsFocus
      else if evtType = (js ''keydown'') then AsKeydown else NoEvents)"

definition hint_attr :: "jstr \<Rightarrow> hint_kind" where
  "hint_attr attr =
     (let arr = uiParse attr
      in if 1 < length arr then
           (case arr ! 1 of UText t \<Rightarrow> hint_kind_of t | UUndef \<Rightarrow> AsFocus | UBool b \<Rightarrow> NoEvents)
         else AsFocus)"

text \<open>\<open>paddingLeft\<close>, the width and the height of the hint, and the place of the input.\<close>

definition hint_box :: "int \<Rightarrow> int \<Rightarrow> int \<Rightarrow> int \<Rightarrow> int \<times> int \<times> int" where
  "hint_box outerWidth outerHeight paddingLeft diffPaddingLeft =
     (paddingLeft + diffPaddingLeft, outerWidth - (paddingLeft + diffPaddingLeft), outerHeight)"

definition hint_start :: "jstr \<Rightarrow> bool \<Rightarrow> int \<times> int \<Rightarrow> hint" where
  "hint_start val visible offset =
     \<lparr>hi_val = val, hi_shown = (val = [] \<and> visible), hi_focus = False, hi_clicks = 0, hi_pos = offset\<rparr>"

definition hideAndFocus :: "hint \<Rightarrow> hint" where
  "hideAndFocus s = s\<lparr>hi_shown := False, hi_focus := True\<rparr>"

definition asFocus_blur :: "hint \<Rightarrow> hint" where
  "asFocus_blur s = (if hi_val s = [] then s\<lparr>hi_shown := True\<rparr> else s)"

definition hint_keyup :: "hint \<Rightarrow> hint" where
  "hint_keyup s = s\<lparr>hi_shown := (hi_val s = [])\<rparr>"

text \<open>
  What can happen: a click on the hint (when it is shown), on the input, or by the timer that the
  first click leaves; leaving the input; typing, with the text there is when the key comes up; a
  change of the text without a key (the mouse, a script); a change of the window.
\<close>

datatype hint_event =
    ClickHint
  | ClickInput
  | LateClick
  | LeaveInput
  | Typed jstr
  | Pasted jstr
  | Resized "int \<times> int"

definition hint_step :: "hint_kind \<Rightarrow> hint_event \<Rightarrow> hint \<Rightarrow> hint" where
  "hint_step k e s =
     (case e of
        ClickHint \<Rightarrow>
          if \<not> hi_shown s then s
          else (case k of
                  AsFocus \<Rightarrow> (hideAndFocus s)\<lparr>hi_clicks := hi_clicks s + 1\<rparr>
                | AsKeydown \<Rightarrow> s\<lparr>hi_focus := True\<rparr>
                | NoEvents \<Rightarrow> s)
      | ClickInput \<Rightarrow> (if k = AsFocus then hideAndFocus s else s\<lparr>hi_focus := True\<rparr>)
      | LateClick \<Rightarrow> if hi_clicks s = 0 then s else (hideAndFocus s)\<lparr>hi_clicks := hi_clicks s - 1\<rparr>
      | LeaveInput \<Rightarrow> (let s = s\<lparr>hi_focus := False\<rparr> in if k = AsFocus then asFocus_blur s else s)
      | Typed t \<Rightarrow> hint_keyup (s\<lparr>hi_val := t\<rparr>)
      | Pasted t \<Rightarrow> s\<lparr>hi_val := t\<rparr>
      | Resized p \<Rightarrow> s\<lparr>hi_pos := p\<rparr>)"

definition hint_run :: "hint_kind \<Rightarrow> hint_event list \<Rightarrow> hint \<Rightarrow> hint" where
  "hint_run k es s = fold (hint_step k) es s"

lemma hint_step_covers:
  "(hi_shown s \<longrightarrow> hi_val s = []) \<Longrightarrow> (\<forall>t. Pasted t \<noteq> e) \<Longrightarrow>
    (hi_shown (hint_step k e s) \<longrightarrow> hi_val (hint_step k e s) = [])"
  by (cases e) (auto simp: hint_step_def hideAndFocus_def asFocus_blur_def hint_keyup_def Let_def split: hint_kind.split)

lemma hint_step_clicks: "k \<noteq> AsFocus \<Longrightarrow> hi_clicks s = 0 \<Longrightarrow> hi_clicks (hint_step k e s) = 0"
  by (cases e) (auto simp: hint_step_def hint_keyup_def Let_def split: hint_kind.split)

lemma hint_step_keydown:
  "k \<noteq> AsFocus \<Longrightarrow> hi_clicks s = 0 \<Longrightarrow> (hi_shown s \<longleftrightarrow> hi_val s = []) \<Longrightarrow> (\<forall>t. Pasted t \<noteq> e) \<Longrightarrow>
    (hi_shown (hint_step k e s) \<longleftrightarrow> hi_val (hint_step k e s) = [])"
  by (cases e) (auto simp: hint_step_def hint_keyup_def Let_def split: hint_kind.split)

lemma hint_run_covers:
  assumes "\<forall>t. Pasted t \<notin> set es" "hi_shown s \<longrightarrow> hi_val s = []"
  shows "hi_shown (hint_run k es s) \<longrightarrow> hi_val (hint_run k es s) = []"
  using assms unfolding hint_run_def
  by (induction es arbitrary: s) (simp_all add: hint_step_covers)

lemma hint_run_keydown:
  assumes "\<forall>t. Pasted t \<notin> set es" "hi_clicks s = 0" "hi_shown s \<longleftrightarrow> hi_val s = []" "k \<noteq> AsFocus"
  shows "hi_shown (hint_run k es s) \<longleftrightarrow> hi_val (hint_run k es s) = []"
  using assms unfolding hint_run_def
  by (induction es arbitrary: s) (simp_all add: hint_step_keydown hint_step_clicks)

text \<open>
  As long as every change of the text ends with a key, the hint never lies over a text: for every
  order of clicks, keys and timers it is shown only when the input is empty, in the kind that waits
  for keys (and was visible at the start) exactly then, and in the kind for the focus whenever an
  empty input has just been left.
\<close>

theorem hint_only_when_empty:
  assumes "\<forall>t. Pasted t \<notin> set es" "s = hint_run k es (hint_start val visible offset)"
  shows "(hi_shown s \<longrightarrow> hi_val s = []) \<and>
    (k \<noteq> AsFocus \<and> visible \<longrightarrow> (hi_shown s \<longleftrightarrow> hi_val s = [])) \<and>
    (k = AsFocus \<longrightarrow> (hi_shown (hint_step k LeaveInput s) \<longleftrightarrow> hi_val s = []))"
proof -
  have c: "hi_shown s \<longrightarrow> hi_val s = []"
    unfolding assms(2) by (rule hint_run_covers [OF assms(1)]) (simp add: hint_start_def)
  moreover have "hi_shown s \<longleftrightarrow> hi_val s = []" if "k \<noteq> AsFocus" "visible"
    unfolding assms(2) by (rule hint_run_keydown [OF assms(1)]) (use that in \<open>simp_all add: hint_start_def\<close>)
  moreover have "hi_shown (hint_step k LeaveInput s) \<longleftrightarrow> hi_val s = []" if "k = AsFocus"
    using c that by (auto simp: hint_step_def asFocus_blur_def Let_def)
  ultimately show ?thesis by blast
qed

theorem hint_only_when_empty_witness:
  "hi_shown (hint_run AsKeydown [ClickHint, Typed (js ''a''), Typed []] (hint_start [] True (10, 20)))"
proof -
  let ?es = "[ClickHint, Typed (js ''a''), Typed []]"
  have p: "\<forall>t. Pasted t \<notin> set ?es" by simp
  have v: "hi_val (hint_run AsKeydown ?es (hint_start [] True (10, 20))) = []"
    by (simp add: hint_run_def hint_start_def hint_step_def hint_keyup_def)
  show ?thesis using hint_only_when_empty [OF p refl, of AsKeydown "[]" True "(10, 20)"] v by simp
qed

text \<open>A text that comes without a key is covered by the hint.\<close>

lemma hint_over_pasted:
  "hi_shown (hint_run AsFocus [Pasted (js ''a''), LeaveInput] (hint_start [] True p)) \<and>
    hi_val (hint_run AsFocus [Pasted (js ''a''), LeaveInput] (hint_start [] True p)) = js ''a''"
  by (simp add: hint_run_def hint_start_def hint_step_def asFocus_blur_def js_def)

section \<open>Select boxes\<close>

text \<open>The options (value and text), the one selected, what the display shows, and the events triggered.\<close>

record selbox =
  se_options :: "(jstr \<times> jstr) list"
  se_selected :: "nat option"
  se_display :: jstr
  se_switched :: "jstr list"

definition selected_text :: "selbox \<Rightarrow> jstr" where
  "selected_text s =
     (case se_selected s of
        None \<Rightarrow> []
      | Some k \<Rightarrow> if k < length (se_options s) then snd (se_options s ! k) else [])"

definition sel_onchange :: "nat \<Rightarrow> selbox \<Rightarrow> selbox" where
  "sel_onchange k s =
     (let s = s\<lparr>se_selected := Some k\<rparr>; t = selected_text s
      in s\<lparr>se_display := t, se_switched := se_switched s @ [t]\<rparr>)"

text \<open>\<open>selector.val(value)\<close>: the first option of that value, none when there is no such option.\<close>

fun first_value :: "jstr \<Rightarrow> (jstr \<times> jstr) list \<Rightarrow> nat option" where
  "first_value v [] = None"
| "first_value v (x # xs) = (if fst x = v then Some 0 else map_option Suc (first_value v xs))"

definition sel_start :: "bool \<Rightarrow> jstr \<Rightarrow> selbox \<Rightarrow> selbox" where
  "sel_start changeOption value s =
     (if changeOption then
        (let s = s\<lparr>se_selected := first_value value (se_options s)\<rparr> in s\<lparr>se_display := selected_text s\<rparr>)
      else s)"

text \<open>The last two fields of the attribute: whether to change, and to what.\<close>

definition sel_attr :: "jstr \<Rightarrow> bool \<times> jstr" where
  "sel_attr attr =
     (let arr = uiParse attr
      in ((if 2 < length arr then (case arr ! 2 of UText t \<Rightarrow> t \<noteq> [] | UBool b \<Rightarrow> b | UUndef \<Rightarrow> False) else False),
          (if 3 < length arr then (case arr ! 3 of UText t \<Rightarrow> t | _ \<Rightarrow> []) else [])))"

lemma first_value_nth: "first_value v xs = Some k \<Longrightarrow> k < length xs \<and> fst (xs ! k) = v"
  by (induction xs arbitrary: k) (auto split: if_splits)

lemma first_value_None: "first_value v xs = None \<longleftrightarrow> v \<notin> fst ` set xs"
  by (induction xs) auto

lemma sel_after_changes:
  "ks \<noteq> [] \<Longrightarrow> se_display (fold sel_onchange ks s) = selected_text (fold sel_onchange ks s)"
proof (induction ks rule: rev_induct)
  case (snoc k ks)
  show ?case by (simp add: sel_onchange_def Let_def selected_text_def)
qed simp

text \<open>
  The display of a select box agrees with the option that is selected: after a start that changes
  the option it shows the text of the option asked for, or nothing when there is none, and after
  any number of choices the text of the last one.
\<close>

theorem sel_display_agrees:
  assumes "changeOption \<or> ks \<noteq> []" "r = fold sel_onchange ks (sel_start changeOption value s)"
  shows "se_display r = selected_text r \<and>
    (ks = [] \<and> value \<notin> fst ` set (se_options s) \<longrightarrow> se_display r = [])"
proof (cases "ks = []")
  case True
  then show ?thesis
    using assms first_value_None [of "value" "se_options s"] by (auto simp: sel_start_def Let_def selected_text_def)
next
  case False
  then show ?thesis using sel_after_changes assms(2) by simp
qed

section \<open>Classes under the mouse\<close>

text \<open>Whether the attribute names elements inside, which, and the class.\<close>

definition hover_attr :: "jstr \<Rightarrow> bool \<times> uarg \<times> jstr" where
  "hover_attr attr =
     (let arr = uiParse attr; sel = (if 0 < length arr then arr ! 0 else UUndef)
      in ((case sel of UText t \<Rightarrow> t \<noteq> [] | UBool b \<Rightarrow> b | UUndef \<Rightarrow> False), sel,
          (if 1 < length arr then (case arr ! 1 of UText t \<Rightarrow> if t = [] then js ''hover'' else t | _ \<Rightarrow> js ''hover'')
           else js ''hover'')))"

definition hover_over :: "bool \<Rightarrow> jstr \<Rightarrow> jstr list \<Rightarrow> jstr list" where
  "hover_over enter cls classes =
     (if enter then (if cls \<in> set classes then classes else classes @ [cls])
      else filter (\<lambda>c. c \<noteq> cls) classes)"

lemma hover_in_out: "cls \<notin> set classes \<Longrightarrow> hover_over False cls (hover_over True cls classes) = classes"
  by (auto simp: hover_over_def filter_id_conv)

section \<open>Tabs with backgrounds\<close>

text \<open>
  \<open>$.fn.focusPic\<close>: a tab widget, and on every \<open>switch\<close> it triggers all backgrounds are hidden and the
  one at the index is shown. There may be no backgrounds.
\<close>

definition show_only :: "idx \<Rightarrow> bool list \<Rightarrow> bool list" where
  "show_only i bgs = map (\<lambda>j. Some j = eq_pos (length bgs) i) [0..<length bgs]"

definition focusPic_step :: "tab_settings \<Rightarrow> tab_event \<Rightarrow> tabw \<times> bool list \<Rightarrow> tabw \<times> bool list" where
  "focusPic_step st e x =
     (case x of (s, bgs) \<Rightarrow>
        (let s' = tab_step st e s in (s', fold show_only (drop (length (tw_switched s)) (tw_switched s')) bgs)))"

definition focusPic_run :: "tab_settings \<Rightarrow> tab_event list \<Rightarrow> tabw \<Rightarrow> bool list \<Rightarrow> tabw \<times> bool list" where
  "focusPic_run st es s bgs = fold (focusPic_step st) es (s, bgs)"

lemma length_show_only [simp]: "length (show_only i bgs) = length bgs"
  by (simp add: show_only_def)

lemma show_only_again [simp]: "show_only i (show_only j bgs) = show_only i bgs"
  by (simp add: show_only_def)

text \<open>Every event switches at most once, and the index switched to is the current one.\<close>

definition one_switch :: "tabw \<Rightarrow> tabw \<Rightarrow> bool" where
  "one_switch s s' \<longleftrightarrow>
     tw_switched s' = tw_switched s \<and> tw_current s' = tw_current s \<or>
     tw_switched s' = tw_switched s @ [tw_current s']"

lemma one_switch_setTab: "one_switch s (setTab st i (s\<lparr>tw_ticker := t\<rparr>))"
  by (simp add: one_switch_def setTab_def Let_def load_frame_def split: option.split)

lemma one_switch_step: "one_switch s (tab_step st e s)"
  by (cases e)
    (auto simp: tab_step_def auto_next_def Let_def one_switch_setTab split: option.split,
      auto simp: one_switch_def)

definition bg_inv :: "tabw \<times> bool list \<Rightarrow> bool" where
  "bg_inv x \<longleftrightarrow> (case x of (s, bgs) \<Rightarrow> tw_switched s \<noteq> [] \<longrightarrow> bgs = show_only (tw_current s) bgs)"

lemma bg_inv_step:
  assumes "bg_inv x"
  shows "bg_inv (focusPic_step st e x)"
proof -
  obtain s bgs where x: "x = (s, bgs)" by (cases x)
  show ?thesis using one_switch_step [of s st e] assms
    by (auto simp: x bg_inv_def one_switch_def focusPic_step_def Let_def)
qed

lemma bg_inv_run: "bg_inv (s, bgs) \<Longrightarrow> bg_inv (focusPic_run st es s bgs)"
proof -
  have "bg_inv x \<Longrightarrow> bg_inv (fold (focusPic_step st) es x)" for x
    by (induction es arbitrary: x) (simp_all add: bg_inv_step)
  then show "bg_inv (s, bgs) \<Longrightarrow> bg_inv (focusPic_run st es s bgs)" by (simp add: focusPic_run_def)
qed

lemma tab_start_switched: "tab_start st now navs cons = Some s \<Longrightarrow> tw_switched s = []"
  by (auto simp: tab_start_def setTab_def Let_def split: if_splits)

lemma fst_focusPic_run: "fst (focusPic_run st es s bgs) = tab_run st es s"
proof -
  have "fst (fold (focusPic_step st) es x) = fold (tab_step st) es (fst x)" for x
    by (induction es arbitrary: x) (simp_all add: focusPic_step_def Let_def split: prod.split)
  then show ?thesis by (simp add: focusPic_run_def tab_run_def)
qed

lemma length_bgs: "length (snd (focusPic_run st es s bgs)) = length bgs"
proof -
  have "length (fold show_only is bs) = length bs" for "is" bs
    by (induction "is" arbitrary: bs) simp_all
  then have "length (snd (fold (focusPic_step st) es x)) = length (snd x)" for x
    by (induction es arbitrary: x) (simp_all add: focusPic_step_def Let_def split: prod.split)
  then show ?thesis by (simp add: focusPic_run_def)
qed

lemma bg_inv_nth:
  "bg_inv (r, bgs) \<Longrightarrow> tw_switched r \<noteq> [] \<Longrightarrow> j < length bgs \<Longrightarrow> (bgs ! j \<longleftrightarrow> Some j = eq_pos (length bgs) (tw_current r))"
proof -
  assume "bg_inv (r, bgs)" "tw_switched r \<noteq> []"
  then have "bgs = show_only (tw_current r) bgs" by (simp add: bg_inv_def)
  then have "bgs ! j = show_only (tw_current r) bgs ! j" by (rule arg_cong)
  then show "j < length bgs \<Longrightarrow> ?thesis" by (simp add: show_only_def)
qed

text \<open>
  The carousel with backgrounds keeps in step: with a background for every content, once it has
  switched exactly the background of the content in front is shown, for every sequence of clicks,
  timers and movements of the mouse.
\<close>

theorem focusPic_in_step:
  assumes "ts_defIndex st = INum 0" "navs \<noteq> []" "length navs = length cons" "length bgs = length navs"
    "\<forall>k<length navs. (ni_cur (navs ! k) \<longleftrightarrow> k = 0) \<and> (0 < k \<longrightarrow> \<not> ci_shown (cons ! k))"
    "tab_start st now navs cons = Some s" "(r, shown) = focusPic_run st es s bgs" "tw_switched r \<noteq> []"
  shows "\<forall>k<length navs. shown ! k \<longleftrightarrow> ci_shown (tw_con r ! k)"
proof -
  have r: "r = tab_run st es s" using fst_focusPic_run [of st es s bgs] assms(7) by (metis fst_conv)
  have "tab_inv (length navs) r"
    using tab_start_inv [OF assms(1-3,5), of now] assms(6) by (auto simp: r tab_inv_run)
  then obtain c where c: "tw_current r = INum (int c)" "c < length navs"
      "\<forall>k<length navs. ci_shown (tw_con r ! k) \<longleftrightarrow> k = c"
    by (auto simp: tab_inv_def)
  have len: "length shown = length navs" using length_bgs [of st es s bgs] assms(4,7) by (metis snd_conv)
  have "bg_inv (r, shown)"
    using bg_inv_run [of s bgs st es] tab_start_switched [OF assms(6)] assms(7) by (simp add: bg_inv_def)
  from bg_inv_nth [OF this assms(8)] c len show ?thesis by (auto simp: eq_pos_nat)
qed

theorem focusPic_in_step_witness:
  "snd (focusPic_run (attr_settings (js ''u-tab'') None) [NavEvent 1]
      (the (tab_start (attr_settings (js ''u-tab'') None) 0 [item True, item False] [hidden, hidden])) [True, False]) ! 1"
proof -
  let ?st = "attr_settings (js ''u-tab'') None"
  have "uiParse (js ''u-tab'') = []" using uiParse_show [of "js ''u-tab''" "[]"] by (simp add: js_def)
  then have d: "ts_defIndex ?st = INum 0" "\<not> ts_auto ?st" "ts_arrow ?st = None"
    by (simp_all add: attr_settings_def attr_index_def attr_auto_def)
  define s where "s = the (tab_start ?st 0 [item True, item False] [hidden, hidden])"
  have s: "tab_start ?st 0 [item True, item False] [hidden, hidden] = Some s"
    by (simp add: s_def tab_start_def Let_def)
  have c: "tw_current s = INum 0" "length (tw_nav s) = 2" "length (tw_con s) = 2"
    by (simp_all add: s_def tab_start_def d setTab_def Let_def upd_def eq_pos_def to_num_def)
  have r: "tw_switched (tab_run ?st [NavEvent 1] s) \<noteq> []" "ci_shown (tw_con (tab_run ?st [NavEvent 1] s) ! 1)"
    using c by (auto simp: tab_run_def tab_step_def setTab_def loose_eq_def to_num_def Let_def upd_def eq_pos_def
        load_frame_def tick_stop_def split: option.splits)
  obtain w shown where f: "(w, shown) = focusPic_run ?st [NavEvent 1] s [True, False]"
    by (metis surj_pair)
  have w: "w = tab_run ?st [NavEvent 1] s" using fst_focusPic_run [of ?st "[NavEvent 1]" s] f by (metis fst_conv)
  have "\<forall>k<length [item True, item False]. shown ! k \<longleftrightarrow> ci_shown (tw_con w ! k)"
    by (rule focusPic_in_step [OF d(1) _ _ _ _ s f]) (use r w in \<open>auto simp: item_def hidden_def less_Suc_eq\<close>)
  then have "shown ! 1" using r(2) w by simp
  then show ?thesis using f by (simp add: s_def [symmetric]) (metis snd_conv)
qed

section \<open>The login box\<close>

text \<open>
  \<open>jdModelCallCenter\<close>: the callback of its settings, the login boxes open and those whose timer is
  pending, requests in the air, the address left for, the callbacks run, and whether the code
  stopped with an exception. Callbacks are named by numbers; the one of the default reloads the page.
\<close>

record login =
  lg_fn :: "nat option"
  lg_open :: nat
  lg_pending :: nat
  lg_checks :: nat
  lg_inits :: nat
  lg_left :: bool
  lg_bar :: "jstr option"
  lg_ran :: "nat list"
  lg_failed :: bool

definition login0 :: login where
  "login0 = \<lparr>lg_fn = None, lg_open = 0, lg_pending = 0, lg_checks = 0, lg_inits = 0, lg_left = False, lg_bar = None,
     lg_ran = [], lg_failed = False\<rparr>"

definition tbClose :: "login \<Rightarrow> login" where
  "tbClose s = s\<lparr>lg_open := lg_open s - 1\<rparr>"

text \<open>\<open>$.login\<close>: the settings and the question whether the visitor is known.\<close>

definition login_call :: "nat \<Rightarrow> login \<Rightarrow> login" where
  "login_call cb s = s\<lparr>lg_fn := Some cb, lg_checks := lg_checks s + 1\<rparr>"

text \<open>\<open>jdModelCallCenter.login\<close>, with the test of the browser.\<close>

definition center_login :: "bool \<Rightarrow> login \<Rightarrow> login" where
  "center_login ucweb s =
     (let s = tbClose s in if ucweb then s\<lparr>lg_left := True\<rparr> else s\<lparr>lg_pending := lg_pending s + 1\<rparr>)"

definition center_regist :: "login \<Rightarrow> login" where
  "center_regist s = (let s = tbClose s in s\<lparr>lg_pending := lg_pending s + 1\<rparr>)"

definition is_login :: "bool \<Rightarrow> bool \<Rightarrow> login \<Rightarrow> login" where
  "is_login ucweb known s =
     (if lg_checks s = 0 then s
      else (let s = s\<lparr>lg_checks := lg_checks s - 1\<rparr> in if known then s else center_login ucweb s))"

definition center_timer :: "login \<Rightarrow> login" where
  "center_timer s = (if lg_pending s = 0 then s else s\<lparr>lg_pending := lg_pending s - 1, lg_open := lg_open s + 1\<rparr>)"

text \<open>\<open>init\<close>, called by the page in the box, and its answer.\<close>

definition center_init :: "login \<Rightarrow> login" where
  "center_init s = s\<lparr>lg_inits := lg_inits s + 1\<rparr>"

definition init_answer :: "jstr \<Rightarrow> login \<Rightarrow> login" where
  "init_answer info s =
     (if lg_inits s = 0 then s
      else
        (let s = tbClose (s\<lparr>lg_inits := lg_inits s - 1\<rparr>);
             s = (if info \<noteq> [] then s\<lparr>lg_bar := Some info\<rparr> else s)
         in case lg_fn s of None \<Rightarrow> s\<lparr>lg_failed := True\<rparr> | Some cb \<Rightarrow> s\<lparr>lg_ran := lg_ran s @ [cb]\<rparr>))"

datatype login_event =
    LoginCall nat
  | Known bool bool
  | Regist
  | BoxTimer
  | InitCall
  | InitAnswer jstr

definition login_step :: "login_event \<Rightarrow> login \<Rightarrow> login" where
  "login_step e s =
     (case e of
        LoginCall cb \<Rightarrow> login_call cb s
      | Known ucweb known \<Rightarrow> is_login ucweb known s
      | Regist \<Rightarrow> center_regist s
      | BoxTimer \<Rightarrow> center_timer s
      | InitCall \<Rightarrow> center_init s
      | InitAnswer info \<Rightarrow> init_answer info s)"

definition login_run :: "login_event list \<Rightarrow> login" where
  "login_run es = fold login_step es login0"

lemma login_run_snoc: "login_run (es @ [e]) = login_step e (login_run es)"
  by (simp add: login_run_def)

fun last_login :: "login_event list \<Rightarrow> nat option \<Rightarrow> nat option" where
  "last_login [] c = c"
| "last_login (LoginCall cb # es) c = last_login es (Some cb)"
| "last_login (_ # es) c = last_login es c"

lemma last_login_snoc: "last_login (es @ [e]) c = (case e of LoginCall cb \<Rightarrow> Some cb | _ \<Rightarrow> last_login es c)"
  by (induction es c rule: last_login.induct) (simp_all split: login_event.split)

lemma login_fn: "lg_fn (login_run es) = last_login es None"
  by (induction es rule: rev_induct)
    (simp_all add: login_run_snoc last_login_snoc login_run_def [of "[]"] login0_def login_step_def login_call_def
      is_login_def center_login_def center_regist_def center_timer_def center_init_def init_answer_def tbClose_def
      Let_def split: login_event.split option.split)

text \<open>
  A callback given to \<open>$.login\<close> runs only when the page in the login box reports back: whatever
  happened before, such an answer runs the callback of the last call, once, and closes a box; no
  other event runs any. A visitor who is known already gets no box, and no callback either.
\<close>

theorem login_callback_once:
  "lg_ran (login_run (es @ [e])) =
    (case e of
       InitAnswer info \<Rightarrow>
         lg_ran (login_run es) @
           (if lg_inits (login_run es) = 0 then [] else (case last_login es None of None \<Rightarrow> [] | Some cb \<Rightarrow> [cb]))
     | _ \<Rightarrow> lg_ran (login_run es)) \<and>
   lg_open (login_run (es @ [Known ucweb True])) = lg_open (login_run es) \<and>
   lg_pending (login_run (es @ [Known ucweb True])) = lg_pending (login_run es)"
  by (simp add: login_run_snoc login_step_def login_call_def is_login_def center_login_def center_regist_def
      center_timer_def center_init_def init_answer_def tbClose_def Let_def login_fn split: login_event.split option.split)

end
