(* ===== verification/News_Ticker.thy ===== *)
theory News_Ticker
  imports Js_Dom
begin

text \<open>
  The ticker of the news box (\<open>static/plug-in/js/scroll.js\<close>, \<open>startmarquee\<close>): a doubled list that is
  scrolled up line by line with a pause after each. The browser keeps \<open>scrollTop\<close> between 0 and a
  largest value; positions are whole pixels.
\<close>

datatype nt_callback = NtStart | NtScroll

record news_set =
  ns_lh :: int
  ns_speed :: int
  ns_delay :: int
  ns_height :: int
  ns_max :: int

record news =
  nt_top :: int
  nt_over :: bool
  nt_var :: nat
  nt_timers :: "nt_callback timers"

text \<open>\<open>o.scrollTop += 6\<close>.\<close>

definition up6 :: "news_set \<Rightarrow> int \<Rightarrow> int" where
  "up6 st y = max 0 (min (ns_max st) (y + 6))"

text \<open>\<open>start\<close> and \<open>scrolling\<close>. The rest of a division by 0 is not a number, and differs from 0.\<close>

definition nt_start :: "news_set \<Rightarrow> int \<Rightarrow> news \<Rightarrow> news" where
  "nt_start st now s =
     (case set_interval now (ns_speed st) NtScroll (nt_timers s) of
        (i, ts) \<Rightarrow>
          s\<lparr>nt_var := i, nt_timers := ts, nt_top := (if nt_over s then nt_top s else up6 st (nt_top s))\<rparr>)"

definition nt_scrolling :: "news_set \<Rightarrow> int \<Rightarrow> news \<Rightarrow> news" where
  "nt_scrolling st now s =
     (if ns_lh st = 0 \<or> nt_top s mod ns_lh st \<noteq> 0 then
        (let y = up6 st (nt_top s) in s\<lparr>nt_top := (if 2 * y \<ge> ns_height st then 0 else y)\<rparr>)
      else
        s\<lparr>nt_timers := snd (set_timeout now (ns_delay st) NtStart (clear_timer (nt_var s) (nt_timers s)))\<rparr>)"

text \<open>\<open>startmarquee\<close> itself, and what happens afterwards.\<close>

definition startmarquee :: "news_set \<Rightarrow> int \<Rightarrow> news" where
  "startmarquee st now =
     \<lparr>nt_top = 0, nt_over = False, nt_var = 0, nt_timers = snd (set_timeout now (ns_delay st) NtStart no_timers)\<rparr>"

datatype nt_event = MouseOver | MouseOut | Due nat int

definition nt_step :: "news_set \<Rightarrow> nt_event \<Rightarrow> news \<Rightarrow> news" where
  "nt_step st e s =
     (case e of
        MouseOver \<Rightarrow> s\<lparr>nt_over := True\<rparr>
      | MouseOut \<Rightarrow> s\<lparr>nt_over := False\<rparr>
      | Due i now \<Rightarrow>
          (case fire i (nt_timers s) of
             None \<Rightarrow> s
           | Some (NtStart, ts) \<Rightarrow> nt_start st now (s\<lparr>nt_timers := ts\<rparr>)
           | Some (NtScroll, ts) \<Rightarrow> nt_scrolling st now (s\<lparr>nt_timers := ts\<rparr>)))"

definition nt_run :: "news_set \<Rightarrow> nt_event list \<Rightarrow> news \<Rightarrow> news" where
  "nt_run st es s = fold (nt_step st) es s"

section \<open>One timer\<close>

text \<open>The only timer is a start, or the interval that the variable holds.\<close>

definition nt_inv :: "news_set \<Rightarrow> news \<Rightarrow> bool" where
  "nt_inv st s \<longleftrightarrow> timers_inv (nt_timers s) \<and>
     (\<exists>i e. pending (nt_timers s) = [(i, e)] \<and>
       (callback e = NtStart \<and> period e = None \<or>
        callback e = NtScroll \<and> period e = Some (ns_speed st) \<and> i = nt_var s))"

definition waiting :: "news \<Rightarrow> bool" where
  "waiting s \<longleftrightarrow> (\<exists>i e. pending (nt_timers s) = [(i, e)] \<and> callback e = NtStart)"

lemma nt_fire:
  assumes "pending ts = [(i, e)]" "fire j ts = Some (c, ts')"
  shows "j = i \<and> c = callback e \<and>
    (case period e of None \<Rightarrow> pending ts' = [] | Some d \<Rightarrow> pending ts' = [(i, Entry (due e + d) (Some d) (callback e))])"
  using assms by (auto simp: fire_def find_timer_def clear_timer_def split: option.splits if_splits)

lemma nt_inv_step:
  assumes "nt_inv st s"
  shows "nt_inv st (nt_step st e s)"
proof (cases e)
  case (Due j now)
  show ?thesis
  proof (cases "fire j (nt_timers s)")
    case None
    then show ?thesis using assms by (simp add: Due nt_step_def)
  next
    case (Some x)
    then obtain c ts where f: "fire j (nt_timers s) = Some (c, ts)" by (cases x) auto
    obtain i en where p: "pending (nt_timers s) = [(i, en)]"
        "callback en = NtStart \<and> period en = None \<or> callback en = NtScroll \<and> period en = Some (ns_speed st) \<and> i = nt_var s"
      using assms by (auto simp: nt_inv_def)
    have inv: "timers_inv ts" using assms f fire_inv by (auto simp: nt_inv_def)
    note fi = nt_fire [OF p(1) f]
    show ?thesis
    proof (cases c)
      case NtStart
      then have "pending ts = []" using fi p(2) by auto
      then show ?thesis using NtStart f inv timers_inv_set_interval [OF inv]
        by (auto simp: Due nt_step_def nt_start_def nt_inv_def set_interval_def)
    next
      case NtScroll
      then have q: "pending ts = [(i, Entry (due en + ns_speed st) (Some (ns_speed st)) NtScroll)]" "i = nt_var s"
        using fi p(2) by auto
      have inv2: "timers_inv (clear_timer (nt_var s) ts)" using inv by (rule timers_inv_clear)
      show ?thesis
      proof (cases "ns_lh st = 0 \<or> nt_top s mod ns_lh st \<noteq> 0")
        case True
        then show ?thesis using NtScroll f inv q by (auto simp: Due nt_step_def nt_scrolling_def nt_inv_def Let_def)
      next
        case False
        then show ?thesis using NtScroll f q timers_inv_set_timeout [OF inv2]
          by (auto simp: Due nt_step_def nt_scrolling_def nt_inv_def set_timeout_def clear_timer_def)
      qed
    qed
  qed
qed (use assms in \<open>simp_all add: nt_step_def nt_inv_def\<close>)

lemma nt_inv_run: "nt_inv st s \<Longrightarrow> nt_inv st (nt_run st es s)"
  unfolding nt_run_def by (induction es arbitrary: s) (simp_all add: nt_inv_step)

lemma nt_inv_start: "nt_inv st (startmarquee st now)"
  by (simp add: nt_inv_def startmarquee_def set_timeout_def no_timers_def timers_inv_def)

section \<open>Every scroll ends in a pause\<close>

text \<open>\<open>n\<close> ticks of the interval.\<close>

definition nt_ticks :: "news_set \<Rightarrow> int \<Rightarrow> nat \<Rightarrow> news \<Rightarrow> news" where
  "nt_ticks st now n s = ((\<lambda>s. nt_step st (Due (nt_var s) now) s) ^^ n) s"

lemma rolling_tick:
  assumes "nt_inv st s" "\<not> waiting s" "r = nt_step st (Due (nt_var s) now) s"
  shows "if ns_lh st = 0 \<or> nt_top s mod ns_lh st \<noteq> 0
    then \<not> waiting r \<and> nt_top r = (if 2 * up6 st (nt_top s) \<ge> ns_height st then 0 else up6 st (nt_top s))
    else waiting r \<and> nt_top r = nt_top s"
proof -
  obtain e where p: "pending (nt_timers s) = [(nt_var s, e)]" "callback e = NtScroll" "period e = Some (ns_speed st)"
    using assms(1,2) by (auto simp: nt_inv_def waiting_def)
  then obtain ts where f: "fire (nt_var s) (nt_timers s) = Some (NtScroll, ts)"
    by (auto simp: fire_def find_timer_def)
  have "pending ts = [(nt_var s, Entry (due e + ns_speed st) (Some (ns_speed st)) NtScroll)]"
    using nt_fire [OF p(1) f] p by simp
  then show ?thesis
    using f by (auto simp: assms(3) nt_step_def nt_scrolling_def waiting_def set_timeout_def clear_timer_def Let_def)
qed

lemma ticks_Suc: "nt_ticks st now (Suc n) s = nt_ticks st now n (nt_step st (Due (nt_var s) now) s)"
  by (simp add: nt_ticks_def funpow_Suc_right del: funpow.simps)

lemma nt_pauses:
  assumes "0 < ns_lh st" "ns_height st \<le> 2 * ns_max st" "nt_inv st s" "\<not> waiting s" "0 \<le> nt_top s"
  shows "\<exists>n \<le> nat ((ns_height st - 2 * nt_top s) div 12) + 2.
    waiting (nt_ticks st now n s) \<and> nt_top (nt_ticks st now n s) mod ns_lh st = 0"
  using assms(3-)
proof (induction "nat (ns_height st - 2 * nt_top s)" arbitrary: s rule: less_induct)
  case less
  define r where "r = nt_step st (Due (nt_var s) now) s"
  note t = rolling_tick [OF less(2,3) r_def]
  have ri: "nt_inv st r" unfolding r_def by (rule nt_inv_step [OF less(2)])
  have one: "nt_ticks st now (Suc n) s = nt_ticks st now n r" for n by (simp add: ticks_Suc r_def)
  consider (pause) "nt_top s mod ns_lh st = 0"
    | (wrap) "nt_top s mod ns_lh st \<noteq> 0" "2 * up6 st (nt_top s) \<ge> ns_height st"
    | (on) "nt_top s mod ns_lh st \<noteq> 0" "2 * up6 st (nt_top s) < ns_height st"
    by linarith
  then show ?case
  proof cases
    case pause
    then have "waiting r" "nt_top r = nt_top s" using t assms(1) by auto
    then show ?thesis using one [of 0] pause by (intro exI [of _ 1]) (simp add: nt_ticks_def)
  next
    case wrap
    then have r: "\<not> waiting r" "nt_top r = 0" using t assms(1) by auto
    then have "waiting (nt_step st (Due (nt_var r) now) r)" "nt_top (nt_step st (Due (nt_var r) now) r) = 0"
      using rolling_tick [OF ri r(1) refl, of now] assms(1) by auto
    then show ?thesis using one [of 1] ticks_Suc [of st now 0 r]
      by (intro exI [of _ 2]) (simp add: nt_ticks_def numeral_2_eq_2)
  next
    case on
    then have r: "\<not> waiting r" "nt_top r = nt_top s + 6" "2 * nt_top r < ns_height st"
      using t assms(1,2) less(4) by (auto simp: up6_def max_def min_def split: if_splits)
    obtain n where n: "n \<le> nat ((ns_height st - 2 * nt_top r) div 12) + 2"
        "waiting (nt_ticks st now n r)" "nt_top (nt_ticks st now n r) mod ns_lh st = 0"
      using less(1) [OF _ ri r(1)] r less(4) by auto
    have "(ns_height st - 2 * nt_top s) div 12 = (ns_height st - 2 * nt_top r) div 12 + 1"
      using r(2) by (simp add: algebra_simps)
    moreover have "0 \<le> (ns_height st - 2 * nt_top r) div 12" using r(3) by (simp add: pos_imp_zdiv_nonneg_iff)
    ultimately have "Suc n \<le> nat ((ns_height st - 2 * nt_top s) div 12) + 2" using n(1) by linarith
    then show ?thesis using n(2,3) one [of n] by (intro exI [of _ "Suc n"]) simp
  qed
qed

lemma nt_top_step:
  assumes "0 \<le> nt_top s"
  shows "0 \<le> nt_top (nt_step st e s)"
proof -
  have "0 \<le> up6 st y" for y by (simp add: up6_def)
  then show ?thesis using assms
    by (auto simp: nt_step_def nt_start_def nt_scrolling_def Let_def split: nt_event.split option.split nt_callback.split prod.split)
qed

lemma nt_top_run: "0 \<le> nt_top s \<Longrightarrow> 0 \<le> nt_top (nt_run st es s)"
  unfolding nt_run_def by (induction es arbitrary: s) (simp_all add: nt_top_step)

text \<open>
  C32: whenever the ticker is scrolling, however the mouse and the timers brought it there, it pauses
  after at most \<open>h / 12 + 2\<close> ticks of its interval, at the beginning of a line; here \<open>h\<close> is what is left
  of the doubled list. This needs a box no higher than its text, so that the half of the list can be
  reached.
\<close>

theorem ticker_pauses:
  assumes "0 < ns_lh st" "ns_height st \<le> 2 * ns_max st" "s = nt_run st es (startmarquee st start)" "\<not> waiting s"
  shows "\<exists>n \<le> nat ((ns_height st - 2 * nt_top s) div 12) + 2.
    waiting (nt_ticks st now n s) \<and> nt_top (nt_ticks st now n s) mod ns_lh st = 0"
proof (rule nt_pauses [OF assms(1,2) _ assms(4)])
  show "nt_inv st s" unfolding assms(3) by (rule nt_inv_run [OF nt_inv_start])
  show "0 \<le> nt_top s" unfolding assms(3) by (rule nt_top_run) (simp add: startmarquee_def)
qed

theorem ticker_pauses_witness:
  "\<exists>n \<le> 16. waiting (nt_ticks \<lparr>ns_lh = 30, ns_speed = 30, ns_delay = 3000, ns_height = 180, ns_max = 150\<rparr> 0 n
    (nt_run \<lparr>ns_lh = 30, ns_speed = 30, ns_delay = 3000, ns_height = 180, ns_max = 150\<rparr> [Due 1 3000]
      (startmarquee \<lparr>ns_lh = 30, ns_speed = 30, ns_delay = 3000, ns_height = 180, ns_max = 150\<rparr> 0)))"
proof -
  let ?st = "\<lparr>ns_lh = 30, ns_speed = 30, ns_delay = 3000, ns_height = 180, ns_max = 150\<rparr>"
  define s where "s = nt_run ?st [Due 1 3000] (startmarquee ?st 0)"
  have e: "\<not> waiting s" "nt_top s = 6"
    by (simp_all add: s_def nt_run_def nt_step_def startmarquee_def set_timeout_def no_timers_def fire_def find_timer_def
        nt_start_def set_interval_def clear_timer_def waiting_def up6_def)
  from ticker_pauses [OF _ _ s_def e(1), of 0] e(2) show ?thesis by (auto simp: s_def)
qed

text \<open>
  A box higher than its text does not get that far: where the largest position is not at the
  beginning of a line the interval runs for ever and nothing moves.
\<close>

theorem ticker_stuck:
  assumes "0 < ns_lh st" "0 \<le> ns_max st" "2 * ns_max st < ns_height st" "ns_max st mod ns_lh st \<noteq> 0"
    "nt_inv st s" "\<not> waiting s" "nt_top s = ns_max st"
  shows "\<not> waiting (nt_ticks st now n s) \<and> nt_top (nt_ticks st now n s) = ns_max st"
  using assms(5-)
proof (induction n arbitrary: s)
  case (Suc n)
  let ?r = "nt_step st (Due (nt_var s) now) s"
  have "up6 st (nt_top s) = ns_max st" using Suc(4) assms(2) by (simp add: up6_def)
  then have "\<not> waiting ?r" "nt_top ?r = ns_max st"
    using rolling_tick [OF Suc(2,3) refl, of now] assms(1,3,4) Suc(4) by auto
  then show ?case using Suc(1) [OF nt_inv_step [OF Suc(2)]] by (simp add: ticks_Suc)
qed (simp add: nt_ticks_def)

end
