(* ===== verification/Password.thy ===== *)
theory Password
  imports Js_Prelude "HOL-Library.Word"
begin

text \<open>
  The strength of a password (\<open>plugin/passwordStrength/passwordStrength.js\<close>) as the forms of the
  administration use it: the kinds of characters are collected as bits of a 32-bit integer, their
  number is the score, and the score lights up to three marks.
\<close>

unbundle bit_operations_syntax

section \<open>The score\<close>

definition charMode :: "nat \<Rightarrow> 32 word" where
  "charMode c =
     (if 48 \<le> c \<and> c \<le> 57 then 1
      else if 65 \<le> c \<and> c \<le> 90 then 2
      else if 97 \<le> c \<and> c \<le> 122 then 4
      else 8)"

text \<open>The loop of \<open>bitTotal\<close>, \<open>k\<close> turns of it; \<open>>>>=\<close> shifts in zeros.\<close>

fun bit_loop :: "nat \<Rightarrow> 32 word \<Rightarrow> nat \<Rightarrow> nat" where
  "bit_loop 0 num modes = modes"
| "bit_loop (Suc k) num modes = bit_loop k (drop_bit 1 num) (if num AND 1 \<noteq> 0 then modes + 1 else modes)"

definition bitTotal :: "32 word \<Rightarrow> nat" where
  "bitTotal num = bit_loop 4 num 0"

definition checkStrong :: "jstr \<Rightarrow> nat" where
  "checkStrong content = bitTotal (fold (\<lambda>c modes. modes OR charMode c) content 0)"

text \<open>\<open>scores / 4 * 100\<close>, which is exact for the values that occur.\<close>

definition ratepasswd :: "nat \<Rightarrow> nat \<Rightarrow> jstr \<Rightarrow> int" where
  "ratepasswd minLen maxLen passwd =
     (if minLen \<le> length passwd \<and> length passwd \<le> maxLen then int (checkStrong passwd) * 25 else - 25)"

section \<open>The field\<close>

text \<open>
  Whether a password was ever long enough, the number of marks lit, the messages shown (3 an error,
  2 that all is well) and the calls of the trigger (whether there is an error).
\<close>

record pwfield =
  pw_checking :: bool
  pw_lit :: nat
  pw_msgs :: "nat list"
  pw_triggers :: "bool list"

definition pw_keyup :: "nat \<Rightarrow> nat \<Rightarrow> jstr \<Rightarrow> pwfield \<Rightarrow> pwfield" where
  "pw_keyup minLen maxLen val s =
     (let scores = ratepasswd minLen maxLen val;
          s = (if scores \<ge> 0 \<and> \<not> pw_checking s then s\<lparr>pw_checking := True\<rparr> else s);
          s = s\<lparr>pw_lit :=
                (if scores < 35 \<and> scores \<ge> 0 then 1
                 else if scores < 60 \<and> scores \<ge> 35 then 2
                 else if scores \<ge> 60 then 3
                 else 0)\<rparr>;
          s = (if pw_checking s \<and> (length val < minLen \<or> length val > maxLen) then s\<lparr>pw_msgs := pw_msgs s @ [3]\<rparr>
               else if pw_checking s then s\<lparr>pw_msgs := pw_msgs s @ [2]\<rparr>
               else s)
      in s\<lparr>pw_triggers := pw_triggers s @ [\<not> scores \<ge> 0]\<rparr>)"

definition pw0 :: pwfield where
  "pw0 = \<lparr>pw_checking = False, pw_lit = 0, pw_msgs = [], pw_triggers = []\<rparr>"

text \<open>
  The trigger of \<open>forminit.js\<close>: the message beside the field and the marks, shown or hidden. On an
  error the marks are looked for inside the field, where there are none.
\<close>

definition form_trigger :: "bool \<Rightarrow> bool \<times> bool \<Rightarrow> bool \<times> bool" where
  "form_trigger err s = (case s of (tip, marks) \<Rightarrow> if err then (True, marks) else (False, True))"

section \<open>What the score counts\<close>

datatype char_kind = Digit | Upper | Lower | OtherChar

definition char_kind :: "nat \<Rightarrow> char_kind" where
  "char_kind c =
     (if 48 \<le> c \<and> c \<le> 57 then Digit
      else if 65 \<le> c \<and> c \<le> 90 then Upper
      else if 97 \<le> c \<and> c \<le> 122 then Lower
      else OtherChar)"

fun kind_bit :: "char_kind \<Rightarrow> nat" where
  "kind_bit Digit = 0"
| "kind_bit Upper = 1"
| "kind_bit Lower = 2"
| "kind_bit OtherChar = 3"

lemma kind_bit_less: "kind_bit k < 4"
  by (cases k) simp_all

lemma kind_bit_inj: "inj_on kind_bit A"
proof (rule inj_onI)
  fix x y assume "kind_bit x = kind_bit y"
  then show "x = y" by (cases x; cases y) simp_all
qed

lemma charMode_bit: "bit (charMode c) n \<longleftrightarrow> n = kind_bit (char_kind c)"
proof -
  have "charMode c = push_bit (kind_bit (char_kind c)) 1" by (simp add: charMode_def char_kind_def)
  then show ?thesis using kind_bit_less [of "char_kind c"] by (auto simp: bit_exp_iff)
qed

lemma modes_bit:
  "bit (fold (\<lambda>c modes. modes OR charMode c) s m) n \<longleftrightarrow> bit m n \<or> n \<in> kind_bit ` char_kind ` set s"
  by (induction s arbitrary: m) (auto simp: bit_or_iff charMode_bit)

lemma bit_loop_card: "bit_loop k num modes = modes + card {i. i < k \<and> bit num i}"
proof (induction k arbitrary: num modes)
  case (Suc k)
  have odd: "num AND 1 \<noteq> 0 \<longleftrightarrow> bit num 0" by (simp add: bit_0 and_one_eq odd_iff_mod_2_eq_one)
  have "{i. i < Suc k \<and> bit num i} = (if bit num 0 then {0} else {}) \<union> Suc ` {i. i < k \<and> bit (drop_bit 1 num) i}"
    (is "?L = ?R")
  proof (rule set_eqI)
    show "i \<in> ?L \<longleftrightarrow> i \<in> ?R" for i by (cases i) (auto simp: bit_drop_bit_eq)
  qed
  moreover have "card ?R = (if bit num 0 then 1 else 0) + card {i. i < k \<and> bit (drop_bit 1 num) i}"
    by (subst card_Un_disjoint) (auto simp: card_image)
  ultimately show ?case using Suc.IH odd by simp
qed simp

lemma checkStrong_card: "checkStrong s = card (char_kind ` set s)"
proof -
  have "{i. i < 4 \<and> bit (fold (\<lambda>c modes. modes OR charMode c) s 0) i} = kind_bit ` char_kind ` set s"
    using kind_bit_less by (auto simp: modes_bit)
  then show ?thesis by (simp add: checkStrong_def bitTotal_def bit_loop_card card_image kind_bit_inj)
qed

lemma kinds_at_most_four: "card (A :: char_kind set) \<le> 4"
proof -
  have "A \<subseteq> {Digit, Upper, Lower, OtherChar}" using char_kind.exhaust by blast
  then have "card A \<le> card {Digit, Upper, Lower, OtherChar}" by (intro card_mono) auto
  then show ?thesis by simp
qed

text \<open>
  C30: the score computed with the bits of an integer is 25 for every kind of character (digits,
  capitals, small letters, others) that the password has; a password of a wrong length has the
  score -25. The marks lit are 1, 2 or 3 with at most one, exactly two, and more kinds, none for a wrong
  length, and the trigger reports an error exactly then.
\<close>

theorem password_score:
  "ratepasswd minLen maxLen s =
     (if minLen \<le> length s \<and> length s \<le> maxLen then 25 * int (card (char_kind ` set s)) else - 25) \<and>
   pw_lit (pw_keyup minLen maxLen s f) =
     (if minLen \<le> length s \<and> length s \<le> maxLen then max 1 (min 3 (card (char_kind ` set s))) else 0) \<and>
   last (pw_triggers (pw_keyup minLen maxLen s f)) = (\<not> (minLen \<le> length s \<and> length s \<le> maxLen))"
proof -
  have r: "ratepasswd minLen maxLen s =
     (if minLen \<le> length s \<and> length s \<le> maxLen then 25 * int (card (char_kind ` set s)) else - 25)"
    by (simp add: ratepasswd_def checkStrong_card)
  show ?thesis using kinds_at_most_four [of "char_kind ` set s"]
    by (auto simp: pw_keyup_def Let_def r max_def min_def)
qed

end
