(* ===== verification/Admin_Theme.thy ===== *)
theory Admin_Theme
  imports Js_Dom
begin

text \<open>
  The frame of the administration pages (\<open>plugin/hplus/js/hplus.js\<close>): the menu at the side, the panels
  that open, and the settings of the layout with their store (\<open>localStorage\<close>). A session is a list
  of clicks and other events, among them loading the page again; an abstract page with one layout and one
  flag says what the settings promise.
\<close>

section \<open>State\<close>

text \<open>Classes are flags; \<open>skin\<close> is the set of the numbers of the classes \<open>skin-1\<close> to \<open>skin-3\<close>.\<close>

record body_classes =
  bc_mini :: bool
  bc_fixed_nav :: bool
  bc_boxed :: bool
  bc_small :: bool
  bc_fixed_sidebar :: bool
  bc_skin :: "nat set"

text \<open>What is stored under a key: \<open>on\<close> is \<open>Some True\<close>, \<open>off\<close> is \<open>Some False\<close>.\<close>

record theme_store =
  st_fixednavbar :: "bool option"
  st_collapse :: "bool option"
  st_boxed :: "bool option"

record frame_page =
  fp_body :: body_classes
  fp_navbar_fixed :: bool
  fp_cb_fixed :: bool
  fp_cb_collapse :: bool
  fp_cb_boxed :: bool
  fp_store :: theme_store
  fp_menu_shown :: bool
  fp_fades :: nat
  fp_min_height :: "int option"
  fp_right_open :: bool
  fp_right_top :: bool
  fp_chat_open :: bool
  fp_failed :: bool

text \<open>
  \<open>localStorageSupport\<close> is tested without being called, so the store is used even where there is none;
  then the access throws. It is the last thing every handler does.
\<close>

definition set_item :: "bool \<Rightarrow> (theme_store \<Rightarrow> theme_store) \<Rightarrow> frame_page \<Rightarrow> frame_page" where
  "set_item av f s = (if av then s\<lparr>fp_store := f (fp_store s)\<rparr> else s\<lparr>fp_failed := True\<rparr>)"

definition SmoothlyMenu :: "frame_page \<Rightarrow> frame_page" where
  "SmoothlyMenu s =
     (if \<not> bc_mini (fp_body s) \<or> bc_fixed_sidebar (fp_body s) then s\<lparr>fp_menu_shown := False, fp_fades := fp_fades s + 1\<rparr>
      else s\<lparr>fp_menu_shown := True\<rparr>)"

definition set_mini :: "bool \<Rightarrow> frame_page \<Rightarrow> frame_page" where
  "set_mini b s = s\<lparr>fp_body := (fp_body s)\<lparr>bc_mini := b\<rparr>\<rparr>"

definition minimalize :: "frame_page \<Rightarrow> frame_page" where
  "minimalize s = SmoothlyMenu (set_mini (\<not> bc_mini (fp_body s)) s)"

definition fix_height :: "int \<Rightarrow> frame_page \<Rightarrow> frame_page" where
  "fix_height h s = s\<lparr>fp_min_height := Some (h - 61)\<rparr>"

section \<open>The settings\<close>

text \<open>The click handlers; the browser has changed the box before they run.\<close>

definition click_fixednavbar :: "bool \<Rightarrow> frame_page \<Rightarrow> frame_page" where
  "click_fixednavbar av s =
     (let s = s\<lparr>fp_cb_fixed := \<not> fp_cb_fixed s\<rparr>
      in if fp_cb_fixed s then
           set_item av (\<lambda>m. m\<lparr>st_boxed := Some False, st_fixednavbar := Some True\<rparr>)
             (s\<lparr>fp_navbar_fixed := True, fp_body := (fp_body s)\<lparr>bc_boxed := False, bc_fixed_nav := True\<rparr>,
                fp_cb_boxed := False\<rparr>)
         else
           set_item av (\<lambda>m. m\<lparr>st_fixednavbar := Some False\<rparr>)
             (s\<lparr>fp_navbar_fixed := False, fp_body := (fp_body s)\<lparr>bc_fixed_nav := False\<rparr>\<rparr>))"

definition click_collapsemenu :: "bool \<Rightarrow> frame_page \<Rightarrow> frame_page" where
  "click_collapsemenu av s =
     (let s = s\<lparr>fp_cb_collapse := \<not> fp_cb_collapse s\<rparr>; b = fp_cb_collapse s
      in set_item av (\<lambda>m. m\<lparr>st_collapse := Some b\<rparr>) (SmoothlyMenu (set_mini b s)))"

definition click_boxedlayout :: "bool \<Rightarrow> frame_page \<Rightarrow> frame_page" where
  "click_boxedlayout av s =
     (let s = s\<lparr>fp_cb_boxed := \<not> fp_cb_boxed s\<rparr>
      in if fp_cb_boxed s then
           set_item av (\<lambda>m. m\<lparr>st_fixednavbar := Some False, st_boxed := Some True\<rparr>)
             (s\<lparr>fp_body := (fp_body s)\<lparr>bc_boxed := True, bc_fixed_nav := False\<rparr>, fp_cb_fixed := False,
                fp_navbar_fixed := False\<rparr>)
         else
           set_item av (\<lambda>m. m\<lparr>st_boxed := Some False\<rparr>) (s\<lparr>fp_body := (fp_body s)\<lparr>bc_boxed := False\<rparr>\<rparr>))"

definition click_skin :: "nat \<Rightarrow> frame_page \<Rightarrow> frame_page" where
  "click_skin k s =
     s\<lparr>fp_body := (fp_body s)\<lparr>bc_skin :=
         (if k = 0 then bc_skin (fp_body s) - {1, 2, 3}
          else if k = 1 then insert 1 (bc_skin (fp_body s) - {2, 3})
          else insert 3 (bc_skin (fp_body s) - {1, 2}))\<rparr>\<rparr>"

section \<open>Loading\<close>

text \<open>
  The page as its markup gives it, then the two blocks that read the store, and the check of the
  width when it has loaded.
\<close>

definition markup :: "body_classes \<Rightarrow> theme_store \<Rightarrow> frame_page" where
  "markup b m =
     \<lparr>fp_body = b, fp_navbar_fixed = False, fp_cb_fixed = False, fp_cb_collapse = False, fp_cb_boxed = False,
      fp_store = m, fp_menu_shown = True, fp_fades = 0, fp_min_height = None, fp_right_open = False,
      fp_right_top = False, fp_chat_open = False, fp_failed = False\<rparr>"

definition restore :: "bool \<Rightarrow> frame_page \<Rightarrow> frame_page" where
  "restore av s =
     (if \<not> av then s\<lparr>fp_failed := True\<rparr>
      else
        (let collapse = (st_collapse (fp_store s) = Some True);
             fixednavbar = (st_fixednavbar (fp_store s) = Some True);
             boxedlayout = (st_boxed (fp_store s) = Some True);
             s = (if collapse then s\<lparr>fp_cb_collapse := True\<rparr> else s);
             s = (if fixednavbar then s\<lparr>fp_cb_fixed := True\<rparr> else s);
             s = (if boxedlayout then s\<lparr>fp_cb_boxed := True\<rparr> else s);
             s = (if collapse \<and> \<not> bc_small (fp_body s) then set_mini True s else s);
             s = (if fixednavbar then
                    s\<lparr>fp_navbar_fixed := True, fp_body := (fp_body s)\<lparr>bc_fixed_nav := True\<rparr>\<rparr>
                  else s)
         in if boxedlayout then s\<lparr>fp_body := (fp_body s)\<lparr>bc_boxed := True\<rparr>\<rparr> else s))"

definition narrow_window :: "int \<Rightarrow> frame_page \<Rightarrow> frame_page" where
  "narrow_window width s = (if width < 769 then set_mini True s else s)"

definition page_load :: "bool \<Rightarrow> body_classes \<Rightarrow> int \<Rightarrow> int \<Rightarrow> theme_store \<Rightarrow> frame_page" where
  "page_load av b height width m =
     (let s = narrow_window width (restore av (fix_height height (markup b m)))
      in if bc_small (fp_body s) then s else fix_height height s)"

section \<open>Events\<close>

datatype frame_event =
    Minimalize
  | MenuItemClick
  | MenuLink int
  | FixedNavbar
  | CollapseMenu
  | BoxedLayout
  | SkinLink nat
  | MenuFade
  | RightSidebar
  | SmallChat
  | WindowScroll int int
  | WindowResize int int
  | Reload int int

definition frame_step :: "bool \<Rightarrow> body_classes \<Rightarrow> frame_event \<Rightarrow> frame_page \<Rightarrow> frame_page" where
  "frame_step av b e s =
     (case e of
        Minimalize \<Rightarrow> minimalize s
      | MenuItemClick \<Rightarrow> if bc_mini (fp_body s) then minimalize s else s
      | MenuLink width \<Rightarrow> if width < 769 then minimalize s else s
      | FixedNavbar \<Rightarrow> click_fixednavbar av s
      | CollapseMenu \<Rightarrow> click_collapsemenu av s
      | BoxedLayout \<Rightarrow> click_boxedlayout av s
      | SkinLink k \<Rightarrow> click_skin k s
      | MenuFade \<Rightarrow> if fp_fades s = 0 then s else s\<lparr>fp_fades := fp_fades s - 1, fp_menu_shown := True\<rparr>
      | RightSidebar \<Rightarrow> s\<lparr>fp_right_open := \<not> fp_right_open s\<rparr>
      | SmallChat \<Rightarrow> s\<lparr>fp_chat_open := \<not> fp_chat_open s\<rparr>
      | WindowScroll y height \<Rightarrow>
          (let s = (if bc_small (fp_body s) then s else fix_height height s)
           in s\<lparr>fp_right_top := (y > 0 \<and> \<not> bc_fixed_nav (fp_body s))\<rparr>)
      | WindowResize width height \<Rightarrow>
          (let s = (if bc_small (fp_body s) then s else fix_height height s) in narrow_window width s)
      | Reload width height \<Rightarrow> page_load av b height width (fp_store s))"

definition no_store :: theme_store where
  "no_store = \<lparr>st_fixednavbar = None, st_collapse = None, st_boxed = None\<rparr>"

definition frame_run :: "bool \<Rightarrow> body_classes \<Rightarrow> int \<Rightarrow> int \<Rightarrow> frame_event list \<Rightarrow> frame_page" where
  "frame_run av b height width es = fold (frame_step av b) es (page_load av b height width no_store)"

section \<open>What the settings promise\<close>

text \<open>One layout out of three, and whether the menu is to be collapsed.\<close>

datatype page_layout = Plain | FixedTop | Boxed

fun spec_frame :: "frame_event \<Rightarrow> page_layout \<times> bool \<Rightarrow> page_layout \<times> bool" where
  "spec_frame FixedNavbar (l, c) = (if l = FixedTop then Plain else FixedTop, c)"
| "spec_frame BoxedLayout (l, c) = (if l = Boxed then Plain else Boxed, c)"
| "spec_frame CollapseMenu (l, c) = (l, \<not> c)"
| "spec_frame _ (l, c) = (l, c)"

definition shows_layout :: "page_layout \<times> bool \<Rightarrow> frame_page \<Rightarrow> bool" where
  "shows_layout x s \<longleftrightarrow>
     (bc_fixed_nav (fp_body s) \<longleftrightarrow> fst x = FixedTop) \<and> (fp_navbar_fixed s \<longleftrightarrow> fst x = FixedTop) \<and>
     (fp_cb_fixed s \<longleftrightarrow> fst x = FixedTop) \<and> (bc_boxed (fp_body s) \<longleftrightarrow> fst x = Boxed) \<and>
     (fp_cb_boxed s \<longleftrightarrow> fst x = Boxed) \<and> (fp_cb_collapse s \<longleftrightarrow> snd x)"

definition stores_layout :: "page_layout \<times> bool \<Rightarrow> theme_store \<Rightarrow> bool" where
  "stores_layout x m \<longleftrightarrow>
     (st_fixednavbar m = Some True \<longleftrightarrow> fst x = FixedTop) \<and> (st_boxed m = Some True \<longleftrightarrow> fst x = Boxed) \<and>
     (st_collapse m = Some True \<longleftrightarrow> snd x)"

lemmas frame_defs = shows_layout_def stores_layout_def Let_def SmoothlyMenu_def set_mini_def minimalize_def
  fix_height_def set_item_def narrow_window_def

lemma load_shows:
  assumes "stores_layout x m" "\<not> bc_fixed_nav b" "\<not> bc_boxed b"
  shows "shows_layout x (page_load True b h w m) \<and> fp_store (page_load True b h w m) = m"
  using assms by (simp add: page_load_def restore_def markup_def frame_defs)

lemma step_shows:
  assumes "shows_layout x s" "stores_layout x (fp_store s)" "\<not> bc_fixed_nav b" "\<not> bc_boxed b"
  shows "shows_layout (spec_frame e x) (frame_step True b e s) \<and>
    stores_layout (spec_frame e x) (fp_store (frame_step True b e s))"
proof (cases e)
  case (Reload w h)
  then show ?thesis using load_shows [OF assms(2-4)] assms(2) by (cases x) (simp add: frame_step_def)
next
  case FixedNavbar
  then show ?thesis using assms by (cases x; cases "fst x") (auto simp: frame_step_def click_fixednavbar_def frame_defs)
next
  case BoxedLayout
  then show ?thesis using assms by (cases x; cases "fst x") (auto simp: frame_step_def click_boxedlayout_def frame_defs)
next
  case CollapseMenu
  then show ?thesis using assms by (cases x) (auto simp: frame_step_def click_collapsemenu_def frame_defs)
qed (use assms in \<open>cases x; auto simp: frame_step_def click_skin_def frame_defs\<close>)+

text \<open>
  C29: where there is a store, the settings do what they promise: after any sequence of clicks, window
  events and loads of the page, its classes and boxes show the one layout and the flag chosen last,
  and the store holds the same.
\<close>

theorem theme_refines:
  assumes "\<not> bc_fixed_nav b" "\<not> bc_boxed b"
  shows "shows_layout (fold spec_frame es (Plain, False)) (frame_run True b height width es) \<and>
    stores_layout (fold spec_frame es (Plain, False)) (fp_store (frame_run True b height width es))"
proof (induction es rule: rev_induct)
  case Nil
  have "stores_layout (Plain, False) no_store" by (simp add: stores_layout_def no_store_def)
  then show ?case using load_shows [OF _ assms] by (simp add: frame_run_def)
next
  case (snoc e es)
  then show ?case using step_shows [OF _ _ assms] by (simp add: frame_run_def)
qed

definition bare_body :: body_classes where
  "bare_body = \<lparr>bc_mini = False, bc_fixed_nav = False, bc_boxed = False, bc_small = False, bc_fixed_sidebar = True, bc_skin = {}\<rparr>"

theorem theme_refines_witness:
  "bc_boxed (fp_body (frame_run True bare_body 800 1280 [FixedNavbar, BoxedLayout, Reload 1280 800])) \<and>
   \<not> bc_fixed_nav (fp_body (frame_run True bare_body 800 1280 [FixedNavbar, BoxedLayout, Reload 1280 800]))"
  using theme_refines [of bare_body "[FixedNavbar, BoxedLayout, Reload 1280 800]" 800 1280]
  by (simp add: bare_body_def shows_layout_def)

definition menu_safe :: "frame_page \<Rightarrow> bool" where
  "menu_safe s \<longleftrightarrow> fp_menu_shown s \<or> 0 < fp_fades s"

lemma menu_safe_smooth: "menu_safe (SmoothlyMenu s)"
  by (simp add: menu_safe_def SmoothlyMenu_def)

lemma menu_safe_keep [simp]:
  "menu_safe (set_mini c s) = menu_safe s" "menu_safe (fix_height h s) = menu_safe s"
  "menu_safe (set_item av f s) = menu_safe s" "menu_safe (narrow_window w s) = menu_safe s"
  "menu_safe (restore av s) = menu_safe s"
  by (simp_all add: menu_safe_def set_mini_def fix_height_def set_item_def narrow_window_def restore_def Let_def)

lemma menu_safe_load: "menu_safe (page_load av b h w m)"
proof -
  have "menu_safe (markup b m)" by (simp add: menu_safe_def markup_def)
  then show ?thesis by (simp add: page_load_def Let_def)
qed

lemma menu_safe_click:
  "menu_safe s \<Longrightarrow> menu_safe (click_fixednavbar av s)" "menu_safe s \<Longrightarrow> menu_safe (click_boxedlayout av s)"
  "menu_safe s \<Longrightarrow> menu_safe (click_skin k s)" "menu_safe (click_collapsemenu av s)"
  by (simp_all add: click_fixednavbar_def click_boxedlayout_def click_skin_def click_collapsemenu_def menu_safe_smooth Let_def)
    (simp_all add: menu_safe_def)

lemma menu_safe_step: "menu_safe s \<Longrightarrow> menu_safe (frame_step av b e s)"
  by (cases e) (auto simp: frame_step_def minimalize_def menu_safe_smooth menu_safe_load menu_safe_click Let_def,
    auto simp: menu_safe_def fix_height_def)

text \<open>
  The menu at the side is never lost: it is shown, or a timer will show it again, with or without a
  store.
\<close>

theorem menu_comes_back:
  "fp_menu_shown (frame_run av b height width es) \<or> 0 < fp_fades (frame_run av b height width es)"
proof -
  have "menu_safe (frame_run av b height width es)"
    by (induction es rule: rev_induct) (simp_all add: frame_run_def menu_safe_load menu_safe_step)
  then show ?thesis by (simp add: menu_safe_def)
qed

text \<open>
  Without a store loading the page ends in an exception that the test was to avoid, and nothing of the
  settings comes back.
\<close>

theorem theme_without_store:
  "fp_failed (page_load False b height width m)"
  by (simp add: page_load_def restore_def markup_def frame_defs)

end
