(* ===== verification/Photo_Strip.thy ===== *)
theory Photo_Strip
  imports Js_Dom
begin

text \<open>
  The strip of the page head (\<open>static/plug-in/js/scrollNav.js\<close>): a list moved item by item by two arrows
  (\<open>scrollNav\<close>), the menu of which one entry is open (\<open>menuTree\<close>), and the grey text of an empty field
  (\<open>iclear\<close>). Widths are whole numbers of pixels.
\<close>

section \<open>The strip\<close>

text \<open>
  The number of items, the width of one, how many are taken to be visible, the margin of the list,
  the animation that runs (where it goes, and whether the right arrow started it), and the arrows.
\<close>

record strip =
  sp_n :: nat
  sp_width :: int
  sp_visible :: int
  sp_margin :: int
  sp_anim :: "(int \<times> bool) option"
  sp_left :: bool
  sp_right :: bool

text \<open>\<open>fnAutoWth\<close>; the margin between the items is 0 since its computation is commented out.\<close>

definition fnAutoWth :: "int \<Rightarrow> strip \<Rightarrow> strip" where
  "fnAutoWth wrp s =
     (let v = wrp div sp_width s;
          s = s\<lparr>sp_margin := 0, sp_left := False, sp_right := True, sp_visible := v\<rparr>
      in if v \<ge> int (sp_n s) then s\<lparr>sp_visible := int (sp_n s), sp_right := False\<rparr> else s)"

definition strip0 :: "nat \<Rightarrow> int \<Rightarrow> int \<Rightarrow> strip" where
  "strip0 n w wrp =
     fnAutoWth wrp \<lparr>sp_n = n, sp_width = w, sp_visible = 1, sp_margin = 0, sp_anim = None, sp_left = True, sp_right = True\<rparr>"

text \<open>\<open>fnPlstArr\<close>: a click on an arrow that is shown; nothing starts while the list is animated.\<close>

definition fnPlstArr :: "bool \<Rightarrow> strip \<Rightarrow> strip" where
  "fnPlstArr right s =
     (if sp_anim s \<noteq> None then s
      else s\<lparr>sp_anim := Some (if right then sp_margin s - sp_width s else sp_margin s + sp_width s, right)\<rparr>)"

text \<open>The end of the animation, with the callback that looks after the arrows.\<close>

definition strip_done :: "strip \<Rightarrow> strip" where
  "strip_done s =
     (case sp_anim s of
        None \<Rightarrow> s
      | Some (goal, right) \<Rightarrow>
          (let s = s\<lparr>sp_margin := goal, sp_anim := None\<rparr>
           in if right then
                (let roWth = (int (sp_n s) - sp_visible s) * sp_width s;
                     s = (if sp_margin s + roWth = 0 then s\<lparr>sp_right := False\<rparr> else s)
                 in s\<lparr>sp_left := True\<rparr>)
              else
                (let s = (if sp_margin s = 0 then s\<lparr>sp_left := False\<rparr> else s) in s\<lparr>sp_right := True\<rparr>)))"

datatype strip_event = RightArrow | LeftArrow | AnimDone | StripResize int

definition strip_step :: "strip_event \<Rightarrow> strip \<Rightarrow> strip" where
  "strip_step e s =
     (case e of
        RightArrow \<Rightarrow> if sp_right s then fnPlstArr True s else s
      | LeftArrow \<Rightarrow> if sp_left s then fnPlstArr False s else s
      | AnimDone \<Rightarrow> strip_done s
      | StripResize w \<Rightarrow> fnAutoWth w s)"

text \<open>A run in which the window is not resized while the list moves.\<close>

fun calm :: "strip_event list \<Rightarrow> strip \<Rightarrow> bool" where
  "calm [] s = True"
| "calm (e # es) s = ((case e of StripResize w \<Rightarrow> sp_anim s = None | _ \<Rightarrow> True) \<and> calm es (strip_step e s))"

definition strip_run :: "strip_event list \<Rightarrow> strip \<Rightarrow> strip" where
  "strip_run es s = fold strip_step es s"

text \<open>
  The list stands \<open>k\<close> items on, at most so many that the last one is visible; the arrows are shown
  exactly where there is something to go to. An animation goes one item within that range.
\<close>

definition hidden_items :: "strip \<Rightarrow> int" where
  "hidden_items s = int (sp_n s) - sp_visible s"

definition strip_inv :: "strip \<Rightarrow> bool" where
  "strip_inv s \<longleftrightarrow> 0 < sp_width s \<and> 0 \<le> hidden_items s \<and>
     (\<exists>k. 0 \<le> k \<and> k \<le> hidden_items s \<and> sp_margin s = - k * sp_width s \<and>
       (sp_left s \<longleftrightarrow> 0 < k) \<and> (sp_right s \<longleftrightarrow> k < hidden_items s) \<and>
       (case sp_anim s of
          None \<Rightarrow> True
        | Some (goal, right) \<Rightarrow>
            goal = sp_margin s + (if right then - sp_width s else sp_width s) \<and>
            (if right then k < hidden_items s else 0 < k)))"

lemma auto_inv:
  assumes "0 < sp_width s" "sp_anim s = None"
  shows "strip_inv (fnAutoWth w s)"
  using assms by (auto simp: strip_inv_def fnAutoWth_def hidden_items_def Let_def)

lemma strip_inv_done:
  assumes "strip_inv s"
  shows "strip_inv (strip_done s)"
proof (cases "sp_anim s")
  case None
  then show ?thesis using assms by (simp add: strip_done_def)
next
  case (Some a)
  obtain goal right where a: "sp_anim s = Some (goal, right)" using Some by (cases a) auto
  obtain k where k: "0 < sp_width s" "0 \<le> k" "k \<le> hidden_items s" "sp_margin s = - k * sp_width s"
      "sp_left s \<longleftrightarrow> 0 < k" "sp_right s \<longleftrightarrow> k < hidden_items s"
      "goal = sp_margin s + (if right then - sp_width s else sp_width s)" "if right then k < hidden_items s else 0 < k"
    using assms a by (auto simp: strip_inv_def)
  define j where "j = (if right then k + 1 else k - 1)"
  have g: "goal = - j * sp_width s" using k(4,7) by (auto simp: j_def algebra_simps)
  have "goal + hidden_items s * sp_width s = (hidden_items s - j) * sp_width s" by (simp add: g algebra_simps)
  then have e: "goal + hidden_items s * sp_width s = 0 \<longleftrightarrow> j = hidden_items s" "goal = 0 \<longleftrightarrow> j = 0"
    using k(1) g by auto
  have j: "0 \<le> j" "j \<le> hidden_items s" "right \<Longrightarrow> 0 < j" "\<not> right \<Longrightarrow> j < hidden_items s"
    using k(2,3,8) by (auto simp: j_def split: if_splits)
  have r: "strip_done s = s\<lparr>sp_margin := goal, sp_anim := None,
      sp_left := (if right then True else sp_left s \<and> j \<noteq> 0), sp_right := (if right then sp_right s \<and> j \<noteq> hidden_items s else True)\<rparr>"
    using a e by (auto simp: strip_done_def hidden_items_def Let_def)
  have s: "right \<Longrightarrow> sp_right s" "\<not> right \<Longrightarrow> sp_left s" using k(5,6,8) by auto
  show ?thesis
    unfolding strip_inv_def r using k(1) j s g by (intro conjI exI [of _ j]) (auto simp: hidden_items_def)
qed

lemma strip_inv_arrow:
  assumes "strip_inv s" "if right then sp_right s else sp_left s"
  shows "strip_inv (fnPlstArr right s)"
  using assms by (auto simp: strip_inv_def fnPlstArr_def hidden_items_def)

lemma strip_inv_step:
  assumes "strip_inv s" "case e of StripResize w \<Rightarrow> sp_anim s = None | _ \<Rightarrow> True"
  shows "strip_inv (strip_step e s)"
proof (cases e)
  case (StripResize w)
  then show ?thesis using assms auto_inv by (simp add: strip_step_def strip_inv_def)
qed (use assms strip_inv_arrow [of s True] strip_inv_arrow [of s False] strip_inv_done in \<open>auto simp: strip_step_def\<close>)

lemma strip_inv_run: "strip_inv s \<Longrightarrow> calm es s \<Longrightarrow> strip_inv (strip_run es s)"
  unfolding strip_run_def by (induction es arbitrary: s) (simp_all add: strip_inv_step)

text \<open>
  As long as the window is not resized while the list moves, the strip never leaves its items: it
  stands a whole number of items on, at most so far that the last one is visible, and the left and
  the right arrow are shown exactly when there is an item to go to on their side.
\<close>

theorem strip_in_range:
  assumes "0 < w" "calm es (strip0 n w wrp)" "s = strip_run es (strip0 n w wrp)"
  shows "\<exists>k. 0 \<le> k \<and> k \<le> int n - sp_visible s \<and> sp_margin s = - k * w \<and>
    (sp_left s \<longleftrightarrow> 0 < k) \<and> (sp_right s \<longleftrightarrow> k < int n - sp_visible s)"
proof -
  have c: "sp_n (strip_run es r) = sp_n r \<and> sp_width (strip_run es r) = sp_width r" for r
    unfolding strip_run_def
    by (induction es arbitrary: r)
      (auto simp: strip_step_def fnPlstArr_def strip_done_def fnAutoWth_def Let_def split: strip_event.split option.split)
  have i: "strip_inv (strip0 n w wrp)" unfolding strip0_def using assms(1) by (intro auto_inv) simp_all
  have n: "sp_n (strip0 n w wrp) = n" "sp_width (strip0 n w wrp) = w" by (simp_all add: strip0_def fnAutoWth_def Let_def)
  show ?thesis using strip_inv_run [OF i assms(2)] c [of "strip0 n w wrp"] n
    unfolding assms(3) strip_inv_def hidden_items_def by auto
qed

theorem strip_in_range_witness:
  "sp_margin (strip_run [RightArrow, AnimDone] (strip0 3 100 150)) \<le> 0"
proof -
  have c: "calm [RightArrow, AnimDone] (strip0 3 100 150)" by simp
  obtain k where "0 \<le> k" "sp_margin (strip_run [RightArrow, AnimDone] (strip0 3 100 150)) = - k * 100"
    using strip_in_range [OF _ c refl] by auto
  then show ?thesis by simp
qed

text \<open>\<open>k\<close> further clicks on the right arrow, each with its animation.\<close>

definition go_right :: "nat \<Rightarrow> strip \<Rightarrow> strip" where
  "go_right k s = ((\<lambda>s. strip_run [RightArrow, AnimDone] s) ^^ k) s"

lemma go_right_on:
  assumes "sp_anim s = None" "sp_right s" "0 < sp_width s" "sp_margin s < - hidden_items s * sp_width s"
  shows "sp_anim (go_right k s) = None \<and> sp_right (go_right k s) \<and> sp_n (go_right k s) = sp_n s \<and>
    sp_visible (go_right k s) = sp_visible s \<and> sp_width (go_right k s) = sp_width s \<and>
    sp_margin (go_right k s) = sp_margin s - int k * sp_width s"
proof (induction k)
  case (Suc k)
  define r where "r = go_right k s"
  have r: "sp_anim r = None" "sp_right r" "sp_n r = sp_n s" "sp_visible r = sp_visible s" "sp_width r = sp_width s"
    "sp_margin r = sp_margin s - int k * sp_width s"
    using Suc by (simp_all add: r_def)
  have "0 \<le> int k * sp_width s" using assms(3) by simp
  then have "sp_margin r - sp_width r + (int (sp_n r) - sp_visible r) * sp_width r \<noteq> 0"
    using assms(3,4) unfolding r hidden_items_def by linarith
  then have "strip_run [RightArrow, AnimDone] r = r\<lparr>sp_margin := sp_margin r - sp_width r, sp_left := True\<rparr>"
    using r by (simp add: strip_run_def strip_step_def fnPlstArr_def strip_done_def Let_def)
  moreover have "go_right (Suc k) s = strip_run [RightArrow, AnimDone] r" by (simp add: go_right_def r_def)
  ultimately have "go_right (Suc k) s = r\<lparr>sp_margin := sp_margin r - sp_width r, sp_left := True\<rparr>" by simp
  then show ?case using r by (simp add: algebra_simps)
qed (use assms in \<open>simp add: go_right_def\<close>)

text \<open>
  Resized while it moves, the strip can leave its items for good: the animation goes on to its
  goal in spite of the new width, the test for the end is an equation that no further step can
  meet, and the right arrow stays: every click takes the list another item away.
\<close>

theorem strip_runs_away:
  "sp_margin (go_right k (strip_run [RightArrow, AnimDone, RightArrow, StripResize 200, AnimDone] (strip0 3 100 100)))
     = - 200 - int k * 100 \<and>
   sp_right (go_right k (strip_run [RightArrow, AnimDone, RightArrow, StripResize 200, AnimDone] (strip0 3 100 100)))"
proof -
  define s where "s = strip_run [RightArrow, AnimDone, RightArrow, StripResize 200, AnimDone] (strip0 3 100 100)"
  have "s = \<lparr>sp_n = 3, sp_width = 100, sp_visible = 2, sp_margin = - 200, sp_anim = None, sp_left = True, sp_right = True\<rparr>"
    by (simp add: s_def strip_run_def strip0_def strip_step_def fnAutoWth_def fnPlstArr_def strip_done_def Let_def)
  then show ?thesis using go_right_on [of s k] by (simp add: s_def [symmetric] hidden_items_def)
qed

section \<open>The menu\<close>

text \<open>An entry: its class and whether its list is shown. The list has an effect of sliding only.\<close>

record menu_entry =
  me_class :: jstr
  me_shown :: bool

definition menuTree_click :: "nat \<Rightarrow> menu_entry list \<Rightarrow> menu_entry list" where
  "menuTree_click k es =
     (if me_class (es ! k) = (js ''open'') then
        es[k := (es ! k)\<lparr>me_shown := False, me_class := js ''close''\<rparr>]
      else
        map (\<lambda>(i, e). if i = k then e\<lparr>me_shown := True, me_class := js ''open''\<rparr>
                      else if me_class e = (js ''open'') then e\<lparr>me_class := js ''close'', me_shown := False\<rparr> else e)
          (enumerate 0 es))"

text \<open>At most one entry is open, whatever is clicked.\<close>

lemma menu_one_open:
  assumes "k < length es" "\<forall>i j. i < length es \<and> j < length es \<and> me_class (es ! i) = js ''open'' \<and> me_class (es ! j) = js ''open'' \<longrightarrow> i = j"
    "i < length es" "j < length es" "me_class (menuTree_click k es ! i) = js ''open''"
    "me_class (menuTree_click k es ! j) = js ''open''"
  shows "i = j"
proof (cases "me_class (es ! k) = js ''open''")
  case True
  have "js ''close'' \<noteq> js ''open''" by (simp add: js_def)
  then show ?thesis using assms True
    by (auto simp: menuTree_click_def nth_list_update split: if_splits)
next
  case False
  have "js ''close'' \<noteq> js ''open''" by (simp add: js_def)
  then show ?thesis using assms(1,3-) False
    by (auto simp: menuTree_click_def nth_enumerate_eq split: if_splits)
qed

section \<open>The grey text\<close>

text \<open>The text of a field and whether it is grey; the text of the settings may be missing.\<close>

record cleared =
  cl_val :: jstr
  cl_grey :: bool

definition iclear_start :: "jstr option \<Rightarrow> jstr \<Rightarrow> cleared" where
  "iclear_start curval v = \<lparr>cl_val = (case curval of None \<Rightarrow> v | Some t \<Rightarrow> t), cl_grey = True\<rparr>"

text \<open>
  \<open>this.defaultvalue\<close> does not exist (the property is \<open>defaultValue\<close>): it equals no text, and setting
  it empties the field.
\<close>

definition given :: "jstr option \<Rightarrow> jstr option" where
  "given curval = (case curval of None \<Rightarrow> None | Some t \<Rightarrow> if t = [] then None else Some t)"

definition iclear_focus :: "jstr option \<Rightarrow> cleared \<Rightarrow> cleared" where
  "iclear_focus curval s =
     (let s = s\<lparr>cl_grey := False\<rparr> in if given curval = Some (cl_val s) then s\<lparr>cl_val := []\<rparr> else s)"

definition iclear_blur :: "jstr option \<Rightarrow> cleared \<Rightarrow> cleared" where
  "iclear_blur curval s =
     (if cl_val s = [] then
        s\<lparr>cl_val := (case given curval of None \<Rightarrow> [] | Some t \<Rightarrow> t), cl_grey := True\<rparr>
      else s)"

text \<open>\<open>e.keycode\<close> does not exist either, so the key never presses the button.\<close>

definition iclear_keydown :: "int \<Rightarrow> bool" where
  "iclear_keydown key = False"

lemma iclear_round_trip:
  "t \<noteq> [] \<Longrightarrow> iclear_blur (Some t) (iclear_focus (Some t) (iclear_start (Some t) v)) = iclear_start (Some t) v"
  by (simp add: iclear_start_def iclear_focus_def iclear_blur_def given_def Let_def)

lemma iclear_default_kept_as_text:
  "cl_val (iclear_focus None (iclear_start None v)) = v \<and>
   cl_val (iclear_blur None (iclear_start None [])) = []"
  by (simp add: iclear_start_def iclear_focus_def iclear_blur_def given_def Let_def)

end
