(* ===== verification/Tree_Table.thy ===== *)
theory Tree_Table
  imports Pop_Tabs
begin

text \<open>
  The tree table of the administration pages (\<open>treetable/jquery.treeTable.js\<close>, the same file in the
  WeChat module): rows that name their parents are shown as a tree, with icons that open and shut the
  rows below. Ids are texts; a row without a parent has the parent 0. The recursions over the rows
  end only where the parents lead to the top, so they are partial functions.
\<close>

section \<open>Relations\<close>

text \<open>The ids of the rows with their parents, in the order in which \<open>initRelation\<close> met them.\<close>

type_synonym rel = "(jstr \<times> jstr) list"

definition ids :: "rel \<Rightarrow> jstr set" where
  "ids r = set (map fst r)"

lemma finite_ids: "finite (ids r)"
  unfolding ids_def by simp

lemma ids_iff: "i \<in> ids r \<longleftrightarrow> (\<exists>p. (i, p) \<in> set r)"
  by (force simp: ids_def)

lemma ids_fst [simp]: "fst ` set r = ids r"
  unfolding ids_def by simp

lemma ids_pair: "(i, p) \<in> set r \<Longrightarrow> i \<in> ids r"
  by (auto simp: ids_iff)

definition pid_of :: "jstr option \<Rightarrow> jstr" where
  "pid_of a = (case a of None \<Rightarrow> js ''0'' | Some t \<Rightarrow> if t = [] then js ''0'' else t)"

text \<open>\<open>pMap[p]\<close>, empty where there is no entry, and \<open>cMap[i]\<close>.\<close>

definition kids :: "rel \<Rightarrow> jstr \<Rightarrow> jstr list" where
  "kids r p = map fst (filter (\<lambda>x. snd x = p) r)"

definition cMap :: "rel \<Rightarrow> jstr \<Rightarrow> jstr option" where
  "cMap r i = map_of (rev r) i"

text \<open>\<open>== 0\<close> of a parent.\<close>

definition root_pid :: "jstr \<Rightarrow> bool" where
  "root_pid p \<longleftrightarrow> to_num (ITxt p) = Some 0"

text \<open>\<open>getDepth\<close>; a parent that is not there is looked up as \<open>undefined\<close>.\<close>

partial_function (option) getDepth :: "rel \<Rightarrow> jstr \<Rightarrow> nat option" where
  "getDepth r i =
     (case cMap r i of
        None \<Rightarrow> getDepth r (js ''undefined'')
      | Some p \<Rightarrow> if root_pid p then Some 1 else Option.bind (getDepth r p) (\<lambda>d. Some (d + 1)))"

definition isLastOne :: "rel \<Rightarrow> jstr \<Rightarrow> bool" where
  "isLastOne r i \<longleftrightarrow> (case cMap r i of None \<Rightarrow> False | Some p \<Rightarrow> kids r p \<noteq> [] \<and> last (kids r p) = i)"

definition isFirstOne :: "rel \<Rightarrow> jstr \<Rightarrow> bool" where
  "isFirstOne r i \<longleftrightarrow> (case cMap r i of None \<Rightarrow> False | Some p \<Rightarrow> kids r p \<noteq> [] \<and> hd (kids r p) = i)"

section \<open>Showing and hiding\<close>

text \<open>\<open>$('tr.' + id).hide()\<close> and \<open>show()\<close>: the rows whose parent it is.\<close>

definition hide_kids :: "rel \<Rightarrow> jstr \<Rightarrow> (jstr \<Rightarrow> bool) \<Rightarrow> jstr \<Rightarrow> bool" where
  "hide_kids r p sh = (\<lambda>x. if x \<in> set (kids r p) then False else sh x)"

definition show_kids :: "rel \<Rightarrow> jstr \<Rightarrow> (jstr \<Rightarrow> bool) \<Rightarrow> jstr \<Rightarrow> bool" where
  "show_kids r p sh = (\<lambda>x. if x \<in> set (kids r p) then True else sh x)"

text \<open>\<open>shut\<close>, for every row of a list as in its loop.\<close>

partial_function (option) shut_all :: "rel \<Rightarrow> jstr list \<Rightarrow> (jstr \<Rightarrow> bool) \<Rightarrow> (jstr \<Rightarrow> bool) option" where
  "shut_all r is sh =
     (case is of
        [] \<Rightarrow> Some sh
      | c # cs \<Rightarrow>
          Option.bind
            (if kids r c = [] then Some sh
             else Option.bind (shut_all r (kids r c) sh) (\<lambda>s. Some (hide_kids r c s)))
            (\<lambda>s. shut_all r cs s))"

definition shut :: "rel \<Rightarrow> jstr \<Rightarrow> (jstr \<Rightarrow> bool) \<Rightarrow> (jstr \<Rightarrow> bool) option" where
  "shut r i sh = shut_all r [i] sh"

text \<open>\<open>open\<close>: the loop over the children, going down where the icon is that of an open row.\<close>

partial_function (option) open_all ::
  "rel \<Rightarrow> (jstr \<Rightarrow> bool) \<Rightarrow> jstr list \<Rightarrow> (jstr \<Rightarrow> bool) \<Rightarrow> (jstr \<Rightarrow> bool) option" where
  "open_all r opn is sh =
     (case is of
        [] \<Rightarrow> Some sh
      | c # cs \<Rightarrow>
          Option.bind
            (if kids r c \<noteq> [] \<and> opn c then open_all r opn (kids r c) (show_kids r c sh) else Some sh)
            (\<lambda>s. open_all r opn cs s))"

definition open_row :: "rel \<Rightarrow> (jstr \<Rightarrow> bool) \<Rightarrow> jstr \<Rightarrow> (jstr \<Rightarrow> bool) \<Rightarrow> (jstr \<Rightarrow> bool) option" where
  "open_row r opn i sh = open_all r opn (kids r i) (show_kids r i sh)"

section \<open>Icons\<close>

text \<open>
  \<open>formatNode\<close>: the marks before an arrow, a line or a blank for each row above. A row that is not
  the first of its parent copies those of the row before it, a first row those of its parent and one
  more; what is not formatted yet has none to copy, and then the row gets none. The marks so far are
  a map.
\<close>

datatype mark = Blank | Line

fun prev_id :: "jstr \<Rightarrow> jstr \<Rightarrow> jstr list \<Rightarrow> jstr" where
  "prev_id p i [] = p"
| "prev_id p i (x # xs) = (if x = i then p else prev_id x i xs)"

definition formatNode :: "rel \<Rightarrow> (jstr \<Rightarrow> bool) \<Rightarrow> jstr \<Rightarrow> (jstr \<rightharpoonup> mark list) \<Rightarrow> (jstr \<rightharpoonup> mark list)" where
  "formatNode r is_last i fm =
     (case cMap r i of
        None \<Rightarrow> fm
      | Some p \<Rightarrow>
          if root_pid p then fm(i \<mapsto> [])
          else if \<not> isFirstOne r i then fm(i := fm (prev_id (js ''0'') i (kids r p)))
          else fm(i := map_option (\<lambda>ms. ms @ [if is_last p then Blank else Line]) (fm p)))"

definition formatNodes :: "rel \<Rightarrow> jstr \<rightharpoonup> mark list" where
  "formatNodes r = fold (formatNode r (isLastOne r)) (filter (\<lambda>i. i \<noteq> []) (map fst r)) (\<lambda>_. None)"

text \<open>
  The classes of an arrow: that of a row with children or of a leaf, open or shut, of a last row or
  not, and with the prefix for the mouse or without.
\<close>

record icon =
  ic_active :: bool
  ic_open :: bool
  ic_last :: bool
  ic_hover :: bool

record ttable =
  tt_rel :: rel
  tt_shown :: "jstr \<Rightarrow> bool"
  tt_icon :: "jstr \<Rightarrow> icon"
  tt_rows :: "jstr list"
  tt_marks :: "jstr \<rightharpoonup> mark list"
  tt_mouse :: "jstr option"
  tt_selected :: "jstr list"
  tt_failed :: bool

text \<open>
  \<open>initRelation\<close> with \<open>hideLevel\<close>: \<open>None\<close> when a depth is not found. A row without an id, as a
  heading, is passed over.
\<close>

definition depth_of :: "rel \<Rightarrow> jstr \<Rightarrow> nat" where
  "depth_of r i = (case getDepth r i of None \<Rightarrow> 0 | Some d \<Rightarrow> d)"

definition first_icon :: "rel \<Rightarrow> nat \<Rightarrow> jstr \<Rightarrow> icon" where
  "first_icon r level i =
     \<lparr>ic_active = (kids r i \<noteq> []), ic_open = (kids r i \<noteq> [] \<and> depth_of r i < level), ic_last = isLastOne r i,
      ic_hover = False\<rparr>"

definition treeTable :: "rel \<Rightarrow> nat \<Rightarrow> ttable option" where
  "treeTable r level =
     (if (\<exists>i\<in>ids r. i \<noteq> [] \<and> getDepth r i = None) then None
      else Some \<lparr>tt_rel = r, tt_shown = (\<lambda>i. i = [] \<or> depth_of r i \<le> level), tt_icon = first_icon r level,
                 tt_rows = map fst r, tt_marks = formatNodes r, tt_mouse = None, tt_selected = [], tt_failed = False\<rparr>)"

text \<open>\<open>hoverActiveNode\<close>, called when the mouse comes and when it goes: it turns the prefix over.\<close>

definition hoverActiveNode :: "jstr \<Rightarrow> (jstr \<Rightarrow> icon) \<Rightarrow> jstr \<Rightarrow> icon" where
  "hoverActiveNode i ic = (if ic_active (ic i) then ic(i := (ic i)\<lparr>ic_hover := \<not> ic_hover (ic i)\<rparr>) else ic)"

text \<open>A click on an arrow: nothing unless the class is one of those with the prefix.\<close>

definition click_arrow :: "jstr \<Rightarrow> ttable \<Rightarrow> ttable option" where
  "click_arrow i s =
     (let ic = tt_icon s i in
      if ic_active ic \<and> ic_hover ic \<and> ic_open ic then
        (let ics = (tt_icon s)(i := ic\<lparr>ic_open := False\<rparr>)
         in Option.bind (shut (tt_rel s) i (tt_shown s)) (\<lambda>sh. Some (s\<lparr>tt_icon := ics, tt_shown := sh\<rparr>)))
      else if ic_active ic \<and> ic_hover ic then
        (let ics = (tt_icon s)(i := ic\<lparr>ic_open := True\<rparr>)
         in Option.bind (open_row (tt_rel s) (\<lambda>c. ic_open (ics c) \<and> \<not> ic_hover (ics c)) i (tt_shown s))
              (\<lambda>sh. Some (s\<lparr>tt_icon := ics, tt_shown := sh\<rparr>)))
      else Some s)"

text \<open>
  A click on a label: in a row without children the arrow is not found and reading its class throws;
  else \<open>onSelect\<close> may stop it by returning false.
\<close>

definition click_label :: "bool \<Rightarrow> jstr \<Rightarrow> ttable \<Rightarrow> ttable option" where
  "click_label proceed i s =
     (if \<not> ic_active (tt_icon s i) then Some (s\<lparr>tt_failed := True\<rparr>)
      else
        (let s = s\<lparr>tt_selected := tt_selected s @ [i]\<rparr> in if proceed then click_arrow i s else Some s))"

text \<open>The mouse moves to another row that is shown, or away; it clicks where it is.\<close>

datatype tt_event = MouseTo "jstr option" | ClickArrow | ClickLabel bool

definition mouse_to :: "jstr option \<Rightarrow> ttable \<Rightarrow> ttable" where
  "mouse_to t s =
     (let ic = (case tt_mouse s of None \<Rightarrow> tt_icon s | Some i \<Rightarrow> hoverActiveNode i (tt_icon s));
          ic = (case t of None \<Rightarrow> ic | Some i \<Rightarrow> hoverActiveNode i ic)
      in s\<lparr>tt_icon := ic, tt_mouse := t\<rparr>)"

definition tt_step :: "tt_event \<Rightarrow> ttable \<Rightarrow> ttable option" where
  "tt_step e s =
     (case e of
        MouseTo t \<Rightarrow>
          Some (case t of
                  None \<Rightarrow> mouse_to None s
                | Some i \<Rightarrow> if i \<in> ids (tt_rel s) \<and> tt_shown s i then mouse_to t s else s)
      | ClickArrow \<Rightarrow> (case tt_mouse s of None \<Rightarrow> Some s | Some i \<Rightarrow> click_arrow i s)
      | ClickLabel p \<Rightarrow> (case tt_mouse s of None \<Rightarrow> Some s | Some i \<Rightarrow> click_label p i s))"

fun tt_run :: "tt_event list \<Rightarrow> ttable \<Rightarrow> ttable option" where
  "tt_run [] s = Some s"
| "tt_run (e # es) s = Option.bind (tt_step e s) (tt_run es)"

text \<open>
  \<open>addChilds\<close>, with the rows of the text it is given: they are put behind the last child's row, or
  behind the parent's, and related without hiding any; the rows that were there keep their icons.
\<close>

fun insert_after :: "jstr \<Rightarrow> jstr list \<Rightarrow> jstr list \<Rightarrow> jstr list" where
  "insert_after i new [] = []"
| "insert_after i new (x # xs) = (if x = i then x # new @ xs else x # insert_after i new xs)"

definition insert_id :: "rel \<Rightarrow> jstr \<Rightarrow> jstr" where
  "insert_id r p = (if kids r p \<noteq> [] \<and> last (kids r p) \<noteq> [] then last (kids r p) else p)"

definition addChilds :: "(jstr \<times> jstr option) list \<Rightarrow> ttable \<Rightarrow> ttable option" where
  "addChilds trs s =
     (if trs = [] then Some s
      else
        (case snd (hd trs) of
           None \<Rightarrow> Some s
         | Some p \<Rightarrow>
             if p = [] then Some s
             else
               (let new = map fst trs;
                    r = tt_rel s @ map (\<lambda>(i, a). (i, pid_of a)) trs;
                    ic = (\<lambda>j. if j \<in> set new
                              then \<lparr>ic_active = (kids r j \<noteq> []), ic_open = False, ic_last = isLastOne r j,
                                    ic_hover = False\<rparr>
                              else tt_icon s j)
                in if (\<exists>i\<in>set new. i \<noteq> [] \<and> getDepth r i = None) then None
                   else Some (s\<lparr>tt_rel := r, tt_icon := ic, tt_rows := insert_after (insert_id (tt_rel s) p) new (tt_rows s),
                                tt_shown := (\<lambda>j. j \<in> set new \<or> tt_shown s j),
                                tt_marks := fold (formatNode r (\<lambda>j. ic_last (ic j))) (filter (\<lambda>i. i \<noteq> []) new) (tt_marks s)\<rparr>))))"

section \<open>The depth\<close>

text \<open>A row is rooted when its parents lead to the top.\<close>

inductive rooted :: "rel \<Rightarrow> jstr \<Rightarrow> bool" for r where
  top_row: "cMap r i = Some p \<Longrightarrow> root_pid p \<Longrightarrow> rooted r i"
| below: "cMap r i = Some p \<Longrightarrow> rooted r p \<Longrightarrow> rooted r i"
| lost: "cMap r i = None \<Longrightarrow> rooted r (js ''undefined'') \<Longrightarrow> rooted r i"

lemma getDepth_rooted: "rooted r i \<Longrightarrow> \<exists>d. getDepth r i = Some d"
  by (induction rule: rooted.induct) (subst getDepth.simps, force)+

lemma rooted_getDepth: "getDepth r i = Some d \<Longrightarrow> rooted r i"
proof (erule getDepth.raw_induct [rotated])
  fix f :: "rel \<Rightarrow> jstr \<Rightarrow> nat option" and r i d
  assume IH: "\<And>r i d. f r i = Some d \<Longrightarrow> rooted r i"
    and e: "(case cMap r i of None \<Rightarrow> f r (js ''undefined'')
      | Some p \<Rightarrow> if root_pid p then Some 1 else Option.bind (f r p) (\<lambda>d. Some (d + 1))) = Some d"
  show "rooted r i"
  proof (cases "cMap r i")
    case None
    then show ?thesis using e by (auto intro: rooted.lost IH)
  next
    case (Some p)
    then show ?thesis using e
      by (auto split: if_splits simp: bind_eq_Some_conv intro: rooted.top_row rooted.below IH)
  qed
qed

text \<open>
  The depth of a row is found exactly when its parents lead to the top: a row in a circle of
  parents, or below a parent that is not in the table, makes the recursion run until the stack is
  full.
\<close>

lemma depth_found_iff: "(getDepth r i \<noteq> None) = rooted r i"
  using getDepth_rooted rooted_getDepth by fastforce

section \<open>Rows below a row\<close>

text \<open>
  The relations of the pages: every id once, a heading without an id at most once and at the top,
  every parent a row of the table or the top, and no circle of parents.
\<close>

definition wf_rel :: "rel \<Rightarrow> bool" where
  "wf_rel r \<longleftrightarrow> distinct (map fst r) \<and>
     (\<forall>(i, p)\<in>set r. rooted r i \<and> (if root_pid p then p \<noteq> [] else p \<in> ids r) \<and>
        (root_pid i \<longrightarrow> i = []) \<and> (i = [] \<longrightarrow> root_pid p))"

inductive desc :: "rel \<Rightarrow> jstr \<Rightarrow> jstr \<Rightarrow> bool" for r where
  kid: "c \<in> set (kids r a) \<Longrightarrow> desc r a c"
| deeper: "c \<in> set (kids r a) \<Longrightarrow> desc r c x \<Longrightarrow> desc r a x"

inductive below_open :: "rel \<Rightarrow> (jstr \<Rightarrow> bool) \<Rightarrow> jstr \<Rightarrow> jstr \<Rightarrow> bool" for r opn where
  open_kid: "c \<in> set (kids r a) \<Longrightarrow> below_open r opn a c"
| open_deeper: "c \<in> set (kids r a) \<Longrightarrow> opn c \<Longrightarrow> below_open r opn c x \<Longrightarrow> below_open r opn a x"

inductive_simps desc_first: "desc r a x"

inductive_simps below_open_first: "below_open r opn a x"

lemma kids_ids: "c \<in> set (kids r p) \<Longrightarrow> c \<in> ids r"
  by (auto simp: kids_def ids_pair)

lemma kids_cMap: "distinct (map fst r) \<Longrightarrow> c \<in> set (kids r p) \<longleftrightarrow> cMap r c = Some p"
proof -
  assume d: "distinct (map fst r)"
  then have "distinct (map fst (rev r))" by (simp add: rev_map [symmetric])
  then show ?thesis using map_of_eq_Some_iff [of "rev r" c p] by (force simp: kids_def cMap_def)
qed

lemma one_parent: "wf_rel r \<Longrightarrow> c \<in> set (kids r p) \<Longrightarrow> c \<in> set (kids r q) \<Longrightarrow> p = q"
  by (simp add: wf_rel_def kids_cMap)

lemma desc_parent: "desc r a x \<Longrightarrow> wf_rel r \<Longrightarrow> x \<in> set (kids r p) \<Longrightarrow> a = p \<or> desc r a p"
  by (induction rule: desc.induct) (auto dest: one_parent intro: desc.intros)

lemma desc_ids: "desc r a x \<Longrightarrow> x \<in> ids r"
  by (induction rule: desc.induct) (auto simp: kids_ids)

lemma desc_kid: "desc r a p \<Longrightarrow> c \<in> set (kids r p) \<Longrightarrow> desc r a c"
  by (induction rule: desc.induct) (auto intro: desc.intros)

lemma wf_row:
  assumes "wf_rel r" "(i, p) \<in> set r"
  shows "rooted r i" "if root_pid p then p \<noteq> [] else p \<in> ids r" "root_pid i \<longrightarrow> i = []" "i = [] \<longrightarrow> root_pid p"
  using assms unfolding wf_rel_def by blast+

lemma wf_kid:
  assumes "wf_rel r" "c \<in> set (kids r p)"
  shows "if root_pid p then p \<noteq> [] else p \<in> ids r" "c = [] \<longrightarrow> root_pid p"
  using wf_row [OF assms(1), of c p] assms(2) by (auto simp: kids_def)

lemma wf_parent: "wf_rel r \<Longrightarrow> c \<in> set (kids r p) \<Longrightarrow> p \<in> ids r \<Longrightarrow> \<not> root_pid p"
  using wf_kid(1) [of r c p] wf_row(3) [of r p] unfolding ids_iff by (auto split: if_splits)

lemma wf_rooted: "wf_rel r \<Longrightarrow> i \<in> ids r \<Longrightarrow> rooted r i"
  unfolding ids_iff using wf_row(1) by blast

lemma kid_depth:
  assumes "wf_rel r" "c \<in> set (kids r p)" "p \<in> ids r"
  shows "depth_of r c = depth_of r p + 1"
proof -
  have m: "cMap r c = Some p" using assms(1,2) kids_cMap by (simp add: wf_rel_def)
  obtain d where "getDepth r p = Some d" using getDepth_rooted [OF wf_rooted [OF assms(1,3)]] by blast
  moreover have "\<not> root_pid p" using assms by (rule wf_parent)
  ultimately have "getDepth r c = Some (d + 1)" by (subst getDepth.simps) (simp add: m)
  then show ?thesis using \<open>getDepth r p = Some d\<close> by (simp add: depth_of_def)
qed

lemma desc_depth: "desc r a x \<Longrightarrow> wf_rel r \<Longrightarrow> a \<in> ids r \<Longrightarrow> depth_of r a < depth_of r x"
proof (induction rule: desc.induct)
  case (deeper c a x)
  then show ?case using kid_depth [of r c a] kids_ids [of c r a] by auto
qed (simp add: kid_depth)

lemma desc_irrefl: "wf_rel r \<Longrightarrow> a \<in> ids r \<Longrightarrow> \<not> desc r a a"
  using desc_depth by blast

lemma depth_bound: "\<exists>N. \<forall>i\<in>ids r. depth_of r i \<le> N"
proof -
  have "finite (depth_of r ` ids r)" by (simp add: finite_ids)
  then show ?thesis by (intro exI [of _ "Max (depth_of r ` ids r)"]) simp
qed

lemma no_kids_at_bound:
  assumes "wf_rel r" "\<forall>i\<in>ids r. depth_of r i \<le> N" "c \<in> ids r" "N \<le> depth_of r c"
  shows "kids r c = []"
proof (rule ccontr)
  assume "kids r c \<noteq> []"
  then obtain d where "d \<in> set (kids r c)" by (cases "kids r c") auto
  then show False using kid_depth [OF assms(1) _ assms(3)] kids_ids assms(2,4) by fastforce
qed

lemma shut_all_below:
  assumes "wf_rel r" "\<forall>i\<in>ids r. depth_of r i \<le> N" "\<forall>i\<in>set is. i \<in> ids r \<and> N \<le> depth_of r i + k"
  shows "shut_all r is sh = Some (\<lambda>x. sh x \<and> \<not> (\<exists>i\<in>set is. desc r i x))"
  using assms(3)
proof (induction k arbitrary: "is" sh)
  case 0
  then show ?case
  proof (induction "is" arbitrary: sh)
    case Nil
    then show ?case by (subst shut_all.simps) simp
  next
    case (Cons c cs)
    then have "kids r c = []" using no_kids_at_bound [OF assms(1,2)] by simp
    moreover from this have "\<not> desc r c x" for x by (subst desc_first) simp
    ultimately show ?case using Cons by (subst shut_all.simps) simp
  qed
next
  case (Suc k)
  note outer = Suc.IH
  show ?case using Suc.prems
  proof (induction "is" arbitrary: sh)
    case Nil
    then show ?case by (subst shut_all.simps) simp
  next
    case (Cons c cs)
    have "\<forall>d\<in>set (kids r c). d \<in> ids r \<and> N \<le> depth_of r d + k"
      using Cons.prems kid_depth [OF assms(1)] kids_ids by fastforce
    then have k: "shut_all r (kids r c) sh = Some (\<lambda>x. sh x \<and> \<not> (\<exists>i\<in>set (kids r c). desc r i x))"
      by (rule outer)
    have "(if kids r c = [] then Some sh
        else Option.bind (shut_all r (kids r c) sh) (\<lambda>s. Some (hide_kids r c s))) = Some (\<lambda>x. sh x \<and> \<not> desc r c x)"
    proof (cases "kids r c = []")
      case True
      then have "\<not> desc r c x" for x by (subst desc_first) simp
      then show ?thesis using True by simp
    next
      case False
      have "hide_kids r c (\<lambda>x. sh x \<and> \<not> (\<exists>i\<in>set (kids r c). desc r i x)) x = (sh x \<and> \<not> desc r c x)" for x
        by (subst desc_first) (auto simp: hide_kids_def)
      then have "hide_kids r c (\<lambda>x. sh x \<and> \<not> (\<exists>i\<in>set (kids r c). desc r i x)) = (\<lambda>x. sh x \<and> \<not> desc r c x)"
        by (rule ext)
      then show ?thesis using False by (simp add: k)
    qed
    moreover have "shut_all r cs sh' = Some (\<lambda>x. sh' x \<and> \<not> (\<exists>i\<in>set cs. desc r i x))" for sh'
      using Cons by simp
    ultimately show ?case by (subst shut_all.simps) (auto simp: fun_eq_iff)
  qed
qed

lemma shut_below:
  assumes "wf_rel r" "i \<in> ids r"
  shows "shut r i sh = Some (\<lambda>x. sh x \<and> \<not> desc r i x)"
proof -
  obtain N where N: "\<forall>i\<in>ids r. depth_of r i \<le> N" using depth_bound by blast
  show ?thesis unfolding shut_def using shut_all_below [OF assms(1) N, of "[i]" N sh] assms(2) by simp
qed

lemma open_all_below:
  assumes "wf_rel r" "\<forall>i\<in>ids r. depth_of r i \<le> N" "\<forall>i\<in>set is. i \<in> ids r \<and> N \<le> depth_of r i + k"
  shows "open_all r opn is sh = Some (\<lambda>x. sh x \<or> (\<exists>i\<in>set is. opn i \<and> below_open r opn i x))"
  using assms(3)
proof (induction k arbitrary: "is" sh)
  case 0
  then show ?case
  proof (induction "is" arbitrary: sh)
    case Nil
    then show ?case by (subst open_all.simps) simp
  next
    case (Cons c cs)
    then have "kids r c = []" using no_kids_at_bound [OF assms(1,2)] by simp
    moreover from this have "\<not> below_open r opn c x" for x by (subst below_open_first) simp
    ultimately show ?case using Cons by (subst open_all.simps) simp
  qed
next
  case (Suc k)
  note outer = Suc.IH
  show ?case using Suc.prems
  proof (induction "is" arbitrary: sh)
    case Nil
    then show ?case by (subst open_all.simps) simp
  next
    case (Cons c cs)
    have "\<forall>d\<in>set (kids r c). d \<in> ids r \<and> N \<le> depth_of r d + k"
      using Cons.prems kid_depth [OF assms(1)] kids_ids by fastforce
    then have k: "open_all r opn (kids r c) s = Some (\<lambda>x. s x \<or> (\<exists>i\<in>set (kids r c). opn i \<and> below_open r opn i x))" for s
      by (rule outer)
    have "(if kids r c \<noteq> [] \<and> opn c then open_all r opn (kids r c) (show_kids r c sh) else Some sh) =
        Some (\<lambda>x. sh x \<or> opn c \<and> below_open r opn c x)"
    proof (cases "kids r c \<noteq> [] \<and> opn c")
      case True
      have "(show_kids r c sh x \<or> (\<exists>i\<in>set (kids r c). opn i \<and> below_open r opn i x)) = (sh x \<or> opn c \<and> below_open r opn c x)" for x
        using True by (subst below_open_first [of r opn c]) (auto simp: show_kids_def)
      then have "(\<lambda>x. show_kids r c sh x \<or> (\<exists>i\<in>set (kids r c). opn i \<and> below_open r opn i x)) =
          (\<lambda>x. sh x \<or> opn c \<and> below_open r opn c x)" by (rule ext)
      then show ?thesis using True by (simp add: k)
    next
      case False
      then have "\<not> (opn c \<and> below_open r opn c x)" for x by (subst below_open_first) auto
      then show ?thesis using False by auto
    qed
    moreover have "open_all r opn cs sh' = Some (\<lambda>x. sh' x \<or> (\<exists>i\<in>set cs. opn i \<and> below_open r opn i x))" for sh'
      using Cons by simp
    ultimately show ?case by (subst open_all.simps) (auto simp: fun_eq_iff)
  qed
qed

lemma open_below:
  assumes "wf_rel r" "i \<in> ids r"
  shows "open_row r opn i sh = Some (\<lambda>x. sh x \<or> below_open r opn i x)"
proof -
  obtain N where N: "\<forall>i\<in>ids r. depth_of r i \<le> N" using depth_bound by blast
  have "open_row r opn i sh = Some (\<lambda>x. show_kids r i sh x \<or> (\<exists>c\<in>set (kids r i). opn c \<and> below_open r opn c x))"
    unfolding open_row_def using open_all_below [OF assms(1) N, of "kids r i" N opn] kids_ids by force
  moreover have "(show_kids r i sh x \<or> (\<exists>c\<in>set (kids r i). opn c \<and> below_open r opn c x)) = (sh x \<or> below_open r opn i x)" for x
    by (subst below_open_first [of r opn i]) (auto simp: show_kids_def)
  ultimately show ?thesis by simp
qed

section \<open>The table shows a tree\<close>

text \<open>What the table promises: where the mouse is and which rows are expanded.\<close>

definition tree_visible :: "rel \<Rightarrow> jstr set \<Rightarrow> jstr \<Rightarrow> bool" where
  "tree_visible r E x \<longleftrightarrow> (\<forall>a\<in>ids r. desc r a x \<longrightarrow> a \<in> E)"

definition toggle :: "rel \<Rightarrow> jstr option \<times> jstr set \<Rightarrow> jstr option \<times> jstr set" where
  "toggle r x =
     (case x of
        (Some i, E) \<Rightarrow> (Some i, if kids r i = [] then E else if i \<in> E then E - {i} else insert i E)
      | (None, E) \<Rightarrow> (None, E))"

definition spec_tree :: "rel \<Rightarrow> tt_event \<Rightarrow> jstr option \<times> jstr set \<Rightarrow> jstr option \<times> jstr set" where
  "spec_tree r e x =
     (case e of
        MouseTo None \<Rightarrow> (None, snd x)
      | MouseTo (Some i) \<Rightarrow> if i \<in> ids r \<and> tree_visible r (snd x) i then (Some i, snd x) else x
      | ClickArrow \<Rightarrow> toggle r x
      | ClickLabel p \<Rightarrow> if p then toggle r x else x)"

definition shows_tree :: "rel \<Rightarrow> jstr option \<times> jstr set \<Rightarrow> ttable \<Rightarrow> bool" where
  "shows_tree r x s \<longleftrightarrow>
     tt_rel s = r \<and> tt_mouse s = fst x \<and> (\<forall>i. fst x = Some i \<longrightarrow> i \<in> ids r \<and> tree_visible r (snd x) i) \<and>
     (\<forall>i. (ic_active (tt_icon s i) \<longleftrightarrow> kids r i \<noteq> []) \<and> (ic_open (tt_icon s i) \<longleftrightarrow> i \<in> snd x) \<and>
       (ic_hover (tt_icon s i) \<longleftrightarrow> fst x = Some i \<and> kids r i \<noteq> [])) \<and>
     (\<forall>i\<in>ids r. tt_shown s i \<longleftrightarrow> tree_visible r (snd x) i) \<and> (\<forall>i\<in>snd x. kids r i \<noteq> [])"

lemma visible_self: "wf_rel r \<Longrightarrow> i \<in> ids r \<Longrightarrow> tree_visible r E i \<Longrightarrow> tree_visible r (E - {i}) i"
  unfolding tree_visible_def using desc_irrefl by blast

lemma visible_mono: "tree_visible r E x \<Longrightarrow> E \<subseteq> F \<Longrightarrow> tree_visible r F x"
  by (auto simp: tree_visible_def)

lemma visible_kid:
  assumes "wf_rel r" "tree_visible r E a" "a \<in> E" "c \<in> set (kids r a)"
  shows "tree_visible r E c"
  using assms(2,3) desc_parent [OF _ assms(1,4)] by (auto simp: tree_visible_def)

lemma below_open_visible:
  "below_open r opn a x \<Longrightarrow> wf_rel r \<Longrightarrow> tree_visible r E a \<Longrightarrow> a \<in> E \<Longrightarrow> (\<And>c. opn c \<Longrightarrow> c \<in> E) \<Longrightarrow> tree_visible r E x"
proof (induction rule: below_open.induct)
  case (open_kid c a)
  then show ?case using visible_kid by blast
next
  case (open_deeper c a x)
  then show ?case using visible_kid by blast
qed

lemma visibleD: "tree_visible r E x \<Longrightarrow> a \<in> ids r \<Longrightarrow> desc r a x \<Longrightarrow> a \<in> E"
  unfolding tree_visible_def by blast

lemma visible_below_open:
  assumes "desc r a x" "tree_visible r E x" "\<And>c. desc r a c \<Longrightarrow> c \<in> E \<Longrightarrow> opn c"
  shows "below_open r opn a x"
  using assms
proof (induction rule: desc.induct)
  case (kid c a)
  show ?case by (rule below_open.open_kid [OF kid.hyps])
next
  case (deeper c a x)
  have "c \<in> E" by (rule visibleD [OF deeper.prems(1) kids_ids [OF deeper.hyps(1)] deeper.hyps(2)])
  show ?case
  proof (rule below_open.open_deeper [OF deeper.hyps(1)])
    show "opn c" by (rule deeper.prems(2) [OF desc.kid [OF deeper.hyps(1)] \<open>c \<in> E\<close>])
    show "below_open r opn c x"
      by (rule deeper.IH [OF deeper.prems(1)]) (rule deeper.prems(2) [OF desc.deeper [OF deeper.hyps(1)]])
  qed
qed

lemma opened_visible:
  assumes "wf_rel r" "i \<in> ids r" "tree_visible r E i" "\<And>c. opn c \<longleftrightarrow> (c \<in> E \<and> c \<noteq> i)"
  shows "tree_visible r E x \<or> below_open r opn i x \<longleftrightarrow> tree_visible r (insert i E) x"
proof
  assume "tree_visible r E x \<or> below_open r opn i x"
  then show "tree_visible r (insert i E) x"
    using visible_mono [of r E _ "insert i E"] below_open_visible [of r opn i x "insert i E"] assms by auto
next
  assume v: "tree_visible r (insert i E) x"
  show "tree_visible r E x \<or> below_open r opn i x"
  proof (cases "desc r i x")
    case True
    have "below_open r opn i x"
      by (rule visible_below_open [OF True v]) (use assms(4) desc_irrefl [OF assms(1,2)] in auto)
    then show ?thesis ..
  next
    case False
    then show ?thesis using v by (auto simp: tree_visible_def)
  qed
qed

lemma closed_visible:
  "i \<in> ids r \<Longrightarrow> tree_visible r (E - {i}) x \<longleftrightarrow> tree_visible r E x \<and> \<not> desc r i x"
  by (auto simp: tree_visible_def)

lemma click_arrow_shows:
  assumes "wf_rel r" "shows_tree r (Some i, E) s"
  shows "\<exists>t. click_arrow i s = Some t \<and> shows_tree r (toggle r (Some i, E)) t"
proof (cases "kids r i = []")
  case True
  then show ?thesis using assms(2) by (auto simp: click_arrow_def shows_tree_def toggle_def Let_def)
next
  case False
  have i: "i \<in> ids r" "tree_visible r E i" and s: "tt_rel s = r"
    and ic: "ic_active (tt_icon s i)" "ic_hover (tt_icon s i)" "ic_open (tt_icon s i) \<longleftrightarrow> i \<in> E"
    using assms(2) False by (auto simp: shows_tree_def)
  show ?thesis
  proof (cases "i \<in> E")
    case True
    have "click_arrow i s = Some (s\<lparr>tt_icon := (tt_icon s)(i := (tt_icon s i)\<lparr>ic_open := False\<rparr>),
        tt_shown := \<lambda>x. tt_shown s x \<and> \<not> desc r i x\<rparr>)"
      using ic True shut_below [OF assms(1) i(1)] by (simp add: click_arrow_def Let_def s)
    then show ?thesis using assms(2) True False closed_visible [OF i(1)] visible_self [OF assms(1) i]
      by (auto simp: shows_tree_def toggle_def)
  next
    case nE: False
    define ics where "ics = (tt_icon s)(i := (tt_icon s i)\<lparr>ic_open := True\<rparr>)"
    define opn where "opn = (\<lambda>c. ic_open (ics c) \<and> \<not> ic_hover (ics c))"
    have o: "opn c \<longleftrightarrow> c \<in> E \<and> c \<noteq> i" for c
      using assms(2) False by (auto simp: opn_def ics_def shows_tree_def)
    have c: "click_arrow i s = Some (s\<lparr>tt_icon := ics, tt_shown := \<lambda>x. tt_shown s x \<or> below_open r opn i x\<rparr>)"
      using ic nE open_below [OF assms(1) i(1), of opn] by (simp add: click_arrow_def Let_def s opn_def ics_def)
    have v: "\<forall>x\<in>ids r. tt_shown s x \<longleftrightarrow> tree_visible r E x"
      using assms(2) by (simp add: shows_tree_def)
    have "tt_shown s x \<or> below_open r opn i x \<longleftrightarrow> tree_visible r (insert i E) x" if "x \<in> ids r" for x
      using opened_visible [OF assms(1) i o, of x] bspec [OF v that] by blast
    then show ?thesis using c assms(2) nE False visible_mono [OF i(2), of "insert i E"]
      by (auto simp: shows_tree_def toggle_def ics_def)
  qed
qed

lemma tree_step:
  assumes "wf_rel r" "shows_tree r x s"
  shows "\<exists>t. tt_step e s = Some t \<and> shows_tree r (spec_tree r e x) t"
proof (cases e)
  case (MouseTo t)
  show ?thesis
  proof (cases t)
    case None
    then show ?thesis using assms(2)
      by (auto simp: MouseTo tt_step_def spec_tree_def mouse_to_def hoverActiveNode_def shows_tree_def Let_def split: option.splits)
  next
    case (Some i)
    have v: "i \<in> ids (tt_rel s) \<and> tt_shown s i \<longleftrightarrow> i \<in> ids r \<and> tree_visible r (snd x) i"
      using assms(2) by (auto simp: shows_tree_def)
    have "shows_tree r (Some i, snd x) (mouse_to (Some i) s)" if "i \<in> ids r" "tree_visible r (snd x) i"
      using assms(2) that
      by (auto simp: mouse_to_def hoverActiveNode_def shows_tree_def Let_def split: option.splits)
    then show ?thesis using v assms(2) by (auto simp: MouseTo Some tt_step_def spec_tree_def)
  qed
next
  case ClickArrow
  obtain m E where x: "x = (m, E)" by (cases x)
  have m: "tt_mouse s = m" using assms(2) x by (simp add: shows_tree_def)
  show ?thesis
  proof (cases m)
    case (Some i)
    then show ?thesis using click_arrow_shows [OF assms(1), of i E s] assms(2) m x
      by (auto simp: ClickArrow tt_step_def spec_tree_def)
  qed (use assms(2) m x in \<open>simp add: ClickArrow tt_step_def spec_tree_def toggle_def\<close>)
next
  case (ClickLabel p)
  obtain m E where x: "x = (m, E)" by (cases x)
  have m: "tt_mouse s = m" "tt_rel s = r" using assms(2) x by (simp_all add: shows_tree_def)
  show ?thesis
  proof (cases m)
    case (Some i)
    have sh: "shows_tree r (Some i, E) (s\<lparr>tt_selected := tt_selected s @ [i]\<rparr>)"
      "shows_tree r (Some i, E) (s\<lparr>tt_failed := True\<rparr>)"
      using assms(2) x Some by (simp_all add: shows_tree_def)
    moreover have "ic_active (tt_icon s i) \<longleftrightarrow> kids r i \<noteq> []"
      using assms(2) x Some by (simp add: shows_tree_def)
    ultimately show ?thesis using click_arrow_shows [OF assms(1) sh(1)] m x Some
      by (auto simp: ClickLabel tt_step_def spec_tree_def click_label_def toggle_def Let_def)
  qed (use assms(2) m x in \<open>simp add: ClickLabel tt_step_def spec_tree_def toggle_def\<close>)
qed

lemma tree_run:
  "wf_rel r \<Longrightarrow> shows_tree r x s \<Longrightarrow> \<exists>t. tt_run es s = Some t \<and> shows_tree r (fold (spec_tree r) es x) t"
proof (induction es arbitrary: x s)
  case (Cons e es)
  obtain t where "tt_step e s = Some t" "shows_tree r (spec_tree r e x) t" using tree_step [OF Cons.prems] by blast
  then show ?case using Cons.IH [OF Cons.prems(1)] by simp
qed simp

text \<open>The rows expanded at the start: those above the level.\<close>

definition first_expanded :: "rel \<Rightarrow> nat \<Rightarrow> jstr set" where
  "first_expanded r level = {i. kids r i \<noteq> [] \<and> depth_of r i < level}"

lemma parent_of:
  assumes "wf_rel r" "x \<in> ids r"
  obtains p where "x \<in> set (kids r p)" "cMap r x = Some p" "if root_pid p then p \<notin> ids r \<or> kids r p = [] else p \<in> ids r"
proof -
  have d: "distinct (map fst r)" using assms(1) by (simp add: wf_rel_def)
  obtain p where p: "x \<in> set (kids r p)" using assms(2) unfolding ids_iff kids_def by force
  show ?thesis
  proof (rule that [OF p])
    show "cMap r x = Some p" using kids_cMap [OF d] p by simp
    show "if root_pid p then p \<notin> ids r \<or> kids r p = [] else p \<in> ids r"
      using wf_kid(1) [OF assms(1) p] wf_parent [OF assms(1) p] by auto
  qed
qed

lemma top_depth:
  assumes "cMap r x = Some p" "root_pid p"
  shows "depth_of r x = 1"
proof -
  have "getDepth r x = Some 1" using assms by (subst getDepth.simps) simp
  then show ?thesis by (simp add: depth_of_def)
qed

lemma above_depth:
  assumes "wf_rel r" "x \<in> ids r"
  shows "depth_of r x \<le> Suc m \<longleftrightarrow> (\<forall>a\<in>ids r. desc r a x \<longrightarrow> depth_of r a \<le> m)"
proof -
  obtain p where p: "x \<in> set (kids r p)" "cMap r x = Some p"
    and q: "if root_pid p then p \<notin> ids r \<or> kids r p = [] else p \<in> ids r" using parent_of [OF assms] by blast
  have a: "a = p \<or> desc r a p" if "desc r a x" for a using desc_parent [OF that assms(1) p(1)] .
  show ?thesis
  proof (cases "root_pid p")
    case True
    then have "p \<notin> ids r" using q p(1) by auto
    then have "\<not> desc r a x" if "a \<in> ids r" for a using a desc_ids that by blast
    then show ?thesis using top_depth [OF p(2) True] by simp
  next
    case False
    then have i: "p \<in> ids r" using q by simp
    have k: "depth_of r x = depth_of r p + 1" by (rule kid_depth [OF assms(1) p(1) i])
    have "depth_of r a \<le> depth_of r p" if "desc r a x" "a \<in> ids r" for a
      using a [OF that(1)] desc_depth [OF _ assms(1) that(2), of p] by fastforce
    moreover have "desc r p x" by (rule desc.kid [OF p(1)])
    ultimately show ?thesis using k i by (metis Suc_eq_plus1 Suc_le_mono order_trans)
  qed
qed

lemma first_shows:
  assumes "wf_rel r" "treeTable r (Suc m) = Some s"
  shows "shows_tree r (None, first_expanded r (Suc m)) s"
proof -
  have s: "s = \<lparr>tt_rel = r, tt_shown = (\<lambda>i. i = [] \<or> depth_of r i \<le> Suc m), tt_icon = first_icon r (Suc m),
                 tt_rows = map fst r, tt_marks = formatNodes r, tt_mouse = None, tt_selected = [], tt_failed = False\<rparr>"
    using assms(2) by (simp add: treeTable_def split: if_splits)
  have h: "depth_of r [] = 1" if i: "[] \<in> ids r"
  proof -
    obtain p where p: "[] \<in> set (kids r p)" "cMap r [] = Some p" using parent_of [OF assms(1) i] by blast
    then show ?thesis using top_depth [OF p(2)] wf_kid(2) [OF assms(1) p(1)] by simp
  qed
  have v: "i = [] \<or> depth_of r i \<le> Suc m \<longleftrightarrow> tree_visible r (first_expanded r (Suc m)) i" if i: "i \<in> ids r" for i
  proof -
    have k: "kids r a \<noteq> []" if "desc r a i" for a using that by (subst (asm) desc_first) auto
    have "tree_visible r (first_expanded r (Suc m)) i \<longleftrightarrow> (\<forall>a\<in>ids r. desc r a i \<longrightarrow> depth_of r a \<le> m)"
      unfolding tree_visible_def first_expanded_def using k by (auto simp: less_Suc_eq_le)
    then show ?thesis using above_depth [OF assms(1) i, of m] h i by (cases "i = []") simp_all
  qed
  then show ?thesis by (auto simp: shows_tree_def s first_icon_def first_expanded_def)
qed

text \<open>
  C36: the tree table refines a set of expanded rows: whatever the mouse does, the rows on the page are
  those all of whose ancestors are expanded; a click turns the row under the mouse over, opening a
  row again shows the rows below as they were left, and at the start the rows above the level are
  expanded.
\<close>

theorem tree_refines:
  assumes "wf_rel r" "treeTable r (Suc m) = Some s"
  shows "\<exists>t. tt_run es s = Some t \<and>
    (\<forall>x\<in>ids r. tt_shown t x \<longleftrightarrow>
       tree_visible r (snd (fold (spec_tree r) es (None, first_expanded r (Suc m)))) x)"
  using tree_run [OF assms(1) first_shows [OF assms], of es] by (auto simp: shows_tree_def)

section \<open>The marks before the arrows\<close>

text \<open>The marks a row ought to have: one for each row above it, a blank below a last row.\<close>

inductive marked :: "rel \<Rightarrow> jstr \<Rightarrow> mark list \<Rightarrow> bool" for r where
  top_marks: "cMap r i = Some p \<Longrightarrow> root_pid p \<Longrightarrow> marked r i []"
| below_marks: "cMap r i = Some p \<Longrightarrow> \<not> root_pid p \<Longrightarrow> marked r p ms \<Longrightarrow>
    marked r i (ms @ [if isLastOne r p then Blank else Line])"

inductive_cases markedE: "marked r i ms"

fun parents_first :: "jstr list \<Rightarrow> rel \<Rightarrow> bool" where
  "parents_first seen [] = True"
| "parents_first seen ((i, p) # r) = ((root_pid p \<or> p \<in> set seen) \<and> parents_first (seen @ [i]) r)"

lemma marked_sibling: "marked r a ms \<Longrightarrow> cMap r b = cMap r a \<Longrightarrow> marked r b ms"
  by (erule markedE) (use marked.intros in \<open>fastforce+\<close>)

lemma marked_depth: "marked r i ms \<Longrightarrow> getDepth r i = Some (length ms + 1)"
  by (induction rule: marked.induct) (subst getDepth.simps, simp)+

lemma prev_id_split: "i \<notin> set as \<Longrightarrow> prev_id d i (as @ i # bs) = (if as = [] then d else last as)"
  by (induction "as" arbitrary: d) auto

lemma kids_append [simp]: "kids (xs @ ys) p = kids xs p @ kids ys p"
  by (simp add: kids_def)

lemma root_empty [simp]: "root_pid []"
  by code_simp

definition formatted :: "rel \<Rightarrow> jstr list \<Rightarrow> (jstr \<rightharpoonup> mark list) \<Rightarrow> bool" where
  "formatted r is fm \<longleftrightarrow> (\<forall>i\<in>set is. i \<noteq> [] \<longrightarrow> (\<exists>ms. fm i = Some ms \<and> marked r i ms))"

lemma formatted_upd: "formatted r is fm \<Longrightarrow> marked r i ms \<Longrightarrow> formatted r (is @ [i]) (fm(i \<mapsto> ms))"
  by (auto simp: formatted_def)

lemma formatNode_formatted:
  assumes "wf_rel r" "r = xs @ (i, p) # ys" "root_pid p \<or> p \<in> ids xs" "i \<noteq> []" "formatted r (map fst xs) fm"
  shows "formatted r (map fst xs @ [i]) (formatNode r (isLastOne r) i fm)"
proof -
  have d: "distinct (map fst r)" using assms(1) by (simp add: wf_rel_def)
  have k: "kids r p = kids xs p @ i # kids ys p" unfolding assms(2) by (simp add: kids_def)
  have c: "cMap r i = Some p" using kids_cMap [OF d, of i p] k by simp
  have prior: "\<exists>ms. fm j = Some ms \<and> marked r j ms" if "j \<in> ids xs" "j \<noteq> []" for j
    using assms(5) that unfolding formatted_def ids_def by blast
  show ?thesis
  proof (cases "root_pid p")
    case True
    then show ?thesis using c formatted_upd [OF assms(5) marked.top_marks [OF c True]] by (simp add: formatNode_def)
  next
    case np: False
    show ?thesis
    proof (cases "kids xs p = []")
      case True
      have "p \<noteq> []" using np by auto
      then obtain ms where ms: "fm p = Some ms" "marked r p ms" using prior [of p] assms(3) np by blast
      have "isFirstOne r i" using c k True by (simp add: isFirstOne_def)
      then show ?thesis using c ms np formatted_upd [OF assms(5) marked.below_marks [OF c np ms(2)]]
        by (simp add: formatNode_def)
    next
      case False
      define q where "q = last (kids xs p)"
      have q: "q \<in> set (kids xs p)" using False by (simp add: q_def)
      have i: "i \<notin> ids xs" using d assms(2) by auto
      then have ni: "i \<notin> set (kids xs p)" using kids_ids by blast
      have qk: "q \<in> set (kids r p)" using q k by simp
      have "q \<noteq> []" using wf_kid(2) [OF assms(1) qk] np by blast
      then obtain ms where ms: "fm q = Some ms" "marked r q ms" using prior [OF kids_ids [OF q]] by blast
      have "cMap r q = Some p" using kids_cMap [OF d] qk by simp
      then have m: "marked r i ms" using marked_sibling [OF ms(2)] c by simp
      have "\<not> isFirstOne r i" using c k ni False by (cases "kids xs p") (auto simp: isFirstOne_def)
      then have "formatNode r (isLastOne r) i fm = fm(i \<mapsto> ms)"
        using c np ms(1) prev_id_split [OF ni] False by (simp add: formatNode_def k q_def)
      then show ?thesis using formatted_upd [OF assms(5) m] by simp
    qed
  qed
qed

lemma formatNodes_formatted:
  assumes "wf_rel r" "r = xs @ ys" "parents_first (map fst xs) ys" "formatted r (map fst xs) fm"
  shows "formatted r (map fst r) (fold (formatNode r (isLastOne r)) (filter (\<lambda>i. i \<noteq> []) (map fst ys)) fm)"
  using assms(2-)
proof (induction ys arbitrary: xs fm)
  case (Cons y ys)
  obtain i p where y: "y = (i, p)" by (cases y)
  have p: "root_pid p \<or> p \<in> ids xs" and f: "parents_first (map fst (xs @ [y])) ys"
    using Cons.prems(2) by (auto simp: y)
  have r: "r = (xs @ [y]) @ ys" using Cons.prems(1) by simp
  show ?case
  proof (cases "i = []")
    case True
    then have "formatted r (map fst (xs @ [y])) fm" using Cons.prems(3) y by (auto simp: formatted_def)
    then show ?thesis using Cons.IH [OF r f] True y by simp
  next
    case False
    have "formatted r (map fst (xs @ [y])) (formatNode r (isLastOne r) i fm)"
      using formatNode_formatted [OF assms(1) _ p False Cons.prems(3)] Cons.prems(1) y by simp
    then show ?thesis using Cons.IH [OF r f] False y by simp
  qed
qed simp

text \<open>
  Where parents stand before their rows, every row gets as many marks as there are rows above it,
  in their order, a blank below a last row and a line below any other; copying from the row before
  is as good as building them anew.
\<close>

theorem marks_of_ancestors:
  assumes "wf_rel r" "parents_first [] r" "i \<in> ids r" "i \<noteq> []"
  shows "\<exists>ms. formatNodes r i = Some ms \<and> marked r i ms \<and> getDepth r i = Some (length ms + 1)"
  using formatNodes_formatted [OF assms(1), of "[]" r "\<lambda>_. None"] assms(2-) marked_depth
  by (fastforce simp: formatNodes_def formatted_def)

section \<open>Rows added later\<close>

text \<open>
  The arrow of a row that had no children stays that of a leaf when children are added, and a click
  on it does nothing.
\<close>

lemma added_below_leaf:
  assumes "addChilds trs s = Some t" "\<not> ic_active (tt_icon s p)" "p \<notin> set (map fst trs)"
  shows "click_arrow p t = Some t \<and> hoverActiveNode p (tt_icon t) = tt_icon t"
proof -
  have "\<not> ic_active (tt_icon t p)"
    using assms by (auto simp: addChilds_def Let_def split: option.splits if_splits)
  then show ?thesis by (simp add: click_arrow_def hoverActiveNode_def Let_def)
qed

section \<open>Examples\<close>

definition rel3 :: rel where
  "rel3 = [([], js ''0''), (js ''a'', js ''0''), (js ''b'', js ''a''), (js ''c'', js ''b''), (js ''d'', js ''a'')]"

lemma rel3_rooted: "\<forall>(i, p)\<in>set rel3. rooted rel3 i"
proof -
  have t: "rooted rel3 []" "rooted rel3 (js ''a'')"
    by (rule rooted.top_row [of _ _ "js ''0''"]; code_simp)+
  have b: "rooted rel3 (js ''b'')" "rooted rel3 (js ''d'')"
    by (rule rooted.below [OF _ t(2)]; code_simp)+
  have "rooted rel3 (js ''c'')"
    by (rule rooted.below [OF _ b(1)]) code_simp
  then show ?thesis using t b by (simp add: rel3_def)
qed

lemma rel3_wf: "wf_rel rel3"
proof -
  have "distinct (map fst rel3) \<and>
     (\<forall>(i, p)\<in>set rel3. (if root_pid p then p \<noteq> [] else p \<in> set (map fst rel3)) \<and>
        (root_pid i \<longrightarrow> i = []) \<and> (i = [] \<longrightarrow> root_pid p))" by code_simp
  then show ?thesis using rel3_rooted by (fastforce simp: wf_rel_def)
qed

lemma rel3_table: "\<exists>s. treeTable rel3 2 = Some s"
proof -
  have "\<forall>i\<in>ids rel3. getDepth rel3 i \<noteq> None"
    using wf_rooted [OF rel3_wf] depth_found_iff by blast
  then show ?thesis by (auto simp: treeTable_def)
qed

lemma rel3_ids: "z \<in> ids rel3 \<longleftrightarrow> z \<in> set [[], js ''a'', js ''b'', js ''c'', js ''d'']"
  by (simp add: ids_def rel3_def del: ids_fst)

lemma rel3_kids: "js ''a'' \<in> set (kids rel3 (js ''0''))" "js ''b'' \<in> set (kids rel3 (js ''a''))"
  "js ''c'' \<in> set (kids rel3 (js ''b''))" "js ''0'' \<notin> set [[], js ''a'', js ''b'', js ''c'', js ''d'']"
  by code_simp+

lemma rel3_above:
  assumes "z \<in> ids rel3"
  shows "\<not> desc rel3 z (js ''a'')" "desc rel3 z (js ''b'') \<Longrightarrow> z = js ''a''"
    "desc rel3 z (js ''c'') \<Longrightarrow> z = js ''a'' \<or> z = js ''b''"
proof -
  note up = desc_parent [OF _ rel3_wf]
  have "z \<noteq> js ''0''" using assms rel3_kids(4) unfolding rel3_ids by metis
  moreover have "\<not> desc rel3 z (js ''0'')" using desc_ids [of rel3 z "js ''0''"] rel3_kids(4) unfolding rel3_ids by metis
  ultimately show a: "\<not> desc rel3 z (js ''a'')" using up [OF _ rel3_kids(1)] by blast
  then show b: "z = js ''a''" if "desc rel3 z (js ''b'')" using up [OF that rel3_kids(2)] by blast
  show "z = js ''a'' \<or> z = js ''b''" if "desc rel3 z (js ''c'')" using up [OF that rel3_kids(3)] b by blast
qed

lemma rel3_expanded: "js ''a'' \<in> first_expanded rel3 (Suc 1)" "js ''b'' \<notin> first_expanded rel3 (Suc 1)"
proof -
  have "depth_of rel3 (js ''a'') = 1" by (rule top_depth [of _ _ "js ''0''"]; code_simp)
  moreover have "depth_of rel3 (js ''b'') = depth_of rel3 (js ''a'') + 1"
    by (rule kid_depth [OF rel3_wf rel3_kids(2)]) (simp add: rel3_ids)
  moreover have "kids rel3 (js ''a'') \<noteq> []" by code_simp
  ultimately show "js ''a'' \<in> first_expanded rel3 (Suc 1)" "js ''b'' \<notin> first_expanded rel3 (Suc 1)"
    by (simp_all add: first_expanded_def)
qed

theorem tree_refines_witness:
  "\<exists>s t. treeTable rel3 2 = Some s \<and> tt_run [MouseTo (Some (js ''b'')), ClickArrow] s = Some t \<and> tt_shown t (js ''c'')"
proof -
  obtain s where s: "treeTable rel3 (Suc 1) = Some s" using rel3_table by (auto simp: numeral_2_eq_2)
  obtain t where t: "tt_run [MouseTo (Some (js ''b'')), ClickArrow] s = Some t"
    "\<forall>x\<in>ids rel3. tt_shown t x \<longleftrightarrow> tree_visible rel3 (snd (fold (spec_tree rel3)
       [MouseTo (Some (js ''b'')), ClickArrow] (None, first_expanded rel3 (Suc 1)))) x"
    using tree_refines [OF rel3_wf s] by blast
  have i: "js ''b'' \<in> ids rel3" "js ''c'' \<in> ids rel3" by (simp_all add: rel3_ids)
  have k: "kids rel3 (js ''b'') \<noteq> []" by code_simp
  have "tree_visible rel3 (first_expanded rel3 (Suc 1)) (js ''b'')"
    unfolding tree_visible_def using rel3_above(2) rel3_expanded(1) by blast
  then have "snd (fold (spec_tree rel3) [MouseTo (Some (js ''b'')), ClickArrow] (None, first_expanded rel3 (Suc 1))) =
      insert (js ''b'') (first_expanded rel3 (Suc 1))"
    using i(1) k rel3_expanded(2) by (simp add: spec_tree_def toggle_def del: One_nat_def)
  moreover have "tree_visible rel3 (insert (js ''b'') (first_expanded rel3 (Suc 1))) (js ''c'')"
    unfolding tree_visible_def using rel3_above(3) rel3_expanded(1) by blast
  ultimately have "tt_shown t (js ''c'')" using bspec [OF t(2) i(2)] by metis
  then show ?thesis using s t(1) by (metis One_nat_def numeral_2_eq_2)
qed

theorem marks_of_ancestors_witness: "\<exists>ms. formatNodes rel3 (js ''c'') = Some ms \<and> marked rel3 (js ''c'') ms"
proof -
  have "parents_first [] rel3" "js ''c'' \<noteq> []" by code_simp+
  moreover have "js ''c'' \<in> ids rel3" by (simp add: ids_def rel3_def del: ids_fst)
  ultimately show ?thesis using marks_of_ancestors [OF rel3_wf] by blast
qed

end
