(* ===== verification/Js_Fx.thy ===== *)
theory Js_Fx
  imports Js_Dom
begin

text \<open>
  The queue of animations of an element as the pages use it: one animation runs, the others wait;
  an animation looks at the element when it starts and changes it when it ends. What a page puts
  into the queue and what an end does are the parameters \<open>start\<close> and \<open>finish\<close>; a start without a
  running part is an animation that ends at once.
\<close>

section \<open>The queue\<close>

record ('o, 'r, 'w) fx =
  fx_run :: "'r option"
  fx_wait :: "'o list"
  fx_world :: 'w

definition fx_idle :: "'w \<Rightarrow> ('o, 'r, 'w) fx" where
  "fx_idle w = \<lparr>fx_run = None, fx_wait = [], fx_world = w\<rparr>"

text \<open>Start what waits until something runs.\<close>

fun fx_pump :: "('o \<Rightarrow> 'w \<Rightarrow> 'r option \<times> 'w) \<Rightarrow> 'o list \<Rightarrow> 'w \<Rightarrow> ('o, 'r, 'w) fx" where
  "fx_pump start [] w = fx_idle w"
| "fx_pump start (x # xs) w =
     (case start x w of
        (None, w') \<Rightarrow> fx_pump start xs w'
      | (Some r, w') \<Rightarrow> \<lparr>fx_run = Some r, fx_wait = xs, fx_world = w'\<rparr>)"

definition fx_enqueue :: "('o \<Rightarrow> 'w \<Rightarrow> 'r option \<times> 'w) \<Rightarrow> 'o \<Rightarrow> ('o, 'r, 'w) fx \<Rightarrow> ('o, 'r, 'w) fx" where
  "fx_enqueue start x q =
     (if fx_run q = None then fx_pump start (fx_wait q @ [x]) (fx_world q) else q\<lparr>fx_wait := fx_wait q @ [x]\<rparr>)"

definition fx_done :: "('o \<Rightarrow> 'w \<Rightarrow> 'r option \<times> 'w) \<Rightarrow> ('r \<Rightarrow> 'w \<Rightarrow> 'w) \<Rightarrow> ('o, 'r, 'w) fx \<Rightarrow> ('o, 'r, 'w) fx" where
  "fx_done start finish q =
     (case fx_run q of None \<Rightarrow> q | Some r \<Rightarrow> fx_pump start (fx_wait q) (finish r (fx_world q)))"

text \<open>An animation from its start to its end, and the world when all that is queued has ended.\<close>

definition fx_whole :: "('o \<Rightarrow> 'w \<Rightarrow> 'r option \<times> 'w) \<Rightarrow> ('r \<Rightarrow> 'w \<Rightarrow> 'w) \<Rightarrow> 'o \<Rightarrow> 'w \<Rightarrow> 'w" where
  "fx_whole start finish x w = (case start x w of (None, w') \<Rightarrow> w' | (Some r, w') \<Rightarrow> finish r w')"

definition fx_rest :: "('o \<Rightarrow> 'w \<Rightarrow> 'r option \<times> 'w) \<Rightarrow> ('r \<Rightarrow> 'w \<Rightarrow> 'w) \<Rightarrow> ('o, 'r, 'w) fx \<Rightarrow> 'w" where
  "fx_rest start finish q =
     fold (fx_whole start finish) (fx_wait q) (case fx_run q of None \<Rightarrow> fx_world q | Some r \<Rightarrow> finish r (fx_world q))"

definition fx_sound :: "('o, 'r, 'w) fx \<Rightarrow> bool" where
  "fx_sound q \<longleftrightarrow> (fx_run q = None \<longrightarrow> fx_wait q = [])"

lemma fx_idle_sound [simp]: "fx_sound (fx_idle w)"
  by (simp add: fx_sound_def fx_idle_def)

lemma fx_pump_sound [simp]: "fx_sound (fx_pump start xs w)"
  by (induction xs arbitrary: w) (auto simp: fx_sound_def fx_idle_def split: prod.splits option.splits)

lemma fx_enqueue_sound [simp]: "fx_sound (fx_enqueue start x q)"
  by (auto simp: fx_enqueue_def) (simp add: fx_sound_def)

lemma fx_done_sound [simp]: "fx_sound q \<Longrightarrow> fx_sound (fx_done start finish q)"
  by (auto simp: fx_done_def split: option.splits)

text \<open>The world in the end does not depend on when the animations end.\<close>

lemma fx_rest_idle [simp]: "fx_rest start finish (fx_idle w) = w"
  by (simp add: fx_rest_def fx_idle_def)

lemma fx_rest_pump [simp]: "fx_rest start finish (fx_pump start xs w) = fold (fx_whole start finish) xs w"
proof (induction xs arbitrary: w)
  case (Cons x xs)
  obtain m w' where "start x w = (m, w')" by (cases "start x w")
  then show ?case using Cons by (cases m) (simp add: fx_whole_def, simp add: fx_rest_def, simp add: fx_whole_def)
qed simp

lemma fx_rest_enqueue [simp]:
  "fx_rest start finish (fx_enqueue start x q) = fx_whole start finish x (fx_rest start finish q)"
proof (cases "fx_run q")
  case None
  then show ?thesis by (simp add: fx_enqueue_def) (simp add: fx_rest_def)
qed (simp add: fx_enqueue_def fx_rest_def)

lemma fx_rest_done [simp]: "fx_rest start finish (fx_done start finish q) = fx_rest start finish q"
proof (cases "fx_run q")
  case (Some r)
  then show ?thesis by (simp add: fx_done_def) (simp add: fx_rest_def)
qed (simp add: fx_done_def)

lemma fx_rest_ended: "fx_sound q \<Longrightarrow> fx_run q = None \<Longrightarrow> fx_rest start finish q = fx_world q"
  by (simp add: fx_rest_def fx_sound_def)

text \<open>After as many ends as there are animations nothing runs.\<close>

definition fx_left :: "('o, 'r, 'w) fx \<Rightarrow> nat" where
  "fx_left q = length (fx_wait q) + (if fx_run q = None then 0 else 1)"

lemma fx_left_pump: "fx_left (fx_pump start xs w) \<le> length xs"
proof (induction xs arbitrary: w)
  case (Cons x xs)
  obtain m w' where "start x w = (m, w')" by (cases "start x w")
  then show ?case using Cons [of w'] by (cases m) (simp, simp add: fx_left_def)
qed (simp add: fx_left_def fx_idle_def)

lemma fx_settled:
  assumes "fx_sound q" "fx_left q \<le> n"
  shows "(fx_done start finish ^^ n) q = fx_idle (fx_rest start finish q)"
  using assms
proof (induction n arbitrary: q)
  case 0
  then show ?case by (cases q) (auto simp: fx_left_def fx_idle_def fx_rest_def split: if_splits)
next
  case (Suc n)
  have "fx_left (fx_done start finish q) \<le> n"
  proof (cases "fx_run q")
    case None
    then show ?thesis using Suc.prems(1) by (simp add: fx_done_def fx_left_def fx_sound_def)
  next
    case (Some r)
    then have "length (fx_wait q) \<le> n" using Suc.prems(2) by (simp add: fx_left_def)
    then show ?thesis using Some fx_left_pump [of start "fx_wait q" "finish r (fx_world q)"] by (simp add: fx_done_def)
  qed
  then show ?case using Suc.IH [of "fx_done start finish q"] Suc.prems(1) by (simp add: funpow_swap1)
qed

section \<open>Pages with a queue\<close>

text \<open>
  A page whose handlers put animations into a queue: what they do is a list of steps, and the world
  at rest is that of the animations run one after the other.
\<close>

locale fx_page =
  fixes start :: "'o \<Rightarrow> 'w \<Rightarrow> 'r option \<times> 'w"
    and finish :: "'r \<Rightarrow> 'w \<Rightarrow> 'w"
    and good :: "'w \<Rightarrow> bool"
  assumes good_start: "good w \<Longrightarrow> good (snd (start x w))"
    and good_finish: "good w \<Longrightarrow> good (finish r w)"
begin

lemma good_whole: "good w \<Longrightarrow> good (fx_whole start finish x w)"
  using good_start [of w x] good_finish by (auto simp: fx_whole_def split: prod.splits option.splits)

lemma good_pump: "good w \<Longrightarrow> good (fx_world (fx_pump start xs w))"
proof (induction xs arbitrary: w)
  case (Cons x xs)
  then show ?case using good_start [of w x] by (auto split: prod.splits option.splits)
qed (simp add: fx_idle_def)

lemma good_enqueue: "good (fx_world q) \<Longrightarrow> good (fx_world (fx_enqueue start x q))"
  by (simp add: fx_enqueue_def good_pump)

lemma good_done: "good (fx_world q) \<Longrightarrow> good (fx_world (fx_done start finish q))"
  by (simp add: fx_done_def good_pump good_finish split: option.splits)

end

end
