(* ===== verification/Game_Page.thy ===== *)
theory Game_Page
  imports Js_Fx Forms
begin

text \<open>
  What the game module loads beside the game: the box that replaces \<open>window.alert\<close>
  (\<open>goldeneggs/js/alert.js\<close>), the advertisement and the start of the game (\<open>main.js\<close>), and the call that
  hides the menu of the WeChat browser (\<open>hiddenWxShare.js\<close>).
\<close>

section \<open>The alert box\<close>

text \<open>
  The box slides. A toggle looks when it starts whether the box is hidden, and then shows it or hides
  it at its end; \<open>slideUp\<close> of a hidden box ends at once.
\<close>

datatype slide = Toggle | SlideUp

datatype sliding = Growing | Shrinking

definition box_start :: "slide \<Rightarrow> bool \<Rightarrow> sliding option \<times> bool" where
  "box_start x shown =
     (case x of
        Toggle \<Rightarrow> if shown then (Some Shrinking, True) else (Some Growing, True)
      | SlideUp \<Rightarrow> if shown then (Some Shrinking, True) else (None, False))"

definition box_end :: "sliding \<Rightarrow> bool \<Rightarrow> bool" where
  "box_end r shown = (case r of Growing \<Rightarrow> shown | Shrinking \<Rightarrow> False)"

text \<open>The box, its text, and the times at which \<open>slideUp\<close> is due.\<close>

record alert_box =
  al_box :: "(slide, sliding, bool) fx"
  al_text :: jstr
  al_due :: "int list"

definition alert0 :: alert_box where
  "alert0 = \<lparr>al_box = fx_idle False, al_text = [], al_due = []\<rparr>"

definition alert_call :: "int \<Rightarrow> jstr \<Rightarrow> alert_box \<Rightarrow> alert_box" where
  "alert_call now title s =
     (let s = s\<lparr>al_box := fx_enqueue box_start Toggle (al_box s)\<rparr>;
          s = s\<lparr>al_text := title\<rparr>
      in s\<lparr>al_due := al_due s @ [now + 8000]\<rparr>)"

text \<open>The button and the cross do the same.\<close>

definition alert_close :: "alert_box \<Rightarrow> alert_box" where
  "alert_close s = s\<lparr>al_box := fx_enqueue box_start SlideUp (al_box s)\<rparr>"

definition alert_timeout :: "int \<Rightarrow> alert_box \<Rightarrow> alert_box" where
  "alert_timeout now s =
     (case al_due s of
        [] \<Rightarrow> s
      | d # ds \<Rightarrow> if d \<le> now then alert_close (s\<lparr>al_due := ds\<rparr>) else s)"

datatype alert_event = AlertCall int jstr | AlertClose | AlertTime int | SlideEnds

definition alert_step :: "alert_event \<Rightarrow> alert_box \<Rightarrow> alert_box" where
  "alert_step e s =
     (case e of
        AlertCall now title \<Rightarrow> alert_call now title s
      | AlertClose \<Rightarrow> alert_close s
      | AlertTime now \<Rightarrow> alert_timeout now s
      | SlideEnds \<Rightarrow> s\<lparr>al_box := fx_done box_start box_end (al_box s)\<rparr>)"

definition alert_run :: "alert_event list \<Rightarrow> alert_box \<Rightarrow> alert_box" where
  "alert_run es s = fold alert_step es s"

text \<open>
  What the box comes to: the calls since it was last closed, the text of the last call, and the
  closings that are due.
\<close>

record alert_count =
  ac_calls :: nat
  ac_text :: jstr
  ac_due :: "int list"

definition count_alert :: "alert_event \<Rightarrow> alert_count \<Rightarrow> alert_count" where
  "count_alert e a =
     (case e of
        AlertCall now title \<Rightarrow> \<lparr>ac_calls = ac_calls a + 1, ac_text = title, ac_due = ac_due a @ [now + 8000]\<rparr>
      | AlertClose \<Rightarrow> a\<lparr>ac_calls := 0\<rparr>
      | AlertTime now \<Rightarrow>
          (case ac_due a of
             [] \<Rightarrow> a
           | d # ds \<Rightarrow> if d \<le> now then a\<lparr>ac_calls := 0, ac_due := ds\<rparr> else a)
      | SlideEnds \<Rightarrow> a)"

definition count0 :: alert_count where
  "count0 = \<lparr>ac_calls = 0, ac_text = [], ac_due = []\<rparr>"

lemma whole_toggle [simp]: "fx_whole box_start box_end Toggle w = (\<not> w)"
  by (simp add: fx_whole_def box_start_def box_end_def)

lemma whole_up [simp]: "fx_whole box_start box_end SlideUp w = False"
  by (simp add: fx_whole_def box_start_def box_end_def)

definition box_counts :: "alert_count \<Rightarrow> alert_box \<Rightarrow> bool" where
  "box_counts a s \<longleftrightarrow> fx_sound (al_box s) \<and> (fx_rest box_start box_end (al_box s) \<longleftrightarrow> odd (ac_calls a)) \<and>
     al_text s = ac_text a \<and> al_due s = ac_due a"

lemma box_counts_step: "box_counts a s \<Longrightarrow> box_counts (count_alert e a) (alert_step e s)"
  by (cases e)
    (auto simp: box_counts_def count_alert_def alert_step_def alert_call_def alert_close_def alert_timeout_def
      Let_def split: list.splits)

lemma box_counts_run: "box_counts a s \<Longrightarrow> box_counts (fold count_alert es a) (alert_run es s)"
  unfolding alert_run_def by (induction es arbitrary: a s) (auto simp: box_counts_step)

lemma box_counts0 [simp]: "box_counts count0 alert0"
  by (simp add: box_counts_def count0_def alert0_def)

text \<open>A call since the last closing has its own closing still due.\<close>


lemma calls_due_step: "ac_calls a = 0 \<or> ac_due a \<noteq> [] \<Longrightarrow> ac_calls (count_alert e a) = 0 \<or> ac_due (count_alert e a) \<noteq> []"
  by (auto simp: count_alert_def split: alert_event.splits list.splits)

lemma calls_due: "ac_calls a = 0 \<or> ac_due a \<noteq> [] \<Longrightarrow> ac_calls (fold count_alert es a) = 0 \<or> ac_due (fold count_alert es a) \<noteq> []"
  by (induction es arbitrary: a) (use calls_due_step in auto)

text \<open>
  C35: the alert box implements a counter: whatever the order of calls, clicks, timeouts and ends of
  animations, once the animations that are left have ended the box is open exactly if the number of
  calls since it was last closed is odd, with the text of the last call. A second alert while the
  first is read closes the box.
\<close>

theorem alert_counts:
  "(fx_done box_start box_end ^^ fx_left (al_box (alert_run es alert0))) (al_box (alert_run es alert0)) =
     fx_idle (odd (ac_calls (fold count_alert es count0))) \<and>
   al_text (alert_run es alert0) = ac_text (fold count_alert es count0)"
  using box_counts_run [OF box_counts0, of es] fx_settled [OF _ order_refl, of "al_box (alert_run es alert0)"]
  by (auto simp: box_counts_def)

text \<open>
  CX: a box that stays open has a closing still due: when all timeouts have been served and the
  animations have ended the box is shut.
\<close>

theorem alert_times_out:
  "fx_run (al_box (alert_run es alert0)) = None \<Longrightarrow> fx_world (al_box (alert_run es alert0)) \<Longrightarrow> al_due (alert_run es alert0) \<noteq> []"
  using box_counts_run [OF box_counts0, of es] calls_due [of count0 es]
    fx_rest_ended [of "al_box (alert_run es alert0)" box_start box_end]
  by (auto simp: box_counts_def count0_def)

theorem alert_times_out_witness:
  "al_due (alert_run [AlertCall 0 (js ''a''), SlideEnds, AlertClose, AlertCall 7000 (js ''b''), SlideEnds, SlideEnds, AlertTime 8000, SlideEnds, AlertCall 9000 (js ''c''), SlideEnds] alert0) \<noteq> []"
  by (rule alert_times_out; code_simp)

text \<open>The closing of the first alert closes the second one, here after a second.\<close>

lemma closed_early:
  "fx_world (al_box (alert_run [AlertCall 0 (js ''a''), SlideEnds, AlertClose, SlideEnds, AlertCall 7000 (js ''b''), SlideEnds] alert0)) \<and>
   \<not> fx_world (al_box (alert_run [AlertCall 0 (js ''a''), SlideEnds, AlertClose, SlideEnds, AlertCall 7000 (js ''b''), SlideEnds,
       AlertTime 8000, SlideEnds] alert0))"
  by code_simp

section \<open>The start of the page\<close>

text \<open>\<open>main.js\<close>: the advertisement is hidden once the session store remembers that it was closed.\<close>

definition ad_shown :: "jstr option \<Rightarrow> bool" where
  "ad_shown closed = (case closed of None \<Rightarrow> True | Some t \<Rightarrow> t = [])"

text \<open>
  \<open>hiddenWxShare.js\<close>: the menu is hidden when the bridge is there, else when it reports that it is ready;
  an old browser listens to both names of the report.
\<close>

datatype listener = ModernListener | OldListener | NoListener

record bridge =
  br_ready :: bool
  br_listens :: "string list"
  br_calls :: nat

definition onBridgeReady :: "bridge \<Rightarrow> bridge" where
  "onBridgeReady b = b\<lparr>br_calls := br_calls b + 1\<rparr>"

definition bridge_load :: "bool \<Rightarrow> listener \<Rightarrow> bridge" where
  "bridge_load ready l =
     (let b = \<lparr>br_ready = ready, br_listens = [], br_calls = 0\<rparr>
      in if \<not> ready then
           (case l of
              ModernListener \<Rightarrow> b\<lparr>br_listens := [''WeixinJSBridgeReady'']\<rparr>
            | OldListener \<Rightarrow> b\<lparr>br_listens := [''WeixinJSBridgeReady'', ''onWeixinJSBridgeReady'']\<rparr>
            | NoListener \<Rightarrow> b)
         else onBridgeReady b)"

definition bridge_event :: "string \<Rightarrow> bridge \<Rightarrow> bridge" where
  "bridge_event n b = (if n \<in> set (br_listens b) then onBridgeReady (b\<lparr>br_ready := True\<rparr>) else b\<lparr>br_ready := True\<rparr>)"

lemma menu_hidden:
  "l \<noteq> NoListener \<Longrightarrow> 0 < br_calls (bridge_load True l) \<and> 0 < br_calls (bridge_event ''WeixinJSBridgeReady'' (bridge_load ready l))"
  by (cases l; cases ready) (simp_all add: bridge_load_def bridge_event_def onBridgeReady_def)

section \<open>Falling coins\<close>

text \<open>
  \<open>_fallCoin\<close> of \<open>egg.js\<close>, whose call is commented out there: some coins are built from a template the
  first time and only shown again later. The random places and times are arguments.
\<close>

definition TPL_COIN :: jstr where
  "TPL_COIN = (js ''<div style=\"top: {top}; left: {left}; -webkit-animation: fade {t1} {t2}, drop {t1} {t2};\">'' @ [9, 9, 9, 9] @ js ''<img src=\"{url}\" style=\"-webkit-animation: counterclockwiseSpinAndFlip {t5};width:{width}; max-width:{maxHeight}\">'' @ [9, 9, 9, 9] @ js ''</div>'')"

record coin =
  co_left :: jstr
  co_t1 :: jstr
  co_t2 :: jstr
  co_t5 :: jstr
  co_width :: jstr

definition coin_values :: "jstr \<Rightarrow> coin \<Rightarrow> jstr jobj" where
  "coin_values img c =
     [((js ''top''), (js ''-30px'')), (js ''left'', co_left c @ js ''%''), ((js ''t1''), co_t1 c @ (js ''s'')), ((js ''t2''), co_t2 c @ (js ''s'')),
      ((js ''t5''), co_t5 c @ (js ''s'')), ((js ''url''), img), ((js ''width''), co_width c @ (js ''px'')), ((js ''maxHeight''), (js ''43px''))]"

text \<open>\<open>Array(num).join(",").split(",")\<close>.\<close>

definition snows :: "nat \<Rightarrow> jstr list" where
  "snows num = split_on (js '','') (join_with (js '','') (replicate num []))"

definition snows_html :: "(jstr \<Rightarrow> jstr) \<Rightarrow> jstr \<Rightarrow> (nat \<Rightarrow> coin) \<Rightarrow> nat \<Rightarrow> jstr" where
  "snows_html inherited img rnd num =
     Util_template (\<lambda>e k. None) (\<lambda>e. e) inherited TPL_COIN (map (\<lambda>(i, e). (nat_str i, e)) (enumerate 0 (snows num)))
       (Some (\<lambda>el e i. coin_values img (rnd i)))"

text \<open>The container: not there, or its content and whether it is shown.\<close>

definition fallCoin :: "(jstr \<Rightarrow> jstr) \<Rightarrow> jstr \<Rightarrow> (nat \<Rightarrow> coin) \<Rightarrow> nat \<Rightarrow> (jstr \<times> bool) option \<Rightarrow> (jstr \<times> bool) option" where
  "fallCoin inherited img rnd num box =
     (case box of None \<Rightarrow> Some (snows_html inherited img rnd num, True) | Some (h, shown) \<Rightarrow> Some (h, True))"

definition createDomByClass :: "jstr \<Rightarrow> jstr list \<Rightarrow> jstr list" where
  "createDomByClass c doms = (if c \<in> set doms then doms else doms @ [c])"

lemma join_empty: "join_with [44] (replicate (Suc n) []) = replicate n 44"
  by (induction n) simp_all

lemma split_commas: "split_on [44] (replicate n 44) = replicate (Suc n) ([] :: nat list)"
proof (induction n)
  case 0
  then show ?case by (subst split_on.simps) simp
next
  case (Suc n)
  then show ?case by (subst split_on.simps) simp
qed

text \<open>As many coins as asked for, if it is one at least.\<close>

lemma snows_number: "snows (Suc n) = replicate (Suc n) []"
  by (simp add: snows_def js_def join_empty split_commas del: replicate_Suc)

end
