(* ===== verification/Reveal.thy ===== *)
theory Reveal
  imports Js_Fx
begin

text \<open>
  The modal window of the administration pages (\<open>content/system/js/jquery.reveal.js\<close>): it is laid over the
  page with a dark background, each of them with its own queue of animations. Every call of \<open>reveal\<close>
  makes variables of its own and binds handlers of its own.
\<close>

section \<open>The window and its background\<close>

text \<open>
  The position of the window, whether it is opaque and visible, and the calls that hold their lock.
  An animation goes to a position, if it has one, and to an opacity; a closing one has a callback
  with the position to restore and the call to unlock.
\<close>

record modal =
  md_top :: int
  md_opaque :: bool
  md_visible :: bool
  md_locked :: "nat list"

datatype modal_op = MWait | MAnim "int option" bool "(int \<times> nat) option"

definition modal_start :: "modal_op \<Rightarrow> modal \<Rightarrow> modal_op option \<times> modal" where
  "modal_start x w = (Some x, w)"

definition unlockModal :: "nat \<Rightarrow> modal \<Rightarrow> modal" where
  "unlockModal k w = w\<lparr>md_locked := filter (\<lambda>j. j \<noteq> k) (md_locked w)\<rparr>"

definition lockModal :: "nat \<Rightarrow> modal \<Rightarrow> modal" where
  "lockModal k w = w\<lparr>md_locked := k # md_locked w\<rparr>"

definition modal_end :: "modal_op \<Rightarrow> modal \<Rightarrow> modal" where
  "modal_end x w =
     (case x of
        MWait \<Rightarrow> w
      | MAnim p opaque cb \<Rightarrow>
          (let w = w\<lparr>md_top := (case p of None \<Rightarrow> md_top w | Some y \<Rightarrow> y), md_opaque := opaque\<rparr>
           in case cb of
                None \<Rightarrow> w
              | Some (t, k) \<Rightarrow> unlockModal k (w\<lparr>md_top := t, md_opaque := True, md_visible := False\<rparr>)))"

text \<open>Fading in shows what is hidden, fading out hides what is shown; else they end at once.\<close>

datatype bg_op = BWait | BIn | BOut

definition bg_start :: "bg_op \<Rightarrow> bool \<Rightarrow> bg_op option \<times> bool" where
  "bg_start x shown =
     (case x of
        BWait \<Rightarrow> (Some BWait, shown)
      | BIn \<Rightarrow> if shown then (None, shown) else (Some BIn, True)
      | BOut \<Rightarrow> if shown then (Some BOut, shown) else (None, shown))"

definition bg_end :: "bg_op \<Rightarrow> bool \<Rightarrow> bool" where
  "bg_end x shown = (case x of BOut \<Rightarrow> False | _ \<Rightarrow> shown)"

section \<open>Calls\<close>

datatype reveal_anim = FadeAndPop | FadeOnly | NoAnim

record rcall =
  rc_anim :: reveal_anim
  rc_topMeasure :: int
  rc_topOffset :: int

record reveal =
  rv_modal :: "(modal_op, modal_op, modal) fx"
  rv_bg :: "(bg_op, bg_op, bool) fx"
  rv_calls :: "rcall list"
  rv_bound :: "nat list"

definition modal_css :: "(modal \<Rightarrow> modal) \<Rightarrow> reveal \<Rightarrow> reveal" where
  "modal_css f s = s\<lparr>rv_modal := (rv_modal s)\<lparr>fx_world := f (fx_world (rv_modal s))\<rparr>\<rparr>"

definition modal_queue :: "modal_op \<Rightarrow> reveal \<Rightarrow> reveal" where
  "modal_queue x s = s\<lparr>rv_modal := fx_enqueue modal_start x (rv_modal s)\<rparr>"

definition bg_queue :: "bg_op \<Rightarrow> reveal \<Rightarrow> reveal" where
  "bg_queue x s = s\<lparr>rv_bg := fx_enqueue bg_start x (rv_bg s)\<rparr>"

definition bg_css :: "bool \<Rightarrow> reveal \<Rightarrow> reveal" where
  "bg_css b s = s\<lparr>rv_bg := (rv_bg s)\<lparr>fx_world := b\<rparr>\<rparr>"

text \<open>
  The handler of \<open>reveal:open\<close>. The animations get the result of \<open>unlockModal()\<close> for a callback: the
  lock is released at once.
\<close>

definition open_handler :: "nat \<Rightarrow> int \<Rightarrow> rcall \<Rightarrow> reveal \<Rightarrow> reveal" where
  "open_handler k scroll c s =
     (if k \<in> set (md_locked (fx_world (rv_modal s))) then s
      else
        (let s = modal_css (lockModal k) s
         in case rc_anim c of
              FadeAndPop \<Rightarrow>
                (let s = modal_css (\<lambda>w. w\<lparr>md_top := scroll - rc_topOffset c, md_opaque := False, md_visible := True\<rparr>) s;
                     s = modal_queue MWait (bg_queue BIn s)
                 in modal_queue (MAnim (Some (scroll + rc_topMeasure c)) True None) (modal_css (unlockModal k) s))
            | FadeOnly \<Rightarrow>
                (let s = modal_css (\<lambda>w. w\<lparr>md_opaque := False, md_visible := True, md_top := scroll + rc_topMeasure c\<rparr>) s;
                     s = modal_queue MWait (bg_queue BIn s)
                 in modal_queue (MAnim None True None) (modal_css (unlockModal k) s))
            | NoAnim \<Rightarrow>
                (let s = modal_css (\<lambda>w. w\<lparr>md_visible := True, md_top := scroll + rc_topMeasure c\<rparr>) s
                 in modal_css (unlockModal k) (bg_css True s))))"

text \<open>The handler of \<open>reveal:close\<close>.\<close>

definition close_handler :: "int \<Rightarrow> nat \<Rightarrow> reveal \<Rightarrow> reveal" where
  "close_handler scroll k s =
     (if k \<in> set (md_locked (fx_world (rv_modal s))) then s
      else
        (let c = rv_calls s ! k;
             s = modal_css (lockModal k) s
         in case rc_anim c of
              FadeAndPop \<Rightarrow>
                modal_queue (MAnim (Some (scroll - rc_topOffset c)) False (Some (rc_topMeasure c, k)))
                  (bg_queue BOut (bg_queue BWait s))
            | FadeOnly \<Rightarrow>
                modal_queue (MAnim None False (Some (rc_topMeasure c, k))) (bg_queue BOut (bg_queue BWait s))
            | NoAnim \<Rightarrow>
                bg_css False (modal_css (\<lambda>w. w\<lparr>md_visible := False, md_top := rc_topMeasure c\<rparr>) s)))"

text \<open>
  A call: the position is measured, \<open>mid\<close> while an animation moves the window, the handlers are bound
  and the window opens. Both handlers unbind themselves, and all others of their name.
\<close>

definition measured :: "int \<Rightarrow> reveal \<Rightarrow> int" where
  "measured mid s =
     (case fx_run (rv_modal s) of Some (MAnim (Some p) opaque cb) \<Rightarrow> mid | _ \<Rightarrow> md_top (fx_world (rv_modal s)))"

definition reveal_call :: "reveal_anim \<Rightarrow> int \<Rightarrow> int \<Rightarrow> int \<Rightarrow> reveal \<Rightarrow> reveal" where
  "reveal_call anim height scroll mid s =
     (let t = measured mid s;
          c = \<lparr>rc_anim = anim, rc_topMeasure = t, rc_topOffset = height + t\<rparr>;
          k = length (rv_calls s);
          s = s\<lparr>rv_calls := rv_calls s @ [c], rv_bound := rv_bound s @ [k]\<rparr>
      in open_handler k scroll c s)"

text \<open>A click on the closing button or on the background, or the escape key.\<close>

definition reveal_close :: "int \<Rightarrow> reveal \<Rightarrow> reveal" where
  "reveal_close scroll s = (fold (close_handler scroll) (rv_bound s) s)\<lparr>rv_bound := []\<rparr>"

datatype reveal_end = ModalEnds | BgEnds

definition reveal_ends :: "reveal_end \<Rightarrow> reveal \<Rightarrow> reveal" where
  "reveal_ends e s =
     (case e of
        ModalEnds \<Rightarrow> s\<lparr>rv_modal := fx_done modal_start modal_end (rv_modal s)\<rparr>
      | BgEnds \<Rightarrow> s\<lparr>rv_bg := fx_done bg_start bg_end (rv_bg s)\<rparr>)"

definition reveal_wait :: "reveal_end list \<Rightarrow> reveal \<Rightarrow> reveal" where
  "reveal_wait es s = fold reveal_ends es s"

definition reveal_rest :: "reveal \<Rightarrow> modal \<times> bool" where
  "reveal_rest s = (fx_rest modal_start modal_end (rv_modal s), fx_rest bg_start bg_end (rv_bg s))"

definition rv_settled :: "reveal \<Rightarrow> bool" where
  "rv_settled s \<longleftrightarrow> fx_run (rv_modal s) = None \<and> fx_run (rv_bg s) = None"

section \<open>Opening and closing\<close>

lemma whole_modal [simp]: "fx_whole modal_start modal_end x w = modal_end x w"
  by (simp add: fx_whole_def modal_start_def)

lemma whole_bg [simp]:
  "fx_whole bg_start bg_end BWait b = b" "fx_whole bg_start bg_end BIn b = True" "fx_whole bg_start bg_end BOut b = False"
  by (auto simp: fx_whole_def bg_start_def bg_end_def)

definition closed_at :: "int \<Rightarrow> reveal \<Rightarrow> bool" where
  "closed_at t s \<longleftrightarrow> rv_settled s \<and> fx_sound (rv_modal s) \<and> fx_sound (rv_bg s) \<and> rv_bound s = [] \<and>
     (\<forall>k\<in>set (md_locked (fx_world (rv_modal s))). k < length (rv_calls s)) \<and>
     md_top (fx_world (rv_modal s)) = t \<and> md_opaque (fx_world (rv_modal s)) \<and>
     \<not> md_visible (fx_world (rv_modal s)) \<and> \<not> fx_world (rv_bg s)"

lemma locks_end: "j \<in> set (md_locked (modal_end x w)) \<Longrightarrow> j \<in> set (md_locked w)"
  by (auto simp: modal_end_def unlockModal_def Let_def split: modal_op.splits option.splits)

lemma locks_start [simp]: "snd (modal_start x w) = w"
  by (simp add: modal_start_def)

text \<open>A call that holds no lock gets none from the queue, and the locks are those of calls made.\<close>

interpretation locks: fx_page modal_start modal_end "\<lambda>w. set (md_locked w) \<subseteq> L" for L
  by unfold_locales (use locks_end in auto)

text \<open>What can be seen of the window; the locks have no influence on it.\<close>

definition rv_view :: "modal \<Rightarrow> int \<times> bool \<times> bool" where
  "rv_view w = (md_top w, md_opaque w, md_visible w)"

lemma view_end: "rv_view w = rv_view w' \<Longrightarrow> rv_view (modal_end x w) = rv_view (modal_end x w')"
  by (auto simp: rv_view_def modal_end_def unlockModal_def Let_def split: modal_op.splits option.splits)

lemma view_ends: "rv_view w = rv_view w' \<Longrightarrow> rv_view (fold modal_end xs w) = rv_view (fold modal_end xs w')"
proof (induction xs arbitrary: w w')
  case (Cons x xs)
  show ?case using Cons.IH [OF view_end [OF Cons.prems]] by simp
qed simp

lemma whole_fold [simp]: "fold (fx_whole modal_start modal_end) xs w = fold modal_end xs w"
  by (induction xs arbitrary: w) auto

lemma view_lock: "rv_view (lockModal k w) = rv_view w" "rv_view (unlockModal k w) = rv_view w"
  by (simp_all add: rv_view_def lockModal_def unlockModal_def)

lemma view_rest_lock [simp]:
  "rv_view (fx_rest modal_start modal_end (q\<lparr>fx_world := lockModal k (fx_world q)\<rparr>)) = rv_view (fx_rest modal_start modal_end q)"
proof (cases "fx_run q")
  case None
  then show ?thesis unfolding fx_rest_def using view_ends [OF view_lock(1)] by simp
next
  case (Some r)
  have "rv_view (modal_end r (lockModal k (fx_world q))) = rv_view (modal_end r (fx_world q))"
    by (rule view_end) (simp add: view_lock)
  from view_ends [OF this] show ?thesis using Some by (simp add: fx_rest_def)
qed

text \<open>
  A page that waits: what the window and the background come to, the calls so far and those that
  would close it, none of which holds its lock.
\<close>

definition rv_waiting :: "int \<times> bool \<times> bool \<Rightarrow> bool \<Rightarrow> rcall list \<Rightarrow> nat list \<Rightarrow> reveal \<Rightarrow> bool" where
  "rv_waiting v b cs bs s \<longleftrightarrow> fx_sound (rv_modal s) \<and> fx_sound (rv_bg s) \<and>
     rv_view (fx_rest modal_start modal_end (rv_modal s)) = v \<and> fx_rest bg_start bg_end (rv_bg s) = b \<and>
     rv_calls s = cs \<and> rv_bound s = bs \<and> set (md_locked (fx_world (rv_modal s))) \<subseteq> {..<length cs} - set bs"

lemma waiting_ends: "rv_waiting v b cs bs s \<Longrightarrow> rv_waiting v b cs bs (reveal_ends e s)"
  by (cases e) (auto simp: rv_waiting_def reveal_ends_def dest!: locks.good_done [THEN subsetD, rotated])

lemma waiting_wait: "rv_waiting v b cs bs s \<Longrightarrow> rv_waiting v b cs bs (reveal_wait es s)"
  unfolding reveal_wait_def by (induction es arbitrary: s) (simp_all add: waiting_ends)

lemma waiting_settled:
  "rv_waiting v b cs bs s \<Longrightarrow> rv_settled s \<Longrightarrow> rv_view (fx_world (rv_modal s)) = v \<and> fx_world (rv_bg s) = b"
  by (auto simp: rv_waiting_def rv_settled_def fx_rest_ended)

lemma settled_idle:
  assumes "rv_waiting v b cs bs s" "rv_settled s"
  obtains w where "rv_modal s = fx_idle w" "rv_bg s = fx_idle b" "rv_view w = v" "set (md_locked w) \<subseteq> {..<length cs} - set bs"
proof
  have "rv_modal s = fx_idle (fx_world (rv_modal s))" "rv_bg s = fx_idle (fx_world (rv_bg s))"
    using assms by (auto simp: rv_waiting_def rv_settled_def fx_sound_def fx_idle_def intro: fx.equality)
  then show "rv_modal s = fx_idle (fx_world (rv_modal s))" "rv_bg s = fx_idle b"
    using waiting_settled [OF assms] by auto
  show "rv_view (fx_world (rv_modal s)) = v" using waiting_settled [OF assms] by simp
  show "set (md_locked (fx_world (rv_modal s))) \<subseteq> {..<length cs} - set bs" using assms(1) by (simp add: rv_waiting_def)
qed

lemma settled_wait: "rv_settled s \<Longrightarrow> reveal_wait es s = s"
  unfolding reveal_wait_def
  by (induction es) (auto simp: rv_settled_def reveal_ends_def fx_done_def split: reveal_end.splits)

lemmas reveal_ops = modal_css_def modal_queue_def bg_queue_def bg_css_def

lemmas fx_ops = fx_enqueue_def fx_idle_def modal_start_def bg_start_def fx_rest_def fx_sound_def

lemma call_waiting:
  assumes "rv_waiting (t, True, False) False cs [] s" "rv_settled s"
  shows "rv_waiting (scroll + t, True, True) True (cs @ [\<lparr>rc_anim = a, rc_topMeasure = t, rc_topOffset = h + t\<rparr>]) [length cs]
    (reveal_call a h scroll mid s)"
proof -
  obtain w where w: "rv_modal s = fx_idle w" "rv_bg s = fx_idle False" "rv_view w = (t, True, False)"
    "set (md_locked w) \<subseteq> {..<length cs}" using settled_idle [OF assms] by auto
  have c: "rv_calls s = cs" "rv_bound s = []" using assms(1) by (simp_all add: rv_waiting_def)
  have l: "length cs \<notin> set (md_locked w)" using w(4) by auto
  have m: "measured mid s = t" using w(1,3) by (simp add: measured_def fx_idle_def rv_view_def)
  show ?thesis
  proof (cases a)
    case FadeAndPop
    then show ?thesis using w c l
      by (auto simp: reveal_call_def m open_handler_def Let_def reveal_ops rv_waiting_def fx_ops fx_whole_def bg_end_def
          lockModal_def unlockModal_def modal_end_def rv_view_def)
  next
    case FadeOnly
    then show ?thesis using w c l
      by (auto simp: reveal_call_def m open_handler_def Let_def reveal_ops rv_waiting_def fx_ops fx_whole_def bg_end_def
          lockModal_def unlockModal_def modal_end_def rv_view_def)
  next
    case NoAnim
    then show ?thesis using w c l
      by (auto simp: reveal_call_def m open_handler_def Let_def reveal_ops rv_waiting_def fx_ops fx_whole_def bg_end_def
          lockModal_def unlockModal_def modal_end_def rv_view_def)
  qed
qed

lemma close_waiting:
  assumes "rv_waiting v b (cs @ [c]) [length cs] s" "rc_anim c = NoAnim \<Longrightarrow> rv_settled s \<and> fst (snd v)"
  shows "rv_waiting (rc_topMeasure c, True, False) False (cs @ [c]) [] (reveal_close scroll s)"
proof -
  let ?k = "length cs"
  have c: "rv_calls s ! ?k = c" "rv_bound s = [?k]" "?k \<notin> set (md_locked (fx_world (rv_modal s)))"
    using assms(1) by (auto simp: rv_waiting_def)
  have l: "set (md_locked (lockModal ?k (fx_world (rv_modal s)))) \<subseteq> {..<Suc (length cs)}"
    using assms(1) by (auto simp: rv_waiting_def lockModal_def)
  have q: "set (md_locked (fx_world (fx_enqueue modal_start x ((rv_modal s)\<lparr>fx_world := lockModal ?k (fx_world (rv_modal s))\<rparr>)))) \<subseteq> {..<Suc ?k}" for x
    by (rule locks.good_enqueue) (simp add: l)
  show ?thesis
  proof (cases "rc_anim c")
    case NoAnim
    then obtain w where w: "rv_modal s = fx_idle w" "rv_bg s = fx_idle b" "rv_view w = v"
      "set (md_locked w) \<subseteq> {..<length (cs @ [c])} - {?k}" using settled_idle [OF assms(1)] assms(2) by auto
    then show ?thesis using assms NoAnim c
      by (auto simp: reveal_close_def close_handler_def Let_def reveal_ops rv_waiting_def fx_idle_def fx_rest_def fx_sound_def
          lockModal_def rv_view_def)
  next
    case FadeAndPop
    then show ?thesis using assms(1) c l
      by (simp add: reveal_close_def close_handler_def Let_def reveal_ops rv_waiting_def modal_end_def unlockModal_def rv_view_def q)
  next
    case FadeOnly
    then show ?thesis using assms(1) c l
      by (simp add: reveal_close_def close_handler_def Let_def reveal_ops rv_waiting_def modal_end_def unlockModal_def rv_view_def q)
  qed
qed

section \<open>Sessions\<close>

text \<open>
  The window is opened, some animations end, it is closed, and some animations end. The ends may come
  in any order, and the closing before the opening is over.
\<close>

record session =
  sn_anim :: reveal_anim
  sn_height :: int
  sn_scroll :: int
  sn_mid :: int
  sn_open :: "reveal_end list"
  sn_scroll2 :: int
  sn_close :: "reveal_end list"

definition opened :: "session \<Rightarrow> reveal \<Rightarrow> reveal" where
  "opened x s = reveal_wait (sn_open x) (reveal_call (sn_anim x) (sn_height x) (sn_scroll x) (sn_mid x) s)"

definition session_run :: "session \<Rightarrow> reveal \<Rightarrow> reveal" where
  "session_run x s = reveal_wait (sn_close x) (reveal_close (sn_scroll2 x) (opened x s))"

text \<open>The next session begins when the animations of the last one are over.\<close>

fun patient :: "session list \<Rightarrow> reveal \<Rightarrow> bool" where
  "patient [] s = True"
| "patient (x # xs) s = (rv_settled (session_run x s) \<and> patient xs (session_run x s))"

definition reveal0 :: "int \<Rightarrow> reveal" where
  "reveal0 t = \<lparr>rv_modal = fx_idle \<lparr>md_top = t, md_opaque = True, md_visible = False, md_locked = []\<rparr>,
               rv_bg = fx_idle False, rv_calls = [], rv_bound = []\<rparr>"

lemma no_anim_settled: "rv_settled s \<Longrightarrow> rv_settled (reveal_call NoAnim h scroll mid s)"
  by (simp add: rv_settled_def reveal_call_def open_handler_def Let_def reveal_ops)

lemma session_waiting:
  assumes "rv_waiting (t, True, False) False cs [] s" "rv_settled s"
  shows "\<exists>c. rv_waiting (t, True, False) False (cs @ [c]) [] (session_run x s)"
    "rv_settled (opened x s) \<Longrightarrow> rv_view (fx_world (rv_modal (opened x s))) = (sn_scroll x + t, True, True) \<and> fx_world (rv_bg (opened x s))"
proof -
  let ?c = "\<lparr>rc_anim = sn_anim x, rc_topMeasure = t, rc_topOffset = sn_height x + t\<rparr>"
  have o: "rv_waiting (sn_scroll x + t, True, True) True (cs @ [?c]) [length cs] (opened x s)"
    unfolding opened_def by (rule waiting_wait [OF call_waiting [OF assms]])
  have n: "rv_settled (opened x s)" if "sn_anim x = NoAnim"
    using no_anim_settled [OF assms(2)] that settled_wait by (simp add: opened_def)
  have "rv_waiting (t, True, False) False (cs @ [?c]) [] (session_run x s)"
    unfolding session_run_def using waiting_wait [OF close_waiting [OF o]] n by simp
  then show "\<exists>c. rv_waiting (t, True, False) False (cs @ [c]) [] (session_run x s)" ..
  show "rv_view (fx_world (rv_modal (opened x s))) = (sn_scroll x + t, True, True) \<and> fx_world (rv_bg (opened x s))"
    if "rv_settled (opened x s)" using waiting_settled [OF o that] by simp
qed

lemma sessions_waiting:
  "rv_waiting (t, True, False) False cs [] s \<Longrightarrow> rv_settled s \<Longrightarrow> patient xs s \<Longrightarrow>
   (\<exists>cs. rv_waiting (t, True, False) False cs [] (fold session_run xs s)) \<and> rv_settled (fold session_run xs s)"
proof (induction xs arbitrary: s cs)
  case (Cons x xs)
  obtain c where "rv_waiting (t, True, False) False (cs @ [c]) [] (session_run x s)"
    using session_waiting(1) [OF Cons.prems(1,2)] by blast
  then show ?case using Cons.IH [of "cs @ [c]"] Cons.prems(3) by simp
qed auto

lemma waiting0: "rv_waiting (t, True, False) False [] [] (reveal0 t)" "rv_settled (reveal0 t)"
  by (simp_all add: rv_waiting_def reveal0_def rv_view_def rv_settled_def) (simp_all add: fx_idle_def)

text \<open>
  C33: after any number of sessions that wait for each other, with any of the animations, at any
  scroll positions and closed at any moment, the window is hidden where it was at first and the
  background is gone; and the next one, once its animations are over, shows the window at its place
  below the top of what is seen.
\<close>

theorem reveal_comes_back:
  assumes "patient xs (reveal0 t)" "s = fold session_run xs (reveal0 t)"
  shows "rv_settled s \<and> rv_view (fx_world (rv_modal s)) = (t, True, False) \<and> \<not> fx_world (rv_bg s) \<and>
    (rv_settled (opened x s) \<longrightarrow>
       rv_view (fx_world (rv_modal (opened x s))) = (sn_scroll x + t, True, True) \<and> fx_world (rv_bg (opened x s)))"
proof -
  obtain cs where w: "rv_waiting (t, True, False) False cs [] s" "rv_settled s"
    using sessions_waiting [OF waiting0 assms(1)] assms(2) by blast
  then show ?thesis using waiting_settled [OF w] session_waiting(2) [OF w] by simp
qed

theorem reveal_comes_back_witness:
  "\<exists>s. rv_settled s \<and> rv_view (fx_world (rv_modal s)) = (100, True, False) \<and> length (rv_calls s) = 2"
proof -
  define x where "x = \<lparr>sn_anim = FadeAndPop, sn_height = 300, sn_scroll = 50, sn_mid = 0,
    sn_open = [BgEnds, ModalEnds], sn_scroll2 = 70, sn_close = [ModalEnds, ModalEnds, BgEnds, BgEnds]\<rparr>"
  define s where "s = fold session_run [x, x\<lparr>sn_anim := NoAnim\<rparr>] (reveal0 100)"
  have p: "patient [x, x\<lparr>sn_anim := NoAnim\<rparr>] (reveal0 100)" unfolding x_def by code_simp
  have "length (rv_calls s) = 2" unfolding x_def s_def by code_simp
  then show ?thesis using reveal_comes_back [OF p s_def] by blast
qed

text \<open>
  A window that is opened again while it is open measures its place where it stands: when it has
  been closed it is left further down by what was scrolled, so from then on it opens out of place.
\<close>

theorem reveal_drifts:
  "rv_view (fx_rest modal_start modal_end (rv_modal
     (reveal_close scroll2 (reveal_call FadeAndPop h scroll1 mid
        (reveal_wait [BgEnds, ModalEnds, ModalEnds] (reveal_call FadeAndPop h scroll mid (reveal0 t))))))) =
   (scroll + t, True, False)"
  by (simp add: reveal0_def reveal_call_def measured_def open_handler_def reveal_wait_def reveal_ends_def reveal_close_def
      close_handler_def Let_def reveal_ops fx_ops fx_done_def bg_end_def modal_end_def lockModal_def unlockModal_def rv_view_def)

end
