(* ===== verification/Side_Menu.thy ===== *)
theory Side_Menu
  imports Js_Uri Js_Dom
begin

text \<open>
  The menu at the side of the administration pages (\<open>plug-in/js/jUi.js\<close>, \<open>j_ui.js\<close>), elements that stay in
  view (\<open>jquery.pin.js\<close>, \<open>stickUp.js\<close>) and the frame that takes the height of its page
  (\<open>iFrameResize.js\<close>).
\<close>

section \<open>The accordion\<close>

text \<open>
  A group of the menu: its heading, the lists beside the heading, which are shown or hidden together,
  and the entries of these lists.
\<close>

record acc_group =
  ag_down :: bool
  ag_lists :: nat
  ag_shown :: bool
  ag_current :: bool
  ag_items :: "bool list"

type_synonym acc_menu = "acc_group list"

text \<open>The handler of \<open>$.accordion\<close>; it is bound once by each of the two files.\<close>

definition accordion_click :: "nat \<Rightarrow> acc_menu \<Rightarrow> acc_menu" where
  "accordion_click g m =
     (let x = m ! g
      in if g < length m \<and> ag_lists x > 0 then
           (if ag_down x then m[g := x\<lparr>ag_down := False, ag_shown := False\<rparr>]
            else m[g := x\<lparr>ag_down := True, ag_shown := True\<rparr>])
         else m)"

definition clear_heads :: "acc_menu \<Rightarrow> acc_menu" where
  "clear_heads m = map (\<lambda>x. x\<lparr>ag_current := False\<rparr>) m"

definition clear_items :: "acc_menu \<Rightarrow> acc_menu" where
  "clear_items m = map (\<lambda>x. x\<lparr>ag_items := map (\<lambda>_. False) (ag_items x)\<rparr>) m"

definition mark_head :: "nat \<Rightarrow> acc_menu \<Rightarrow> acc_menu" where
  "mark_head g m = m[g := (m ! g)\<lparr>ag_current := True\<rparr>]"

definition mark_item :: "nat \<Rightarrow> nat \<Rightarrow> acc_menu \<Rightarrow> acc_menu" where
  "mark_item g j m = m[g := (m ! g)\<lparr>ag_items := (ag_items (m ! g))[j := True]\<rparr>]"

text \<open>A click on a heading, with \<open>n\<close> handlers of \<open>$.accordion\<close>; on a link in it; on a link of an entry.\<close>

definition head_click :: "nat \<Rightarrow> nat \<Rightarrow> acc_menu \<Rightarrow> acc_menu" where
  "head_click n g m = mark_head g (clear_items (clear_heads ((accordion_click g ^^ n) m)))"

definition head_link_click :: "nat \<Rightarrow> nat \<Rightarrow> acc_menu \<Rightarrow> acc_menu" where
  "head_link_click n g m = head_click n g (clear_items (clear_heads m))"

definition item_click :: "nat \<Rightarrow> nat \<Rightarrow> acc_menu \<Rightarrow> acc_menu" where
  "item_click g j m = mark_item g j (clear_items (mark_head g (clear_heads m)))"

datatype acc_event = HeadClick nat | HeadLink nat | ItemClick nat nat

definition acc_step :: "nat \<Rightarrow> acc_event \<Rightarrow> acc_menu \<Rightarrow> acc_menu" where
  "acc_step n e m =
     (case e of
        HeadClick g \<Rightarrow> if g < length m then head_click n g m else m
      | HeadLink g \<Rightarrow> if g < length m then head_link_click n g m else m
      | ItemClick g j \<Rightarrow> if g < length m \<and> j < length (ag_items (m ! g)) then item_click g j m else m)"

text \<open>The page as \<open>jUi.js\<close> starts it: all lists are hidden.\<close>

definition acc_load :: "acc_menu \<Rightarrow> acc_menu" where
  "acc_load m = map (\<lambda>x. x\<lparr>ag_shown := False\<rparr>) m"

text \<open>What a user sees: which groups are open, and where the last click was.\<close>

datatype acc_place = Nowhere | AtHead nat | AtItem nat nat

definition flip_group :: "(nat \<times> nat) list \<Rightarrow> nat \<Rightarrow> nat set \<Rightarrow> nat set" where
  "flip_group sh g A = (if fst (sh ! g) = 0 then A else if g \<in> A then A - {g} else insert g A)"

definition acc_spec :: "(nat \<times> nat) list \<Rightarrow> acc_event \<Rightarrow> nat set \<times> acc_place \<Rightarrow> nat set \<times> acc_place" where
  "acc_spec sh e x =
     (case e of
        HeadClick g \<Rightarrow> if g < length sh then (flip_group sh g (fst x), AtHead g) else x
      | HeadLink g \<Rightarrow> if g < length sh then (flip_group sh g (fst x), AtHead g) else x
      | ItemClick g j \<Rightarrow> if g < length sh \<and> j < snd (sh ! g) then (fst x, AtItem g j) else x)"

definition head_of :: "acc_place \<Rightarrow> nat option" where
  "head_of p = (case p of Nowhere \<Rightarrow> None | AtHead g \<Rightarrow> Some g | AtItem g j \<Rightarrow> Some g)"

definition acc_of :: "(nat \<times> nat) list \<Rightarrow> nat set \<times> acc_place \<Rightarrow> acc_menu" where
  "acc_of sh x =
     map (\<lambda>g. \<lparr>ag_down = (g \<in> fst x), ag_lists = fst (sh ! g), ag_shown = (g \<in> fst x),
                ag_current = (head_of (snd x) = Some g),
                ag_items = map (\<lambda>j. snd x = AtItem g j) [0..<snd (sh ! g)]\<rparr>) [0..<length sh]"

lemma acc_of_simps [simp]:
  "length (acc_of sh x) = length sh"
  "g < length sh \<Longrightarrow> acc_of sh x ! g =
     \<lparr>ag_down = (g \<in> fst x), ag_lists = fst (sh ! g), ag_shown = (g \<in> fst x), ag_current = (head_of (snd x) = Some g),
      ag_items = map (\<lambda>j. snd x = AtItem g j) [0..<snd (sh ! g)]\<rparr>"
  by (simp_all add: acc_of_def)

lemma acc_eqI:
  assumes "length m = length sh" "\<And>g. g < length sh \<Longrightarrow> m ! g = acc_of sh x ! g"
  shows "m = acc_of sh x"
  using assms by (auto intro: nth_equalityI)

lemma accordion_of: "g < length sh \<Longrightarrow> accordion_click g (acc_of sh x) = acc_of sh (flip_group sh g (fst x), snd x)"
  by (rule acc_eqI) (auto simp: accordion_click_def flip_group_def Let_def nth_list_update)

lemma clear_of: "clear_items (clear_heads (acc_of sh x)) = acc_of sh (fst x, Nowhere)"
  by (rule acc_eqI) (auto simp: clear_items_def clear_heads_def head_of_def map_replicate_const)

lemma mark_head_of: "g < length sh \<Longrightarrow> mark_head g (acc_of sh (A, Nowhere)) = acc_of sh (A, AtHead g)"
  by (rule acc_eqI) (auto simp: mark_head_def head_of_def nth_list_update)

lemma head_click_of:
  "g < length sh \<Longrightarrow> head_click 1 g (acc_of sh x) = acc_of sh (flip_group sh g (fst x), AtHead g)"
  by (simp add: head_click_def accordion_of clear_of mark_head_of)

lemma item_click_of:
  assumes "g < length sh" "j < snd (sh ! g)"
  shows "item_click g j (acc_of sh x) = acc_of sh (fst x, AtItem g j)"
proof (rule acc_eqI)
  fix h
  assume h: "h < length sh"
  show "item_click g j (acc_of sh x) ! h = acc_of sh (fst x, AtItem g j) ! h"
    using assms h
    by (auto simp: item_click_def mark_item_def clear_items_def mark_head_def clear_heads_def nth_list_update head_of_def
        intro!: nth_equalityI split: if_splits)
qed (simp add: item_click_def mark_item_def clear_items_def mark_head_def clear_heads_def)

lemma acc_step_of: "acc_step 1 e (acc_of sh x) = acc_of sh (acc_spec sh e x)"
  by (cases e) (auto simp: acc_step_def acc_spec_def head_link_click_def head_click_of clear_of item_click_of
      flip_group_def simp del: One_nat_def)

text \<open>
  The menu shows exactly which groups are open and where the last click was: after any clicks the
  lists shown are those of the groups clicked an odd number of times, the heading marked is the one of
  the last click and the entry marked the one clicked last, unless a heading was clicked since.
\<close>

theorem accordion_shows:
  "fold (acc_step 1) es (acc_of sh ({}, Nowhere)) = acc_of sh (fold (acc_spec sh) es ({}, Nowhere))"
proof -
  have "fold (acc_step 1) es (acc_of sh x) = acc_of sh (fold (acc_spec sh) es x)" for x
    by (induction es arbitrary: x) (simp_all add: acc_step_of del: One_nat_def)
  then show ?thesis .
qed

text \<open>With both files on a page every heading has two handlers, which undo each other.\<close>

lemma twice_bound: "g < length sh \<Longrightarrow> fst x \<subseteq> {h. fst (sh ! h) > 0} \<Longrightarrow> (accordion_click g ^^ 2) (acc_of sh x) = acc_of sh x"
  by (cases x) (auto simp: numeral_2_eq_2 accordion_of flip_group_def insert_absorb intro: acc_eqI)

lemma acc_load_of:
  assumes "\<forall>x\<in>set m. \<not> ag_down x \<and> \<not> ag_current x \<and> True \<notin> set (ag_items x)"
  shows "acc_load m = acc_of (map (\<lambda>x. (ag_lists x, length (ag_items x))) m) ({}, Nowhere)"
proof (rule acc_eqI)
  fix g
  assume "g < length (map (\<lambda>x. (ag_lists x, length (ag_items x))) m)"
  moreover from this have "m ! g \<in> set m" by simp
  moreover have "map (\<lambda>_. False) [0..<length xs] = xs" if "True \<notin> set xs" for xs :: "bool list"
    using that by (auto intro!: nth_equalityI) (metis nth_mem)
  ultimately show "acc_load m ! g = acc_of (map (\<lambda>x. (ag_lists x, length (ag_items x))) m) ({}, Nowhere) ! g"
    using assms by (simp add: acc_load_def head_of_def)
qed (simp add: acc_load_def)

section \<open>Pinned elements\<close>

text \<open>
  \<open>$.fn.pin\<close>: an element that scrolls with its page until it reaches the top of the window, stays
  there, and is left behind at the end of its container. Where things are on the page is an
  argument: the container, the place of the element in the flow, its size, and its offset parent.
\<close>

record pin_geo =
  ge_containerTop :: int
  ge_containerHeight :: int
  ge_top :: int
  ge_height :: int
  ge_parentTop :: int

record pin_opts =
  po_container :: bool
  po_minWidth :: "int option"
  po_padTop :: int
  po_padBottom :: int
  po_activeClass :: bool

record pin_limits =
  pl_from :: int
  pl_to :: int
  pl_end :: int
  pl_parentTop :: int

datatype pin_pos = InFlow | Fixed | Absolute

text \<open>The data of an element: removed, without limits yet, or with them.\<close>

datatype pin_data = Gone | Fresh | Limits pin_limits

record pin_el =
  pe_geo :: pin_geo
  pe_pos :: pin_pos
  pe_top :: "int option"
  pe_class :: bool
  pe_wrapped :: bool
  pe_data :: pin_data

record pins =
  ps_els :: "pin_el list"
  ps_disabled :: bool
  ps_scroll :: int

text \<open>Where an element is on the page when the window is scrolled to \<open>y\<close>.\<close>

definition el_offset :: "int \<Rightarrow> pin_el \<Rightarrow> int" where
  "el_offset y e =
     (case (pe_pos e, pe_top e) of
        (Fixed, Some t) \<Rightarrow> y + t
      | (Absolute, Some t) \<Rightarrow> ge_parentTop (pe_geo e) + t
      | _ \<Rightarrow> ge_top (pe_geo e))"

definition too_narrow :: "pin_opts \<Rightarrow> int \<Rightarrow> bool" where
  "too_narrow p w = (case po_minWidth p of None \<Rightarrow> False | Some m \<Rightarrow> m \<noteq> 0 \<and> w \<le> m)"

definition pin_limits_of :: "pin_opts \<Rightarrow> int \<Rightarrow> pin_geo \<Rightarrow> pin_limits" where
  "pin_limits_of p offset g =
     \<lparr>pl_from = (if po_container p then ge_containerTop g else offset) - po_padTop p,
      pl_to = ge_containerTop g + ge_containerHeight g - ge_height g - po_padBottom p,
      pl_end = ge_containerTop g + ge_containerHeight g,
      pl_parentTop = ge_parentTop g\<rparr>"

definition recalculateLimits :: "pin_opts \<Rightarrow> int \<Rightarrow> pins \<Rightarrow> pins" where
  "recalculateLimits p w s =
     (if too_narrow p w then
        s\<lparr>ps_els := map (\<lambda>e. e\<lparr>pe_wrapped := False, pe_top := None, pe_pos := InFlow,
                                pe_class := (pe_class e \<and> \<not> po_activeClass p)\<rparr>) (ps_els s),
          ps_disabled := (ps_els s \<noteq> [] \<or> ps_disabled s)\<rparr>
      else
        s\<lparr>ps_els := map (\<lambda>e. e\<lparr>pe_wrapped := True,
                                pe_data := Limits (pin_limits_of p (el_offset (ps_scroll s) e) (pe_geo e))\<rparr>) (ps_els s),
          ps_disabled := (ps_els s = [] \<and> ps_disabled s)\<rparr>)"

text \<open>The body of the loop of \<open>onScroll\<close>; comparisons with a limit that is not there are false.\<close>

definition pin_scroll :: "pin_opts \<Rightarrow> int \<Rightarrow> pin_el \<Rightarrow> pin_el" where
  "pin_scroll p y e =
     (let unpin = e\<lparr>pe_pos := InFlow, pe_top := None, pe_class := (pe_class e \<and> \<not> po_activeClass p)\<rparr>
      in case pe_data e of
           Gone \<Rightarrow> e
         | Fresh \<Rightarrow> unpin
         | Limits l \<Rightarrow>
             if pl_from l + ge_height (pe_geo e) > pl_end l then e\<lparr>pe_pos := InFlow\<rparr>
             else if pl_from l < y \<and> pl_to l > y then
               (let e = (if pe_pos e = Fixed then e else e\<lparr>pe_top := Some (po_padTop p), pe_pos := Fixed\<rparr>)
                in e\<lparr>pe_class := (pe_class e \<or> po_activeClass p)\<rparr>)
             else if y \<ge> pl_to l then
               e\<lparr>pe_top := Some (pl_to l - pl_parentTop l + po_padTop p), pe_pos := Absolute,
                 pe_class := (pe_class e \<or> po_activeClass p)\<rparr>
             else unpin)"

definition onScroll :: "pin_opts \<Rightarrow> pins \<Rightarrow> pins" where
  "onScroll p s =
     (if ps_disabled s then s
      else s\<lparr>ps_els := map (pin_scroll p (ps_scroll s)) (filter (\<lambda>e. pe_data e \<noteq> Gone) (ps_els s))\<rparr>)"

text \<open>
  The window scrolls, changes its width, or the page changes and an image is loaded; an element loses
  its data when it is removed.
\<close>

datatype pin_event = PinScroll int | PinResize int "pin_geo list" | PinRemove nat

fun regeo :: "pin_geo list \<Rightarrow> pin_el list \<Rightarrow> pin_el list" where
  "regeo (g # gs) (e # es) = e\<lparr>pe_geo := g\<rparr> # regeo gs es"
| "regeo gs es = es"

definition pin_step :: "pin_opts \<Rightarrow> pin_event \<Rightarrow> pins \<Rightarrow> pins" where
  "pin_step p x s =
     (case x of
        PinScroll y \<Rightarrow> onScroll p (s\<lparr>ps_scroll := y\<rparr>)
      | PinResize w gs \<Rightarrow> recalculateLimits p w (s\<lparr>ps_els := regeo gs (ps_els s)\<rparr>)
      | PinRemove i \<Rightarrow> s\<lparr>ps_els := (ps_els s)[i := (ps_els s ! i)\<lparr>pe_data := Gone\<rparr>]\<rparr>)"

text \<open>The call on elements in the flow, in a window of width \<open>w\<close> scrolled to \<open>y\<close>.\<close>

definition pin0 :: "pin_opts \<Rightarrow> int \<Rightarrow> int \<Rightarrow> pin_geo list \<Rightarrow> pins" where
  "pin0 p w y gs =
     recalculateLimits p w
       \<lparr>ps_els = map (\<lambda>g. \<lparr>pe_geo = g, pe_pos = InFlow, pe_top = None, pe_class = False, pe_wrapped = False, pe_data = Fresh\<rparr>) gs,
        ps_disabled = False, ps_scroll = y\<rparr>"

text \<open>Where an element ought to be.\<close>

definition pin_place :: "pin_opts \<Rightarrow> pin_geo \<Rightarrow> int \<Rightarrow> int" where
  "pin_place p g y =
     (let l = pin_limits_of p (ge_top g) g
      in if pl_from l + ge_height g > pl_end l then ge_top g
         else if y \<ge> pl_to l then pl_to l + po_padTop p
         else if pl_from l < y then y + po_padTop p
         else ge_top g)"

definition pin_ok :: "pin_opts \<Rightarrow> pin_el \<Rightarrow> bool" where
  "pin_ok p e \<longleftrightarrow> pe_data e = Limits (pin_limits_of p (ge_top (pe_geo e)) (pe_geo e)) \<and>
     (pe_pos e = Fixed \<longrightarrow> pe_top e = Some (po_padTop p))"

lemma limits_container: "po_container p \<Longrightarrow> pin_limits_of p a g = pin_limits_of p b g"
  by (simp add: pin_limits_of_def)

lemma pin_scroll_ok: "pin_ok p e \<Longrightarrow> pin_ok p (pin_scroll p y e) \<and> el_offset y (pin_scroll p y e) = pin_place p (pe_geo (pin_scroll p y e)) y"
  by (auto simp: pin_ok_def pin_scroll_def pin_place_def el_offset_def Let_def pin_limits_of_def)

definition pin_el_inv :: "pin_opts \<Rightarrow> bool \<Rightarrow> pin_el \<Rightarrow> bool" where
  "pin_el_inv p disabled e \<longleftrightarrow> (pe_pos e = Fixed \<longrightarrow> pe_top e = Some (po_padTop p)) \<and>
     (\<not> disabled \<longrightarrow> pe_data e = Gone \<or> pin_ok p e)"

definition pin_inv :: "pin_opts \<Rightarrow> pins \<Rightarrow> bool" where
  "pin_inv p s \<longleftrightarrow> list_all (pin_el_inv p (ps_disabled s)) (ps_els s)"

definition pin_run :: "pin_opts \<Rightarrow> pin_event list \<Rightarrow> pins \<Rightarrow> pins" where
  "pin_run p es s = fold (pin_step p) es s"

definition resizes :: "pin_event \<Rightarrow> bool" where
  "resizes x = (case x of PinResize w gs \<Rightarrow> True | _ \<Rightarrow> False)"

lemma recalc_inv:
  assumes "po_container p \<or> (\<forall>e\<in>set (ps_els s). pe_pos e = InFlow)"
    "\<forall>e\<in>set (ps_els s). pe_pos e = Fixed \<longrightarrow> pe_top e = Some (po_padTop p)"
  shows "pin_inv p (recalculateLimits p w s)"
proof -
  have "pin_limits_of p (el_offset (ps_scroll s) e) (pe_geo e) = pin_limits_of p (ge_top (pe_geo e)) (pe_geo e)"
    if "e \<in> set (ps_els s)" for e
    using assms(1) that limits_container by (auto simp: el_offset_def)
  then show ?thesis using assms(2)
    by (auto simp: pin_inv_def list_all_iff recalculateLimits_def pin_el_inv_def pin_ok_def)
qed

lemma regeo_css: "e \<in> set (regeo gs es) \<Longrightarrow> \<exists>d\<in>set es. pe_pos e = pe_pos d \<and> pe_top e = pe_top d"
  by (induction gs es rule: regeo.induct) auto

lemma pin_scroll_inv: "pin_el_inv p False e \<Longrightarrow> pe_data e \<noteq> Gone \<Longrightarrow> pin_el_inv p False (pin_scroll p y e)"
  using pin_scroll_ok [of p e y] by (auto simp: pin_el_inv_def pin_ok_def)

lemma pin_step_inv:
  assumes "pin_inv p s" "po_container p \<or> \<not> resizes x"
  shows "pin_inv p (pin_step p x s)"
proof (cases x)
  case (PinScroll y)
  then show ?thesis using assms(1) pin_scroll_inv
    by (auto simp: pin_step_def onScroll_def pin_inv_def list_all_iff)
next
  case (PinResize w gs)
  then have c: "po_container p" using assms(2) by (simp add: resizes_def)
  have "\<forall>e\<in>set (regeo gs (ps_els s)). pe_pos e = Fixed \<longrightarrow> pe_top e = Some (po_padTop p)"
    using assms(1) regeo_css by (fastforce simp: pin_inv_def list_all_iff pin_el_inv_def)
  then show ?thesis using c PinResize by (simp add: pin_step_def recalc_inv)
next
  case (PinRemove i)
  then show ?thesis using assms(1)
    by (cases "i < length (ps_els s)")
      (auto simp: pin_step_def pin_inv_def list_all_length nth_list_update pin_el_inv_def)
qed

lemma pin_run_inv: "pin_inv p s \<Longrightarrow> po_container p \<or> (\<forall>x\<in>set es. \<not> resizes x) \<Longrightarrow> pin_inv p (pin_run p es s)"
  unfolding pin_run_def by (induction es arbitrary: s) (auto simp: pin_step_inv)

lemma pin0_inv: "pin_inv p (pin0 p w y gs)"
  unfolding pin0_def by (rule recalc_inv) auto

text \<open>
  C34: pinned elements stand where the scroll position asks for, while the window is wide enough for them:
  whatever was scrolled and removed, and however often the window was resized if they have a container
  (without one, as long as it was not resized), after a scroll every element is in the flow above its
  limit, at the padding below the top of the window between its limits, and left at the end of its
  container beyond. That a resize without a container breaks this is \<open>pin_lets_go\<close> below.
\<close>

theorem pins_follow:
  assumes "po_container p \<or> (\<forall>x\<in>set es. \<not> resizes x)"
    "s = pin_run p (es @ [PinScroll y]) (pin0 p w y0 gs)" "\<not> ps_disabled s" "e \<in> set (ps_els s)"
  shows "el_offset y e = pin_place p (pe_geo e) y"
proof -
  let ?s = "pin_run p es (pin0 p w y0 gs)"
  have i: "pin_inv p ?s" by (rule pin_run_inv [OF pin0_inv assms(1)])
  have s: "s = onScroll p (?s\<lparr>ps_scroll := y\<rparr>)" using assms(2) by (simp add: pin_run_def pin_step_def)
  then have d: "\<not> ps_disabled ?s" using assms(3) by (auto simp: onScroll_def split: if_splits)
  then obtain c where c: "c \<in> set (ps_els ?s)" "pe_data c \<noteq> Gone" "e = pin_scroll p y c"
    using assms(4) s by (auto simp: onScroll_def)
  then have "pin_ok p c" using i d by (auto simp: pin_inv_def list_all_iff pin_el_inv_def)
  then show ?thesis using pin_scroll_ok [of p c y] c(3) by simp
qed

theorem pins_follow_witness:
  "el_offset 700 (ps_els (pin_run \<lparr>po_container = True, po_minWidth = Some 600, po_padTop = 10, po_padBottom = 0, po_activeClass = True\<rparr>
     [PinScroll 500, PinResize 500 [], PinScroll 600, PinResize 900 [], PinScroll 700]
     (pin0 \<lparr>po_container = True, po_minWidth = Some 600, po_padTop = 10, po_padBottom = 0, po_activeClass = True\<rparr> 1000 0
       [\<lparr>ge_containerTop = 200, ge_containerHeight = 2000, ge_top = 250, ge_height = 100, ge_parentTop = 0\<rparr>])) ! 0) = 710"
proof -
  let ?p = "\<lparr>po_container = True, po_minWidth = Some 600, po_padTop = 10, po_padBottom = 0, po_activeClass = True\<rparr>"
  let ?g = "\<lparr>ge_containerTop = 200, ge_containerHeight = 2000, ge_top = 250, ge_height = 100, ge_parentTop = 0\<rparr>"
  let ?s = "pin_run ?p ([PinScroll 500, PinResize 500 [], PinScroll 600, PinResize 900 []] @ [PinScroll 700]) (pin0 ?p 1000 0 [?g])"
  have "el_offset 700 (ps_els ?s ! 0) = pin_place ?p (pe_geo (ps_els ?s ! 0)) 700"
  proof (rule pins_follow [OF _ refl])
    show "\<not> ps_disabled ?s" by code_simp
    have "0 < length (ps_els ?s)" by code_simp
    then show "ps_els ?s ! 0 \<in> set (ps_els ?s)" by (rule nth_mem)
  qed simp
  moreover have "pin_place ?p (pe_geo (ps_els ?s ! 0)) 700 = 710" by code_simp
  ultimately show ?thesis by simp
qed

text \<open>
  Without a container a resize of the window, or an image that is loaded late, makes a pinned
  element forget where it came from: its limit becomes the position scrolled to, and on the way back
  up the element lets go at once and is out of sight, although it should still be at the top of the
  window.
\<close>

theorem pin_lets_go:
  assumes "\<not> po_container p" "po_minWidth p = None" "po_padTop p = 0" "po_padBottom p = 0"
    "ge_top g < y" "y < y'" "y' + ge_height g < ge_containerTop g + ge_containerHeight g" "0 \<le> ge_height g"
    "s = pin_run p [PinScroll y', PinResize w [], PinScroll y] (pin0 p w 0 [g])"
  shows "map (el_offset y) (ps_els s) = [ge_top g] \<and> pin_place p g y = y"
proof -
  have "too_narrow p w = False" using assms(2) by (simp add: too_narrow_def)
  then show ?thesis using assms
    by (simp add: pin_run_def pin_step_def pin0_def recalculateLimits_def onScroll_def pin_scroll_def
        pin_limits_of_def el_offset_def pin_place_def Let_def)
qed

theorem pin_lets_go_witness:
  "map (el_offset 600) (ps_els
     (pin_run \<lparr>po_container = False, po_minWidth = None, po_padTop = 0, po_padBottom = 0, po_activeClass = True\<rparr>
       [PinScroll 800, PinResize 1000 [], PinScroll 600]
       (pin0 \<lparr>po_container = False, po_minWidth = None, po_padTop = 0, po_padBottom = 0, po_activeClass = True\<rparr> 1000 0
         [\<lparr>ge_containerTop = 0, ge_containerHeight = 3000, ge_top = 100, ge_height = 50, ge_parentTop = 0\<rparr>]))) = [100]"
proof -
  let ?p = "\<lparr>po_container = False, po_minWidth = None, po_padTop = 0, po_padBottom = 0, po_activeClass = True\<rparr>"
  let ?g = "\<lparr>ge_containerTop = 0, ge_containerHeight = 3000, ge_top = 100, ge_height = 50, ge_parentTop = 0\<rparr>"
  have "map (el_offset 600) (ps_els (pin_run ?p [PinScroll 800, PinResize 1000 [], PinScroll 600] (pin0 ?p 1000 0 [?g]))) =
      [ge_top ?g] \<and> pin_place ?p ?g 600 = 600"
    by (rule pin_lets_go [OF _ _ _ _ _ _ _ _ refl]) simp_all
  then show ?thesis by simp
qed

section \<open>Menus that stick\<close>

text \<open>
  \<open>parseInt\<close>: blanks, a sign, and the digits that follow, which are those of a hexadecimal number
  after \<open>0x\<close>.
\<close>

definition hex_val :: "jstr \<Rightarrow> int" where
  "hex_val ds = foldl (\<lambda>a u. 16 * a + int (case hex_value u of None \<Rightarrow> 0 | Some v \<Rightarrow> v)) 0 ds"

definition parse_int :: "jstr \<Rightarrow> jsnum" where
  "parse_int t =
     (let t = dropWhile (\<lambda>c. c \<in> {9, 10, 11, 12, 13, 32, 160, 8232, 8233, 65279}) t;
          neg = (t \<noteq> [] \<and> hd t = 45);
          t = (if t \<noteq> [] \<and> hd t \<in> {43, 45} then tl t else t);
          hex = (take 2 t = js ''0x'' \<or> take 2 t = js ''0X'');
          ds = (if hex then takeWhile (\<lambda>c. hex_value c \<noteq> None) (drop 2 t) else takeWhile is_digit t);
          v = (if hex then hex_val ds else int (digits_val ds))
      in if ds = [] then NaN else Num (if neg then - v else v))"

text \<open>The margin that is asked for: none, that of the style sheet, a number or a text.\<close>

datatype margin_opt = NoMargin | AutoMargin int | NumMargin int | TextMargin jstr

definition top_margin :: "margin_opt \<Rightarrow> jsnum" where
  "top_margin m =
     (case m of
        NoMargin \<Rightarrow> Num 0
      | AutoMargin n \<Rightarrow> Num n
      | NumMargin n \<Rightarrow> Num n
      | TextMargin t \<Rightarrow>
          if indexOf t (js ''px'') > 0 then parse_int (replace1 t (js ''px'') [])
          else (case parse_int t of NaN \<Rightarrow> Num 0 | Num n \<Rightarrow> Num n))"

text \<open>
  The variables of the page. \<open>vartop\<close> is declared nowhere, so reading it before the first call throws. The
  contents have a position and a height; \<open>st_hover\<close> is the item that has the hover class.
\<close>

datatype scroll_dir = NoDir | Down | Up

record sticky =
  st_dir :: scroll_dir
  st_last :: int
  st_items :: "nat option"
  st_content :: "(int \<times> int) list"
  st_height :: int
  st_marginB :: int
  st_marginT :: int
  st_topMargin :: jsnum
  st_vartop :: "int option"
  st_hover :: "nat option"
  st_stuck :: bool
  st_next :: int
  st_failed :: bool

definition sticky0 :: "int \<Rightarrow> sticky" where
  "sticky0 next =
     \<lparr>st_dir = NoDir, st_last = 0, st_items = None, st_content = [], st_height = 0, st_marginB = 0, st_marginT = 0,
      st_topMargin = Num 0, st_vartop = None, st_hover = None, st_stuck = False, st_next = next, st_failed = False\<rparr>"

text \<open>\<open>$.fn.stickUp\<close>; the margin of the next element is measured as it is at that moment.\<close>

definition stickUp :: "(margin_opt \<times> nat \<times> (int \<times> int) list) option \<Rightarrow> int \<Rightarrow> int \<Rightarrow> int \<Rightarrow> sticky \<Rightarrow> sticky" where
  "stickUp options height marginB offset s =
     (let s = (case options of
                 None \<Rightarrow> s
               | Some (m, n, parts) \<Rightarrow>
                   s\<lparr>st_content := parts @ drop (length parts) (st_content s), st_topMargin := top_margin m, st_items := Some n\<rparr>)
      in s\<lparr>st_height := height, st_marginB := marginB, st_marginT := st_next s, st_vartop := Some offset\<rparr>)"

text \<open>The handler of the window, which looks after the direction.\<close>

definition window_scroll :: "int \<Rightarrow> sticky \<Rightarrow> sticky" where
  "window_scroll y s = s\<lparr>st_dir := (if y > st_last s then Down else Up), st_last := y\<rparr>"

text \<open>\<open>bottomView\<close> and the loop over the items; the tests of four tenths are multiplied by five.\<close>

definition bottomView :: "int \<Rightarrow> nat \<Rightarrow> int \<times> int \<Rightarrow> nat option \<Rightarrow> nat option" where
  "bottomView y i c h =
     (if 5 * y > 5 * fst c - 2 * snd c then Some i else if y < 50 then Some 0 else h)"

fun hover_loop :: "scroll_dir \<Rightarrow> int \<Rightarrow> nat \<Rightarrow> (int \<times> int) list \<Rightarrow> nat option \<Rightarrow> nat option" where
  "hover_loop dir y i [] h = h"
| "hover_loop dir y i (c # cs) h =
     (let h = (if dir = Down \<and> y > fst c - 50 \<and> y < fst c + 50 then Some i else h);
          h = (if dir = Up then bottomView y i c h else h)
      in hover_loop dir y (Suc i) cs h)"

text \<open>The handler of the document; a content that is not there has no position, which throws.\<close>

definition document_scroll :: "int \<Rightarrow> sticky \<Rightarrow> sticky" where
  "document_scroll y s =
     (let n = (case st_items s of None \<Rightarrow> 0 | Some n \<Rightarrow> n);
          s = s\<lparr>st_hover := hover_loop (st_dir s) y 0 (take n (st_content s)) (st_hover s)\<rparr>
      in if length (st_content s) < n then s\<lparr>st_failed := True\<rparr>
         else
           (case (st_vartop s, st_topMargin s) of
              (None, _) \<Rightarrow> s\<lparr>st_failed := True\<rparr>
            | (_, NaN) \<Rightarrow> s
            | (Some v, Num m) \<Rightarrow>
                if v < y + m then s\<lparr>st_stuck := True, st_next := st_height s + st_marginB s + st_marginT s\<rparr>
                else if y + m < v then s\<lparr>st_stuck := False, st_next := st_marginT s\<rparr>
                else s))"

text \<open>A scroll event reaches the document first and then the window.\<close>

definition sticky_scroll :: "int \<Rightarrow> sticky \<Rightarrow> sticky" where
  "sticky_scroll y s = window_scroll y (document_scroll y s)"

text \<open>Whether the menu is fixed: the last position that is not the boundary decides.\<close>

fun stuck_after :: "int \<Rightarrow> int list \<Rightarrow> bool \<Rightarrow> bool" where
  "stuck_after b [] st = st"
| "stuck_after b (y # ys) st = stuck_after b ys (if b < y then True else if y < b then False else st)"

definition sticks_at :: "int \<Rightarrow> int \<Rightarrow> int \<Rightarrow> int \<Rightarrow> nat \<Rightarrow> bool \<Rightarrow> sticky \<Rightarrow> bool" where
  "sticks_at m v t r n st s \<longleftrightarrow> st_topMargin s = Num m \<and> st_vartop s = Some v \<and> st_marginT s = t \<and>
     st_height s + st_marginB s = r \<and> (\<forall>k. st_items s = Some k \<longrightarrow> k \<le> length (st_content s)) \<and>
     st_stuck s = st \<and> st_next s = t + (if st then r else 0)"

lemma sticks_scroll:
  assumes "sticks_at m v t r n st s"
  shows "sticks_at m v t r n (if v - m < y then True else if y < v - m then False else st) (sticky_scroll y s)"
  using assms by (cases "st_items s") (auto simp: sticks_at_def sticky_scroll_def window_scroll_def document_scroll_def Let_def)

lemma sticks_scrolls: "sticks_at m v t r n st s \<Longrightarrow> sticks_at m v t r n (stuck_after (v - m) ys st) (fold sticky_scroll ys s)"
proof (induction ys arbitrary: s st)
  case (Cons y ys)
  show ?case using Cons.IH [OF sticks_scroll [OF Cons.prems]] by simp
qed simp

text \<open>
  CX: the menu sticks exactly while the window is scrolled past it, and takes its room with it: after
  the call and any scrolling, the element below has its own margin, and the height and the margin of
  the menu more exactly while the menu is fixed, so nothing jumps.
\<close>

theorem stick_keeps_room:
  assumes "top_margin m = Num k" "n \<le> length parts"
    "s = fold sticky_scroll ys (stickUp (Some (m, n, parts)) h b v (sticky0 t))"
  shows "st_stuck s = stuck_after (v - k) ys False \<and> st_next s = t + (if st_stuck s then h + b else 0)"
proof -
  have "sticks_at k v t (h + b) n False (stickUp (Some (m, n, parts)) h b v (sticky0 t))"
    using assms(1,2) by (simp add: sticks_at_def stickUp_def sticky0_def)
  from sticks_scrolls [OF this, of ys] show ?thesis by (simp add: assms(3) sticks_at_def)
qed

theorem stick_keeps_room_witness:
  "st_stuck (fold sticky_scroll [90, 130, 110] (stickUp (Some (NumMargin 10, 1, [(500, 200)])) 40 5 120 (sticky0 8)))"
proof -
  have m: "top_margin (NumMargin 10) = Num 10" by (simp add: top_margin_def)
  have "stuck_after (120 - 10) [90, 130, 110] False" by code_simp
  moreover have "st_stuck (fold sticky_scroll [90, 130, 110] (stickUp (Some (NumMargin 10, 1, [(500, 200)])) 40 5 120 (sticky0 8))) =
      stuck_after (120 - 10) [90, 130, 110] False"
    by (rule conjunct1 [OF stick_keeps_room [OF m _ refl]]) simp
  ultimately show ?thesis by (rule iffD2 [rotated])
qed

text \<open>
  The direction is that of the event before: the first scroll marks no item, and turning round is seen
  one event late. A second call while the menu is fixed takes the room of the menu for a margin.
\<close>

lemma direction_late:
  "st_hover (sticky_scroll 500 (stickUp (Some (NoMargin, 1, [(500, 200)])) 40 5 120 (sticky0 8))) = None"
  by code_simp

lemma second_call_adds_room:
  assumes "v < y"
  shows "st_next (sticky_scroll y (stickUp None h b v (sticky_scroll y (stickUp (Some (NoMargin, 0, [])) h b v (sticky0 t))))) =
    t + 2 * (h + b)"
  using assms by (simp add: stickUp_def sticky0_def sticky_scroll_def window_scroll_def document_scroll_def top_margin_def)

lemma scroll_before_call: "st_failed (sticky_scroll y (sticky0 t))"
  by (simp add: sticky0_def sticky_scroll_def window_scroll_def document_scroll_def)

section \<open>Frames that take the height of their page\<close>

text \<open>
  The height of the frame: what the body of its document measures and some more, or what an old
  browser tells of it, or what it was. A height that is no number is below nothing.
\<close>

record frame_doc =
  fd_offsetHeight :: "int option"
  fd_scrollHeight :: "int option"

definition nonzero_px :: "int option \<Rightarrow> bool" where
  "nonzero_px x = (x \<noteq> None \<and> x \<noteq> Some 0)"

definition frame_height :: "int \<Rightarrow> frame_doc \<Rightarrow> jsnum \<Rightarrow> jsnum" where
  "frame_height extra d h =
     (if nonzero_px (fd_offsetHeight d) then Num (the (fd_offsetHeight d) + extra)
      else if nonzero_px (fd_scrollHeight d) then Num (the (fd_scrollHeight d))
      else h)"

definition dyniframesize :: "frame_doc \<Rightarrow> jsnum \<Rightarrow> jsnum" where
  "dyniframesize d h =
     (case frame_height 600 d h of NaN \<Rightarrow> NaN | Num n \<Rightarrow> if n < 900 then Num 900 else Num n)"

definition noMinDyniframesize :: "frame_doc \<Rightarrow> jsnum \<Rightarrow> jsnum" where
  "noMinDyniframesize d h = frame_height 10 d h"

definition dyniframesizeDG :: "frame_doc \<Rightarrow> jsnum \<Rightarrow> jsnum" where
  "dyniframesizeDG d h = frame_height 20 d h"

text \<open>\<open>IFrameResize\<close>: the size of the document, or a message.\<close>

definition IFrameResize :: "(int \<times> int) option \<Rightarrow> (int \<times> int) + jstr" where
  "IFrameResize d =
     (case d of
        Some (w, h) \<Rightarrow> Inl (w, h)
      | None \<Rightarrow> Inr (js ''this browser doesn't seem to support the iframe document object''))"

lemma dyniframesize_min: "dyniframesize d h = Num n \<Longrightarrow> 900 \<le> n"
  by (auto simp: dyniframesize_def split: jsnum.splits if_splits)

end
