(* ===== verification/Pop_Browser.thy ===== *)
theory Pop_Browser
  imports Popui
begin

text \<open>
  What \<open>popui.js\<close> asks of the browser: which one it is (\<open>browser\<close>, whose result becomes part of \<open>$\<close>), the
  size of the window, and the places of elements and window that lazy loading compares.
\<close>

section \<open>Which browser\<close>

definition ascii_lower :: "nat \<Rightarrow> nat" where
  "ascii_lower u = (if 65 \<le> u \<and> u \<le> 90 then u + 32 else u)"

definition occurs :: "string \<Rightarrow> jstr \<Rightarrow> bool" where
  "occurs t ua = (index_at (js t) ua \<noteq> None)"

text \<open>The tests in their order; the text they search is in small letters.\<close>

definition browser_tests :: "jstr \<Rightarrow> (string \<times> bool) list" where
  "browser_tests ua =
     [(''sogou'', occurs ''se'' ua), (''opera'', occurs ''opera'' ua), (''chrome'', occurs ''chrome'' ua),
      (''firefox'', occurs ''firefox'' ua), (''maxthon'', occurs ''maxthon'' ua), (''tt'', occurs ''TencentTraveler'' ua),
      (''ie'', occurs ''msie'' ua \<and> \<not> occurs ''opera'' ua), (''safari'', occurs ''webkit'' ua \<and> \<not> occurs ''chrome'' ua)]"

text \<open>The name in front of the version; Safari writes \<open>version\<close>.\<close>

definition browser_mark :: "(string \<times> bool) list \<Rightarrow> string option" where
  "browser_mark bs = map_option (\<lambda>(n, b). if n = ''safari'' then ''version'' else n) (find snd bs)"

text \<open>The first place where the mark, one of \<open>/\<close>, colon and blank, and digits and dots follow each other.\<close>

definition version_unit :: "nat \<Rightarrow> bool" where
  "version_unit u \<longleftrightarrow> is_digit u \<or> u = 46"

fun find_version :: "jstr \<Rightarrow> jstr \<Rightarrow> jstr option" where
  "find_version m [] = None"
| "find_version m (c # s) =
     (let r = drop (length m) (c # s)
      in if prefix m (c # s) \<and> r \<noteq> [] \<and> hd r \<in> {47, 58, 32} \<and> tl r \<noteq> [] \<and> version_unit (hd (tl r))
         then Some (takeWhile version_unit (tl r))
         else find_version m s)"

record browser =
  br_tests :: "(string \<times> bool) list"
  br_version :: jstr
  br_ie :: "int list"

definition version_number :: "jstr \<Rightarrow> jsnum" where
  "version_number v = (let d = takeWhile is_digit v in if d = [] then NaN else Num (int (digits_val d)))"

definition browser_of :: "jstr \<Rightarrow> browser" where
  "browser_of userAgent =
     (let ua = map ascii_lower userAgent;
          bs = browser_tests ua;
          v = (case browser_mark bs of
                 None \<Rightarrow> js ''0''
               | Some m \<Rightarrow> (case find_version (js m) ua of None \<Rightarrow> js ''0'' | Some v \<Rightarrow> v))
      in \<lparr>br_tests = bs, br_version = v, br_ie = filter (\<lambda>i. version_number v = Num i) [6, 7, 8, 9, 10]\<rparr>)"

definition is_browser :: "string \<Rightarrow> browser \<Rightarrow> bool" where
  "is_browser n b = (map_of (br_tests b) n = Some True)"

lemma index_at_subset: "index_at p s \<noteq> None \<Longrightarrow> set p \<subseteq> set s"
  using index_at_None [of p s] by (auto simp: sublist_def)

lemma lower_no_upper: "84 \<notin> set (map ascii_lower ua)"
  by (auto simp: ascii_lower_def)

text \<open>
  The test for TencentTraveler has capital letters and never holds; the flags of the Internet
  Explorer follow the version of any browser.
\<close>

lemma tt_never: "\<not> is_browser ''tt'' (browser_of ua)"
proof -
  have "(84 :: nat) \<in> set (js ''TencentTraveler'')" by code_simp
  then have "\<not> occurs ''TencentTraveler'' (map ascii_lower ua)"
    unfolding occurs_def using index_at_subset [of "js ''TencentTraveler''" "map ascii_lower ua"] lower_no_upper [of ua] by blast
  then show ?thesis by (simp add: is_browser_def browser_of_def browser_tests_def Let_def)
qed

lemma ie_flag_once: "length (br_ie (browser_of ua)) \<le> 1"
proof (cases "version_number (br_version (browser_of ua))")
  case NaN
  then show ?thesis by (simp add: browser_of_def Let_def)
next
  case (Num n)
  then show ?thesis by (simp add: browser_of_def Let_def)
qed

definition safari6 :: jstr where
  "safari6 = js ''Mozilla/5.0 (Macintosh; Intel Mac OS X 10_8) AppleWebKit/536.25 (KHTML, like Gecko) Version/6.0 Safari/536.25''"

lemma safari_is_ie6: "br_ie (browser_of safari6) = [6] \<and> \<not> is_browser ''ie'' (browser_of safari6)"
  by code_simp

section \<open>Places\<close>

definition viewSize :: "int option \<times> int option \<Rightarrow> int \<times> int \<Rightarrow> int \<times> int" where
  "viewSize inner client =
     ((case fst inner of Some w \<Rightarrow> if w \<noteq> 0 then w else fst client | None \<Rightarrow> fst client),
      (case snd inner of Some h \<Rightarrow> if h \<noteq> 0 then h else snd client | None \<Rightarrow> snd client))"

text \<open>\<open>calcRect\<close>: the offsets of the element and its offset parents are added, up to the one that has none.\<close>

fun add_offsets :: "('a :: linordered_field \<times> 'a) list \<Rightarrow> 'a \<Rightarrow> 'a \<Rightarrow> 'a \<times> 'a" where
  "add_offsets [] l t = (l, t)"
| "add_offsets ((dl, dt) # ps) l t = add_offsets ps (l + dl) (t + dt)"

definition calcRect :: "'a :: linordered_field \<Rightarrow> 'a \<Rightarrow> 'a \<Rightarrow> 'a \<Rightarrow> ('a \<times> 'a) list \<Rightarrow> 'a rect" where
  "calcRect scrollLeft scrollTop w h offsets =
     (let (l, t) = add_offsets offsets scrollLeft scrollTop in \<lparr>r_left = l, r_top = t, r_width = w, r_height = h\<rparr>)"

text \<open>\<open>calcClientRect\<close>: the first of three scroll positions that is there and not 0.\<close>

definition first_nonzero :: "'a :: linordered_field list \<Rightarrow> 'a" where
  "first_nonzero xs = (case find (\<lambda>x. x \<noteq> 0) xs of None \<Rightarrow> 0 | Some x \<Rightarrow> x)"

definition calcClientRect :: "'a :: linordered_field list \<Rightarrow> 'a list \<Rightarrow> 'a \<Rightarrow> 'a \<Rightarrow> 'a rect" where
  "calcClientRect lefts tops w h = \<lparr>r_left = first_nonzero lefts, r_top = first_nonzero tops, r_width = w, r_height = h\<rparr>"

lemma add_offsets_sum: "add_offsets ps l t = (l + sum_list (map fst ps), t + sum_list (map snd ps))"
  by (induction ps arbitrary: l t) (auto simp: algebra_simps)

end
