(* ===== verification/Ztree_Data.thy ===== *)
theory Ztree_Data
  imports Js_Prelude "HOL-Library.Multiset"
begin

text \<open>
  The data of the trees of authorisations and accounts (\<open>content/system/js/zTree/jquery.ztree.core.js\<close>,
  which the pages of \<open>jwid_user.js\<close> and \<open>privilege_role.js\<close> run): the list of the server, in which
  every entry names its parent, is turned into a forest (\<open>transformTozTreeFormat\<close>) and a forest back
  into a list (\<open>transformToArrayFormat\<close>), and the searches through a forest. The entries are any
  data with an id and the id of a parent; nodes are told apart by their place in the list, as the
  objects are in the code. The ids are not names that every array has (\<open>length\<close>, \<open>push\<close>), and the
  entries of the list come without children of their own.
\<close>

section \<open>Forests\<close>

datatype 'a ztree = ZNode (zdata: 'a) (zkids: "'a ztree list")

fun transformToArrayFormat :: "'a ztree list \<Rightarrow> 'a list" where
  "transformToArrayFormat [] = []"
| "transformToArrayFormat (ZNode d ts # ns) = d # transformToArrayFormat ts @ transformToArrayFormat ns"

text \<open>The call with one node instead of a list.\<close>

definition transformToArray1 :: "'a ztree \<Rightarrow> 'a list" where
  "transformToArray1 n = zdata n # transformToArrayFormat (zkids n)"

lemma array_concat: "transformToArrayFormat ns = concat (map transformToArray1 ns)"
proof (induction ns)
  case (Cons n ns)
  then show ?case by (cases n) (simp add: transformToArray1_def)
qed simp

lemma array_append: "transformToArrayFormat (ms @ ns) = transformToArrayFormat ms @ transformToArrayFormat ns"
  by (simp add: array_concat)

section \<open>From the list to the forest\<close>

text \<open>
  The two loops of \<open>transformTozTreeFormat\<close>: \<open>tmpMap\<close> holds under each id the last object with it; an
  object is pushed onto the children of its parent, or onto the result when no object has the id of its
  parent or it is its own parent. Objects are numbers of places in the list.
\<close>

record zbuild =
  zb_children :: "nat \<Rightarrow> nat list"
  zb_r :: "nat list"

fun fill_map :: "('a \<Rightarrow> jstr) \<Rightarrow> 'a list \<Rightarrow> nat \<Rightarrow> (jstr \<Rightarrow> nat option) \<Rightarrow> (jstr \<Rightarrow> nat option)" where
  "fill_map key [] i tmpMap = tmpMap"
| "fill_map key (x # xs) i tmpMap = fill_map key xs (i + 1) (tmpMap(key x \<mapsto> i))"

fun attach_loop :: "('a \<Rightarrow> jstr) \<Rightarrow> ('a \<Rightarrow> jstr) \<Rightarrow> (jstr \<Rightarrow> nat option) \<Rightarrow> 'a list \<Rightarrow> nat \<Rightarrow> zbuild \<Rightarrow> zbuild" where
  "attach_loop key parentKey tmpMap [] i b = b"
| "attach_loop key parentKey tmpMap (x # xs) i b =
     attach_loop key parentKey tmpMap xs (i + 1)
       (case tmpMap (parentKey x) of
          Some p \<Rightarrow> if key x \<noteq> parentKey x then b\<lparr>zb_children := (zb_children b)(p := zb_children b p @ [i])\<rparr>
                    else b\<lparr>zb_r := zb_r b @ [i]\<rparr>
        | None \<Rightarrow> b\<lparr>zb_r := zb_r b @ [i]\<rparr>)"

text \<open>
  The tree the objects form, read from a root down. Objects can point to each other in a circle, but
  from a root no circle is reached, and a path has no more objects than the list.
\<close>

fun read_tree :: "nat \<Rightarrow> (nat \<Rightarrow> nat list) \<Rightarrow> 'a list \<Rightarrow> nat \<Rightarrow> 'a ztree" where
  "read_tree 0 ch xs i = ZNode (xs ! i) []"
| "read_tree (Suc n) ch xs i = ZNode (xs ! i) (map (read_tree n ch xs) (ch i))"

definition transformTozTreeFormat :: "('a \<Rightarrow> jstr) \<Rightarrow> ('a \<Rightarrow> jstr) \<Rightarrow> 'a list \<Rightarrow> 'a ztree list" where
  "transformTozTreeFormat key parentKey sNodes =
     (let b = attach_loop key parentKey (fill_map key sNodes 0 Map.empty) sNodes 0 \<lparr>zb_children = (\<lambda>_. []), zb_r = []\<rparr>
      in map (read_tree (length sNodes) (zb_children b) sNodes) (zb_r b))"

section \<open>Searches\<close>

fun getNodeByParam :: "('a \<Rightarrow> bool) \<Rightarrow> 'a ztree list \<Rightarrow> 'a option" where
  "getNodeByParam eq [] = None"
| "getNodeByParam eq (ZNode d ts # ns) =
     (if eq d then Some d
      else (case getNodeByParam eq ts of Some x \<Rightarrow> Some x | None \<Rightarrow> getNodeByParam eq ns))"

fun getNodesByParam :: "('a \<Rightarrow> bool) \<Rightarrow> 'a ztree list \<Rightarrow> 'a list" where
  "getNodesByParam eq [] = []"
| "getNodesByParam eq (ZNode d ts # ns) =
     (if eq d then [d] else []) @ getNodesByParam eq ts @ getNodesByParam eq ns"

text \<open>
  \<open>getNodesByFilter\<close> for one node: unlike the result of the others, \<open>tmpResult\<close> of the last tree replaces
  what was found, but a find has returned before.
\<close>

fun getNodesByFilter :: "('a \<Rightarrow> bool) \<Rightarrow> bool \<Rightarrow> 'a ztree list \<Rightarrow> 'a list" where
  "getNodesByFilter f isSingle [] = []"
| "getNodesByFilter f isSingle (ZNode d ts # ns) =
     (if f d \<and> isSingle then [d]
      else let tmpResult = getNodesByFilter f isSingle ts
           in if isSingle \<and> tmpResult \<noteq> [] then tmpResult
              else (if f d then [d] else []) @ tmpResult @ getNodesByFilter f isSingle ns)"

lemma getNodesByParam_filter: "getNodesByParam eq ns = filter eq (transformToArrayFormat ns)"
  by (induction eq ns rule: getNodesByParam.induct) auto

lemma getNodeByParam_find: "getNodeByParam eq ns = find eq (transformToArrayFormat ns)"
proof (induction eq ns rule: getNodeByParam.induct)
  case (2 eq d ts ns)
  have "find eq (xs @ ys) = (case find eq xs of Some x \<Rightarrow> Some x | None \<Rightarrow> find eq ys)" for xs ys :: "'a list"
    by (induction xs) auto
  then show ?case using 2 by (simp split: option.split)
qed simp

lemma getNodesByFilter_all: "getNodesByFilter f False ns = filter f (transformToArrayFormat ns)"
  by (induction f False ns rule: getNodesByFilter.induct) (auto simp: Let_def)

lemma getNodesByFilter_one: "getNodesByFilter f True ns = take 1 (filter f (transformToArrayFormat ns))"
proof (induction f True ns rule: getNodesByFilter.induct)
  case (2 f d ts ns)
  show ?case
  proof (cases "f d")
    case False
    then show ?thesis
      using 2 by (cases "filter f (transformToArrayFormat ts)") (simp_all add: Let_def)
  qed simp
qed simp

section \<open>Which entries reach the forest\<close>

text \<open>
  The parent of an entry, read off the list, and the entries whose chain of parents ends.
\<close>

definition list_parent :: "('a \<Rightarrow> jstr) \<Rightarrow> ('a \<Rightarrow> jstr) \<Rightarrow> 'a list \<Rightarrow> 'a \<Rightarrow> 'a option" where
  "list_parent key parentKey xs x =
     (if key x = parentKey x then None else find (\<lambda>y. key y = parentKey x) (rev xs))"

fun comes_up :: "nat \<Rightarrow> ('a \<Rightarrow> jstr) \<Rightarrow> ('a \<Rightarrow> jstr) \<Rightarrow> 'a list \<Rightarrow> 'a \<Rightarrow> bool" where
  "comes_up 0 key parentKey xs x = False"
| "comes_up (Suc n) key parentKey xs x =
     (case list_parent key parentKey xs x of None \<Rightarrow> True | Some y \<Rightarrow> comes_up n key parentKey xs y)"

text \<open>Ancestors along links to a parent, and the nodes below one in the order they are read.\<close>

fun up_links :: "(nat \<Rightarrow> nat option) \<Rightarrow> nat \<Rightarrow> nat \<Rightarrow> nat option" where
  "up_links par 0 i = Some i"
| "up_links par (Suc k) i = (case up_links par k i of None \<Rightarrow> None | Some j \<Rightarrow> par j)"

fun down_links :: "nat \<Rightarrow> (nat \<Rightarrow> nat list) \<Rightarrow> nat \<Rightarrow> nat list" where
  "down_links 0 ch i = [i]"
| "down_links (Suc f) ch i = i # concat (map (down_links f ch) (ch i))"

lemma up_links_add: "up_links par (a + b) i = (case up_links par a i of None \<Rightarrow> None | Some j \<Rightarrow> up_links par b j)"
  by (induction b) (simp_all split: option.splits)

lemma up_links_first: "up_links par (Suc k) i = (case par i of None \<Rightarrow> None | Some j \<Rightarrow> up_links par k j)"
  using up_links_add [of par 1 k i] by simp

lemma up_links_none: "up_links par a i = None \<Longrightarrow> a \<le> b \<Longrightarrow> up_links par b i = None"
  using up_links_add [of par a "b - a" i] by simp

text \<open>A chain of parents that ends has one length.\<close>

definition ends_after :: "(nat \<Rightarrow> nat option) \<Rightarrow> nat \<Rightarrow> nat \<Rightarrow> bool" where
  "ends_after par k i \<longleftrightarrow> up_links par k i \<noteq> None \<and> up_links par (Suc k) i = None"

lemma ends_unique:
  assumes "ends_after par k i" "ends_after par l i"
  shows "k = l"
proof -
  have "\<not> k < l" if "ends_after par k i" "ends_after par l i" for k l
    using that up_links_none [of par "Suc k" i l] by (auto simp: ends_after_def)
  from this [OF assms] this [OF assms(2,1)] show ?thesis by simp
qed

lemma ends_above:
  assumes "ends_after par k i" "up_links par l i = Some j"
  shows "l \<le> k \<and> ends_after par (k - l) j"
proof -
  have l: "l \<le> k"
  proof (rule ccontr)
    assume "\<not> l \<le> k"
    then have "up_links par l i = None" using up_links_none [of par "Suc k" i l] assms(1) by (simp add: ends_after_def)
    then show False using assms(2) by simp
  qed
  moreover have "up_links par k i = up_links par (k - l) j" "up_links par (Suc k) i = up_links par (Suc (k - l)) j"
    using up_links_add [of par l "k - l" i] up_links_add [of par l "Suc (k - l)" i] assms(2) l by auto
  ultimately show ?thesis using assms(1) by (simp add: ends_after_def)
qed

lemma ends_below:
  assumes "ends_after par k j" "up_links par l i = Some j"
  shows "ends_after par (l + k) i"
  using assms up_links_add [of par l k i] up_links_add [of par l "Suc k" i] by (simp add: ends_after_def)

lemma ends_meet:
  assumes "ends_after par d b" "ends_after par d c" "up_links par k j = Some b" "up_links par l j = Some c"
  shows "b = c"
proof -
  have "k + d = l + d" using ends_unique [OF ends_below [OF assms(1,3)] ends_below [OF assms(2,4)]] .
  then show ?thesis using assms(3,4) by simp
qed

lemma distinct_concat_map:
  "\<lbrakk>distinct xs; \<And>x. x \<in> set xs \<Longrightarrow> distinct (g x);
    \<And>x y. \<lbrakk>x \<in> set xs; y \<in> set xs; x \<noteq> y\<rbrakk> \<Longrightarrow> set (g x) \<inter> set (g y) = {}\<rbrakk> \<Longrightarrow> distinct (concat (map g xs))"
proof (induction xs)
  case (Cons x xs)
  have "set (g x) \<inter> set (g y) = {}" if "y \<in> set xs" for y
    using Cons.prems(1) Cons.prems(3) [of x y] that by auto
  then show ?case using Cons by auto
qed simp

locale parent_links =
  fixes n :: nat and par :: "nat \<Rightarrow> nat option" and ch :: "nat \<Rightarrow> nat list"
  assumes in_range: "i < n \<Longrightarrow> par i = Some p \<Longrightarrow> p < n"
    and children: "ch p = filter (\<lambda>i. par i = Some p) [0..<n]"
begin

lemma up_in_range: "i < n \<Longrightarrow> up_links par k i = Some j \<Longrightarrow> j < n"
proof (induction k arbitrary: j)
  case (Suc k)
  then show ?case using in_range by (simp split: option.splits)
qed simp

lemma set_down: "i < n \<Longrightarrow> set (down_links f ch i) = {j. j < n \<and> (\<exists>k\<le>f. up_links par k j = Some i)}"
proof (induction f arbitrary: i)
  case (Suc f)
  have "j \<in> set (down_links (Suc f) ch i) \<longleftrightarrow> j < n \<and> (\<exists>k\<le>Suc f. up_links par k j = Some i)" for j
  proof
    assume "j \<in> set (down_links (Suc f) ch i)"
    then consider "j = i" | c where "c < n" "par c = Some i" "j \<in> set (down_links f ch c)"
      by (auto simp: children)
    then show "j < n \<and> (\<exists>k\<le>Suc f. up_links par k j = Some i)"
    proof cases
      case 1
      then show ?thesis using Suc.prems by (intro conjI exI [of _ 0]) simp_all
    next
      case 2
      then obtain k where "k \<le> f" "up_links par k j = Some c" "j < n" using Suc.IH [of c] by auto
      then show ?thesis using 2 by (intro conjI exI [of _ "Suc k"]) simp_all
    qed
  next
    assume "j < n \<and> (\<exists>k\<le>Suc f. up_links par k j = Some i)"
    then obtain k where k: "j < n" "k \<le> Suc f" "up_links par k j = Some i" by auto
    show "j \<in> set (down_links (Suc f) ch i)"
    proof (cases k)
      case (Suc k')
      then obtain c where c: "up_links par k' j = Some c" "par c = Some i" using k by (auto split: option.splits)
      then have "c < n" using up_in_range k by blast
      moreover have "j \<in> set (down_links f ch c)" using Suc.IH [OF \<open>c < n\<close>] c k Suc by auto
      ultimately show ?thesis using c by (auto simp: children)
    qed (use k in simp)
  qed
  then show ?case by blast
qed auto

lemma distinct_down:
  assumes "i < n" "ends_after par d i"
  shows "distinct (down_links f ch i)"
  using assms
proof (induction f arbitrary: i d)
  case (Suc f)
  have kid: "c < n \<and> par c = Some i \<and> ends_after par (Suc d) c" if "c \<in> set (ch i)" for c
    using that ends_below [of par d i 1 c] Suc.prems by (auto simp: children)
  have "distinct (concat (map (down_links f ch) (ch i)))"
  proof (rule distinct_concat_map)
    show "distinct (ch i)" by (simp add: children)
    show "distinct (down_links f ch c)" if "c \<in> set (ch i)" for c using Suc.IH kid [OF that] by blast
    fix b c assume bc: "b \<in> set (ch i)" "c \<in> set (ch i)" "b \<noteq> c"
    show "set (down_links f ch b) \<inter> set (down_links f ch c) = {}"
    proof (rule ccontr)
      assume "set (down_links f ch b) \<inter> set (down_links f ch c) \<noteq> {}"
      then obtain j where "j \<in> set (down_links f ch b)" "j \<in> set (down_links f ch c)" by auto
      then obtain k l where j: "up_links par k j = Some b" "up_links par l j = Some c"
        using set_down kid [OF bc(1)] kid [OF bc(2)] by auto
      then show False using ends_meet [of par "Suc d" b c k j l] kid [OF bc(1)] kid [OF bc(2)] bc(3) j by simp
    qed
  qed
  moreover have "i \<notin> set (down_links f ch c)" if "c \<in> set (ch i)" for c
  proof
    assume i: "i \<in> set (down_links f ch c)"
    have c: "c < n" "ends_after par (Suc d) c" using kid [OF that] by simp_all
    obtain k where "up_links par k i = Some c" using set_down [OF c(1)] i by auto
    then have "ends_after par (k + Suc d) i" using ends_below [OF c(2)] by blast
    then have "k + Suc d = d" using ends_unique Suc.prems(2) by blast
    then show False by simp
  qed
  ultimately show ?case by auto
qed simp

lemma ends_soon:
  assumes "i < n" "ends_after par k i"
  shows "k < n"
proof -
  have up: "up_links par a i \<noteq> None" if "a \<le> k" for a
    using that assms(2) up_links_none by (fastforce simp: ends_after_def)
  have "inj_on (\<lambda>a. the (up_links par a i)) {..k}"
  proof (rule inj_onI)
    fix a b assume ab: "a \<in> {..k}" "b \<in> {..k}" "the (up_links par a i) = the (up_links par b i)"
    then obtain j where "up_links par a i = Some j" "up_links par b i = Some j" using up by fastforce
    then have "k - a = k - b" using ends_above [OF assms(2)] ends_unique by metis
    then show "a = b" using ab by simp
  qed
  moreover have "(\<lambda>a. the (up_links par a i)) ` {..k} \<subseteq> {..<n}" using up up_in_range [OF assms(1)] by fastforce
  ultimately have "card {..k} \<le> card {..<n}" by (intro card_inj_on_le) auto
  then show ?thesis by simp
qed

lemma forest_places:
  "mset (concat (map (down_links n ch) (filter (\<lambda>i. par i = None) [0..<n]))) =
   mset (filter (\<lambda>i. \<exists>k<n. ends_after par k i) [0..<n])"
proof (rule set_eq_iff_mset_eq_distinct [THEN iffD1])
  have root: "ends_after par 0 i" if "par i = None" for i using that by (simp add: ends_after_def)
  show "distinct (concat (map (down_links n ch) (filter (\<lambda>i. par i = None) [0..<n])))"
  proof (rule distinct_concat_map)
    show "distinct (down_links n ch i)" if "i \<in> set (filter (\<lambda>i. par i = None) [0..<n])" for i
      using distinct_down root that by auto
    fix b c assume bc: "b \<in> set (filter (\<lambda>i. par i = None) [0..<n])" "c \<in> set (filter (\<lambda>i. par i = None) [0..<n])" "b \<noteq> c"
    show "set (down_links n ch b) \<inter> set (down_links n ch c) = {}"
    proof (rule ccontr)
      assume "set (down_links n ch b) \<inter> set (down_links n ch c) \<noteq> {}"
      then obtain j where "j \<in> set (down_links n ch b)" "j \<in> set (down_links n ch c)" by auto
      then obtain k l where j: "up_links par k j = Some b" "up_links par l j = Some c"
        using set_down bc by auto
      have "ends_after par 0 b" "ends_after par 0 c" using root bc by simp_all
      then show False using ends_meet [OF _ _ j] bc by blast
    qed
  qed simp
  show "distinct (filter (\<lambda>i. \<exists>k<n. ends_after par k i) [0..<n])" by simp
  have "j \<in> set (concat (map (down_links n ch) (filter (\<lambda>i. par i = None) [0..<n]))) \<longleftrightarrow> j < n \<and> (\<exists>k<n. ends_after par k j)" for j
  proof
    assume "j \<in> set (concat (map (down_links n ch) (filter (\<lambda>i. par i = None) [0..<n])))"
    then obtain i k where i: "par i = None" "j < n" "up_links par k j = Some i" using set_down by auto
    then have "ends_after par (k + 0) j" using ends_below root by blast
    then show "j < n \<and> (\<exists>k<n. ends_after par k j)" using ends_soon i by auto
  next
    assume "j < n \<and> (\<exists>k<n. ends_after par k j)"
    then obtain k i where k: "j < n" "k < n" "up_links par k j = Some i" "par i = None"
      by (auto simp: ends_after_def split: option.splits)
    then have "i < n" "j \<in> set (down_links n ch i)" using up_in_range set_down by (blast, auto intro: less_imp_le)
    then show "j \<in> set (concat (map (down_links n ch) (filter (\<lambda>i. par i = None) [0..<n])))" using k by auto
  qed
  then show "set (concat (map (down_links n ch) (filter (\<lambda>i. par i = None) [0..<n]))) = set (filter (\<lambda>i. \<exists>k<n. ends_after par k i) [0..<n])"
    by auto
qed

end

text \<open>The links the two loops build.\<close>

definition place_parent :: "('a \<Rightarrow> jstr) \<Rightarrow> ('a \<Rightarrow> jstr) \<Rightarrow> 'a list \<Rightarrow> nat \<Rightarrow> nat option" where
  "place_parent key parentKey xs i =
     (if key (xs ! i) = parentKey (xs ! i) then None else fill_map key xs 0 Map.empty (parentKey (xs ! i)))"

definition place_children :: "('a \<Rightarrow> jstr) \<Rightarrow> ('a \<Rightarrow> jstr) \<Rightarrow> 'a list \<Rightarrow> nat \<Rightarrow> nat list" where
  "place_children key parentKey xs p = filter (\<lambda>i. place_parent key parentKey xs i = Some p) [0..<length xs]"

lemma fill_map_snoc: "fill_map key (xs @ [x]) i m = (fill_map key xs i m)(key x \<mapsto> i + length xs)"
  by (induction xs arbitrary: i m) auto

lemma fill_map_range: "fill_map key xs 0 Map.empty k = Some p \<Longrightarrow> p < length xs \<and> key (xs ! p) = k"
  by (induction xs rule: rev_induct) (auto simp: fill_map_snoc nth_append split: if_splits)

lemma fill_map_find: "map_option (nth xs) (fill_map key xs 0 Map.empty k) = find (\<lambda>y. key y = k) (rev xs)"
proof (induction xs rule: rev_induct)
  case (snoc x xs)
  have "map_option (nth (xs @ [x])) (fill_map key xs 0 Map.empty k) = map_option (nth xs) (fill_map key xs 0 Map.empty k)"
    using fill_map_range [of key xs k] by (intro option.map_cong) (auto simp: nth_append)
  then show ?case using snoc by (auto simp: fill_map_snoc)
qed simp

interpretation list_links: parent_links "length xs" "place_parent key parentKey xs" "place_children key parentKey xs"
  for key parentKey :: "'a \<Rightarrow> jstr" and xs :: "'a list"
  by unfold_locales (auto simp: place_parent_def place_children_def dest: fill_map_range split: if_splits)

lemma parent_of_place:
  "map_option (nth xs) (place_parent key parentKey xs i) = list_parent key parentKey xs (xs ! i)"
  by (simp add: place_parent_def list_parent_def fill_map_find)

lemma attach_snoc:
  "attach_loop key parentKey m (xs @ [x]) i b = attach_loop key parentKey m [x] (i + length xs) (attach_loop key parentKey m xs i b)"
proof (induction xs arbitrary: i b)
  case (Cons a xs)
  show ?case unfolding append_Cons attach_loop.simps(2) [of key parentKey m a] Cons.IH by (simp only: length_Cons add_Suc_right add_Suc add_0_right One_nat_def)
qed simp

lemma attach_links:
  fixes key parentKey :: "'a \<Rightarrow> jstr"
  defines "P \<equiv> \<lambda>m x. if key x = parentKey x then None else m (parentKey x)"
  shows "attach_loop key parentKey m xs 0 \<lparr>zb_children = (\<lambda>_. []), zb_r = []\<rparr> =
    \<lparr>zb_children = (\<lambda>p. filter (\<lambda>i. P m (xs ! i) = Some p) [0..<length xs]),
     zb_r = filter (\<lambda>i. P m (xs ! i) = None) [0..<length xs]\<rparr>"
proof (induction xs rule: rev_induct)
  case (snoc x xs)
  have f: "filter (\<lambda>i. P m ((xs @ [x]) ! i) = q) [0..<length xs] = filter (\<lambda>i. P m (xs ! i) = q) [0..<length xs]" for q
    by (rule filter_cong) (simp_all add: nth_append)
  have "attach_loop key parentKey m [x] i b = (case P m x of
      Some p \<Rightarrow> b\<lparr>zb_children := (zb_children b)(p := zb_children b p @ [i])\<rparr> | None \<Rightarrow> b\<lparr>zb_r := zb_r b @ [i]\<rparr>)" for i b
    by (simp add: P_def split: option.split)
  then show ?case by (cases "P m x") (auto simp: attach_snoc snoc.IH fun_eq_iff f)
qed simp

lemma transform_places:
  "transformTozTreeFormat key parentKey xs =
     map (read_tree (length xs) (place_children key parentKey xs) xs)
       (filter (\<lambda>i. place_parent key parentKey xs i = None) [0..<length xs])"
  by (simp add: transformTozTreeFormat_def attach_links place_children_def [abs_def] place_parent_def Let_def)

lemma array_read: "transformToArray1 (read_tree f ch xs i) = map (nth xs) (down_links f ch i)"
  by (induction f arbitrary: i) (simp_all add: transformToArray1_def array_concat map_concat comp_def)

lemma zdata_read [simp]: "zdata (read_tree f ch xs i) = xs ! i"
  by (cases f) simp_all

lemma comes_up_places:
  "comes_up f key parentKey xs (xs ! i) \<longleftrightarrow> (\<exists>k<f. ends_after (place_parent key parentKey xs) k i)"
proof (induction f arbitrary: i)
  case (Suc f)
  let ?par = "place_parent key parentKey xs"
  show ?case
  proof (cases "?par i")
    case None
    then have "ends_after ?par 0 i" by (simp add: ends_after_def)
    moreover have "list_parent key parentKey xs (xs ! i) = None" using parent_of_place [of xs key parentKey i] None by simp
    ultimately show ?thesis by auto
  next
    case (Some p)
    have p: "list_parent key parentKey xs (xs ! i) = Some (xs ! p)" using parent_of_place [of xs key parentKey i] Some by simp
    have e: "ends_after ?par (Suc k) i \<longleftrightarrow> ends_after ?par k p" for k
      using up_links_first [of ?par k i] up_links_first [of ?par "Suc k" i] Some by (simp add: ends_after_def del: up_links.simps)
    have "\<not> ends_after ?par 0 i" using Some by (simp add: ends_after_def)
    then have "(\<exists>k<Suc f. ends_after ?par k i) \<longleftrightarrow> (\<exists>k<f. ends_after ?par k p)"
      using e by (metis Suc_less_eq gr0_conv_Suc less_Suc_eq_0_disj)
    then show ?thesis using Suc.IH [of p] p by simp
  qed
qed simp

lemma filter_places: "filter P xs = map (nth xs) (filter (\<lambda>i. P (xs ! i)) [0..<length xs])"
  by (simp add: filter_map [of P "nth xs", unfolded comp_def, symmetric] map_nth)

text \<open>All trees within a forest.\<close>

fun subtrees :: "'a ztree list \<Rightarrow> 'a ztree list" where
  "subtrees [] = []"
| "subtrees (ZNode d ts # ns) = ZNode d ts # subtrees ts @ subtrees ns"

lemma subtrees_one: "subtrees [n] = n # subtrees (zkids n)"
  by (cases n) simp

lemma in_subtrees: "t \<in> set (subtrees ns) \<longleftrightarrow> (\<exists>n\<in>set ns. t \<in> set (subtrees [n]))"
proof (induction ns)
  case (Cons n ns)
  then show ?case by (cases n) auto
qed simp

lemma subtrees_read:
  assumes "t \<in> set (subtrees [read_tree f (place_children key parentKey xs) xs i])" "i < length xs"
    "ends_after (place_parent key parentKey xs) e i" "length xs \<le> e + f"
  shows "\<exists>j<length xs. zdata t = xs ! j \<and> map zdata (zkids t) = map (nth xs) (place_children key parentKey xs j)"
  using assms
proof (induction f arbitrary: i e)
  case 0
  then show ?case using list_links.ends_soon [of i xs key parentKey e] by simp
next
  case (Suc f)
  let ?ch = "place_children key parentKey xs"
  consider "t = read_tree (Suc f) ?ch xs i" | c where "c \<in> set (?ch i)" "t \<in> set (subtrees [read_tree f ?ch xs c])"
    using Suc.prems(1) in_subtrees [of t "map (read_tree f ?ch xs) (?ch i)"] by (auto simp del: subtrees.simps simp: subtrees_one)
  then show ?case
  proof cases
    case 1
    then show ?thesis using Suc.prems(2) by (intro exI [of _ i]) simp
  next
    case 2
    then have c: "c < length xs" "place_parent key parentKey xs c = Some i" by (auto simp: place_children_def)
    have "ends_after (place_parent key parentKey xs) (1 + e) c" using ends_below [OF Suc.prems(3), of 1 c] c by simp
    then show ?thesis using Suc.IH [OF 2(2) c(1)] Suc.prems(4) by simp
  qed
qed

lemma forest_entries:
  "mset (transformToArrayFormat (transformTozTreeFormat key parentKey xs)) = mset (filter (comes_up (length xs) key parentKey xs) xs)"
proof -
  let ?par = "place_parent key parentKey xs" and ?ch = "place_children key parentKey xs"
  have "transformToArrayFormat (transformTozTreeFormat key parentKey xs) =
      map (nth xs) (concat (map (down_links (length xs) ?ch) (filter (\<lambda>i. ?par i = None) [0..<length xs])))"
    by (simp add: transform_places array_concat array_read map_concat comp_def)
  then have "mset (transformToArrayFormat (transformTozTreeFormat key parentKey xs)) =
      image_mset (nth xs) (mset (filter (\<lambda>i. \<exists>k<length xs. ends_after ?par k i) [0..<length xs]))"
    using list_links.forest_places [of xs key parentKey] by (simp only: mset_map)
  then show ?thesis using filter_places [of "comes_up (length xs) key parentKey xs" xs] by (simp add: comes_up_places)
qed

text \<open>
  C39: the forest holds exactly the entries of the list whose chain of parents ends, each once; at the top
  stand those without a parent in the list, and below every entry all those that name it as their
  parent, in the order of the list. Entries on a circle of parents, and all below them, are lost
  without a message; turned back into a list, a forest without such entries has those of the first list.
\<close>

theorem simple_data_forest:
  assumes "distinct (map key xs)" "fs = transformTozTreeFormat key parentKey xs"
  shows "mset (transformToArrayFormat fs) = mset (filter (comes_up (length xs) key parentKey xs) xs) \<and>
    map zdata fs = filter (\<lambda>x. list_parent key parentKey xs x = None) xs \<and>
    (\<forall>t\<in>set (subtrees fs). map zdata (zkids t) = filter (\<lambda>x. key x \<noteq> parentKey x \<and> parentKey x = key (zdata t)) xs)"
proof (intro conjI ballI)
  let ?par = "place_parent key parentKey xs" and ?ch = "place_children key parentKey xs"
  let ?roots = "filter (\<lambda>i. ?par i = None) [0..<length xs]"
  have fs: "fs = map (read_tree (length xs) ?ch xs) ?roots" using assms(2) transform_places by simp
  show "mset (transformToArrayFormat fs) = mset (filter (comes_up (length xs) key parentKey xs) xs)"
    unfolding assms(2) by (rule forest_entries)
  have none: "?par i = None \<longleftrightarrow> list_parent key parentKey xs (xs ! i) = None" for i
    using parent_of_place [of xs key parentKey i] by (metis option.map_disc_iff)
  then show "map zdata fs = filter (\<lambda>x. list_parent key parentKey xs x = None) xs"
    using filter_places [of "\<lambda>x. list_parent key parentKey xs x = None" xs] by (simp add: fs comp_def)
  fix t assume "t \<in> set (subtrees fs)"
  then obtain i where i: "i < length xs" "?par i = None" "t \<in> set (subtrees [read_tree (length xs) ?ch xs i])"
    using in_subtrees [of t fs] by (auto simp: fs)
  then have "ends_after ?par 0 i" by (simp add: ends_after_def)
  then obtain j where j: "j < length xs" "zdata t = xs ! j" "map zdata (zkids t) = map (nth xs) (?ch j)"
    using subtrees_read [OF i(3,1)] by auto
  have "?par i = Some j \<longleftrightarrow> key (xs ! i) \<noteq> parentKey (xs ! i) \<and> parentKey (xs ! i) = key (xs ! j)" if "i < length xs" for i
  proof
    assume "?par i = Some j"
    then show "key (xs ! i) \<noteq> parentKey (xs ! i) \<and> parentKey (xs ! i) = key (xs ! j)"
      by (auto simp: place_parent_def dest: fill_map_range split: if_splits)
  next
    assume r: "key (xs ! i) \<noteq> parentKey (xs ! i) \<and> parentKey (xs ! i) = key (xs ! j)"
    have "find (\<lambda>y. key y = key (xs ! j)) (rev xs) \<noteq> None" using nth_mem [OF j(1)] by (auto simp: find_None_iff)
    then obtain p where p: "fill_map key xs 0 Map.empty (key (xs ! j)) = Some p"
      using fill_map_find [of xs key "key (xs ! j)"] by (cases "fill_map key xs 0 Map.empty (key (xs ! j))") auto
    then have "p = j" using fill_map_range [OF p] assms(1) j(1) by (metis length_map nth_eq_iff_index_eq nth_map)
    then show "?par i = Some j" using p r by (auto simp: place_parent_def)
  qed
  then have "?ch j = filter (\<lambda>i. key (xs ! i) \<noteq> parentKey (xs ! i) \<and> parentKey (xs ! i) = key (xs ! j)) [0..<length xs]"
    unfolding place_children_def by (intro filter_cong) auto
  then show "map zdata (zkids t) = filter (\<lambda>x. key x \<noteq> parentKey x \<and> parentKey x = key (zdata t)) xs"
    using filter_places [of "\<lambda>x. key x \<noteq> parentKey x \<and> parentKey x = key (zdata t)" xs] j(2,3) by simp
qed

theorem simple_data_forest_witness:
  "mset (transformToArrayFormat (transformTozTreeFormat fst snd
      [(js ''b'', js ''a''), (js ''x'', js ''y''), (js ''a'', js ''0''), (js ''c'', js ''b''), (js ''y'', js ''x'')])) =
    mset [(js ''b'', js ''a''), (js ''a'', js ''0''), (js ''c'', js ''b'')]"
proof -
  let ?xs = "[(js ''b'', js ''a''), (js ''x'', js ''y''), (js ''a'', js ''0''), (js ''c'', js ''b''), (js ''y'', js ''x'')]"
  have "distinct (map fst ?xs)" by (simp add: js_def)
  from conjunct1 [OF simple_data_forest [OF this refl, of snd]] show ?thesis
    by (simp add: js_def list_parent_def eval_nat_numeral)
qed

end
