(* ===== verification/Ztree_Check.thy ===== *)
theory Ztree_Check
  imports Ztree_Data
begin

text \<open>
  The check boxes of the trees of authorisations and accounts
  (\<open>content/system/js/zTree/jquery.ztree.excheck.js\<close>, with the parts of \<open>jquery.ztree.core.js\<close> that
  create and open nodes). A click on a box changes the boxes below and above it (\<open>checkNodeRelation\<close>),
  and every inner node keeps in \<open>check_Child_State\<close> whether all, some or none of what is below it is
  checked, which the class of its box shows. Nodes are reached by their path from the root, the
  indexes of the children; the \<open>parentTId\<close> of a node is the path without its last index. Boxes have the
  style of check boxes (the settings of the pages ask for no other) and no callbacks are set.
\<close>

section \<open>Nodes and settings\<close>

record zt =
  zt_id :: jstr
  zt_pId :: "jstr option"
  zt_open :: bool
  zt_isParent :: bool
  zt_checked :: bool
  zt_nocheck :: bool
  zt_chkDisabled :: bool
  zt_halfCheck :: bool
  zt_level :: nat
  zt_tId :: nat
  zt_isFirstNode :: bool
  zt_isLastNode :: bool
  zt_checkedOld :: bool
  zt_check_Child_State :: int
  zt_check_Focus :: bool
  zt_class :: "string option"  \<comment> \<open>the class of the box, once it has been created\<close>

record zsetting =
  zs_nocheckInherit :: bool
  zs_chkDisabledInherit :: bool
  zs_Y :: string
  zs_N :: string

text \<open>The setting of \<open>privilege_role.js\<close> and \<open>jwid_user.js\<close>, completed by the defaults.\<close>

definition auth_setting :: zsetting where
  "auth_setting = \<lparr>zs_nocheckInherit = False, zs_chkDisabledInherit = False, zs_Y = ''ps'', zs_N = ''ps''\<rparr>"

type_synonym zforest = "zt ztree list"

text \<open>A place without a box that can be checked.\<close>

definition boxless :: "zt \<Rightarrow> bool" where
  "boxless d \<longleftrightarrow> zt_nocheck d \<or> zt_chkDisabled d"

section \<open>Paths\<close>

fun node_at :: "nat list \<Rightarrow> 'a ztree list \<Rightarrow> 'a ztree option" where
  "node_at [] ns = None"
| "node_at (k # p) ns =
     (if k < length ns then (if p = [] then Some (ns ! k) else node_at p (zkids (ns ! k))) else None)"

fun upd_at :: "nat list \<Rightarrow> ('a ztree \<Rightarrow> 'a ztree) \<Rightarrow> 'a ztree list \<Rightarrow> 'a ztree list" where
  "upd_at [] f ns = ns"
| "upd_at (k # p) f ns =
     (if k < length ns
      then ns[k := (if p = [] then f (ns ! k) else ZNode (zdata (ns ! k)) (upd_at p f (zkids (ns ! k))))]
      else ns)"

text \<open>The node at a path and its brothers: the children of its parent, or of the root.\<close>

definition brothers :: "nat list \<Rightarrow> 'a ztree list \<Rightarrow> 'a ztree list" where
  "brothers p ns =
     (if length p \<le> 1 then ns else (case node_at (butlast p) ns of Some n \<Rightarrow> zkids n | None \<Rightarrow> []))"

section \<open>The state of the children and the class of a box\<close>

definition child_tmp :: "zt \<Rightarrow> int" where
  "child_tmp c =
     (if boxless c then zt_check_Child_State c
      else if zt_halfCheck c then 1
      else if zt_checked c then (if zt_check_Child_State c = -1 \<or> zt_check_Child_State c = 2 then 2 else 1)
      else (if 0 < zt_check_Child_State c then 1 else 0))"

fun flag_loop :: "nat \<Rightarrow> int \<Rightarrow> zt list \<Rightarrow> int" where
  "flag_loop i chkFlag [] = chkFlag"
| "flag_loop i chkFlag (c # cs) =
     (let tmp = child_tmp c
      in if tmp = 1 then 1
         else if tmp = 2 \<and> -1 < chkFlag \<and> 0 < i \<and> tmp \<noteq> chkFlag then 1
         else if chkFlag = 2 \<and> -1 < tmp \<and> tmp < 2 then 1
         else if -1 < tmp then flag_loop (i + 1) tmp cs
         else flag_loop (i + 1) chkFlag cs)"

definition makeChkFlag :: "zt ztree \<Rightarrow> zt ztree" where
  "makeChkFlag n = ZNode ((zdata n)\<lparr>zt_check_Child_State := flag_loop 0 (-1) (map zdata (zkids n))\<rparr>) (zkids n)"

definition makeChkClass :: "zt \<Rightarrow> string" where
  "makeChkClass d =
     (let full =
        (if zt_chkDisabled d then ''disable''
         else if zt_halfCheck d then ''part''
         else if zt_checked d
         then (if zt_check_Child_State d = 2 \<or> zt_check_Child_State d = -1 then ''full'' else ''part'')
         else (if zt_check_Child_State d < 1 then ''full'' else ''part''));
        chkName = ''checkbox_'' @ (if zt_checked d then ''true'' else ''false'') @ ''_'' @ full
      in ''button chk '' @ (if zt_check_Focus d \<and> \<not> zt_chkDisabled d then chkName @ ''_focus'' else chkName))"

definition class_of :: "zt \<Rightarrow> zt" where
  "class_of d = d\<lparr>zt_class := map_option (\<lambda>_. makeChkClass d) (zt_class d)\<rparr>"

text \<open>\<open>setChkClass\<close> writes the class of the box, if there is one.\<close>

definition setChkClass :: "zt ztree \<Rightarrow> zt ztree" where
  "setChkClass n = ZNode (class_of (zdata n)) (zkids n)"

definition repairChkClass :: "zt ztree \<Rightarrow> zt ztree" where
  "repairChkClass n = (if zt_nocheck (zdata n) then makeChkFlag n else setChkClass (makeChkFlag n))"

fun repairParentChkClass :: "nat list \<Rightarrow> zforest \<Rightarrow> zforest" where
  "repairParentChkClass p ns =
     (if length p \<le> 1 then ns
      else repairParentChkClass (butlast p) (upd_at (butlast p) repairChkClass ns))"

definition repairParentChkClassWithSelf :: "nat list \<Rightarrow> zforest \<Rightarrow> zforest" where
  "repairParentChkClassWithSelf p ns =
     (case node_at p ns of
        None \<Rightarrow> ns
      | Some n \<Rightarrow> if zkids n \<noteq> [] then repairParentChkClass (p @ [0]) ns else repairParentChkClass p ns)"

declare repairParentChkClass.simps [simp del]

section \<open>Below and above a box\<close>

fun setSonNodeCheckBox :: "bool \<Rightarrow> zt ztree \<Rightarrow> zt ztree" where
  "setSonNodeCheckBox value (ZNode d ts) =
     (let ts' = map (setSonNodeCheckBox value) ts;
          hasDisable = list_ex (\<lambda>t. zt_chkDisabled (zdata t)) ts'
      in if zt_chkDisabled d then ZNode d ts'
         else if zt_nocheck d then setChkClass (ZNode (d\<lparr>zt_check_Child_State := -1\<rparr>) ts')
         else if hasDisable
         then setChkClass (ZNode ((zdata (makeChkFlag (ZNode d ts')))\<lparr>zt_checked := value\<rparr>) ts')
         else setChkClass (ZNode (d\<lparr>zt_checked := value,
                zt_check_Child_State := (if ts' \<noteq> [] then (if value then 2 else 0) else -1)\<rparr>) ts'))"

definition keeps_parent :: "zforest \<Rightarrow> bool" where
  "keeps_parent pNodes \<longleftrightarrow>
     list_ex (\<lambda>n. (\<not> boxless (zdata n) \<and> zt_checked (zdata n)) \<or> (boxless (zdata n) \<and> 0 < zt_check_Child_State (zdata n))) pNodes"

definition mark_parent :: "bool \<Rightarrow> zt ztree \<Rightarrow> zt ztree" where
  "mark_parent value n =
     (let n = makeChkFlag n
      in if boxless (zdata n) then n else setChkClass (ZNode ((zdata n)\<lparr>zt_checked := value\<rparr>) (zkids n)))"

fun setParentNodeCheckBox :: "bool \<Rightarrow> nat list \<Rightarrow> zforest \<Rightarrow> zforest" where
  "setParentNodeCheckBox value p ns =
     (let ns = upd_at p (mark_parent value) ns
      in if 1 < length p \<and> (value \<or> \<not> keeps_parent (brothers p ns))
         then setParentNodeCheckBox value (butlast p) ns else ns)"

declare setParentNodeCheckBox.simps [simp del]

definition is_checked :: "nat list \<Rightarrow> zforest \<Rightarrow> bool" where
  "is_checked p ns = (case node_at p ns of Some n \<Rightarrow> zt_checked (zdata n) | None \<Rightarrow> False)"

definition is_leaf :: "nat list \<Rightarrow> zforest \<Rightarrow> bool" where
  "is_leaf p ns = (case node_at p ns of Some n \<Rightarrow> zkids n = [] | None \<Rightarrow> True)"

definition checkNodeRelation :: "zsetting \<Rightarrow> nat list \<Rightarrow> zforest \<Rightarrow> zforest" where
  "checkNodeRelation st p ns =
     (let ns = (if is_checked p ns \<and> (is_leaf p ns \<or> CHR ''s'' \<in> set (zs_Y st)) then upd_at p (setSonNodeCheckBox True) ns else ns);
          ns = (if \<not> is_checked p ns \<and> (is_leaf p ns \<or> CHR ''s'' \<in> set (zs_N st)) then upd_at p (setSonNodeCheckBox False) ns else ns);
          ns = (if is_checked p ns \<and> CHR ''p'' \<in> set (zs_Y st) then setParentNodeCheckBox True p ns else ns)
      in if \<not> is_checked p ns \<and> CHR ''p'' \<in> set (zs_N st) then setParentNodeCheckBox False p ns else ns)"

section \<open>What the user and the program do with boxes\<close>

definition set_checked :: "bool \<Rightarrow> zt ztree \<Rightarrow> zt ztree" where
  "set_checked b n = ZNode ((zdata n)\<lparr>zt_checked := b\<rparr>) (zkids n)"

definition set_focus :: "bool \<Rightarrow> zt ztree \<Rightarrow> zt ztree" where
  "set_focus b n = ZNode ((zdata n)\<lparr>zt_check_Focus := b\<rparr>) (zkids n)"

text \<open>The end of \<open>onCheckNode\<close> and \<open>checkNode\<close>: the box and those above it show what they are.\<close>

definition show_boxes :: "nat list \<Rightarrow> zforest \<Rightarrow> zforest" where
  "show_boxes p ns = repairParentChkClassWithSelf p (upd_at p setChkClass ns)"

definition onCheckNode :: "zsetting \<Rightarrow> nat list \<Rightarrow> zforest \<Rightarrow> zforest" where
  "onCheckNode st p ns =
     (case node_at p ns of
        None \<Rightarrow> ns
      | Some n \<Rightarrow>
          if zt_chkDisabled (zdata n) then ns
          else show_boxes p (checkNodeRelation st p (upd_at p (set_checked (\<not> zt_checked (zdata n))) ns)))"

definition onMouseCheck :: "bool \<Rightarrow> nat list \<Rightarrow> zforest \<Rightarrow> zforest" where
  "onMouseCheck over p ns =
     (case node_at p ns of
        None \<Rightarrow> ns
      | Some n \<Rightarrow> if zt_chkDisabled (zdata n) then ns else upd_at p (setChkClass \<circ> set_focus over) ns)"

definition checkNode :: "zsetting \<Rightarrow> nat list \<Rightarrow> bool option \<Rightarrow> bool \<Rightarrow> zforest \<Rightarrow> zforest" where
  "checkNode st p checked checkTypeFlag ns =
     (case node_at p ns of
        None \<Rightarrow> ns
      | Some n \<Rightarrow>
          let c = (case checked of Some c \<Rightarrow> c | None \<Rightarrow> \<not> zt_checked (zdata n))
          in if zt_chkDisabled (zdata n) then ns
             else if zt_checked (zdata n) = c \<and> \<not> checkTypeFlag then ns
             else if zt_nocheck (zdata n) then ns
             else let ns = upd_at p (set_checked c) ns
                  in show_boxes p (if checkTypeFlag then checkNodeRelation st p ns else ns))"

definition repairAllChk :: "bool \<Rightarrow> zforest \<Rightarrow> zforest" where
  "repairAllChk checked ns =
     map (\<lambda>n. setSonNodeCheckBox checked (if boxless (zdata n) then n else set_checked checked n)) ns"

fun repairSonChkDisabled :: "bool \<Rightarrow> bool \<Rightarrow> zt ztree \<Rightarrow> zt ztree" where
  "repairSonChkDisabled disabled inherit (ZNode d ts) =
     (case repairChkClass (ZNode (d\<lparr>zt_chkDisabled := disabled\<rparr>) ts) of
        ZNode d' ts' \<Rightarrow> ZNode d' (if inherit then map (repairSonChkDisabled disabled inherit) ts else ts))"

definition disable_above :: "bool \<Rightarrow> bool \<Rightarrow> zt ztree \<Rightarrow> zt ztree" where
  "disable_above disabled inherit n =
     repairChkClass (if inherit then ZNode ((zdata n)\<lparr>zt_chkDisabled := disabled\<rparr>) (zkids n) else n)"

fun repairParentChkDisabled :: "bool \<Rightarrow> bool \<Rightarrow> nat list \<Rightarrow> zforest \<Rightarrow> zforest" where
  "repairParentChkDisabled disabled inherit p ns =
     (if p = [] then ns
      else repairParentChkDisabled disabled inherit (butlast p) (upd_at p (disable_above disabled inherit) ns))"

declare repairParentChkDisabled.simps [simp del]

definition setChkDisabled :: "nat list \<Rightarrow> bool \<Rightarrow> bool \<Rightarrow> bool \<Rightarrow> zforest \<Rightarrow> zforest" where
  "setChkDisabled p disabled inheritParent inheritChildren ns =
     repairParentChkDisabled disabled inheritParent (butlast p) (upd_at p (repairSonChkDisabled disabled inheritChildren) ns)"

section \<open>Creating and opening nodes\<close>

text \<open>
  \<open>initNode\<close> of both files: the number, the level and the place of a node, the id of its parent
  (\<open>fixPIdKeyValue\<close>; \<open>rootPId\<close> is null), and the state of its box.
\<close>

definition initNode :: "zsetting \<Rightarrow> nat \<Rightarrow> nat \<Rightarrow> zt option \<Rightarrow> bool \<Rightarrow> bool \<Rightarrow> bool \<Rightarrow> zt \<Rightarrow> zt" where
  "initNode st level zId parent isFirst isLast hasChildren n =
     n\<lparr>zt_level := level, zt_tId := zId + 1,
       zt_isParent := hasChildren \<or> zt_isParent n,
       zt_open := (hasChildren \<or> zt_isParent n) \<and> zt_open n,
       zt_isFirstNode := isFirst, zt_isLastNode := isLast,
       zt_pId := map_option zt_id parent,
       zt_checkedOld := zt_checked n,
       zt_nocheck := zt_nocheck n \<or> (zs_nocheckInherit st \<and> (case parent of Some q \<Rightarrow> zt_nocheck q | None \<Rightarrow> False)),
       zt_chkDisabled := zt_chkDisabled n \<or> (zs_chkDisabledInherit st \<and> (case parent of Some q \<Rightarrow> zt_chkDisabled q | None \<Rightarrow> False)),
       zt_check_Child_State := -1, zt_check_Focus := False, zt_class := None\<rparr>"

text \<open>\<open>beforeA\<close>: the box of a node that is put on the page.\<close>

definition beforeA :: "zt ztree \<Rightarrow> zt ztree" where
  "beforeA n = (let n = makeChkFlag n in ZNode ((zdata n)\<lparr>zt_class := Some (makeChkClass (zdata n))\<rparr>) (zkids n))"

text \<open>
  \<open>appendNodes\<close> with its wrapper in \<open>excheck\<close>, which sets the state of a parent when its children have
  been appended. \<open>i\<close> is the index in the list of \<open>l\<close> nodes, \<open>zId\<close> the last number given.
\<close>

fun appendNodes :: "zsetting \<Rightarrow> nat \<Rightarrow> zt option \<Rightarrow> bool \<Rightarrow> bool \<Rightarrow> nat \<Rightarrow> nat \<Rightarrow> nat \<Rightarrow> zforest \<Rightarrow> zforest \<times> nat" where
  "appendNodes st level parent initFlag openFlag i l zId [] = ([], zId)"
| "appendNodes st level parent initFlag openFlag i l zId (ZNode d ts # ns) =
     (let d = (if initFlag then initNode st level zId parent (i = 0) (i + 1 = l) (ts \<noteq> []) d else d);
          (ts', z) = appendNodes st (level + 1) (Some d) initFlag (openFlag \<and> zt_open d) 0 (length ts)
                       (if initFlag then zId + 1 else zId) ts;
          n = (if ts' \<noteq> [] then makeChkFlag (ZNode d ts') else ZNode d ts');
          n = (if openFlag then beforeA n else n);
          (ns', z') = appendNodes st level parent initFlag openFlag (i + 1) l z ns
      in (n # ns', z'))"

definition zTree_init :: "zsetting \<Rightarrow> zforest \<Rightarrow> zforest" where
  "zTree_init st zNodes = fst (appendNodes st 0 None True True 0 (length zNodes) 0 zNodes)"

text \<open>
  \<open>switchNode\<close>: the children of a node that is opened are put on the page unless they are there; the
  node then changes between open and closed.
\<close>

definition appendParentULDom :: "zsetting \<Rightarrow> zt ztree \<Rightarrow> zt ztree" where
  "appendParentULDom st n =
     (let n' = ZNode (zdata n) (fst (appendNodes st (zt_level (zdata n) + 1) (Some (zdata n)) False True 0 (length (zkids n)) 0 (zkids n)))
      in makeChkFlag n')"

definition expandCollapseNode :: "zsetting \<Rightarrow> bool \<Rightarrow> zt ztree \<Rightarrow> zt ztree" where
  "expandCollapseNode st expandFlag n =
     (let n = (if \<not> zt_open (zdata n) \<and> zt_isParent (zdata n) \<and>
                  (case zkids n of [] \<Rightarrow> True | c # _ \<Rightarrow> zt_class (zdata c) = None)
               then appendParentULDom st n else n)
      in if zt_open (zdata n) = expandFlag \<or> \<not> zt_isParent (zdata n) then n
         else ZNode ((zdata n)\<lparr>zt_open := \<not> zt_open (zdata n)\<rparr>) (zkids n))"

definition switchNode :: "zsetting \<Rightarrow> nat list \<Rightarrow> zforest \<Rightarrow> zforest" where
  "switchNode st p ns = upd_at p (\<lambda>n. expandCollapseNode st (\<not> zt_open (zdata n)) n) ns"

section \<open>What is read from the boxes\<close>

fun getTreeCheckedNodes :: "bool \<Rightarrow> zforest \<Rightarrow> zt list" where
  "getTreeCheckedNodes checked [] = []"
| "getTreeCheckedNodes checked (ZNode d ts # ns) =
     (if \<not> boxless d \<and> zt_checked d = checked then [d] else []) @
     getTreeCheckedNodes checked ts @ getTreeCheckedNodes checked ns"

fun getTreeChangeCheckedNodes :: "zforest \<Rightarrow> zt list" where
  "getTreeChangeCheckedNodes [] = []"
| "getTreeChangeCheckedNodes (ZNode d ts # ns) =
     (if \<not> boxless d \<and> zt_checked d \<noteq> zt_checkedOld d then [d] else []) @
     getTreeChangeCheckedNodes ts @ getTreeChangeCheckedNodes ns"

text \<open>\<open>getCheckStatus\<close>: whether a box is checked, and whether half.\<close>

definition getCheckStatus :: "zt \<Rightarrow> (bool \<times> bool) option" where
  "getCheckStatus d =
     (if boxless d then None
      else Some (zt_checked d,
        if zt_halfCheck d then True
        else if zt_checked d then -1 < zt_check_Child_State d \<and> zt_check_Child_State d < 2
        else 0 < zt_check_Child_State d))"

section \<open>Events\<close>

datatype zevent =
    CheckClick "nat list"
  | CheckMouse bool "nat list"
  | CheckNode "nat list" "bool option" bool
  | CheckAll bool
  | SetDisabled "nat list" bool bool bool
  | SwitchClick "nat list"

fun ztree_step :: "zsetting \<Rightarrow> zevent \<Rightarrow> zforest \<Rightarrow> zforest" where
  "ztree_step st (CheckClick p) ns = onCheckNode st p ns"
| "ztree_step st (CheckMouse over p) ns = onMouseCheck over p ns"
| "ztree_step st (CheckNode p c f) ns = checkNode st p c f ns"
| "ztree_step st (CheckAll c) ns = repairAllChk c ns"
| "ztree_step st (SetDisabled p b ip ic) ns = setChkDisabled p b ip ic ns"
| "ztree_step st (SwitchClick p) ns = switchNode st p ns"

definition ztree_run :: "zsetting \<Rightarrow> zevent list \<Rightarrow> zforest \<Rightarrow> zforest" where
  "ztree_run st es ns = fold (ztree_step st) es ns"

section \<open>The loop over the children\<close>

text \<open>The loop is a vote of the children that have one: all, none, or some.\<close>

definition flag_vote :: "int list \<Rightarrow> int" where
  "flag_vote vs = (let ws = filter (\<lambda>v. v \<noteq> -1) vs
     in if ws = [] then -1 else if set ws = {2} then 2 else if set ws = {0} then 0 else 1)"

lemma flag_loop_rest:
  assumes "\<forall>c\<in>set cs. child_tmp c \<in> {-1, 0, 1, 2}" "f = 0 \<or> f = 2" "0 < i"
  shows "flag_loop i f cs = (if \<forall>c\<in>set cs. child_tmp c = -1 \<or> child_tmp c = f then f else 1)"
  using assms
proof (induction cs arbitrary: i)
  case (Cons c cs)
  have "child_tmp c = -1 \<or> child_tmp c = 0 \<or> child_tmp c = 1 \<or> child_tmp c = 2" using Cons.prems by simp
  then show ?case using Cons.IH [of "i + 1"] Cons.prems by (elim disjE) (simp_all add: Let_def)
qed simp

lemma flag_vote_first:
  assumes "v = 0 \<or> v = 2"
  shows "flag_vote (v # vs) = (if \<forall>w\<in>set vs. w = -1 \<or> w = v then v else 1)"
proof -
  let ?s = "set (filter (\<lambda>w. w \<noteq> -1) (v # vs))"
  have v: "v \<in> ?s" using assms by auto
  have e: "?s = {v} \<longleftrightarrow> (\<forall>w\<in>set vs. w = -1 \<or> w = v)" using assms by auto
  have "?s \<noteq> {w}" if "w \<noteq> v" for w
  proof
    assume "?s = {w}"
    then show False using v that by (simp only: singleton_iff)
  qed
  then have "flag_vote (v # vs) = (if ?s = {v} then v else 1)"
    using assms unfolding flag_vote_def Let_def by (elim disjE) (auto split: if_splits)
  then show ?thesis unfolding e .
qed

lemma flag_loop_vote:
  assumes "\<forall>c\<in>set cs. child_tmp c \<in> {-1, 0, 1, 2}"
  shows "flag_loop i (-1) cs = flag_vote (map child_tmp cs)"
  using assms
proof (induction cs arbitrary: i)
  case (Cons c cs)
  have "child_tmp c = -1 \<or> child_tmp c = 1 \<or> child_tmp c = 0 \<or> child_tmp c = 2" using Cons.prems by auto
  moreover have "flag_vote (1 # vs) = 1" for vs by (auto simp: flag_vote_def Let_def)
  moreover have "flag_vote (-1 # vs) = flag_vote vs" for vs by (simp add: flag_vote_def)
  ultimately show ?case
    using Cons flag_loop_rest [of cs "child_tmp c" "i + 1"] flag_vote_first [of "child_tmp c" "map child_tmp cs"]
    by (elim disjE) (simp_all add: Let_def)
qed (simp add: flag_vote_def)

section \<open>Boxes that agree\<close>

definition plain_box :: "zt \<Rightarrow> bool" where
  "plain_box d \<longleftrightarrow> \<not> zt_nocheck d \<and> \<not> zt_chkDisabled d \<and> \<not> zt_halfCheck d"

abbreviation box_checked :: "zt ztree \<Rightarrow> bool" where
  "box_checked n \<equiv> zt_checked (zdata n)"

text \<open>What the server sends: plain boxes, inner nodes checked exactly if a child is.\<close>

fun ready :: "zt ztree \<Rightarrow> bool" where
  "ready (ZNode d ts) \<longleftrightarrow> plain_box d \<and> (ts \<noteq> [] \<longrightarrow> zt_checked d = list_ex box_checked ts) \<and> list_all ready ts"

text \<open>On the page the state and the class are also right.\<close>

fun agrees :: "zt ztree \<Rightarrow> bool" where
  "agrees (ZNode d ts) \<longleftrightarrow> plain_box d \<and> (ts \<noteq> [] \<longrightarrow> zt_checked d = list_ex box_checked ts) \<and>
     zt_check_Child_State d = flag_loop 0 (-1) (map zdata ts) \<and> class_of d = d \<and> list_all agrees ts"

fun all_plain :: "zt ztree \<Rightarrow> bool" where
  "all_plain (ZNode d ts) \<longleftrightarrow> plain_box d \<and> list_all all_plain ts"

lemma class_of_simps [simp]:
  "zt_id (class_of d) = zt_id d" "zt_checked (class_of d) = zt_checked d" "zt_open (class_of d) = zt_open d"
  "zt_check_Child_State (class_of d) = zt_check_Child_State d" "plain_box (class_of d) = plain_box d"
  "zt_nocheck (class_of d) = zt_nocheck d" "zt_chkDisabled (class_of d) = zt_chkDisabled d"
  "zt_isParent (class_of d) = zt_isParent d"
  by (simp_all add: class_of_def plain_box_def)

lemma plain_box_upd [simp]:
  "plain_box (d\<lparr>zt_checked := v\<rparr>) = plain_box d" "plain_box (d\<lparr>zt_check_Child_State := i\<rparr>) = plain_box d"
  "plain_box (d\<lparr>zt_check_Focus := v\<rparr>) = plain_box d" "plain_box (d\<lparr>zt_class := c\<rparr>) = plain_box d"
  "plain_box (d\<lparr>zt_open := v\<rparr>) = plain_box d"
  by (simp_all add: plain_box_def)

lemma plain_boxD: "plain_box d \<Longrightarrow> \<not> zt_nocheck d \<and> \<not> zt_chkDisabled d \<and> \<not> zt_halfCheck d"
  by (simp add: plain_box_def)

lemma checked_same: "zt_checked d = v \<Longrightarrow> d\<lparr>zt_checked := v\<rparr> = d"
  by (cases d) simp

lemma class_of_idem [simp]: "class_of (class_of d) = class_of d"
  by (simp add: class_of_def makeChkClass_def option.map_comp comp_def)

lemma agrees_plain: "agrees n \<Longrightarrow> all_plain n"
  by (induction n rule: agrees.induct) (simp add: list_all_iff)

lemma list_all_nth_D: "list_all P xs \<Longrightarrow> k < length xs \<Longrightarrow> P (xs ! k)"
  by (simp add: list_all_length)

lemma list_all_upd: "list_all P xs \<Longrightarrow> P x \<Longrightarrow> list_all P (xs[k := x])"
  by (cases "k < length xs") (auto simp: list_all_length nth_list_update)

subsection \<open>Everything below a box\<close>

fun put_all :: "bool \<Rightarrow> zt ztree \<Rightarrow> zt ztree" where
  "put_all v (ZNode d ts) =
     ZNode (class_of (d\<lparr>zt_checked := v, zt_check_Child_State := (if ts \<noteq> [] then (if v then 2 else 0) else -1)\<rparr>)) (map (put_all v) ts)"

lemma put_all_simps [simp]: "box_checked (put_all v n) = v" "zkids (put_all v n) = map (put_all v) (zkids n)"
  by (cases n; simp)+

lemma all_plain_put: "all_plain n \<Longrightarrow> all_plain (put_all v n)"
  by (induction n rule: all_plain.induct) (simp add: list_all_iff)

lemma all_plain_data: "all_plain n \<Longrightarrow> plain_box (zdata n)"
  by (cases n) simp

lemma set_son_plain: "all_plain n \<Longrightarrow> setSonNodeCheckBox v n = put_all v n"
proof (induction n rule: all_plain.induct)
  case (1 d ts)
  then have m: "map (setSonNodeCheckBox v) ts = map (put_all v) ts" by (auto simp: list_all_iff)
  have "\<not> list_ex (\<lambda>t. zt_chkDisabled (zdata t)) (map (put_all v) ts)"
    using 1 all_plain_data [OF all_plain_put] by (auto simp: list_ex_iff list_all_iff dest: plain_boxD)
  then show ?case
    unfolding setSonNodeCheckBox.simps put_all.simps m Let_def using 1 by (simp add: setChkClass_def plain_boxD)
qed

lemma put_all_tmp: "all_plain n \<Longrightarrow> child_tmp (zdata (put_all v n)) = (if v then 2 else 0)"
  by (cases n) (simp add: child_tmp_def boxless_def plain_box_def class_of_def)

lemma put_all_flag:
  assumes "list_all all_plain ts" "ts \<noteq> []"
  shows "flag_loop i (-1) (map zdata (map (put_all v) ts)) = (if v then 2 else 0)"
proof -
  have "set (map child_tmp (map zdata (map (put_all v) ts))) = {if v then 2 else 0}"
    using assms put_all_tmp by (cases ts) (auto simp: list_all_iff)
  moreover from this have "filter (\<lambda>w. w \<noteq> -1) (map child_tmp (map zdata (map (put_all v) ts))) = map child_tmp (map zdata (map (put_all v) ts))"
    by (auto intro!: filter_True split: if_splits)
  moreover have "\<forall>c\<in>set (map zdata (map (put_all v) ts)). child_tmp c \<in> {-1, 0, 1, 2}"
    using assms put_all_tmp by (auto simp: list_all_iff)
  ultimately show ?thesis using assms(2) by (subst flag_loop_vote) (auto simp: flag_vote_def Let_def)
qed

lemma agrees_put_all: "all_plain n \<Longrightarrow> agrees (put_all v n)"
proof (induction n rule: all_plain.induct)
  case (1 d ts)
  then have "list_all agrees (map (put_all v) ts)" by (auto simp: list_all_iff)
  moreover have "list_ex box_checked (map (put_all v) ts) = v" if "ts \<noteq> []" using that by (cases ts) (auto simp: list_ex_iff)
  ultimately show ?case using 1 put_all_flag [of ts 0 v] by (auto simp del: map_map)
qed

text \<open>The handlers leave such a part of the tree alone.\<close>

lemma agrees_fixed:
  assumes "agrees n"
  shows "makeChkFlag n = n" "setChkClass n = n" "repairChkClass n = n" "box_checked n = v \<Longrightarrow> mark_parent v n = n"
proof -
  obtain d ts where n: "n = ZNode d ts" by (cases n)
  show m: "makeChkFlag n = n" and c: "setChkClass n = n" using assms by (simp_all add: n makeChkFlag_def setChkClass_def)
  show "repairChkClass n = n" by (simp add: repairChkClass_def m c)
  show "mark_parent v n = n" if "box_checked n = v"
    using that assms m by (simp add: n mark_parent_def Let_def setChkClass_def boxless_def plain_boxD checked_same)
qed

section \<open>The ways up as recursion along the path\<close>

text \<open>
  The recursion over the parents starts at a node and stops somewhere above it; read from the root, it
  is a recursion along the path that is told whether the walk came so far.
\<close>

fun climb :: "bool \<Rightarrow> nat list \<Rightarrow> zforest \<Rightarrow> zforest \<times> bool" where
  "climb v [] ns = (ns, False)"
| "climb v (k # p) ns =
     (if k < length ns
      then if p = [] then (ns[k := mark_parent v (ns ! k)], True)
           else (case climb v p (zkids (ns ! k)) of
                   (cs, go) \<Rightarrow>
                     if go \<and> (v \<or> \<not> keeps_parent cs) then (ns[k := mark_parent v (ZNode (zdata (ns ! k)) cs)], True)
                     else (ns[k := ZNode (zdata (ns ! k)) cs], False))
      else (ns, False))"

fun mend :: "nat list \<Rightarrow> zforest \<Rightarrow> zforest" where
  "mend [] ns = ns"
| "mend (k # p) ns =
     (if k < length ns \<and> p \<noteq> [] then ns[k := repairChkClass (ZNode (zdata (ns ! k)) (mend p (zkids (ns ! k))))] else ns)"

lemma ZNode_data [simp]: "ZNode (zdata n) (zkids n) = n"
  by (cases n) simp

lemma length_upd_at [simp]: "length (upd_at p f ns) = length ns"
  by (cases p) simp_all

lemma node_at_upd: "node_at p (upd_at p f ns) = map_option f (node_at p ns)"
proof (induction p arbitrary: ns)
  case (Cons k p)
  then show ?case by (cases "p = []") auto
qed simp

lemma upd_at_fixed: "node_at p ns = Some n \<Longrightarrow> f n = n \<Longrightarrow> upd_at p f ns = ns"
proof (induction p arbitrary: ns)
  case (Cons k p)
  then show ?case by (cases "p = []") (auto split: if_splits)
qed simp

lemma upd_at_cong: "node_at p ns = Some n \<Longrightarrow> f n = g n \<Longrightarrow> upd_at p f ns = upd_at p g ns"
proof (induction p arbitrary: ns)
  case (Cons k p)
  then show ?case by (cases "p = []") (auto split: if_splits)
qed simp

lemma upd_at_twice: "upd_at p f (upd_at p g ns) = upd_at p (f \<circ> g) ns"
proof (induction p arbitrary: ns)
  case (Cons k p)
  then show ?case by (cases "p = []") auto
qed simp

lemma node_at_prefix: "node_at (p @ q) ns \<noteq> None \<Longrightarrow> p \<noteq> [] \<Longrightarrow> node_at p ns \<noteq> None"
proof (induction p arbitrary: ns)
  case (Cons k p)
  then show ?case by (cases "p = []") (auto split: if_splits)
qed simp

lemma node_at_upd_above: "node_at (p @ q) ns \<noteq> None \<Longrightarrow> p \<noteq> [] \<Longrightarrow> node_at p (upd_at (p @ q) f ns) \<noteq> None"
proof (induction p arbitrary: ns)
  case (Cons k p)
  then show ?case by (cases "p = []") (auto split: if_splits)
qed simp

lemma brothers_Cons: "k < length ns \<Longrightarrow> p \<noteq> [] \<Longrightarrow> brothers (k # p) ns = brothers p (zkids (ns ! k))"
  by (cases p rule: rev_cases) (auto simp: brothers_def butlast_append)

lemma climb_snoc:
  assumes "node_at (p @ [k]) ns \<noteq> None" "p \<noteq> []"
  shows "climb v (p @ [k]) ns =
    (let ns' = upd_at (p @ [k]) (mark_parent v) ns
     in if v \<or> \<not> keeps_parent (brothers (p @ [k]) ns') then climb v p ns' else (ns', False))"
  using assms
proof (induction p arbitrary: ns)
  case (Cons j q)
  have j: "j < length ns" "node_at (q @ [k]) (zkids (ns ! j)) \<noteq> None" using Cons.prems(1) by (auto split: if_splits)
  show ?case
  proof (cases "q = []")
    case True
    then show ?thesis using j by (auto simp: brothers_Cons Let_def brothers_def split: if_splits)
  next
    case False
    then show ?thesis using j Cons.IH [OF j(2) False] by (auto simp: brothers_Cons Let_def split: prod.split)
  qed
qed simp

lemma setParent_climb: "node_at p ns \<noteq> None \<Longrightarrow> setParentNodeCheckBox v p ns = fst (climb v p ns)"
proof (induction p arbitrary: ns rule: rev_induct)
  case (snoc k p)
  show ?case
  proof (cases "p = []")
    case True
    then show ?thesis using snoc.prems by (auto simp: setParentNodeCheckBox.simps [of v "[k]"] split: if_splits)
  next
    case False
    have "1 < length (p @ [k])" using False by simp
    then have "setParentNodeCheckBox v (p @ [k]) ns =
      (let ns' = upd_at (p @ [k]) (mark_parent v) ns
       in if v \<or> \<not> keeps_parent (brothers (p @ [k]) ns') then setParentNodeCheckBox v p ns' else ns')"
      unfolding setParentNodeCheckBox.simps [of v "p @ [k]" ns] butlast_snoc Let_def by (simp only: simp_thms)
    moreover have "setParentNodeCheckBox v p (upd_at (p @ [k]) f ns) = fst (climb v p (upd_at (p @ [k]) f ns))" for f
      by (rule snoc.IH [OF node_at_upd_above [OF snoc.prems False]])
    ultimately show ?thesis
      by (simp only: climb_snoc [OF snoc.prems False] Let_def if_distrib [of fst] fst_conv)
  qed
qed simp

lemma mend_snoc: "p \<noteq> [] \<Longrightarrow> mend (p @ [k]) ns = mend p (upd_at p repairChkClass ns)"
proof (induction p arbitrary: ns)
  case (Cons j q)
  then show ?case by (cases "q = []") auto
qed simp

lemma repairParent_mend: "repairParentChkClass p ns = mend p ns"
proof (induction p arbitrary: ns rule: rev_induct)
  case Nil
  then show ?case by (simp add: repairParentChkClass.simps)
next
  case (snoc k p)
  show ?case
  proof (cases "p = []")
    case False
    then show ?thesis using snoc by (simp add: repairParentChkClass.simps [of "p @ [k]"] mend_snoc)
  qed (simp add: repairParentChkClass.simps [of "[k]"])
qed

lemma show_boxes_mend:
  assumes "node_at p ns = Some n" "agrees n"
  shows "show_boxes p ns = mend p ns"
proof -
  have p: "p \<noteq> []" using assms(1) by auto
  have "upd_at p setChkClass ns = ns" "upd_at p repairChkClass ns = ns"
    using upd_at_fixed assms agrees_fixed by metis+
  then show ?thesis
    using assms(1) mend_snoc [OF p] by (simp add: show_boxes_def repairParentChkClassWithSelf_def repairParent_mend)
qed

section \<open>A click as one pass over the tree\<close>

text \<open>The reference: everything below gets the value, every node above is checked if a child is.\<close>

definition rebuild :: "zt ztree \<Rightarrow> zt ztree" where
  "rebuild n = repairChkClass (set_checked (list_ex box_checked (zkids n)) n)"

fun put_at :: "bool \<Rightarrow> nat list \<Rightarrow> zforest \<Rightarrow> zforest" where
  "put_at v [] ns = ns"
| "put_at v (k # p) ns =
     (if k < length ns
      then ns[k := (if p = [] then put_all v (ns ! k) else rebuild (ZNode (zdata (ns ! k)) (put_at v p (zkids (ns ! k)))))]
      else ns)"

lemma set_checked_simps [simp]:
  "zdata (set_checked b n) = (zdata n)\<lparr>zt_checked := b\<rparr>" "zkids (set_checked b n) = zkids n"
  by (simp_all add: set_checked_def)

lemma repair_simps [simp]: "box_checked (repairChkClass n) = box_checked n" "zkids (repairChkClass n) = zkids n"
  by (simp_all add: repairChkClass_def makeChkFlag_def setChkClass_def)

lemma mark_simps: "plain_box (zdata n) \<Longrightarrow> box_checked (mark_parent v n) = v"
  by (simp add: mark_parent_def Let_def makeChkFlag_def boxless_def setChkClass_def plain_boxD)

lemma agrees_rebuild: "plain_box (zdata n) \<Longrightarrow> list_all agrees (zkids n) \<Longrightarrow> agrees (rebuild n)"
  by (simp add: rebuild_def repairChkClass_def makeChkFlag_def setChkClass_def plain_boxD)

lemma plain_all_put:
  assumes "all_plain n"
  shows "setSonNodeCheckBox v (set_checked c n) = put_all v n"
proof -
  obtain d ts where n: "n = ZNode d ts" by (cases n)
  have "all_plain (set_checked c n)" using assms by (simp add: n set_checked_def)
  from set_son_plain [OF this] show ?thesis by (simp add: n set_checked_def)
qed

lemma agrees_node:
  assumes "list_all agrees ns" "k < length ns"
  shows "agrees (ns ! k)" "plain_box (zdata (ns ! k))" "list_all agrees (zkids (ns ! k))"
    "zkids (ns ! k) \<noteq> [] \<Longrightarrow> box_checked (ns ! k) = list_ex box_checked (zkids (ns ! k))"
proof -
  show a: "agrees (ns ! k)" using assms by (simp add: list_all_length)
  obtain d ts where "ns ! k = ZNode d ts" by (cases "ns ! k")
  then show "plain_box (zdata (ns ! k))" "list_all agrees (zkids (ns ! k))"
    "zkids (ns ! k) \<noteq> [] \<Longrightarrow> box_checked (ns ! k) = list_ex box_checked (zkids (ns ! k))"
    using a by simp_all
qed

lemma length_put_at [simp]: "length (put_at v p ns) = length ns"
  by (cases p) simp_all

lemma put_at_Nil [simp]: "put_at v p ns = [] \<longleftrightarrow> ns = []"
  by (metis length_0_conv length_put_at)

lemma agrees_put_at: "list_all agrees ns \<Longrightarrow> list_all agrees (put_at v p ns)"
proof (induction p arbitrary: ns)
  case (Cons k p)
  show ?case
  proof (cases "k < length ns")
    case True
    note n = agrees_node [OF Cons.prems True]
    have c: "list_all agrees (put_at v p (zkids (ns ! k)))" using Cons.IH n(3) by blast
    have "agrees (if p = [] then put_all v (ns ! k) else rebuild (ZNode (zdata (ns ! k)) (put_at v p (zkids (ns ! k)))))"
      using agrees_put_all [OF agrees_plain [OF n(1)]] agrees_rebuild [of "ZNode (zdata (ns ! k)) (put_at v p (zkids (ns ! k)))"] n(2) c by simp
    from list_all_upd [OF Cons.prems this, of k] show ?thesis using True by simp
  qed (use Cons.prems in simp)
qed simp

lemma list_ex_map: "list_ex P xs = list_ex id (map P xs)"
  by (simp add: list_ex_iff)

lemma keeps_agrees: "list_all all_plain ns \<Longrightarrow> keeps_parent ns = list_ex box_checked ns"
  unfolding keeps_parent_def list_ex_iff list_all_iff
  by (rule bex_cong [OF refl]) (use all_plain_data in \<open>force simp: boxless_def dest: plain_boxD\<close>)

lemma class_of_again: "class_of ((class_of d)\<lparr>zt_check_Child_State := i\<rparr>) = class_of (d\<lparr>zt_check_Child_State := i\<rparr>)"
  by (simp add: class_of_def makeChkClass_def option.map_comp comp_def)

lemma repair_marked:
  assumes "plain_box d"
  shows "repairChkClass (ZNode (zdata (mark_parent v (ZNode d cs))) ts) = repairChkClass (ZNode (d\<lparr>zt_checked := v\<rparr>) ts)"
  using assms class_of_again
  by (simp add: repairChkClass_def makeChkFlag_def setChkClass_def mark_parent_def Let_def boxless_def plain_boxD)

text \<open>
  What the walk up leaves behind, once the boxes above are mended, is the reference; the side
  conditions say what the walk has done at the top: reached it and set the box, or stopped below a box
  that stays checked because a brother is.
\<close>

lemma climb_put_at:
  assumes "list_all agrees ns" "node_at p ns \<noteq> None" "climb v p (upd_at p (put_all v) ns) = (ns', go)"
  shows "mend p ns' = put_at v p ns \<and> length ns' = length ns \<and> list_all all_plain ns' \<and>
    map box_checked ns' = map box_checked (put_at v p ns) \<and> (\<forall>j<length ns. j \<noteq> hd p \<longrightarrow> ns' ! j = ns ! j) \<and>
    (if go then box_checked (ns' ! hd p) = v else \<not> v \<and> box_checked (ns' ! hd p) \<and> box_checked (ns ! hd p))"
  using assms
proof (induction p arbitrary: ns ns' go)
  case (Cons k p)
  have k: "k < length ns" using Cons.prems(2) by (auto split: if_splits)
  note n = agrees_node [OF Cons.prems(1) k]
  have plain: "list_all all_plain ns" using Cons.prems(1) agrees_plain by (auto simp: list_all_iff)
  show ?case
  proof (cases "p = []")
    case True
    have "mark_parent v (put_all v (ns ! k)) = put_all v (ns ! k)"
      by (rule agrees_fixed(4) [OF agrees_put_all [OF agrees_plain [OF n(1)]]]) simp
    then have "ns' = ns[k := put_all v (ns ! k)]" "go" using Cons.prems(3) True k by auto
    then show ?thesis using True k list_all_upd [OF plain all_plain_put [OF agrees_plain [OF n(1)]], of k v] by simp
  next
    case False
    let ?cs = "zkids (ns ! k)" and ?d = "zdata (ns ! k)"
    obtain cs go' where c: "climb v p (upd_at p (put_all v) ?cs) = (cs, go')" by fastforce
    have node: "node_at p ?cs \<noteq> None" using Cons.prems(2) False by (auto split: if_splits)
    then have ne: "?cs \<noteq> []" "hd p < length ?cs" using False by (cases p; auto split: if_splits)+
    note IH = Cons.IH [OF n(3) node c]
    have lc: "length cs = length ?cs" using IH by simp
    have pl: "list_all all_plain cs" using IH by simp
    have keep: "keeps_parent cs = list_ex box_checked (put_at v p ?cs)"
      using keeps_agrees [OF pl] IH by (simp add: list_ex_map [of box_checked])
    have keep2: "keeps_parent cs \<longleftrightarrow> (\<exists>j<length cs. box_checked (cs ! j))"
      using keeps_agrees [OF pl] by (simp add: list_ex_length)
    have d: "zt_checked ?d \<longleftrightarrow> (\<exists>j<length ?cs. box_checked (?cs ! j))" using n(4) ne(1) by (simp add: list_ex_length)
    let ?go = "go' \<and> (v \<or> \<not> keeps_parent cs)"
    have go: "go = ?go" and ns': "ns' = ns[k := (if ?go then mark_parent v (ZNode ?d cs) else ZNode ?d cs)]"
      using Cons.prems(3) False k c by (auto split: if_splits)
    have set: "if ?go then list_ex box_checked (put_at v p ?cs) = v else \<not> v \<and> list_ex box_checked (put_at v p ?cs) \<and> zt_checked ?d"
    proof (cases go')
      case True
      then have h: "box_checked (cs ! hd p) = v" using IH by simp
      show ?thesis
      proof (cases "v \<or> \<not> keeps_parent cs")
        case True
        then show ?thesis using h keep keep2 ne(2) lc \<open>go'\<close> by auto
      next
        case False
        then obtain j where "j < length cs" "box_checked (cs ! j)" "j \<noteq> hd p" using keep2 h by auto
        then have "box_checked (?cs ! j)" "j < length ?cs" using IH lc by auto
        then show ?thesis using False keep d by auto
      qed
    next
      case False
      then have "\<not> v" "box_checked (cs ! hd p)" "box_checked (?cs ! hd p)" using IH by auto
      then show ?thesis using False keep keep2 d ne(2) lc by auto
    qed
    let ?m = "if ?go then mark_parent v (ZNode ?d cs) else ZNode ?d cs"
    have bm: "box_checked ?m = list_ex box_checked (put_at v p ?cs)"
      using set n(2) mark_simps [of "ZNode ?d cs" v] by (auto split: if_splits)
    have m: "repairChkClass (ZNode (zdata ?m) (mend p cs)) = rebuild (ZNode ?d (put_at v p ?cs))"
      using set IH repair_marked [OF n(2)] by (auto simp: rebuild_def set_checked_def checked_same split: if_splits)
    have kids: "zkids ?m = cs" by (simp add: mark_parent_def Let_def makeChkFlag_def setChkClass_def)
    have "plain_box (zdata ?m)" using n(2) by (simp add: mark_parent_def Let_def makeChkFlag_def setChkClass_def)
    then have "all_plain ?m" using pl kids by (cases ?m) simp
    from list_all_upd [OF plain this, of k] have "list_all all_plain ns'" by (simp only: ns')
    moreover have "mend (k # p) ns' = put_at v (k # p) ns" using m kids k False by (simp add: ns')
    moreover have "map box_checked ns' = map box_checked (put_at v (k # p) ns)"
      using bm k False by (simp only: ns' map_update put_at.simps) (simp add: rebuild_def map_update)
    moreover have "if go then box_checked (ns' ! k) = v else \<not> v \<and> box_checked (ns' ! k) \<and> box_checked (ns ! k)"
      using set bm k by (auto simp: ns' go split: if_splits)
    moreover have "length ns' = length ns" "\<forall>j<length ns. j \<noteq> k \<longrightarrow> ns' ! j = ns ! j" by (simp_all add: ns')
    ultimately show ?thesis unfolding list.sel(1) by (intro conjI)
  qed
qed simp

lemma agrees_at: "list_all agrees ns \<Longrightarrow> node_at p ns = Some n \<Longrightarrow> agrees n"
proof (induction p arbitrary: ns)
  case (Cons k p)
  have k: "k < length ns" using Cons.prems(2) by (auto split: if_splits)
  show ?case using agrees_node(1,3) [OF Cons.prems(1) k] Cons.IH [of "zkids (ns ! k)"] Cons.prems(2) k by (simp split: if_splits)
qed simp

lemma node_at_put: "node_at p (put_at v p ns) = map_option (put_all v) (node_at p ns)"
proof (induction p arbitrary: ns)
  case (Cons k p)
  then show ?case by (cases "p = []") (auto simp: rebuild_def)
qed simp

lemma node_at_climb:
  "node_at p ns = Some n \<Longrightarrow> node_at p (fst (climb v p ns)) = Some (mark_parent v n)"
proof (induction p arbitrary: ns)
  case (Cons k p)
  have m: "zkids (mark_parent v x) = zkids x" for x by (simp add: mark_parent_def Let_def makeChkFlag_def setChkClass_def)
  obtain cs go where c: "climb v p (zkids (ns ! k)) = (cs, go)" by fastforce
  show ?case using Cons.prems Cons.IH [of "zkids (ns ! k)"] c m by (auto split: if_splits)
qed simp

text \<open>A change of a box with everything it takes along, by a click or by the program.\<close>

lemma relation_put_at:
  assumes "list_all agrees ns" "node_at p ns = Some n"
  shows "show_boxes p (checkNodeRelation auth_setting p (upd_at p (set_checked v) ns)) = put_at v p ns"
proof -
  let ?ns1 = "upd_at p (put_all v) ns"
  have n: "agrees n" "all_plain n" using agrees_at assms agrees_plain by blast+
  have at1: "node_at p ?ns1 = Some (put_all v n)" using assms(2) by (simp add: node_at_upd)
  have s: "upd_at p (setSonNodeCheckBox w) (upd_at p (set_checked v) ns) = upd_at p (put_all w) ns" for w
    unfolding upd_at_twice by (rule upd_at_cong [OF assms(2)]) (simp add: plain_all_put [OF n(2)])
  have chk: "is_checked p (upd_at p (set_checked v) ns) = v" "is_checked p ?ns1 = v"
    using assms(2) at1 by (simp_all add: is_checked_def node_at_upd)
  have up: "is_checked p (setParentNodeCheckBox v p ?ns1) = v"
    using node_at_climb [OF at1] setParent_climb [of p ?ns1 v] at1 agrees_fixed(4) [OF agrees_put_all [OF n(2)], of v v]
    by (simp add: is_checked_def)
  have "checkNodeRelation auth_setting p (upd_at p (set_checked v) ns) = setParentNodeCheckBox v p ?ns1"
    using chk up s by (cases v) (simp_all add: checkNodeRelation_def auth_setting_def Let_def)
  also have "\<dots> = fst (climb v p ?ns1)" using setParent_climb at1 by simp
  finally have r: "checkNodeRelation auth_setting p (upd_at p (set_checked v) ns) = fst (climb v p ?ns1)" .
  obtain ns' go where c: "climb v p ?ns1 = (ns', go)" by fastforce
  have "node_at p ns' = Some (put_all v n)"
    using node_at_climb [OF at1, of v] c agrees_fixed(4) [OF agrees_put_all [OF n(2)], of v v] by simp
  then have "show_boxes p ns' = mend p ns'" using show_boxes_mend agrees_put_all [OF n(2)] by blast
  then show ?thesis using r c climb_put_at [OF assms(1) _ c] assms(2) by simp
qed

lemma click_put_at:
  assumes "list_all agrees ns" "node_at p ns = Some n"
  shows "onCheckNode auth_setting p ns = put_at (\<not> box_checked n) p ns"
  using relation_put_at [OF assms] assms(2) plain_boxD [OF all_plain_data [OF agrees_plain [OF agrees_at [OF assms]]]]
  by (simp add: onCheckNode_def)

lemma checkNode_put_at:
  assumes "list_all agrees ns" "node_at p ns = Some n"
  shows "checkNode auth_setting p c True ns = put_at (case c of Some b \<Rightarrow> b | None \<Rightarrow> \<not> box_checked n) p ns"
  using relation_put_at [OF assms] assms(2) plain_boxD [OF all_plain_data [OF agrees_plain [OF agrees_at [OF assms]]]]
  by (simp add: checkNode_def Let_def)

lemma all_put:
  assumes "list_all agrees ns"
  shows "repairAllChk c ns = map (put_all c) ns"
proof -
  have "setSonNodeCheckBox c (if boxless (zdata n) then n else set_checked c n) = put_all c n" if "n \<in> set ns" for n
    using that assms agrees_plain plain_all_put all_plain_data [of n] by (auto simp: list_all_iff boxless_def dest: plain_boxD)
  then show ?thesis by (simp add: repairAllChk_def)
qed

section \<open>The leaves decide\<close>

fun leaf_data :: "'a ztree list \<Rightarrow> 'a list" where
  "leaf_data [] = []"
| "leaf_data (ZNode d ts # ns) = (if ts = [] then [d] else leaf_data ts) @ leaf_data ns"

definition leaves_of :: "'a ztree \<Rightarrow> 'a list" where
  "leaves_of n = (if zkids n = [] then [zdata n] else leaf_data (zkids n))"

lemma leaf_data_Cons: "leaf_data (n # ns) = leaves_of n @ leaf_data ns"
  by (cases n) (simp add: leaves_of_def)

lemma leaf_data_concat: "leaf_data ns = concat (map leaves_of ns)"
proof (induction ns)
  case (Cons n ns)
  then show ?case by (simp add: leaf_data_Cons)
qed simp

lemma leaf_data_append: "leaf_data (ms @ ns) = leaf_data ms @ leaf_data ns"
  by (simp add: leaf_data_concat)

lemma leaf_data_map: "leaf_data (map (map_ztree f) ns) = map f (leaf_data ns)"
  by (induction ns rule: leaf_data.induct) simp_all

lemma leaves_of_map: "leaves_of (map_ztree f n) = map f (leaves_of n)"
  using leaf_data_map [of f "zkids n"] by (cases n) (simp add: leaves_of_def)

text \<open>Ids and marks of a tree, without what follows from them.\<close>

definition marks_of :: "zt ztree \<Rightarrow> (jstr \<times> bool) ztree" where
  "marks_of = map_ztree (\<lambda>d. (zt_id d, zt_checked d))"

lemma marks_of_node: "marks_of (ZNode d ts) = ZNode (zt_id d, zt_checked d) (map marks_of ts)"
  by (simp add: marks_of_def)

lemma agrees_checked: "agrees n \<Longrightarrow> box_checked n \<longleftrightarrow> list_ex zt_checked (leaves_of n)"
proof (induction n rule: agrees.induct)
  case (1 d ts)
  show ?case
  proof (cases "ts = []")
    case False
    have "list_ex box_checked ts = list_ex zt_checked (leaf_data ts)"
      using 1 by (auto simp: leaf_data_concat list_ex_iff list_all_iff)
    then show ?thesis using 1 False by (simp add: leaves_of_def)
  qed (simp add: leaves_of_def)
qed

text \<open>The vote of a child: 2 if everything below is checked, 1 if something is.\<close>

definition vote_of :: "bool list \<Rightarrow> int" where
  "vote_of bs = (if list_all id bs then 2 else if list_ex id bs then 1 else 0)"

lemma leaves_nonempty: "leaves_of n \<noteq> []"
proof (induction n)
  case (ZNode d ts)
  then show ?case by (cases ts) (simp_all add: leaves_of_def leaf_data_Cons)
qed

lemma flag_vote_votes:
  assumes "bss \<noteq> []" "[] \<notin> set bss"
  shows "flag_vote (map vote_of bss) = vote_of (concat bss)"
proof -
  let ?s = "set (map vote_of bss)"
  have f: "filter (\<lambda>v. v \<noteq> -1) (map vote_of bss) = map vote_of bss" by (auto simp: vote_of_def filter_id_conv)
  have two: "?s = {2} \<longleftrightarrow> list_all id (concat bss)"
  proof -
    have "?s = {2} \<longleftrightarrow> (\<forall>bs\<in>set bss. vote_of bs = 2)" using assms(1) by (cases bss) auto
    also have "\<dots> \<longleftrightarrow> list_all id (concat bss)" by (auto simp: vote_of_def list_all_iff)
    finally show ?thesis .
  qed
  have zero: "?s = {0} \<longleftrightarrow> \<not> list_ex id (concat bss)"
  proof -
    have "?s = {0} \<longleftrightarrow> (\<forall>bs\<in>set bss. vote_of bs = 0)" using assms(1) by (cases bss) auto
    also have "\<dots> \<longleftrightarrow> (\<forall>bs\<in>set bss. \<not> list_ex id bs)"
    proof (intro ball_cong refl)
      fix bs assume "bs \<in> set bss"
      then have "bs \<noteq> []" using assms(2) by auto
      then show "vote_of bs = 0 \<longleftrightarrow> \<not> list_ex id bs" by (cases bs) (auto simp: vote_of_def list_all_iff list_ex_iff)
    qed
    finally show ?thesis by (auto simp: list_ex_iff)
  qed
  show ?thesis using assms(1) unfolding flag_vote_def Let_def f two zero by (simp add: vote_of_def)
qed

lemma agrees_votes:
  "agrees n \<Longrightarrow> child_tmp (zdata n) = vote_of (map zt_checked (leaves_of n)) \<and>
    zt_check_Child_State (zdata n) = (if zkids n = [] then -1 else vote_of (map zt_checked (leaves_of n)))"
proof (induction n rule: agrees.induct)
  case (1 d ts)
  note IH = 1(1) and a = 1(2)
  let ?bss = "map (\<lambda>t. map zt_checked (leaves_of t)) ts"
  have ts: "agrees t" if "t \<in> set ts" for t using that a by (simp add: list_all_iff)
  have s: "zt_check_Child_State d = vote_of (map zt_checked (leaf_data ts))" if "ts \<noteq> []"
  proof -
    have v: "map child_tmp (map zdata ts) = map vote_of ?bss" using IH ts by simp
    have "\<forall>c\<in>set (map zdata ts). child_tmp c \<in> {-1, 0, 1, 2}" using IH ts by (auto simp: vote_of_def)
    then have "flag_loop 0 (-1) (map zdata ts) = flag_vote (map vote_of ?bss)" using flag_loop_vote v by metis
    also have "\<dots> = vote_of (concat ?bss)" using that leaves_nonempty by (intro flag_vote_votes) auto
    also have "concat ?bss = map zt_checked (leaf_data ts)" by (simp add: leaf_data_concat map_concat comp_def)
    finally show ?thesis using a by simp
  qed
  have p: "\<not> boxless d" "\<not> zt_halfCheck d" using a by (simp_all add: boxless_def plain_boxD)
  have "child_tmp d = vote_of (map zt_checked (leaves_of (ZNode d ts)))"
  proof (cases "ts = []")
    case True
    then show ?thesis using a p by (simp add: child_tmp_def leaves_of_def vote_of_def)
  next
    case False
    have "zt_checked d \<longleftrightarrow> list_ex id (map zt_checked (leaf_data ts))"
      using agrees_checked [OF a] False by (simp add: leaves_of_def list_ex_iff)
    moreover have "list_all id (map zt_checked (leaf_data ts)) \<Longrightarrow> list_ex id (map zt_checked (leaf_data ts))"
      using leaves_nonempty [of "ZNode d ts"] False by (cases "leaf_data ts") (auto simp: leaves_of_def)
    ultimately show ?thesis using s [OF False] p False by (auto simp: child_tmp_def leaves_of_def vote_of_def)
  qed
  then show ?case using s a by (simp add: leaves_of_def)
qed

lemma agrees_vote:
  assumes "agrees n"
  shows "child_tmp (zdata n) = vote_of (map zt_checked (leaves_of n))"
    "zkids n \<noteq> [] \<Longrightarrow> zt_check_Child_State (zdata n) = vote_of (map zt_checked (leaves_of n))"
    "zkids n = [] \<Longrightarrow> zt_check_Child_State (zdata n) = -1"
  using agrees_votes [OF assms] by simp_all

lemma marks_leaves:
  assumes "marks_of m = marks_of n"
  shows "map zt_checked (leaves_of m) = map zt_checked (leaves_of n)" "map zt_id (leaves_of m) = map zt_id (leaves_of n)"
proof -
  have l: "map (\<lambda>d. (zt_id d, zt_checked d)) (leaves_of m) = map (\<lambda>d. (zt_id d, zt_checked d)) (leaves_of n)"
    using assms leaves_of_map [of "\<lambda>d. (zt_id d, zt_checked d)"] by (metis marks_of_def)
  from arg_cong [OF l, of "map snd"] show "map zt_checked (leaves_of m) = map zt_checked (leaves_of n)" by (simp add: comp_def)
  from arg_cong [OF l, of "map fst"] show "map zt_id (leaves_of m) = map zt_id (leaves_of n)" by (simp add: comp_def)
qed

text \<open>Trees below can be changed as long as their marks stay.\<close>

lemma marks_agree:
  assumes "list_all agrees ts" "list_all agrees ts'" "map marks_of ts' = map marks_of ts"
  shows "flag_loop 0 (-1) (map zdata ts') = flag_loop 0 (-1) (map zdata ts)" "list_ex box_checked ts' = list_ex box_checked ts"
    "ts' = [] \<longleftrightarrow> ts = []"
proof -
  have len: "length ts' = length ts" using assms(3) by (metis length_map)
  have same: "map zt_checked (leaves_of (ts' ! i)) = map zt_checked (leaves_of (ts ! i))" if "i < length ts" for i
    using marks_leaves assms(3) that len by (metis nth_map)
  have "map child_tmp (map zdata ts') = map child_tmp (map zdata ts)"
    using same agrees_vote(1) assms(1,2) len by (intro nth_equalityI) (auto simp: list_all_length)
  moreover have "\<forall>c\<in>set (map zdata us). child_tmp c \<in> {-1, 0, 1, 2}" if "list_all agrees us" for us
    using that agrees_vote(1) by (auto simp: list_all_iff vote_of_def)
  ultimately show "flag_loop 0 (-1) (map zdata ts') = flag_loop 0 (-1) (map zdata ts)"
    using assms(1,2) by (metis flag_loop_vote)
  have c: "box_checked (ts' ! i) = box_checked (ts ! i)" if "i < length ts" for i
    using same [OF that] agrees_checked assms(1,2) len that by (simp add: list_all_length list_ex_map [of zt_checked])
  then show "list_ex box_checked ts' = list_ex box_checked ts" using len by (auto simp: list_ex_length)
  show "ts' = [] \<longleftrightarrow> ts = []" using len by auto
qed

lemma agrees_kids:
  assumes "agrees (ZNode d ts)" "list_all agrees ts'" "map marks_of ts' = map marks_of ts"
  shows "agrees (ZNode d ts')"
  using assms marks_agree [OF _ assms(2,3)] by simp

lemma agrees_upd_at:
  assumes "list_all agrees ns" "\<And>n. agrees n \<Longrightarrow> agrees (f n) \<and> marks_of (f n) = marks_of n"
  shows "list_all agrees (upd_at p f ns) \<and> map marks_of (upd_at p f ns) = map marks_of ns"
  using assms(1)
proof (induction p arbitrary: ns)
  case (Cons k p)
  show ?case
  proof (cases "k < length ns")
    case True
    note n = agrees_node [OF Cons.prems True]
    let ?n = "if p = [] then f (ns ! k) else ZNode (zdata (ns ! k)) (upd_at p f (zkids (ns ! k)))"
    have "agrees ?n \<and> marks_of ?n = marks_of (ns ! k)"
    proof (cases "p = []")
      case False
      have a: "agrees (ZNode (zdata (ns ! k)) (zkids (ns ! k)))" using n(1) by simp
      note IH = Cons.IH [OF n(3)]
      have "agrees (ZNode (zdata (ns ! k)) (upd_at p f (zkids (ns ! k))))"
        by (rule agrees_kids [OF a]) (use IH in simp_all)
      moreover have "marks_of (ns ! k) = ZNode (zt_id (zdata (ns ! k)), box_checked (ns ! k)) (map marks_of (zkids (ns ! k)))"
        using marks_of_node [of "zdata (ns ! k)" "zkids (ns ! k)"] by simp
      ultimately show ?thesis using IH False by (simp add: marks_of_node)
    qed (use assms(2) n in simp)
    then have "list_all agrees (ns[k := ?n])" "map marks_of (ns[k := ?n]) = map marks_of ns"
      using list_all_upd [OF Cons.prems] True by (blast, metis list_update_id map_update nth_map)
    then show ?thesis using True by simp
  qed (use Cons.prems in simp)
qed simp

text \<open>What is put on the page agrees, for new nodes and for those that had been closed.\<close>

definition fits :: "bool \<Rightarrow> zforest \<Rightarrow> bool" where
  "fits initFlag ns \<longleftrightarrow> (if initFlag then list_all ready ns else list_all agrees ns)"

lemma makeChkClass_class [simp]: "makeChkClass (d\<lparr>zt_class := c\<rparr>) = makeChkClass d"
  by (simp add: makeChkClass_def)

lemma agrees_beforeA: "agrees n \<Longrightarrow> agrees (beforeA n) \<and> marks_of (beforeA n) = marks_of n"
proof (cases n)
  case (ZNode d ts)
  assume "agrees n"
  then show ?thesis
    using agrees_fixed(1) [of n] by (simp add: ZNode beforeA_def Let_def class_of_def marks_of_node)
qed

lemma ready_checked:
  assumes "list_all ready ts" "list_all agrees ts'" "map marks_of ts' = map marks_of ts"
  shows "list_ex box_checked ts' = list_ex box_checked ts"
proof -
  have "map box_checked us = map (snd \<circ> zdata) (map marks_of us)" for us
    by (simp add: marks_of_def ztree.map_sel)
  then show ?thesis using assms(3) list_ex_map [of box_checked ts] list_ex_map [of box_checked ts'] by (simp only:)
qed

lemma appendNodes_agrees:
  "fits initFlag ns \<Longrightarrow>
    list_all agrees (fst (appendNodes auth_setting level parent initFlag openFlag i l zId ns)) \<and>
    map marks_of (fst (appendNodes auth_setting level parent initFlag openFlag i l zId ns)) = map marks_of ns"
proof (induction auth_setting level parent initFlag openFlag i l zId ns rule: appendNodes.induct)
  case (2 level parent initFlag openFlag i l zId d ts ns)
  define d' where "d' = (if initFlag then initNode auth_setting level zId parent (i = 0) (i + 1 = l) (ts \<noteq> []) d else d)"
  obtain ts' z where ts': "appendNodes auth_setting (level + 1) (Some d') initFlag (openFlag \<and> zt_open d') 0 (length ts)
      (if initFlag then zId + 1 else zId) ts = (ts', z)" by fastforce
  obtain ns' z' where ns': "appendNodes auth_setting level parent initFlag openFlag (i + 1) l z ns = (ns', z')" by fastforce
  have ft: "fits initFlag ts" "fits initFlag ns" using "2.prems" by (auto simp: fits_def split: if_splits)
  have t: "list_all agrees ts'" "map marks_of ts' = map marks_of ts"
    using "2.hyps"(1) [OF d'_def ft(1)] ts' by simp_all
  have n: "list_all agrees ns'" "map marks_of ns' = map marks_of ns"
    using "2.hyps"(2) [OF d'_def ts' [symmetric] _ _ _ ft(2)] ns' by simp_all
  define m where "m = (if ts' \<noteq> [] then makeChkFlag (ZNode d' ts') else ZNode d' ts')"
  have m: "agrees m \<and> marks_of m = marks_of (ZNode d ts)"
  proof (cases initFlag)
    case True
    have r: "plain_box d" "ts \<noteq> [] \<longrightarrow> zt_checked d = list_ex box_checked ts" "list_all ready ts"
      using "2.prems" True by (simp_all add: fits_def)
    have d': "plain_box d'" "zt_checked d' = zt_checked d" "zt_id d' = zt_id d" "zt_class d' = None" "zt_check_Child_State d' = -1"
      using r(1) True by (simp_all add: d'_def initNode_def auth_setting_def plain_box_def)
    have e: "ts' = [] \<longleftrightarrow> ts = []" using t(2) by auto
    show ?thesis
      using r d' t ready_checked [OF r(3) t] e by (cases "ts' = []") (simp_all add: m_def makeChkFlag_def class_of_def marks_of_node)
  next
    case False
    have "agrees (ZNode d ts)" using "2.prems" False by (simp add: fits_def)
    then have a: "agrees (ZNode d ts')" using t by (rule agrees_kids)
    have "m = ZNode d ts'" using False agrees_fixed(1) [OF a] by (simp add: m_def d'_def)
    then show ?thesis using a t(2) by (simp add: marks_of_node)
  qed
  have "appendNodes auth_setting level parent initFlag openFlag i l zId (ZNode d ts # ns) = ((if openFlag then beforeA m else m) # ns', z')"
    using ts' ns' by (simp add: d'_def [symmetric] m_def Let_def)
  then show ?case using m n agrees_beforeA by simp
qed simp

lemma switch_agrees: "agrees n \<Longrightarrow> agrees (expandCollapseNode auth_setting b n) \<and> marks_of (expandCollapseNode auth_setting b n) = marks_of n"
proof -
  assume a: "agrees n"
  obtain d ts where n: "n = ZNode d ts" by (cases n)
  have k: "list_all agrees ts" using a by (simp add: n)
  define ts' where "ts' = fst (appendNodes auth_setting (zt_level d + 1) (Some d) False True 0 (length ts) 0 ts)"
  have t: "list_all agrees ts'" "map marks_of ts' = map marks_of ts"
    using appendNodes_agrees [of False ts] k by (simp_all add: ts'_def fits_def)
  have a': "agrees (ZNode d ts')" using a t unfolding n by (rule agrees_kids)
  have p: "appendParentULDom auth_setting n = ZNode d ts'"
    using agrees_fixed(1) [OF a'] by (simp add: appendParentULDom_def n ts'_def)
  have o: "agrees (ZNode (d\<lparr>zt_open := c\<rparr>) us) \<and> marks_of (ZNode (d\<lparr>zt_open := c\<rparr>) us) = marks_of (ZNode d us)" if "agrees (ZNode d us)" for c us
  proof -
    have "makeChkClass (d\<lparr>zt_open := c\<rparr>) = makeChkClass d" by (simp add: makeChkClass_def)
    then have "class_of (d\<lparr>zt_open := c\<rparr>) = (class_of d)\<lparr>zt_open := c\<rparr>" by (simp add: class_of_def)
    then show ?thesis using that by (simp add: marks_of_node)
  qed
  have "marks_of (ZNode d ts') = marks_of n" using t by (simp add: n marks_of_node)
  then show ?thesis
    unfolding expandCollapseNode_def Let_def p using a a' o [OF a'] o [OF a [unfolded n]] by (simp add: n del: agrees.simps)
qed

lemma mouse_agrees: "agrees n \<Longrightarrow> agrees (setChkClass (set_focus b n)) \<and> marks_of (setChkClass (set_focus b n)) = marks_of n"
  by (cases n) (auto simp: setChkClass_def set_focus_def marks_of_node)

subsection \<open>The choice\<close>

text \<open>
  The abstract state: the ids of the leaves chosen. A click on a box with something chosen below
  takes it all back, any other click chooses everything below.
\<close>

definition leaf_ids :: "zt ztree \<Rightarrow> jstr set" where
  "leaf_ids n = zt_id ` set (leaves_of n)"

definition chosen :: "zforest \<Rightarrow> jstr set" where
  "chosen ns = zt_id ` set (filter zt_checked (leaf_data ns))"

fun pick :: "zforest \<Rightarrow> zevent \<Rightarrow> jstr set \<Rightarrow> jstr set" where
  "pick zs (CheckClick p) S =
     (case node_at p zs of None \<Rightarrow> S | Some n \<Rightarrow> if leaf_ids n \<inter> S = {} then S \<union> leaf_ids n else S - leaf_ids n)"
| "pick zs (CheckNode p c f) S =
     (case node_at p zs of
        None \<Rightarrow> S
      | Some n \<Rightarrow> if (case c of Some b \<Rightarrow> b | None \<Rightarrow> leaf_ids n \<inter> S = {}) then S \<union> leaf_ids n else S - leaf_ids n)"
| "pick zs (CheckAll c) S = (if c then zt_id ` set (leaf_data zs) else {})"
| "pick zs e S = S"

text \<open>Events that keep the boxes of a tree together: none is disabled, none is set on its own.\<close>

fun together :: "zevent \<Rightarrow> bool" where
  "together (SetDisabled p b ip ic) = False"
| "together (CheckNode p c f) = f"
| "together e = True"

lemma chosen_append: "chosen (ms @ ns) = chosen ms \<union> chosen ns"
  by (simp add: chosen_def leaf_data_append image_Un)

lemma chosen_one: "chosen [n] = zt_id ` set (filter zt_checked (leaves_of n))"
  by (simp add: chosen_def leaf_data_concat)

lemma chosen_kids: "zkids n \<noteq> [] \<Longrightarrow> chosen [n] = chosen (zkids n)"
  unfolding chosen_one by (simp add: chosen_def leaves_of_def)

lemma leaves_put_all: "map zt_id (leaves_of (put_all v n)) = map zt_id (leaves_of n) \<and> list_all (\<lambda>d. zt_checked d = v) (leaves_of (put_all v n))"
proof (induction n)
  case (ZNode d ts)
  then have "map zt_id (leaf_data (map (put_all v) ts)) = map zt_id (leaf_data ts)"
    "list_all (\<lambda>d. zt_checked d = v) (leaf_data (map (put_all v) ts))"
    by (induction ts) (auto simp: leaf_data_Cons)
  then show ?case by (auto simp: leaves_of_def)
qed

lemma chosen_put_all: "chosen [put_all v n] = (if v then leaf_ids n else {})"
proof -
  have "set (filter zt_checked (leaves_of (put_all v n))) = (if v then set (leaves_of (put_all v n)) else {})"
    using leaves_put_all [of v n] by (auto simp: list_all_iff)
  then show ?thesis using leaves_put_all [of v n] unfolding chosen_one leaf_ids_def
    by (metis image_empty list.set_map)
qed

lemma leaf_ids_put_at: "map zt_id (leaf_data (put_at v p ns)) = map zt_id (leaf_data ns)"
proof (induction p arbitrary: ns)
  case (Cons k p)
  show ?case
  proof (cases "k < length ns")
    case True
    let ?n = "if p = [] then put_all v (ns ! k) else rebuild (ZNode (zdata (ns ! k)) (put_at v p (zkids (ns ! k))))"
    have "map zt_id (leaves_of ?n) = map zt_id (leaves_of (ns ! k))"
      using leaves_put_all [of v "ns ! k"] Cons.IH [of "zkids (ns ! k)"]
      by (cases "p = []") (simp_all add: leaves_of_def rebuild_def repairChkClass_def makeChkFlag_def setChkClass_def)
    then have "map (\<lambda>n. map zt_id (leaves_of n)) (ns[k := ?n]) = map (\<lambda>n. map zt_id (leaves_of n)) ns"
      unfolding map_update using True by (simp add: list_update_same_conv)
    then have "concat (map (\<lambda>n. map zt_id (leaves_of n)) (ns[k := ?n])) = concat (map (\<lambda>n. map zt_id (leaves_of n)) ns)" by simp
    then show ?thesis using True by (simp add: leaf_data_concat map_concat comp_def)
  qed simp
qed simp

lemma leaf_ids_at: "node_at p ns = Some n \<Longrightarrow> leaf_ids n \<subseteq> zt_id ` set (leaf_data ns)"
proof (induction p arbitrary: ns)
  case (Cons k p)
  have k: "k < length ns" using Cons.prems by (auto split: if_splits)
  have "set (leaves_of (ns ! k)) \<subseteq> set (leaf_data ns)" using nth_mem [OF k] by (auto simp: leaf_data_concat)
  moreover have "leaf_ids n \<subseteq> zt_id ` set (leaves_of (ns ! k))"
  proof (cases "p = []")
    case False
    then have "node_at p (zkids (ns ! k)) = Some n" using Cons.prems k by simp
    then show ?thesis using Cons.IH [of "zkids (ns ! k)"] by (cases "zkids (ns ! k)"; cases p) (auto simp: leaves_of_def)
  qed (use Cons.prems k in \<open>simp add: leaf_ids_def\<close>)
  ultimately show ?case by blast
qed simp

lemma chosen_put_at:
  assumes "distinct (map zt_id (leaf_data ns))" "node_at p ns = Some n"
  shows "chosen (put_at v p ns) = (if v then chosen ns \<union> leaf_ids n else chosen ns - leaf_ids n)"
  using assms
proof (induction p arbitrary: ns)
  case (Cons k p)
  have k: "k < length ns" using Cons.prems by (auto split: if_splits)
  define as bs x where "as = take k ns" "bs = drop (Suc k) ns" "x = ns ! k"
  have ns: "ns = as @ [x] @ bs" using id_take_nth_drop [OF k] by (simp add: as_bs_x_def)
  let ?x = "if p = [] then put_all v x else rebuild (ZNode (zdata x) (put_at v p (zkids x)))"
  have put: "put_at v (k # p) ns = as @ [?x] @ bs" using k by (simp add: upd_conv_take_nth_drop as_bs_x_def)
  have dist: "distinct (map zt_id (leaves_of x))" "zt_id ` set (leaves_of x) \<inter> zt_id ` set (leaf_data (as @ bs)) = {}"
    using Cons.prems(1) unfolding ns by (auto simp: leaf_data_append leaf_data_Cons)
  have x: "chosen [?x] = (if v then chosen [x] \<union> leaf_ids n else chosen [x] - leaf_ids n) \<and> leaf_ids n \<subseteq> zt_id ` set (leaves_of x)"
  proof (cases "p = []")
    case True
    then have "n = x" using Cons.prems(2) k by (simp add: as_bs_x_def)
    then show ?thesis using True chosen_put_all [of v x] by (auto simp: chosen_one leaf_ids_def)
  next
    case False
    then have at: "node_at p (zkids x) = Some n" using Cons.prems(2) k by (simp add: as_bs_x_def)
    then have ne: "zkids x \<noteq> []" using False by (cases p) auto
    have kids: "zkids ?x = put_at v p (zkids x)" using False by (simp add: rebuild_def)
    moreover have "put_at v p (zkids x) \<noteq> []" using ne by simp
    ultimately have "chosen [?x] = chosen (put_at v p (zkids x))" using chosen_kids [of ?x] by simp
    moreover have "distinct (map zt_id (leaf_data (zkids x)))" using dist(1) ne by (simp add: leaves_of_def)
    then have "chosen (put_at v p (zkids x)) = (if v then chosen [x] \<union> leaf_ids n else chosen [x] - leaf_ids n)"
      using Cons.IH [OF _ at] chosen_kids [OF ne] by simp
    moreover have "leaf_ids n \<subseteq> zt_id ` set (leaves_of x)" using leaf_ids_at [OF at] ne by (simp add: leaves_of_def)
    ultimately show ?thesis by simp
  qed
  have "chosen ms \<subseteq> zt_id ` set (leaf_data ms)" for ms by (auto simp: chosen_def)
  then have "(chosen as \<union> chosen bs) \<inter> leaf_ids n = {}" using x dist(2) by (fastforce simp: leaf_data_append)
  moreover have "chosen (put_at v (k # p) ns) = chosen as \<union> (chosen [?x] \<union> chosen bs)" by (simp only: put chosen_append)
  moreover have "chosen ns = chosen as \<union> (chosen [x] \<union> chosen bs)" using arg_cong [OF ns, of chosen] by (simp only: chosen_append)
  ultimately show ?case using x by (simp only:) auto
qed simp

lemma marks_chosen:
  assumes "map marks_of ms = map marks_of ns"
  shows "chosen ms = chosen ns" "map zt_id (leaf_data ms) = map zt_id (leaf_data ns)"
proof -
  have l: "map (\<lambda>d. (zt_id d, zt_checked d)) (leaf_data ms) = map (\<lambda>d. (zt_id d, zt_checked d)) (leaf_data ns)"
    using assms leaf_data_map [of "\<lambda>d. (zt_id d, zt_checked d)"] by (metis marks_of_def)
  have "chosen us = fst ` {x \<in> set (map (\<lambda>d. (zt_id d, zt_checked d)) (leaf_data us)). snd x}" for us
    by (force simp: chosen_def)
  then show "chosen ms = chosen ns" using l by (simp only:)
  from arg_cong [OF l, of "map fst"] show "map zt_id (leaf_data ms) = map zt_id (leaf_data ns)" by (simp add: comp_def)
qed

text \<open>The tree against which the choice is read, kept by every event.\<close>

definition same_ids :: "zforest \<Rightarrow> zforest \<Rightarrow> bool" where
  "same_ids ms ns \<longleftrightarrow> map (map_ztree zt_id) ms = map (map_ztree zt_id) ns"

lemma same_ids_marks: "map marks_of ms = map marks_of ns \<Longrightarrow> same_ids ms ns"
proof -
  assume "map marks_of ms = map marks_of ns"
  from arg_cong [OF this, of "map (map_ztree fst)"] show ?thesis
    by (simp add: same_ids_def marks_of_def ztree.map_comp comp_def)
qed

lemma same_ids_trans: "same_ids ms ns \<Longrightarrow> same_ids ns us \<Longrightarrow> same_ids ms us"
  by (simp add: same_ids_def)

lemma put_all_ids: "map_ztree zt_id (put_all v n) = map_ztree zt_id n"
  by (induction n) simp

lemma put_at_ids: "same_ids (put_at v p ns) ns"
  unfolding same_ids_def
proof (induction p arbitrary: ns)
  case (Cons k p)
  show ?case
  proof (cases "k < length ns")
    case True
    let ?n = "if p = [] then put_all v (ns ! k) else rebuild (ZNode (zdata (ns ! k)) (put_at v p (zkids (ns ! k))))"
    have "map_ztree zt_id (ns ! k) = ZNode (zt_id (zdata (ns ! k))) (map (map_ztree zt_id) (zkids (ns ! k)))"
      by (cases "ns ! k") simp
    then have "map_ztree zt_id ?n = map_ztree zt_id (ns ! k)"
      using put_all_ids Cons.IH [of "zkids (ns ! k)"]
      by (simp add: rebuild_def repairChkClass_def makeChkFlag_def setChkClass_def)
    then show ?thesis using True by (simp add: map_update list_update_same_conv)
  qed simp
qed simp

lemma same_ids_at:
  assumes "same_ids ms ns" "node_at p ms = Some m"
  shows "\<exists>n. node_at p ns = Some n \<and> leaf_ids n = leaf_ids m"
proof -
  have at: "node_at p (map (map_ztree f) us) = map_option (map_ztree f) (node_at p us)" for p and f :: "zt \<Rightarrow> jstr" and us
  proof (induction p arbitrary: us)
    case (Cons k p)
    then show ?case by (simp add: ztree.map_sel)
  qed simp
  have "map_option (map_ztree zt_id) (node_at p ns) = Some (map_ztree zt_id m)" using at assms unfolding same_ids_def by (metis option.map(2))
  then obtain n where n: "node_at p ns = Some n" "map_ztree zt_id n = map_ztree zt_id m" by auto
  have "leaf_ids n = leaf_ids m" using leaves_of_map [of zt_id n] leaves_of_map [of zt_id m] n(2) by (metis leaf_ids_def list.set_map)
  then show ?thesis using n by blast
qed

lemma same_ids_none: "same_ids ms ns \<Longrightarrow> node_at p ms = None \<Longrightarrow> node_at p ns = None"
  using same_ids_at [of ns ms p] by (cases "node_at p ns") (auto simp: same_ids_def)

lemma same_ids_leaves: "same_ids ms ns \<Longrightarrow> map zt_id (leaf_data ms) = map zt_id (leaf_data ns)"
  using leaf_data_map [of zt_id ms] leaf_data_map [of zt_id ns] by (simp add: same_ids_def)

lemma leaf_data_below:
  assumes "n \<in> set (subtrees ns)"
  shows "set (leaves_of n) \<subseteq> set (leaf_data ns)" "list_all agrees ns \<Longrightarrow> agrees n"
proof -
  have "set (leaves_of n) \<subseteq> set (leaf_data ns) \<and> (list_all agrees ns \<longrightarrow> agrees n)" using assms
  proof (induction ns rule: subtrees.induct)
    case (2 d ts ns)
    then consider "n = ZNode d ts" | "n \<in> set (subtrees ts)" | "n \<in> set (subtrees ns)" by auto
    then show ?case
    proof cases
      case 2
      then have "ts \<noteq> []" by auto
      then show ?thesis using "2.IH"(1) [OF 2] by (auto simp: leaf_data_Cons leaves_of_def)
    qed (use "2.IH"(2) in \<open>auto simp: leaf_data_Cons\<close>)
  qed simp
  then show "set (leaves_of n) \<subseteq> set (leaf_data ns)" "list_all agrees ns \<Longrightarrow> agrees n" by auto
qed

lemma node_at_subtrees: "node_at p ns = Some n \<Longrightarrow> n \<in> set (subtrees ns)"
proof (induction p arbitrary: ns)
  case (Cons k p)
  have k: "k < length ns" using Cons.prems by (auto split: if_splits)
  have "n \<in> set (subtrees [ns ! k])"
    using Cons.prems k Cons.IH [of "zkids (ns ! k)"] by (cases "p = []") (simp_all add: subtrees_one)
  then show ?case using in_subtrees [of n ns] nth_mem [OF k] by blast
qed simp

text \<open>A box in the tree is checked exactly if something below it is chosen.\<close>

lemma box_chosen:
  assumes "list_all agrees ns" "distinct (map zt_id (leaf_data ns))" "n \<in> set (subtrees ns)"
  shows "box_checked n \<longleftrightarrow> leaf_ids n \<inter> chosen ns \<noteq> {}" "list_all zt_checked (leaves_of n) \<longleftrightarrow> leaf_ids n \<subseteq> chosen ns"
proof -
  note b = leaf_data_below [OF assms(3)]
  have "zt_checked d \<longleftrightarrow> zt_id d \<in> chosen ns" if "d \<in> set (leaves_of n)" for d
    using that b(1) assms(2) by (auto simp: chosen_def distinct_map inj_on_def)
  then show "box_checked n \<longleftrightarrow> leaf_ids n \<inter> chosen ns \<noteq> {}" "list_all zt_checked (leaves_of n) \<longleftrightarrow> leaf_ids n \<subseteq> chosen ns"
    using agrees_checked [OF b(2) [OF assms(1)]] by (auto simp: leaf_ids_def list_ex_iff list_all_iff)
qed

definition keeps_choice :: "zforest \<Rightarrow> zforest \<Rightarrow> jstr set \<Rightarrow> bool" where
  "keeps_choice zs ns S \<longleftrightarrow> list_all agrees ns \<and> same_ids ns zs \<and> chosen ns = S"

lemma keeps_put_at:
  assumes "keeps_choice zs ns S" "distinct (map zt_id (leaf_data zs))" "node_at p ns = Some n"
  shows "keeps_choice zs (put_at v p ns) (if v then S \<union> leaf_ids n else S - leaf_ids n)"
proof -
  have s: "same_ids ns zs" and c: "chosen ns = S" and a: "list_all agrees ns" using assms(1) by (simp_all add: keeps_choice_def)
  have "distinct (map zt_id (leaf_data ns))" using same_ids_leaves [OF s] assms(2) by simp
  from chosen_put_at [OF this assms(3), of v] show ?thesis
    unfolding keeps_choice_def c using agrees_put_at [OF a] same_ids_trans [OF put_at_ids s] by simp
qed

lemma keeps_marks:
  assumes "keeps_choice zs ns S" "list_all agrees ns' \<and> map marks_of ns' = map marks_of ns"
  shows "keeps_choice zs ns' S"
proof -
  have m: "map marks_of ns' = map marks_of ns" using assms(2) by simp
  show ?thesis
    using assms marks_chosen(1) [OF m] same_ids_trans [OF same_ids_marks [OF m], of zs] by (simp add: keeps_choice_def)
qed

lemma chosen_concat: "chosen us = (\<Union>u\<in>set us. chosen [u])"
  by (auto simp: chosen_def leaf_data_concat)

lemma keeps_all:
  assumes "keeps_choice zs ns S"
  shows "keeps_choice zs (map (put_all c) ns) (if c then zt_id ` set (leaf_data zs) else {})"
proof -
  have s: "same_ids ns zs" and a: "list_all agrees ns" using assms(1) by (simp_all add: keeps_choice_def)
  have "list_all agrees (map (put_all c) ns)" using a agrees_plain agrees_put_all by (auto simp: list_all_iff)
  moreover have "same_ids (map (put_all c) ns) zs" using s by (simp add: same_ids_def put_all_ids comp_def)
  moreover have "chosen (map (put_all c) ns) = (if c then zt_id ` set (leaf_data ns) else {})"
    unfolding chosen_concat [of "map (put_all c) ns"] by (auto simp: chosen_put_all leaf_ids_def leaf_data_concat)
  ultimately show ?thesis using arg_cong [OF same_ids_leaves [OF s], of set] by (simp add: keeps_choice_def)
qed

lemma keeps_step:
  assumes "keeps_choice zs ns S" "distinct (map zt_id (leaf_data zs))" "together e"
  shows "keeps_choice zs (ztree_step auth_setting e ns) (pick zs e S)"
proof -
  have a: "list_all agrees ns" and s: "same_ids ns zs" and c: "chosen ns = S" using assms(1) by (simp_all add: keeps_choice_def)
  have d: "distinct (map zt_id (leaf_data ns))" using same_ids_leaves [OF s] assms(2) by simp
  note K = keeps_put_at [OF assms(1,2)]
  have box: "box_checked n \<longleftrightarrow> leaf_ids n \<inter> S \<noteq> {}" if "node_at p ns = Some n" for p n
    using box_chosen(1) [OF a d node_at_subtrees [OF that]] c by simp
  show ?thesis
  proof (cases e)
    case (CheckClick p)
    show ?thesis
    proof (cases "node_at p ns")
      case None
      then show ?thesis using same_ids_none [OF s None] assms(1) by (simp add: CheckClick onCheckNode_def)
    next
      case (Some n)
      obtain m where m: "node_at p zs = Some m" "leaf_ids m = leaf_ids n" using same_ids_at [OF s Some] by blast
      then have "pick zs e S = (if \<not> box_checked n then S \<union> leaf_ids n else S - leaf_ids n)" using box [OF Some] by (simp add: CheckClick)
      then show ?thesis using K [OF Some, of "\<not> box_checked n"] click_put_at [OF a Some] by (simp only: CheckClick ztree_step.simps)
    qed
  next
    case (CheckMouse over p)
    have "list_all agrees (onMouseCheck over p ns) \<and> map marks_of (onMouseCheck over p ns) = map marks_of ns"
      using agrees_upd_at [OF a, of "setChkClass \<circ> set_focus over" p] mouse_agrees a by (simp add: onMouseCheck_def split: option.split)
    from keeps_marks [OF assms(1) this] show ?thesis by (simp add: CheckMouse)
  next
    case (CheckNode p v f)
    then have f: "f" using assms(3) by simp
    show ?thesis
    proof (cases "node_at p ns")
      case None
      then show ?thesis using same_ids_none [OF s None] assms(1) by (simp add: CheckNode checkNode_def)
    next
      case (Some n)
      let ?v = "case v of Some b \<Rightarrow> b | None \<Rightarrow> \<not> box_checked n"
      obtain m where m: "node_at p zs = Some m" "leaf_ids m = leaf_ids n" using same_ids_at [OF s Some] by blast
      then have "pick zs e S = (if ?v then S \<union> leaf_ids n else S - leaf_ids n)"
        using box [OF Some] by (simp add: CheckNode split: option.split)
      then show ?thesis using K [OF Some, of ?v] checkNode_put_at [OF a Some, of v] f by (simp add: CheckNode)
    qed
  next
    case (CheckAll v)
    then show ?thesis using keeps_all [OF assms(1), of v] all_put [OF a, of v] by simp
  next
    case (SwitchClick p)
    have "list_all agrees (switchNode auth_setting p ns) \<and> map marks_of (switchNode auth_setting p ns) = map marks_of ns"
      unfolding switchNode_def by (rule agrees_upd_at [OF a]) (rule switch_agrees)
    from keeps_marks [OF assms(1) this] show ?thesis by (simp add: SwitchClick)
  qed (use assms(3) in simp)
qed

lemma keeps_run:
  assumes "keeps_choice zs ns S" "distinct (map zt_id (leaf_data zs))" "list_all together es"
  shows "keeps_choice zs (ztree_run auth_setting es ns) (fold (pick zs) es S)"
  using assms
proof (induction es arbitrary: ns S)
  case (Cons e es)
  then show ?case using keeps_step [of zs ns S e] by (simp add: ztree_run_def)
qed (simp add: ztree_run_def)

lemma keeps_init:
  assumes "list_all ready zs"
  shows "keeps_choice zs (zTree_init auth_setting zs) (chosen zs)"
proof -
  let ?ns = "zTree_init auth_setting zs"
  have "list_all agrees ?ns" and m: "map marks_of ?ns = map marks_of zs"
    using appendNodes_agrees [of True zs 0 None True 0 "length zs" 0] assms by (simp_all add: zTree_init_def fits_def)
  then show ?thesis using marks_chosen(1) [OF m] same_ids_marks [OF m] by (simp add: keeps_choice_def)
qed

text \<open>The class of a box: whether something is chosen below it, and whether something but not all.\<close>

definition box_class :: "bool \<Rightarrow> bool \<Rightarrow> bool \<Rightarrow> string" where
  "box_class some part focus = ''button chk checkbox_'' @ (if some then ''true'' else ''false'') @
     (if part then ''_part'' else ''_full'') @ (if focus then ''_focus'' else [])"

lemma box_shows:
  assumes "agrees n"
  shows "zt_class (zdata n) = None \<or>
    zt_class (zdata n) = Some (box_class (list_ex zt_checked (leaves_of n))
      (list_ex zt_checked (leaves_of n) \<and> \<not> list_all zt_checked (leaves_of n)) (zt_check_Focus (zdata n)))"
proof -
  obtain d ts where n: "n = ZNode d ts" by (cases n)
  have p: "\<not> zt_chkDisabled d" "\<not> zt_halfCheck d" "class_of d = d" using assms by (simp_all add: n plain_boxD)
  have c: "zt_checked d \<longleftrightarrow> list_ex zt_checked (leaves_of n)" using agrees_checked [OF assms] by (simp add: n)
  have v: "zt_check_Child_State d = (if ts = [] then -1 else vote_of (map zt_checked (leaves_of n)))" using agrees_votes [OF assms] by (simp add: n)
  have l: "list_all id (map zt_checked (leaves_of n)) = list_all zt_checked (leaves_of n)" by (simp add: list_all_iff)
  have one: "ts = [] \<Longrightarrow> list_ex zt_checked (leaves_of n) = list_all zt_checked (leaves_of n)" by (simp add: n leaves_of_def)
  have all: "list_all zt_checked (leaves_of n) \<Longrightarrow> list_ex zt_checked (leaves_of n)"
    using leaves_nonempty [of n] by (cases "leaves_of n") simp_all
  have "makeChkClass d = box_class (list_ex zt_checked (leaves_of n))
      (list_ex zt_checked (leaves_of n) \<and> \<not> list_all zt_checked (leaves_of n)) (zt_check_Focus d)"
    using one all unfolding makeChkClass_def box_class_def v c Let_def vote_of_def l list_ex_map [of zt_checked, symmetric] using p(1,2) by auto
  moreover have "zt_class d = None \<or> zt_class d = Some (makeChkClass d)"
    using arg_cong [OF p(3), of zt_class] by (cases "zt_class d") (simp_all add: class_of_def)
  ultimately show ?thesis by (simp add: n)
qed

text \<open>
  C37: the tree of check boxes refines a set of chosen leaves: whatever is clicked, pointed at, opened and
  set by the program, in whatever order, a box is checked exactly if a leaf below it is chosen, and every
  box on the page shows all, some or none of what is below it; a click on a box with something
  chosen below takes it all back, any other chooses all of it.
\<close>

theorem check_tree_refines:
  assumes "list_all ready zs" "distinct (map zt_id (leaf_data zs))" "list_all together es"
    "ns = ztree_run auth_setting es (zTree_init auth_setting zs)" "S = fold (pick zs) es (chosen zs)" "n \<in> set (subtrees ns)"
  shows "(box_checked n \<longleftrightarrow> leaf_ids n \<inter> S \<noteq> {}) \<and>
    (zt_class (zdata n) = None \<or>
     zt_class (zdata n) = Some (box_class (leaf_ids n \<inter> S \<noteq> {}) (leaf_ids n \<inter> S \<noteq> {} \<and> \<not> leaf_ids n \<subseteq> S) (zt_check_Focus (zdata n))))"
proof -
  have "keeps_choice zs ns S" using keeps_run [OF keeps_init] assms by blast
  then have k: "list_all agrees ns" "same_ids ns zs" "chosen ns = S" by (simp_all add: keeps_choice_def)
  have d: "distinct (map zt_id (leaf_data ns))" using same_ids_leaves [OF k(2)] assms(2) by simp
  have n: "agrees n" using leaf_data_below(2) [OF assms(6) k(1)] .
  note b = box_chosen [OF k(1) d assms(6), unfolded k(3)]
  show ?thesis using box_shows [OF n] b agrees_checked [OF n] by simp
qed

text \<open>An entry as the server sends it: no box is disabled, missing or half.\<close>

definition server_entry :: "jstr \<Rightarrow> jstr option \<Rightarrow> bool \<Rightarrow> bool \<Rightarrow> zt" where
  "server_entry i p opened checked =
     \<lparr>zt_id = i, zt_pId = p, zt_open = opened, zt_isParent = False, zt_checked = checked, zt_nocheck = False,
      zt_chkDisabled = False, zt_halfCheck = False, zt_level = 0, zt_tId = 0, zt_isFirstNode = False, zt_isLastNode = False,
      zt_checkedOld = False, zt_check_Child_State = 0, zt_check_Focus = False, zt_class = None\<rparr>"

theorem check_tree_refines_witness:
  "let zs = [ZNode (server_entry [49] None True True) [ZNode (server_entry [50] None False True) [], ZNode (server_entry [51] None False False) []]];
       ns = ztree_run auth_setting [CheckClick [0], CheckMouse True [0], CheckClick [0, 1]] (zTree_init auth_setting zs)
   in box_checked (hd ns) \<and> zt_class (zdata (hd ns)) = Some (box_class True True True)"
proof -
  let ?zs = "[ZNode (server_entry [49] None True True) [ZNode (server_entry [50] None False True) [], ZNode (server_entry [51] None False False) []]]"
  let ?es = "[CheckClick [0], CheckMouse True [0], CheckClick [0, 1]]"
  obtain ns where ns: "ns = ztree_run auth_setting ?es (zTree_init auth_setting ?zs)" by simp
  have 1: "list_all ready ?zs" by (simp add: server_entry_def plain_box_def)
  have 2: "distinct (map zt_id (leaf_data ?zs))" by (simp add: server_entry_def)
  have 3: "list_all together ?es" by simp
  have S: "fold (pick ?zs) ?es (chosen ?zs) = {[51]}"
    by (simp add: chosen_def leaf_ids_def leaves_of_def server_entry_def)
  have 4: "hd ns \<in> set (subtrees ns)" unfolding ns by code_simp
  have f: "zt_check_Focus (zdata (hd ns))" "zt_class (zdata (hd ns)) \<noteq> None" unfolding ns by code_simp+
  have l: "leaf_ids (hd ns) = {[50], [51]}" unfolding ns by code_simp
  have "box_checked (hd ns) \<and> zt_class (zdata (hd ns)) = Some (box_class True True True)"
    using check_tree_refines [OF 1 2 3 ns S [symmetric] 4] f unfolding l by simp
  then show ?thesis unfolding Let_def ns .
qed

section \<open>What is read, and what is never touched\<close>

lemma subtrees_data: "transformToArrayFormat ns = map zdata (subtrees ns)"
  by (induction ns rule: subtrees.induct) simp_all

lemma getTreeCheckedNodes_filter:
  "getTreeCheckedNodes c ns = filter (\<lambda>d. \<not> boxless d \<and> zt_checked d = c) (transformToArrayFormat ns)"
  by (induction c ns rule: getTreeCheckedNodes.induct) simp_all

lemma getTreeChangeCheckedNodes_filter:
  "getTreeChangeCheckedNodes ns = filter (\<lambda>d. \<not> boxless d \<and> zt_checked d \<noteq> zt_checkedOld d) (transformToArrayFormat ns)"
  by (induction ns rule: getTreeChangeCheckedNodes.induct) simp_all

lemma subtrees_map: "subtrees (map (map_ztree f) ns) = map (map_ztree f) (subtrees ns)"
  by (induction ns rule: subtrees.induct) simp_all

text \<open>The ids of the boxes that are checked, read off the tree the server sent.\<close>

lemma checked_ids:
  assumes "list_all ready zs" "distinct (map zt_id (leaf_data zs))" "list_all together es"
  shows "map zt_id (getTreeCheckedNodes True (ztree_run auth_setting es (zTree_init auth_setting zs))) =
    map (\<lambda>n. zt_id (zdata n)) (filter (\<lambda>n. leaf_ids n \<inter> fold (pick zs) es (chosen zs) \<noteq> {}) (subtrees zs))"
proof -
  define ns S where "ns = ztree_run auth_setting es (zTree_init auth_setting zs)" "S = fold (pick zs) es (chosen zs)"
  have "keeps_choice zs ns S" using keeps_run [OF keeps_init] assms unfolding ns_S_def by blast
  then have k: "list_all agrees ns" "same_ids ns zs" "chosen ns = S" by (simp_all add: keeps_choice_def)
  have d: "distinct (map zt_id (leaf_data ns))" using same_ids_leaves [OF k(2)] assms(2) by simp
  have "\<not> boxless (zdata n) \<and> box_checked n \<longleftrightarrow> leaf_ids n \<inter> S \<noteq> {}" if "n \<in> set (subtrees ns)" for n
    using box_chosen(1) [OF k(1) d that] k(3) plain_boxD [OF all_plain_data [OF agrees_plain [OF leaf_data_below(2) [OF that k(1)]]]]
    by (simp add: boxless_def)
  then have f: "filter (\<lambda>n. \<not> boxless (zdata n) \<and> box_checked n) (subtrees ns) = filter (\<lambda>n. leaf_ids n \<inter> S \<noteq> {}) (subtrees ns)"
    by (rule filter_cong [OF refl])
  have l: "leaf_ids m = set (leaves_of (map_ztree zt_id m))" "zt_id (zdata m) = zdata (map_ztree zt_id m)" for m
    by (simp_all add: leaf_ids_def leaves_of_map ztree.map_sel)
  have "map (map_ztree zt_id) (subtrees ns) = map (map_ztree zt_id) (subtrees zs)"
    using k(2) subtrees_map [of zt_id ns] subtrees_map [of zt_id zs] by (simp add: same_ids_def)
  then have "map zdata (filter (\<lambda>t. set (leaves_of t) \<inter> S \<noteq> {}) (map (map_ztree zt_id) (subtrees ns))) =
    map zdata (filter (\<lambda>t. set (leaves_of t) \<inter> S \<noteq> {}) (map (map_ztree zt_id) (subtrees zs)))" by simp
  then have "map (\<lambda>n. zt_id (zdata n)) (filter (\<lambda>n. leaf_ids n \<inter> S \<noteq> {}) (subtrees ns)) =
    map (\<lambda>n. zt_id (zdata n)) (filter (\<lambda>n. leaf_ids n \<inter> S \<noteq> {}) (subtrees zs))"
    unfolding l filter_map map_map comp_def .
  moreover have "map zt_id (getTreeCheckedNodes True ns) = map (\<lambda>n. zt_id (zdata n)) (filter (\<lambda>n. \<not> boxless (zdata n) \<and> box_checked n) (subtrees ns))"
    by (simp add: getTreeCheckedNodes_filter subtrees_data filter_map comp_def)
  ultimately show ?thesis using f by (simp add: ns_S_def)
qed

text \<open>The parent named by an entry; a missing one is read as the text \<open>null\<close>.\<close>

definition zt_parentKey :: "zt \<Rightarrow> jstr" where
  "zt_parentKey d = (case zt_pId d of Some p \<Rightarrow> p | None \<Rightarrow> js ''null'')"

lemma leaf_data_subseq: "subseq (leaf_data ns) (transformToArrayFormat ns)"
proof (induction ns rule: leaf_data.induct)
  case (2 d ts ns)
  have "subseq (if ts = [] then [d] else leaf_data ts) (d # transformToArrayFormat ts)" using 2(1) by auto
  from list_emb_append_mono [OF this 2(2)] show ?case by simp
qed simp

lemma subseq_set_distinct: "subseq ys zs \<Longrightarrow> distinct zs \<Longrightarrow> set ys \<subseteq> set zs \<and> distinct ys"
  by (induction rule: list_emb.induct) auto

lemma list_tree_distinct:
  assumes "distinct (map zt_id xs)"
  shows "distinct (map (\<lambda>n. zt_id (zdata n)) (subtrees (transformTozTreeFormat zt_id zt_parentKey xs)))"
proof -
  let ?zs = "transformTozTreeFormat zt_id zt_parentKey xs"
  have "mset (map zt_id (transformToArrayFormat ?zs)) = mset (map zt_id (filter (comes_up (length xs) zt_id zt_parentKey xs) xs))"
    using forest_entries [of zt_id zt_parentKey xs] by (simp only: mset_map)
  then have "distinct (map zt_id (transformToArrayFormat ?zs))"
    using assms by (metis distinct_map_filter mset_eq_imp_distinct_iff)
  then show ?thesis by (simp add: subtrees_data comp_def)
qed

lemma list_leaves_distinct:
  assumes "distinct (map zt_id xs)"
  shows "distinct (map zt_id (leaf_data (transformTozTreeFormat zt_id zt_parentKey xs)))"
proof -
  let ?zs = "transformTozTreeFormat zt_id zt_parentKey xs"
  have "distinct (map zt_id (transformToArrayFormat ?zs))" using list_tree_distinct [OF assms] by (simp add: subtrees_data comp_def)
  then show ?thesis using subseq_set_distinct [OF subseq_map [OF leaf_data_subseq]] by blast
qed

lemma kid_subtree: "t \<in> set (subtrees ns) \<Longrightarrow> n \<in> set (zkids t) \<Longrightarrow> n \<in> set (subtrees ns)"
proof (induction ns rule: subtrees.induct)
  case (2 d ts ns)
  have "n \<in> set (subtrees ts)" if "n \<in> set ts" using that in_subtrees [of n ts] by (auto simp: subtrees_one)
  then show ?case using 2 by auto
qed simp

lemma leaf_ids_kid: "n \<in> set (zkids t) \<Longrightarrow> leaf_ids n \<subseteq> leaf_ids t"
  by (auto simp: leaf_ids_def leaves_of_def [of t] leaf_data_concat)

subsection \<open>Disabled boxes\<close>

definition keeps_locked :: "zt \<Rightarrow> zt \<Rightarrow> bool" where
  "keeps_locked d e \<longleftrightarrow> zt_chkDisabled e = zt_chkDisabled d \<and> (zt_chkDisabled d \<longrightarrow> zt_checked e = zt_checked d)"

lemma keeps_locked_refl [simp]: "keeps_locked d d"
  by (simp add: keeps_locked_def)

abbreviation tree_locked :: "zt ztree \<Rightarrow> zt ztree \<Rightarrow> bool" where
  "tree_locked \<equiv> rel_ztree keeps_locked"

abbreviation forest_locked :: "zforest \<Rightarrow> zforest \<Rightarrow> bool" where
  "forest_locked \<equiv> list_all2 tree_locked"

lemma locked_refl [simp]: "tree_locked n n"
  by (rule ztree.rel_refl) (simp add: keeps_locked_def)

lemma locked_trans: "tree_locked l m \<Longrightarrow> tree_locked m n \<Longrightarrow> tree_locked l n"
proof -
  assume "tree_locked l m" "tree_locked m n"
  then have "(tree_locked OO tree_locked) l n" by blast
  then have "rel_ztree (keeps_locked OO keeps_locked) l n" by (simp add: ztree.rel_compp)
  moreover have "keeps_locked OO keeps_locked \<le> keeps_locked" by (auto simp: keeps_locked_def)
  ultimately show ?thesis using ztree.rel_mono by blast
qed

lemma forest_refl [simp]: "forest_locked ns ns"
  by (simp add: list_all2_refl)

lemma forest_trans: "forest_locked ls ms \<Longrightarrow> forest_locked ms ns \<Longrightarrow> forest_locked ls ns"
  by (rule list_all2_trans [OF locked_trans])

lemma locked_node: "keeps_locked (zdata m) (zdata n) \<Longrightarrow> forest_locked (zkids m) (zkids n) \<Longrightarrow> tree_locked m n"
  by (cases m; cases n) simp

lemma locked_upd: "(\<And>n. node_at p ns = Some n \<Longrightarrow> tree_locked n (f n)) \<Longrightarrow> forest_locked ns (upd_at p f ns)"
proof (induction p arbitrary: ns)
  case (Cons k p)
  show ?case
  proof (cases "k < length ns")
    case True
    have "tree_locked (ns ! k) (if p = [] then f (ns ! k) else ZNode (zdata (ns ! k)) (upd_at p f (zkids (ns ! k))))"
      using Cons.prems Cons.IH [of "zkids (ns ! k)"] True by (cases "p = []") (simp_all add: locked_node)
    then have "forest_locked (ns[k := ns ! k]) (ns[k := (if p = [] then f (ns ! k) else ZNode (zdata (ns ! k)) (upd_at p f (zkids (ns ! k))))])"
      by (intro list_all2_update_cong) simp_all
    then show ?thesis using True by simp
  qed simp
qed simp

lemma locked_ops [simp]:
  "tree_locked n (makeChkFlag n)" "tree_locked n (setChkClass n)" "tree_locked n (repairChkClass n)"
  "tree_locked n (mark_parent v n)" "tree_locked n (set_focus b n)" "tree_locked n (beforeA n)"
  "tree_locked n (ZNode ((zdata n)\<lparr>zt_open := b\<rparr>) (zkids n))"
  by (rule locked_node; simp add: keeps_locked_def makeChkFlag_def setChkClass_def repairChkClass_def mark_parent_def
    boxless_def set_focus_def beforeA_def Let_def)+

lemma locked_set_checked: "\<not> zt_chkDisabled (zdata n) \<Longrightarrow> tree_locked n (set_checked b n)"
  by (rule locked_node) (simp_all add: keeps_locked_def)

lemma locked_son: "tree_locked n (setSonNodeCheckBox v n)"
proof (induction n)
  case (ZNode d ts)
  then have "forest_locked ts (map (setSonNodeCheckBox v) ts)" by (simp add: list_all2_map2 list.rel_refl_strong)
  moreover have "keeps_locked d (zdata (setSonNodeCheckBox v (ZNode d ts)))"
    by (simp add: keeps_locked_def setChkClass_def makeChkFlag_def Let_def)
  moreover have "zkids (setSonNodeCheckBox v (ZNode d ts)) = map (setSonNodeCheckBox v) ts"
    by (simp add: setChkClass_def Let_def)
  ultimately show ?case by (intro locked_node) (simp_all only: ztree.sel)
qed

lemma locked_up: "forest_locked ns (setParentNodeCheckBox v p ns)"
proof (induction v p ns rule: setParentNodeCheckBox.induct)
  case (1 v p ns)
  have "forest_locked ns (upd_at p (mark_parent v) ns)" by (rule locked_upd) simp
  then show ?case using forest_trans [OF _ "1.IH"] by (subst setParentNodeCheckBox.simps) (auto simp: Let_def)
qed

lemma locked_repair: "forest_locked ns (repairParentChkClass p ns)"
proof (induction p ns rule: repairParentChkClass.induct)
  case (1 p ns)
  have "forest_locked ns (upd_at (butlast p) repairChkClass ns)" by (rule locked_upd) simp
  then show ?case using forest_trans [OF _ "1.IH"] by (subst repairParentChkClass.simps) auto
qed

lemma locked_show: "forest_locked ns (show_boxes p ns)"
proof -
  have "forest_locked ns (upd_at p setChkClass ns)" by (rule locked_upd) simp
  then show ?thesis
    using forest_trans [OF _ locked_repair] by (auto simp: show_boxes_def repairParentChkClassWithSelf_def split: option.split)
qed

lemma locked_relation: "forest_locked ns (checkNodeRelation st p ns)"
proof -
  have s: "forest_locked us (if b then upd_at p (setSonNodeCheckBox v) us else us)" for b v us
    by (simp add: locked_upd [OF locked_son])
  have u: "forest_locked us (if b then setParentNodeCheckBox v p us else us)" for b v us by (simp add: locked_up)
  show ?thesis unfolding checkNodeRelation_def Let_def by (rule forest_trans [OF forest_trans [OF forest_trans [OF s s] u] u])
qed

lemma locked_append: "forest_locked ns (fst (appendNodes st level parent False openFlag i l zId ns))"
proof (induction st level parent False openFlag i l zId ns rule: appendNodes.induct)
  case (2 st level parent openFlag i l zId d ts ns)
  obtain ts' z where ts': "appendNodes st (level + 1) (Some d) False (openFlag \<and> zt_open d) 0 (length ts) zId ts = (ts', z)" by fastforce
  obtain ns' z' where ns': "appendNodes st level parent False openFlag (i + 1) l z ns = (ns', z')" by fastforce
  define m where "m = (if ts' \<noteq> [] then makeChkFlag (ZNode d ts') else ZNode d ts')"
  have t: "forest_locked ts ts'" using "2.hyps"(1) [of d] ts' by simp
  have n: "forest_locked ns ns'" using "2.hyps"(2) [of d, OF _ _ _ refl refl] ts' ns' by simp
  have "tree_locked (ZNode d ts) (ZNode d ts')" using t by simp
  then have m: "tree_locked (ZNode d ts) m"
    using locked_trans [OF _ locked_ops(1)] unfolding m_def by (simp only: if_split) blast
  then have "tree_locked (ZNode d ts) (beforeA m)" by (rule locked_trans [OF _ locked_ops(6)])
  note m = m this
  then show ?case using m n ts' ns' by (simp add: Let_def m_def [symmetric])
qed simp

lemma locked_tree_step:
  assumes "\<forall>p b ip ic. e \<noteq> SetDisabled p b ip ic"
  shows "forest_locked ns (ztree_step st e ns)"
proof (cases e)
  case (CheckClick p)
  show ?thesis
  proof (cases "node_at p ns")
    case (Some n)
    have "forest_locked ns (upd_at p (set_checked (\<not> zt_checked (zdata n))) ns)" if "\<not> zt_chkDisabled (zdata n)"
      using that Some by (intro locked_upd) (simp add: locked_set_checked)
    then show ?thesis using Some forest_trans [OF forest_trans [OF _ locked_relation] locked_show] by (simp add: CheckClick onCheckNode_def)
  qed (simp add: CheckClick onCheckNode_def)
next
  case (CheckMouse over p)
  have "forest_locked ns (upd_at p (setChkClass \<circ> set_focus over) ns)"
    unfolding comp_def by (rule locked_upd) (rule locked_trans [OF locked_ops(5) locked_ops(2)])
  then show ?thesis by (simp add: CheckMouse onMouseCheck_def split: option.split)
next
  case (CheckNode p c f)
  show ?thesis
  proof (cases "node_at p ns")
    case (Some n)
    have "forest_locked ns (upd_at p (set_checked v) ns)" if "\<not> zt_chkDisabled (zdata n)" for v
      using that Some by (intro locked_upd) (simp add: locked_set_checked)
    then show ?thesis
      using Some forest_trans [OF forest_trans [OF _ locked_relation] locked_show] forest_trans [OF _ locked_show]
      by (simp add: CheckNode checkNode_def Let_def)
  qed (simp add: CheckNode checkNode_def)
next
  case (CheckAll c)
  have "tree_locked n (if boxless (zdata n) then n else set_checked c n)" for n by (simp add: locked_set_checked boxless_def)
  then have "tree_locked n (setSonNodeCheckBox c (if boxless (zdata n) then n else set_checked c n))" for n
    using locked_trans locked_son by blast
  then show ?thesis by (simp add: CheckAll repairAllChk_def list_all2_map2 list.rel_refl)
next
  case (SwitchClick p)
  have a: "tree_locked n (appendParentULDom st n)" for n
  proof -
    have "tree_locked n (ZNode (zdata n) (fst (appendNodes st l q False True 0 k 0 (zkids n))))" for l q k
      by (rule locked_node) (simp_all add: keeps_locked_def locked_append)
    then show ?thesis unfolding appendParentULDom_def Let_def using locked_trans locked_ops(1) by blast
  qed
  have "tree_locked n (expandCollapseNode st b n)" for n b
  proof -
    have i: "tree_locked n (if c then appendParentULDom st n else n)" for c using a by simp
    have o: "tree_locked n (if c then m else ZNode ((zdata m)\<lparr>zt_open := w\<rparr>) (zkids m))" if "tree_locked n m" for c w m
      using locked_trans [OF that locked_ops(7)] that by simp
    show ?thesis unfolding expandCollapseNode_def Let_def by (rule o [OF i])
  qed
  then show ?thesis by (simp add: SwitchClick switchNode_def locked_upd)
qed (use assms in blast)

text \<open>
  C40: a disabled box keeps its value: whatever is clicked around it, set by the program or checked all
  at once, with any setting for what a click takes along and for any tree.
\<close>

theorem disabled_kept:
  assumes "node_at p ns = Some n" "zt_chkDisabled (zdata n)" "\<forall>e\<in>set es. \<forall>q b ip ic. e \<noteq> SetDisabled q b ip ic"
  shows "\<exists>m. node_at p (ztree_run st es ns) = Some m \<and> zt_chkDisabled (zdata m) \<and> box_checked m = box_checked n"
proof -
  have "forest_locked ns (ztree_run st es ns)" using assms(3)
  proof (induction es arbitrary: ns)
    case (Cons e es)
    then show ?case using forest_trans [OF locked_tree_step [of e ns st]] by (simp add: ztree_run_def)
  qed (simp add: ztree_run_def)
  moreover have "\<exists>m. node_at p us = Some m \<and> tree_locked n m" if "forest_locked ns us" for us
    using that assms(1)
  proof (induction p arbitrary: ns us)
    case (Cons k p)
    then have k: "k < length ns" "k < length us" "tree_locked (ns ! k) (us ! k)"
      by (auto simp: list_all2_conv_all_nth split: if_splits)
    then have "forest_locked (zkids (ns ! k)) (zkids (us ! k))" by (cases "ns ! k"; cases "us ! k") simp
    then show ?case using Cons.IH [of "zkids (ns ! k)"] Cons.prems(2) k by (simp split: if_splits)
  qed simp
  ultimately obtain m where m: "node_at p (ztree_run st es ns) = Some m" "tree_locked n m" by blast
  then have "keeps_locked (zdata n) (zdata m)" by (cases n; cases m) simp
  then show ?thesis using m(1) assms(2) by (simp add: keeps_locked_def)
qed

theorem disabled_kept_witness:
  "let ns = [ZNode (server_entry [49] None True False) [ZNode ((server_entry [50] None False False)\<lparr>zt_chkDisabled := True\<rparr>) []]]
   in \<exists>m. node_at [0, 0] (ztree_run auth_setting [CheckClick [0], CheckAll True, CheckClick [0, 0]] ns) = Some m \<and> \<not> box_checked m"
proof -
  let ?ns = "[ZNode (server_entry [49] None True False) [ZNode ((server_entry [50] None False False)\<lparr>zt_chkDisabled := True\<rparr>) []]]"
  let ?n = "ZNode ((server_entry [50] None False False)\<lparr>zt_chkDisabled := True\<rparr>) []"
  have n: "node_at [0, 0] ?ns = Some ?n" "zt_chkDisabled (zdata ?n)" by simp_all
  have "\<forall>e\<in>set [CheckClick [0], CheckAll True, CheckClick [0, 0]]. \<forall>q b ip ic. e \<noteq> SetDisabled q b ip ic" by simp
  from disabled_kept [OF n this, of auth_setting] obtain m where
    "node_at [0, 0] (ztree_run auth_setting [CheckClick [0], CheckAll True, CheckClick [0, 0]] ?ns) = Some m" "box_checked m = box_checked ?n"
    by blast
  moreover have "\<not> box_checked ?n" by (simp add: server_entry_def)
  ultimately show ?thesis unfolding Let_def by blast
qed

text \<open>
  The state of a disabled node does not follow what is below it: its children are checked with the
  rest, but the node, and so the box above, still says that nothing or only a part is.
\<close>

lemma disabled_state_stale:
  "let ns = ztree_run auth_setting [CheckClick [0]]
       (zTree_init auth_setting [ZNode (server_entry [49] None True False)
         [ZNode ((server_entry [50] None True False)\<lparr>zt_chkDisabled := True\<rparr>) [ZNode (server_entry [51] None False False) []]]])
   in is_checked [0, 0, 0] ns \<and> map_option (zt_check_Child_State \<circ> zdata) (node_at [0, 0] ns) = Some 0 \<and>
      map_option (zt_check_Child_State \<circ> zdata) (node_at [0] ns) = Some 0"
  by code_simp

end
