(* ===== verification/Spec2Isabelle.thy ===== *)
theory Spec2Isabelle
  imports Valid_Page Base64 Lottery Forms AdminActions EggGame Stat WinDialog ChatFloat Weixin Popui
    Contabs Pop_Slide Pop_Marquee Pop_Scroll Pop_Inputs News_Ticker Password Admin_Theme Photo_Strip
    Form_Checks Tree_Table Game_Page Reveal Side_Menu Pop_Browser
    Ztree_Check
begin

text \<open>
  A model of the JavaScript of this repository: the promotional games of the WeChat modules, the
  administration pages around them and the cache console. The server side is Java and is not
  modelled; its answers are arguments of the operations that receive them.

  How the parts work together. A game page loads the egg game (or the nine-grid wheel of the other
  game). A tap asks the server for the outcome; the page shows an animation driven by timers, then a
  dialog, whose buttons take the prize, register the player, or continue. Beside it run the chat
  bubble, the statistics that identify a visitor by cookies, and the rewriting of the address that
  is shared. The administration pages submit forms, delete and block entries after confirmation,
  renumber the rows of forms with several lines and compose messages to groups of followers.

  What stands for what:
    - \<open>Js_Prelude\<close>: strings as lists of code units (\<open>jstr\<close>), search, split and replace as JavaScript
      defines them, objects as ordered association lists (\<open>jobj\<close>), printing of numbers; the locale
      \<open>key_store\<close> with the laws of insertion and lookup, interpreted on the model's objects.
    - \<open>Js_Dom\<close>: timers (\<open>setTimeout\<close>, \<open>setInterval\<close> and their clearing) as a table of pending entries with
      ids never used twice, and the locale \<open>timeout_service\<close> with the laws of setting and clearing, from
      which a variable that is cleared before it is set holds the only timer; it is interpreted for
      timeouts and for intervals. With them the changes a page can show.
    - \<open>Base64\<close> (\<open>template/hd0921/js/base64.js\<close>): \<open>encode\<close>, \<open>decode\<close>, \<open>_utf8_encode\<close>, \<open>_utf8_decode\<close>; the
      equivalence with grouping bytes by three, and the round trips.
    - \<open>Lottery\<close> (\<open>js/common.js\<close> of the game module): \<open>lottery.init\<close>, \<open>lottery.roll\<close>, \<open>roll\<close>, \<open>jiugong\<close> and
      its callbacks, \<open>resetIndex\<close>; the invariant of the wheel, where a draw stops and when it does not.
    - \<open>Forms\<close> (\<open>js/wxActGoldeneggs.js\<close>, \<open>js/js_util.js\<close>, \<open>js/util.js\<close> and the second half of
      \<open>plug-in/js/common.js\<close>): rows and boxes renumbered, forms serialised, dates, amounts, templates.
    - \<open>AdminActions\<close> (first half of \<open>plug-in/js/common.js\<close>, \<open>jwid_user.js\<close>, \<open>privilege_role.js\<close>): requests,
      confirmation boxes and their answers as events; the authorisation trees as the pages use them.
    - \<open>Ztree_Data\<close> and \<open>Ztree_Check\<close> (\<open>zTree/jquery.ztree.core.js\<close>, \<open>jquery.ztree.excheck.js\<close>): the widget
      below those pages. The list of the server becomes a forest, in which exactly the entries stand
      whose parents lead to the top (the locale \<open>parent_links\<close>, interpreted on the links of the list); nodes
      are created when they are first shown; a click on a box travels down and up. The cascade
      implements a set of chosen leaves, and disabled boxes are out of its reach. The theorem at the end
      of this file puts the list, the boxes and the request of \<open>privilege_role.js\<close> together.
    - \<open>EggDialog\<close> (\<open>dialog.js\<close>, \<open>register.js\<close>, \<open>guide.js\<close>, \<open>player.js\<close>) and \<open>EggGame\<close> (\<open>egg.js\<close>, \<open>pass.js\<close>): the
      dialogs with their markup and bound buttons, and the state machine of a draw.
    - \<open>Js_Uri\<close>: \<open>encodeURIComponent\<close> and \<open>decodeURIComponent\<close> of the language, with their round trip.
    - \<open>Stat\<close> (\<open>st.js\<close>, \<open>share_channel.js\<close>): cookies, ids, events, the loop that waits for the cookie, and
      the channel put into a shared address.
    - \<open>ChatFloat\<close> (\<open>ChatFloat.js\<close>): cookies with \<open>escape\<close>, the right to chat, the position of the bubble. Names
      without characters that mean something in a pattern are searched for as the pattern does; for other
      names the match, and for every stored text what \<open>eval\<close> makes of it, exceptions included, are arguments.
    - \<open>WinDialog\<close> (\<open>winDialog.js\<close>): boxes, their z-indexes and their removal.
    - \<open>Popui\<close> (\<open>popui.js\<close>): \<open>debounce\<close>, \<open>throttle\<close>, \<open>uiParse\<close>, the dialog and its countdown, lazy loading.
      \<open>Pop_Tabs\<close> has the tabs with the indexes and the timer they share with the carousel in
      \<open>Pop_Slide\<close>; \<open>Pop_Marquee\<close> the marquee; \<open>Pop_Scroll\<close> what follows the scroll position through
      \<open>throttle\<close> (\<open>navLight\<close>, \<open>suction\<close>, the panel back to the top), on the locales \<open>delayed_call\<close> and
      \<open>scroll_widget\<close>, which hold for throttling and debouncing and say that the last position is
      seen in the end; \<open>Pop_Inputs\<close> the hint over an input, select boxes, hover classes, the picture
      carousel on top of the tabs, and the login box.
    - \<open>Contabs\<close> (\<open>hplus/js/contabs.js\<close>): the tab bar of the administration frame; it implements an
      abstract list of addresses with one in front, and its arrows are searches that may not end.
    - \<open>Admin_Theme\<close> (\<open>hplus/js/hplus.js\<close>): the menu, the panels and the settings of that frame with their
      store, which implement one layout and one flag across loads of the page.
    - \<open>Form_Checks\<close> (\<open>tiptype.js\<close>, \<open>forminit*.js\<close>, \<open>checkPermission.js\<close>, \<open>webuploaderUtils.js\<close>) and \<open>Password\<close>
      (\<open>passwordStrength.js\<close>): messages beside fields, the question before sending, uploads with the
      options they share, and the score of a password on 32-bit integers.
    - \<open>Validform_v5.3.2.js\<close>, the library that checks and sends those forms, in six theories. \<open>Js_Regex\<close>: the
      patterns of JavaScript compiled from their source to expressions with a relation of matching,
      executable as sets of ends. \<open>Valid_Rules\<close>: the table of types and its growth, the attribute \<open>datatype\<close>,
      messages, \<open>_regcheck\<close> and \<open>regcheck\<close>; the specification \<open>meets\<close> says what a field asks without tables
      that grow and loops. \<open>Valid_Types\<close>: what types with a range accept, the attribute printed and read
      back. \<open>Validform\<close>: the form as a state machine (\<open>check\<close>, \<open>submitForm\<close>, the questions to the server and
      their answers, reset and the calls of the page); the locale \<open>form_law\<close> proves a law for all runs
      from what it has to keep, and is interpreted for five laws; an exception is traced back to a field whose
      types can not be read (\<open>unreadable\<close>), and only such a form is sent by the browser without a check.
      \<open>Valid_Runs\<close>: one form at a time, the arrival of a form that is ready, and the ways around the checks.
      \<open>Valid_Page\<close> (\<open>forminit.p3.js\<close>) composes that form with the boxes and requests of \<open>AdminActions\<close>: the
      button that checks, asks and sends, and the key Enter that goes around the question.
    - \<open>News_Ticker\<close> (\<open>plug-in/js/scroll.js\<close>) and \<open>Photo_Strip\<close> (\<open>plug-in/js/scrollNav.js\<close>): the ticker with its
      pauses, the strip with its arrows, the menu and the grey texts of the page head.
    - \<open>Js_Fx\<close>: the queue of animations of an element, with what rests when all have ended, which does not
      depend on when they end, and the locale \<open>fx_page\<close> for what every animation keeps. On it
      \<open>Game_Page\<close> (\<open>alert.js\<close>, \<open>main.js\<close>, \<open>hiddenWxShare.js\<close>, the coins of \<open>egg.js\<close>): the alert box, which
      counts its calls; and \<open>Reveal\<close> (\<open>jquery.reveal.js\<close>): the modal window over sessions of opening and
      closing.
    - \<open>Side_Menu\<close> (\<open>jUi.js\<close>, \<open>j_ui.js\<close>, \<open>jquery.pin.js\<close>, \<open>stickUp.js\<close>, \<open>iFrameResize.js\<close>): the menu of groups,
      elements that stay in view, and the heights of frames. \<open>Pop_Browser\<close>: the browser test of
      \<open>popui.js\<close> and the places it compares.
    - \<open>Tree_Table\<close> (\<open>treetable/jquery.treeTable.js\<close>): rows that name their parents shown as a tree; its
      recursions are partial functions that end where the parents lead to the top, and the table
      implements a set of expanded rows.
    - \<open>Weixin\<close> (\<open>groupMessageSend.js\<close>, \<open>newsItem-add.js\<close>, \<open>cache.js\<close>): group messages, chosen files, the
      cache console.

  Conventions. A page is a record; a handler is a function on it; what happens outside (a click, a
  timer that is due, an answer) is a constructor of an event type, and the theorems about runs hold
  for every list of events, so for every interleaving. Times and dates are integers in milliseconds
  given with the event. Random numbers, the answers of requests, the values of inherited
  properties and floating-point percentages are arguments. Exceptions are an error value, or a flag
  where the page goes on afterwards.

  Bounds. Loops of the code are structural recursions over the text or the list they scan; the
  loops over an index (\<open>roll\<close>, the decoder) end by a measure or are driven by timer events. Only
  \<open>read_tree\<close> and \<open>comes_up\<close>, which follow the links between the entries of a list, run on fuel: the length
  of the list, which is enough because a chain of parents that ends passes no entry twice
  (\<open>simple_data_forest\<close> shows that no entry is cut off). The matcher of patterns tries no more repetitions
  than the text has units left, and \<open>rx_test_match\<close> shows that no match is lost. The searches of the tab bar are partial functions, whose value is missing
  when they do not end; when they end is a theorem. Frames of the marquee and scrolls of the ticker
  are driven by ticks, and theorems bound the ticks they take. That a draw ends is proved by counting
  the steps of the wheel; that it does not end on a short wheel is proved for every number of steps.

  The model runs the modules as their loader calls them. Several files lack the name \<open>define\<close> in front
  of their function and are not called at all as they stand; this is recorded with the findings.

  Not modelled: the libraries (jQuery, Zepto, layer, createjs, upload widgets, menu and
  scrolling plug-ins), of Validform the plug-ins it can start, \<open>addRule\<close> and \<open>config\<close>, which bind the
  same handlers again, and the place of the box with the message, of regular expressions flags,
  look-ahead and references, of zTree what the pages do not use (radio buttons, nodes loaded one level at a
  time, dragging and editing) and the markup and icons of its nodes, style and animation data, the
  demonstration pages of the administration theme.
\<close>

section \<open>From the list of the server to the permissions saved\<close>

text \<open>
  C38: the trees of the authorisation pages with their boxes and the request that saves them: the server
  sends a list of entries, the user clicks, and what is saved are the ids of the entries that have a chosen
  leaf below them (or are one), in the order of the tree; entries of which nothing is chosen are
  never sent, and an entry is never sent without those above it.
\<close>

theorem saved_permissions:
  assumes "distinct (map zt_id xs)" "zs = transformTozTreeFormat zt_id zt_parentKey xs" "list_all ready zs" "list_all together es"
    "S = fold (pick zs) es (chosen zs)" "saved = map zt_id (getTreeCheckedNodes True (ztree_run auth_setting es (zTree_init auth_setting zs)))"
  shows "saveAuth saved who = (join_with (js '','') (map (\<lambda>n. zt_id (zdata n)) (filter (\<lambda>n. leaf_ids n \<inter> S \<noteq> {}) (subtrees zs))), who) \<and>
    (\<forall>t\<in>set (subtrees zs). \<forall>n\<in>set (zkids t). zt_id (zdata n) \<in> set saved \<longrightarrow> zt_id (zdata t) \<in> set saved)"
proof
  have d: "distinct (map zt_id (leaf_data zs))" unfolding assms(2) by (rule list_leaves_distinct [OF assms(1)])
  have s: "saved = map (\<lambda>n. zt_id (zdata n)) (filter (\<lambda>n. leaf_ids n \<inter> S \<noteq> {}) (subtrees zs))"
    unfolding assms(6) assms(5) by (rule checked_ids [OF assms(3) d assms(4)])
  show "saveAuth saved who = (join_with (js '','') (map (\<lambda>n. zt_id (zdata n)) (filter (\<lambda>n. leaf_ids n \<inter> S \<noteq> {}) (subtrees zs))), who)"
    by (simp add: saveAuth_def push_ids_append s)
  show "\<forall>t\<in>set (subtrees zs). \<forall>n\<in>set (zkids t). zt_id (zdata n) \<in> set saved \<longrightarrow> zt_id (zdata t) \<in> set saved"
  proof (intro ballI impI)
    fix t n assume t: "t \<in> set (subtrees zs)" and n: "n \<in> set (zkids t)" "zt_id (zdata n) \<in> set saved"
    have "\<exists>m\<in>set (subtrees zs). zt_id (zdata m) = zt_id (zdata n) \<and> leaf_ids m \<inter> S \<noteq> {}" if "P = (\<lambda>m. leaf_ids m \<inter> S \<noteq> {})" for P
      using n(2) unfolding s that [symmetric] by (auto simp: fun_cong [OF that, symmetric])
    then obtain m where m: "m \<in> set (subtrees zs)" "zt_id (zdata m) = zt_id (zdata n)" "leaf_ids m \<inter> S \<noteq> {}" by blast
    have "distinct (map (\<lambda>n. zt_id (zdata n)) (subtrees zs))" unfolding assms(2) by (rule list_tree_distinct [OF assms(1)])
    then have "inj_on (\<lambda>n. zt_id (zdata n)) (set (subtrees zs))" by (simp add: distinct_map)
    then have "m = n" using m(1,2) kid_subtree [OF t n(1)] by (simp add: inj_on_def)
    then show "zt_id (zdata t) \<in> set saved" using m(3) leaf_ids_kid [OF n(1)] t by (auto simp: s)
  qed
qed

theorem saved_permissions_witness:
  "saveAuth (map zt_id (getTreeCheckedNodes True (ztree_run auth_setting [CheckClick [0, 1], CheckClick [0, 0]]
      (zTree_init auth_setting (transformTozTreeFormat zt_id zt_parentKey
        [server_entry (js ''21'') (Some (js ''0'')) True True, server_entry (js ''22'') (Some (js ''21'')) False True,
         server_entry (js ''23'') (Some (js ''21'')) False False]))))) (js ''r1'') = (js ''21,23'', js ''r1'')"
proof -
  let ?xs = "[server_entry (js ''21'') (Some (js ''0'')) True True, server_entry (js ''22'') (Some (js ''21'')) False True,
         server_entry (js ''23'') (Some (js ''21'')) False False]"
  let ?zs = "[ZNode (server_entry (js ''21'') (Some (js ''0'')) True True) [ZNode (server_entry (js ''22'') (Some (js ''21'')) False True) [],
     ZNode (server_entry (js ''23'') (Some (js ''21'')) False False) []]]"
  let ?es = "[CheckClick [0, 1], CheckClick [0, 0]]"
  have d: "distinct (map zt_id ?xs)" by (simp add: server_entry_def js_def)
  have z: "?zs = transformTozTreeFormat zt_id zt_parentKey ?xs"
    by (simp add: transformTozTreeFormat_def server_entry_def zt_parentKey_def js_def Let_def eval_nat_numeral)
  have r: "list_all ready ?zs" by (simp add: server_entry_def plain_box_def)
  have e: "list_all together ?es" by simp
  have S: "{js ''23''} = fold (pick ?zs) ?es (chosen ?zs)"
    by (auto simp: chosen_def leaf_ids_def leaves_of_def server_entry_def js_def)
  show ?thesis
    using conjunct1 [OF saved_permissions [OF d z r e S refl, of "js ''r1''"]] unfolding z [symmetric]
    by (simp add: leaf_ids_def leaves_of_def server_entry_def js_def)
qed

end
